(* ===== verification/Lockless_Prelude.thy ===== *)
theory Lockless_Prelude
  imports Main "HOL-Library.Word"
begin

text \<open>
  Shared vocabulary of the development: the machine integer types of the C++ sources, the
  power-of-two check that \<^verbatim>\<open>RingBuffer\<close> and \<^verbatim>\<open>SPSCQueue\<close> make with \<^verbatim>\<open>static_assert\<close>,
  index masking, pointer-width signed subtraction, and the list, modulus and word lemmas that
  the component theories use. The collection \<open>unat_simps\<close> moves word arithmetic without
  wrap-around to \<open>nat\<close>; \<open>slot_simps\<close> is about ring slots \<open>k mod n\<close>.
\<close>

unbundle bit_operations_syntax

type_synonym size_t = "64 word"
type_synonym uint64 = "64 word"
type_synonym uint32 = "32 word"
type_synonym int64 = "64 word" \<comment> \<open>read with \<open>sint\<close>\<close>

named_theorems unat_simps \<open>unsigned words without wrap-around, read as natural numbers\<close>
named_theorems slot_simps \<open>ring slots and tickets\<close>

subsection \<open>Constants and checks of the sources\<close>

text \<open>\<^verbatim>\<open>common.hpp\<close>: the cache line size the padding is computed from.\<close>

definition CACHE_LINE_SIZE :: size_t where
  "CACHE_LINE_SIZE = 64"

abbreviation UINT32_MAX :: uint32 where "UINT32_MAX \<equiv> - 1"
abbreviation UINT64_MAX :: uint64 where "UINT64_MAX \<equiv> - 1"
abbreviation SIZE_MAX :: size_t where "SIZE_MAX \<equiv> - 1"

text \<open>\<^verbatim>\<open>static_assert((Size != 0) && ((Size & (Size - 1)) == 0))\<close>.\<close>

definition is_pow2 :: "size_t \<Rightarrow> bool" where
  "is_pow2 n \<longleftrightarrow> n \<noteq> 0 \<and> n AND (n - 1) = 0"

text \<open>
  \<^verbatim>\<open>(intptr_t)a - (intptr_t)b\<close>. Signed overflow is undefined in C++; \<open>None\<close> stands for it.
\<close>

definition intptr_sub :: "size_t \<Rightarrow> size_t \<Rightarrow> int option" where
  "intptr_sub a b =
     (let d = sint a - sint b in if - (2 ^ 63) \<le> d \<and> d < 2 ^ 63 then Some d else None)"

subsection \<open>Words as natural numbers\<close>

lemma unat_pow2 [unat_simps]:
  assumes "k < LENGTH('a::len)"
  shows "unat (2 ^ k :: 'a word) = 2 ^ k"
proof -
  have "(2 ^ k :: 'a word) = word_of_nat (2 ^ k)" by simp
  then show ?thesis using assms by (metis mod_less power_strict_increasing_iff one_less_numeral_iff semiring_norm(76) unat_of_nat)
qed

lemma unat_max_word [unat_simps]: "unat (- 1 :: 'a::len word) = 2 ^ LENGTH('a) - 1"
  by (simp add: unsigned_minus_1_eq_mask mask_eq_exp_minus_1)

lemma unat_plus_1 [unat_simps]:
  "unat x + 1 < 2 ^ LENGTH('a) \<Longrightarrow> unat (x + 1 :: 'a::len word) = unat x + 1"
  by (simp add: unat_word_ariths)

lemma unat_plus [unat_simps]:
  "unat x + unat y < 2 ^ LENGTH('a) \<Longrightarrow> unat (x + y :: 'a::len word) = unat x + unat y"
  by (simp add: unat_word_ariths)

lemma unat_less_64: "unat (x :: 64 word) < 2 ^ 64"
  using unsigned_less [of x] by simp

lemma unat_less_32: "unat (x :: 32 word) < 2 ^ 32"
  using unsigned_less [of x] by simp

lemma unat_ucast_32_64 [unat_simps]: "unat (ucast (x :: uint32) :: uint64) = unat x"
  using unat_less_32 [of x] by (simp add: unsigned_ucast_eq take_bit_nat_eq_self)

lemma unat_of_nat_32 [unat_simps]: "k < 2 ^ 32 \<Longrightarrow> unat (word_of_nat k :: uint32) = k"
  by (simp add: unat_of_nat)

lemma unat_and_mask:
  fixes h n :: "'a::len word"
  assumes "n = 2 ^ k" "k < LENGTH('a)"
  shows "unat (h AND (n - 1)) = unat h mod unat n"
proof -
  have "n - 1 = mask k" using assms by (simp add: mask_eq_exp_minus_1)
  then have "h AND (n - 1) = take_bit k h" by (simp add: take_bit_eq_mask)
  then have "unat (h AND (n - 1)) = take_bit k (unat h)" by (simp only: unsigned_take_bit_eq)
  then show ?thesis using assms by (simp add: take_bit_eq_mod unat_pow2)
qed

lemma uint_below:
  assumes "unat (x :: 64 word) < n"
  shows "uint x < int n"
  using assms by (metis of_nat_less_iff of_nat_unat)

lemma sint_plus_1: "sint (x :: 32 word) + 1 < 2 ^ 31 \<Longrightarrow> sint (x + 1) = sint x + 1"
  using sint_ge [of x] by (simp add: sint_word_ariths signed_take_bit_int_eq_self)

lemma sint_minus_1: "0 < sint (x :: 32 word) \<Longrightarrow> sint (x - 1) = sint x - 1"
  using sint_lt [of x] by (simp add: sint_word_ariths signed_take_bit_int_eq_self)

lemma sint_small: "unat (x :: 64 word) < 2 ^ 63 \<Longrightarrow> sint x = int (unat x)"
proof -
  assume "unat x < 2 ^ 63"
  then have "uint x < 2 ^ 63" using uint_below [of x "2 ^ 63"] by simp
  moreover have "- (2 ^ 63) \<le> uint x" by (rule order_trans [OF _ uint_ge_0]) simp
  ultimately show ?thesis by (simp add: sint_uint signed_take_bit_int_eq_self)
qed

text \<open>Signed subtraction of two counters below \<open>2 ^ 63\<close> is exact and never overflows.\<close>

lemma intptr_sub_small:
  assumes "unat a < 2 ^ 63" "unat b < 2 ^ 63"
  shows "intptr_sub a b = Some (int (unat a) - int (unat b))"
proof -
  have "- (2 ^ 63) \<le> int (unat a) - int (unat b)" "int (unat a) - int (unat b) < 2 ^ 63"
    using uint_below [OF assms(1)] uint_below [OF assms(2)] uint_ge_0 [of a] uint_ge_0 [of b]
    by (simp_all, linarith+)
  then show ?thesis
    unfolding intptr_sub_def Let_def sint_small [OF assms(1)] sint_small [OF assms(2)] by simp
qed

subsection \<open>Powers of two\<close>

lemma pow2_of_and_pred_nat:
  assumes "n > 0" "(n::nat) AND (n - 1) = 0"
  shows "\<exists>k. n = 2 ^ k"
  using assms
proof (induction n rule: less_induct)
  case (less n)
  show ?case
  proof (cases "even n")
    case True
    then obtain m where m: "n = 2 * m" by blast
    with less.prems have pos: "m > 0" by simp
    have "n - 1 = 2 * (m - 1) + 1" using m pos by simp
    moreover have "(2 * m) AND (2 * (m - 1) + 1) = 2 * (m AND (m - 1))"
      by (simp add: and_rec [of "2 * m"])
    ultimately have "m AND (m - 1) = 0" using less.prems m by simp
    with m pos obtain k where "m = 2 ^ k" using less.IH [of m] by auto
    then show ?thesis using m by (intro exI [of _ "Suc k"]) simp
  next
    case False
    then obtain m where m: "n = 2 * m + 1" by (auto elim: oddE)
    then have "n AND (n - 1) = 2 * (m AND m)" by (subst and_rec) simp
    then show ?thesis using less.prems m by (intro exI [of _ 0]) simp
  qed
qed

lemma is_pow2_iff: "is_pow2 n \<longleftrightarrow> (\<exists>k<64. n = 2 ^ k)"
proof
  assume a: "is_pow2 n"
  then have nz: "unat n > 0" by (simp add: is_pow2_def unat_gt_0)
  have "unat (n - 1) = unat n - 1" using a by (simp add: is_pow2_def unat_minus_one)
  then have "unat n AND (unat n - 1) = 0"
    using a by (metis is_pow2_def unsigned_and_eq unsigned_0)
  from pow2_of_and_pred_nat [OF nz this] obtain k where k: "unat n = 2 ^ k" by blast
  have "(2::nat) ^ k < 2 ^ 64" using k unat_less_64 [of n] by simp
  then have "k < 64" by (rule power_less_imp_less_exp [rotated]) simp
  moreover from this have "n = 2 ^ k" using k by (simp add: word_unat_eq_iff unat_pow2)
  ultimately show "\<exists>k<64. n = 2 ^ k" by blast
next
  assume "\<exists>k<64. n = 2 ^ k"
  then obtain k where k: "k < 64" "n = 2 ^ k" by blast
  have "unat (n AND (n - 1)) = unat n mod unat n" by (rule unat_and_mask) (use k in auto)
  then have "n AND (n - 1) = 0" by (simp add: unat_eq_zero)
  moreover have "unat n = 2 ^ k" using k by (simp add: unat_pow2)
  then have "n \<noteq> 0" by (metis power_not_zero unsigned_0 zero_neq_numeral)
  ultimately show "is_pow2 n" by (simp add: is_pow2_def)
qed

lemma is_pow2_pos: "is_pow2 n \<Longrightarrow> 0 < unat n"
  by (simp add: is_pow2_def unat_gt_0)

lemma is_pow2_mask [slot_simps]: "is_pow2 n \<Longrightarrow> unat (h AND (n - 1)) = unat h mod unat n"
  by (auto simp: is_pow2_iff intro: unat_and_mask)

lemma unat_minus_1: "n \<noteq> 0 \<Longrightarrow> unat (n - 1) = unat n - 1"
  by (simp add: unat_minus_one)

subsection \<open>Tickets and slots\<close>

text \<open>
  Tickets are consecutive natural numbers and ticket \<open>k\<close> lives in slot \<open>k mod n\<close>. Two tickets
  of a window of length at most \<open>n\<close> share a slot only if they are equal.
\<close>

lemma mod_window_inj:
  fixes k l a n :: nat
  assumes "k mod n = l mod n" "a \<le> k" "k < a + n" "a \<le> l" "l < a + n"
  shows "k = l"
proof -
  have "int k mod int n = int l mod int n" using assms(1) by (simp flip: zmod_int)
  then have "int n dvd int k - int l" by (rule mod_eq_dvd_iff [THEN iffD1])
  moreover have "\<bar>int k - int l\<bar> < int n" using assms by linarith
  ultimately show ?thesis by (metis abs_of_nat dvd_imp_le_int not_le right_minus_eq of_nat_eq_iff)
qed

lemma mod_eq_gap:
  fixes k l n :: nat
  assumes "k mod n = l mod n" "k < l"
  shows "k + n \<le> l"
  using mod_window_inj [OF assms(1), of k] assms(2) by (metis less_imp_le linorder_not_le less_irrefl le_add1 le_less_trans le_refl)

lemma window_cover:
  fixes i a n :: nat
  assumes "i < n"
  obtains k where "a \<le> k" "k < a + n" "k mod n = i"
proof -
  define k where "k = a + (i + (n - a mod n)) mod n"
  have n: "0 < n" using assms by simp
  have "k mod n = (a mod n + (i + (n - a mod n))) mod n"
    by (simp add: k_def mod_simps)
  also have "a mod n + (i + (n - a mod n)) = i + n"
    using mod_less_divisor [OF n, of a] by linarith
  finally have "k mod n = i" using assms by simp
  moreover have "a \<le> k" "k < a + n" using n by (auto simp: k_def)
  ultimately show thesis using that by blast
qed

lemma list_update_mod_eq [slot_simps]:
  "k mod n < length xs \<Longrightarrow> xs[k mod n := v] ! (l mod n) = (if k mod n = l mod n then v else xs ! (l mod n))"
  by (simp add: nth_list_update)

lemma upt_window_snoc: "a \<le> b \<Longrightarrow> map f [a..<Suc b] = map f [a..<b] @ [f b]"
  by simp

lemma upt_window_cons: "a < b \<Longrightarrow> map f [a..<b] = f a # map f [Suc a..<b]"
  by (simp add: upt_conv_Cons)

end
