(* ===== verification/Ticket_Ring.thy ===== *)
theory Ticket_Ring
  imports Lockless_Prelude
begin

text \<open>
  The combinatorics behind Vyukov's bounded queue, on natural numbers: what the sequence
  numbers of the slots say about the tickets producers and consumers hold. \<open>H\<close> is the number of
  tickets handed to producers, \<open>T\<close> the number handed to consumers, \<open>en\<close> the items in ticket
  order, \<open>P\<close> the tickets whose producer has not published its slot yet and \<open>Q\<close> the tickets
  whose consumer has not released its slot yet. The lemmas say how one access of the algorithm
  moves such a state, and what an observed sequence number implies. \<open>Ring_Buffer_Conc\<close> applies
  them to the machine words of \<^verbatim>\<open>ring_buffer.hpp\<close>.
\<close>

definition ticket_ring ::
  "nat \<Rightarrow> nat \<Rightarrow> nat \<Rightarrow> nat list \<Rightarrow> 'a list \<Rightarrow> 'a list \<Rightarrow> nat set \<Rightarrow> nat set \<Rightarrow> bool" where
  "ticket_ring N H T sq bf en P Q \<longleftrightarrow>
     2 \<le> N \<and> length sq = N \<and> length bf = N \<and> length en = H \<and> T \<le> H \<and> H \<le> T + N \<and>
     (\<forall>k\<in>P. T \<le> k \<and> k < H) \<and> (\<forall>k\<in>Q. k < T \<and> H \<le> k + N) \<and>
     (\<forall>k. T \<le> k \<and> k < H \<longrightarrow> sq ! (k mod N) = (if k \<in> P then k else k + 1)) \<and>
     (\<forall>k. T \<le> k \<and> k < H \<and> k \<notin> P \<longrightarrow> bf ! (k mod N) = en ! k) \<and>
     (\<forall>k. H \<le> k \<and> k < T + N \<longrightarrow>
        sq ! (k mod N) = (if N \<le> k \<and> k - N \<in> Q then k - N + 1 else k))"

lemma ticket_ringD:
  assumes "ticket_ring N H T sq bf en P Q"
  shows "2 \<le> N" "length sq = N" "length bf = N" "length en = H" "T \<le> H" "H \<le> T + N"
    and "\<And>k. k \<in> P \<Longrightarrow> T \<le> k \<and> k < H" and "\<And>k. k \<in> Q \<Longrightarrow> k < T \<and> H \<le> k + N"
    and "\<And>k. T \<le> k \<Longrightarrow> k < H \<Longrightarrow> sq ! (k mod N) = (if k \<in> P then k else k + 1)"
    and "\<And>k. T \<le> k \<Longrightarrow> k < H \<Longrightarrow> k \<notin> P \<Longrightarrow> bf ! (k mod N) = en ! k"
    and "\<And>k. H \<le> k \<Longrightarrow> k < T + N \<Longrightarrow>
           sq ! (k mod N) = (if N \<le> k \<and> k - N \<in> Q then k - N + 1 else k)"
  using assms unfolding ticket_ring_def by blast+

lemma ticket_ring_init:
  "2 \<le> N \<Longrightarrow> length bf = N \<Longrightarrow> ticket_ring N 0 0 [0..<N] bf [] {} {}"
  by (auto simp: ticket_ring_def)

text \<open>With no ticket in flight the buffer holds the queued items in ticket order.\<close>

lemma ring_quiet_contents:
  assumes r: "ticket_ring N H T sq bf en {} Q"
  shows "map (\<lambda>k. bf ! (k mod N)) [T..<H] = drop T en"
proof (rule nth_equalityI)
  show "length (map (\<lambda>k. bf ! (k mod N)) [T..<H]) = length (drop T en)"
    using ticket_ringD(4) [OF r] by simp
  show "map (\<lambda>k. bf ! (k mod N)) [T..<H] ! i = drop T en ! i"
    if "i < length (map (\<lambda>k. bf ! (k mod N)) [T..<H])" for i
    using ticket_ringD(4,5) [OF r] ticket_ringD(10) [OF r, of "T + i"] that by simp
qed

subsection \<open>The slot of a ticket in flight\<close>

lemma ring_slot_Q:
  assumes r: "ticket_ring N H T sq bf en P Q" and k: "k \<in> Q"
  shows "sq ! (k mod N) = k + 1"
proof -
  have "k < T" "H \<le> k + N" using ticket_ringD(8) [OF r k] by auto
  then have "sq ! ((k + N) mod N) = k + 1" using ticket_ringD(11) [OF r, of "k + N"] k by simp
  then show ?thesis by simp
qed

text \<open>Tickets in use at the same time occupy different slots.\<close>

lemma ring_slots_distinct:
  assumes r: "ticket_ring N H T sq bf en P Q"
    and "k \<in> P \<union> Q \<or> T \<le> k \<and> k < H" "l \<in> P \<union> Q \<or> T \<le> l \<and> l < H" "k mod N = l mod N"
  shows "k = l"
proof -
  have b: "k \<in> P \<union> Q \<or> T \<le> k \<and> k < H \<Longrightarrow> k < H \<and> H \<le> k + N" for k
    using ticket_ringD(5-8) [OF r] by fastforce
  have "k < H" "H \<le> k + N" "l < H" "H \<le> l + N" using b assms(2,3) by auto
  then show ?thesis
    using mod_window_inj [of k N l "min k l"] assms(4) by (cases "k \<le> l") (auto simp: min_def)
qed

subsection \<open>Moves\<close>

lemma ring_take_push:
  assumes r: "ticket_ring N H T sq bf en P Q" and "H < T + N" "\<not> (N \<le> H \<and> H - N \<in> Q)"
  shows "ticket_ring N (H + 1) T sq bf (en @ [x]) (insert H P) Q"
proof -
  have Q: "H + 1 \<le> k + N" if "k \<in> Q" for k
  proof -
    have "H \<le> k + N" "H \<noteq> k + N" using ticket_ringD(8) [OF r that] assms(3) that by auto
    then show ?thesis by simp
  qed
  have HP: "H \<notin> P" using ticket_ringD(7) [OF r] by blast
  show ?thesis
    unfolding ticket_ring_def
    using ticket_ringD [OF r] assms(2,3) Q HP
    by (intro conjI allI impI ballI) (auto simp: nth_append less_Suc_eq)
qed

lemma ring_write:
  assumes r: "ticket_ring N H T sq bf en P Q" and "k \<in> P"
  shows "ticket_ring N H T sq (bf[k mod N := v]) en P Q"
proof -
  have "bf[k mod N := v] ! (l mod N) = en ! l" if "T \<le> l" "l < H" "l \<notin> P" for l
  proof -
    have "k mod N \<noteq> l mod N"
      using ring_slots_distinct [OF r, of k l] that assms(2) by auto
    then show ?thesis using ticket_ringD(10) [OF r] that by simp
  qed
  then show ?thesis using r by (auto simp: ticket_ring_def)
qed

lemma ring_publish_push:
  assumes r: "ticket_ring N H T sq bf en P Q" and k: "k \<in> P" and b: "bf ! (k mod N) = en ! k"
  shows "ticket_ring N H T (sq[k mod N := k + 1]) bf en (P - {k}) Q"
proof -
  have N: "k mod N < length sq" and Tk: "T \<le> k" "k < H"
    using ticket_ringD(1,2) [OF r] ticket_ringD(7) [OF r k] by auto
  have in1: "sq[k mod N := k + 1] ! (l mod N) = (if l \<in> P - {k} then l else l + 1)"
    if "T \<le> l" "l < H" for l
    using ring_slots_distinct [OF r, of k l] that k N ticket_ringD(9) [OF r that]
    by (auto simp: nth_list_update)
  have in2: "sq[k mod N := k + 1] ! (l mod N) = (if N \<le> l \<and> l - N \<in> Q then l - N + 1 else l)"
    if "H \<le> l" "l < T + N" for l
  proof -
    have "k mod N \<noteq> l mod N"
      using mod_window_inj [of k N l T] that Tk ticket_ringD(6) [OF r] by auto
    then show ?thesis using ticket_ringD(11) [OF r that] by simp
  qed
  show ?thesis
    unfolding ticket_ring_def using ticket_ringD(1-8,10) [OF r] in1 in2 b by auto
qed

lemma ring_take_pop:
  assumes r: "ticket_ring N H T sq bf en P Q" and "T < H" "T \<notin> P"
  shows "ticket_ring N H (T + 1) sq bf en P (insert T Q)"
proof -
  have s: "sq ! (T mod N) = T + 1" using ticket_ringD(9) [OF r, of T] assms by simp
  have P: "T + 1 \<le> k" if "k \<in> P" for k
  proof -
    have "T \<le> k" "T \<noteq> k" using ticket_ringD(7) [OF r that] assms(3) that by auto
    then show ?thesis by simp
  qed
  have in2: "sq ! (k mod N) = (if N \<le> k \<and> k - N \<in> insert T Q then k - N + 1 else k)"
    if "H \<le> k" "k < T + 1 + N" for k
  proof (cases "k = T + N")
    case True
    then show ?thesis using s by simp
  next
    case False
    then have "k < T + N" using that by simp
    moreover from this have "\<not> (N \<le> k \<and> k - N = T)" by auto
    ultimately show ?thesis using ticket_ringD(11) [OF r that(1)] by auto
  qed
  have Q: "k < T + 1 \<and> H \<le> k + N" if "k \<in> insert T Q" for k
    using that ticket_ringD(6,8) [OF r] by fastforce
  moreover have "H \<le> T + 1 + N" using ticket_ringD(6) [OF r] by simp
  ultimately show ?thesis
    unfolding ticket_ring_def using ticket_ringD(1-4,7,9,10) [OF r] in2 P assms(2)
    by (intro conjI allI impI ballI) auto
qed

lemma ring_publish_pop:
  assumes r: "ticket_ring N H T sq bf en P Q" and k: "k \<in> Q"
  shows "ticket_ring N H T (sq[k mod N := k + N]) bf en P (Q - {k})"
proof -
  have N: "k mod N < length sq" and kT: "k < T" "H \<le> k + N"
    using ticket_ringD(1,2) [OF r] ticket_ringD(8) [OF r k] by auto
  have in1: "sq[k mod N := k + N] ! (l mod N) = (if l \<in> P then l else l + 1)"
    if "T \<le> l" "l < H" for l
    using ring_slots_distinct [OF r, of k l] that k N kT ticket_ringD(9) [OF r that]
    by (auto simp: nth_list_update)
  have in2: "sq[k mod N := k + N] ! (l mod N) =
      (if N \<le> l \<and> l - N \<in> Q - {k} then l - N + 1 else l)"
    if "H \<le> l" "l < T + N" for l
  proof (cases "l = k + N")
    case True
    then show ?thesis using N by simp
  next
    case False
    have "(k + N) mod N \<noteq> l mod N"
      using mod_window_inj [of "k + N" N l H] that kT ticket_ringD(5) [OF r] False by linarith
    moreover have "N \<le> l \<Longrightarrow> l - N \<noteq> k" using False by auto
    ultimately show ?thesis using ticket_ringD(11) [OF r that] by simp
  qed
  show ?thesis
    unfolding ticket_ring_def using ticket_ringD(1-8,10) [OF r] in1 in2 by auto
qed

subsection \<open>What a sequence number tells\<close>

text \<open>A producer that holds a possibly outdated head \<open>h \<le> H\<close> and reads the slot of \<open>h\<close>.\<close>

lemma ring_seq_ge_stale:
  assumes r: "ticket_ring N H T sq bf en P Q" and "h < H"
  shows "h \<le> sq ! (h mod N)"
proof -
  have "0 < N" using ticket_ringD(1) [OF r] by simp
  then obtain k where k: "T \<le> k" "k < T + N" "k mod N = h mod N"
    using window_cover [of "h mod N" N T] by auto
  have cong: "h + N \<le> k \<or> h = k \<or> k + N \<le> h"
    using mod_eq_gap [of h N k] mod_eq_gap [of k N h] k(3) by linarith
  show ?thesis
  proof (cases "k < H")
    case True
    then have "h \<le> k" using cong k assms(2) ticket_ringD(6) [OF r] by linarith
    then show ?thesis using ticket_ringD(9) [OF r k(1) True] k(3) by (simp split: if_splits)
  next
    case False
    then have "h + N \<le> k" using cong assms(2) by linarith
    then show ?thesis using ticket_ringD(11) [OF r _ k(2)] False k(3) by (simp split: if_splits)
  qed
qed

lemma ring_push_free:
  assumes r: "ticket_ring N H T sq bf en P Q" and "sq ! (H mod N) = H"
  shows "H < T + N \<and> \<not> (N \<le> H \<and> H - N \<in> Q)"
proof (cases "H < T + N")
  case True
  then show ?thesis
    using ticket_ringD(11) [OF r, of H] ticket_ringD(1) [OF r] assms(2) by (auto split: if_splits)
next
  case False
  then have "H = T + N" using ticket_ringD(6) [OF r] by simp
  then have "sq ! (H mod N) \<le> T + 1"
    using ticket_ringD(9) [OF r, of T] ticket_ringD(1) [OF r] by (simp split: if_splits)
  then show ?thesis using assms(2) \<open>H = T + N\<close> ticket_ringD(1) [OF r] by simp
qed

lemma ring_push_full:
  assumes r: "ticket_ring N H T sq bf en P Q" and "sq ! (H mod N) < H"
  shows "H = T + N \<or> N \<le> H \<and> H - N \<in> Q"
  using ticket_ringD(11) [OF r, of H] ticket_ringD(6) [OF r] assms(2)
  by (cases "H = T + N") (auto split: if_splits)

lemma ring_seq_le_head:
  assumes r: "ticket_ring N H T sq bf en P Q"
  shows "sq ! (H mod N) \<le> H"
proof (cases "H < T + N")
  case True
  then show ?thesis
    using ticket_ringD(11) [OF r, of H] ticket_ringD(1) [OF r] by (auto split: if_splits)
next
  case False
  then have "H = T + N" using ticket_ringD(6) [OF r] by simp
  then show ?thesis
    using ticket_ringD(9) [OF r, of T] ticket_ringD(1) [OF r] by (simp split: if_splits)
qed

text \<open>A consumer that holds a possibly outdated tail \<open>t \<le> T\<close> and reads the slot of \<open>t\<close>.\<close>

lemma ring_seq_gt_stale:
  assumes r: "ticket_ring N H T sq bf en P Q" and "t < T"
  shows "t + 1 \<le> sq ! (t mod N)"
proof -
  have "0 < N" using ticket_ringD(1) [OF r] by simp
  then obtain k where k: "T \<le> k" "k < T + N" "k mod N = t mod N"
    using window_cover [of "t mod N" N T] by auto
  have "t + N \<le> k"
    using mod_eq_gap [of t N k] k assms(2) by simp
  then show ?thesis
    using ticket_ringD(9) [OF r k(1)] ticket_ringD(11) [OF r _ k(2)] k(3) \<open>0 < N\<close>
    by (cases "k < H") (auto split: if_splits)
qed

lemma ring_pop_ready:
  assumes r: "ticket_ring N H T sq bf en P Q" and "sq ! (T mod N) = T + 1"
  shows "T < H \<and> T \<notin> P"
proof (cases "T < H")
  case True
  then have "T \<notin> P" using ticket_ringD(9) [OF r order_refl True] assms(2) by force
  with True show ?thesis by simp
next
  case False
  then have "sq ! (T mod N) \<le> T"
    using ticket_ringD(11) [OF r, of T] ticket_ringD(1,5) [OF r] by (auto split: if_splits)
  then show ?thesis using assms(2) by simp
qed

lemma ring_pop_empty:
  assumes r: "ticket_ring N H T sq bf en P Q" and "sq ! (T mod N) < T + 1"
  shows "T = H \<or> T \<in> P"
  using ticket_ringD(9) [OF r, of T] ticket_ringD(5) [OF r] assms(2)
  by (cases "T = H") (auto split: if_splits)

lemma ring_seq_le_tail:
  assumes r: "ticket_ring N H T sq bf en P Q"
  shows "sq ! (T mod N) \<le> T + 1"
proof (cases "T < H")
  case True
  then show ?thesis using ticket_ringD(9) [OF r, of T] by simp
next
  case False
  then show ?thesis
    using ticket_ringD(11) [OF r, of T] ticket_ringD(1,5) [OF r] by (auto split: if_splits)
qed

text \<open>Every sequence number is bounded by the tickets handed out and the ring size.\<close>

lemma ring_seq_bound:
  assumes r: "ticket_ring N H T sq bf en P Q" and "i < N"
  shows "sq ! i \<le> H + N"
proof -
  obtain k where k: "T \<le> k" "k < T + N" "k mod N = i"
    using window_cover [OF assms(2), of T] by auto
  then show ?thesis
    using ticket_ringD(9) [OF r k(1)] ticket_ringD(11) [OF r _ k(2)] ticket_ringD(5) [OF r]
    by (cases "k < H") (auto split: if_splits)
qed

end
