(* ===== verification/Queue_Contract.thy ===== *)
theory Queue_Contract
  imports Lockless_Prelude "HOL-Library.Extended_Nat"
begin

text \<open>
  What the clients of a queue (batch operations, the order book, the message queue) rely on.
  An operation returns \<open>None\<close> if it does not return at all (an unbounded retry loop, or
  undefined behaviour), otherwise the Boolean or the value the C++ function hands back and the
  queue afterwards. \<open>room\<close> is the number of further pushes before an internal counter leaves
  the range in which the code is exact; it is infinite where there is no such counter.
  \<open>RingBuffer\<close> and \<open>SPSCQueue\<close> are both instances, see \<open>Ring_Buffer\<close> and \<open>SPSC_Queue\<close>.
\<close>

locale bounded_queue =
  fixes push :: "'q \<Rightarrow> 'a \<Rightarrow> (bool \<times> 'q) option"
    and pop :: "'q \<Rightarrow> ('a option \<times> 'q) option"
    and invar :: "'q \<Rightarrow> bool"
    and contents :: "'q \<Rightarrow> 'a list"
    and cap :: "'q \<Rightarrow> nat"
    and room :: "'q \<Rightarrow> enat"
  assumes contents_le: "invar q \<Longrightarrow> length (contents q) \<le> cap q"
    and push_ok: "invar q \<Longrightarrow> 0 < room q \<Longrightarrow> length (contents q) < cap q \<Longrightarrow>
          \<exists>q'. push q x = Some (True, q') \<and> invar q' \<and> contents q' = contents q @ [x] \<and>
               cap q' = cap q \<and> room q \<le> eSuc (room q')"
    and push_full: "invar q \<Longrightarrow> length (contents q) = cap q \<Longrightarrow> push q x = Some (False, q)"
    and pop_ok: "invar q \<Longrightarrow> contents q = x # xs \<Longrightarrow>
          \<exists>q'. pop q = Some (Some x, q') \<and> invar q' \<and> contents q' = xs \<and>
               cap q' = cap q \<and> room q' = room q"
    and pop_empty: "invar q \<Longrightarrow> contents q = [] \<Longrightarrow> pop q = Some (None, q)"
begin

text \<open>Both operations return, whatever the fill level.\<close>

lemma push_total:
  assumes "invar q" "0 < room q"
  shows "\<exists>b q'. push q x = Some (b, q') \<and> invar q' \<and> cap q' = cap q \<and>
           (b \<longleftrightarrow> length (contents q) < cap q) \<and>
           contents q' = (if b then contents q @ [x] else contents q)"
proof (cases "length (contents q) < cap q")
  case True
  then show ?thesis using push_ok [OF assms] by fastforce
next
  case False
  then have "length (contents q) = cap q" using contents_le [OF assms(1)] by simp
  then show ?thesis using push_full [OF assms(1)] assms(1) by auto
qed

lemma push_room:
  assumes "invar q" "0 < room q" "push q x = Some (b, q')"
  shows "room q \<le> eSuc (room q')"
proof (cases "length (contents q) < cap q")
  case True
  then show ?thesis using push_ok [OF assms(1,2) True, of x] assms(3) by auto
next
  case False
  then have "length (contents q) = cap q" using contents_le [OF assms(1)] by simp
  then show ?thesis using push_full [OF assms(1), of x] assms(3) by (simp add: ile_eSuc)
qed

lemma pop_total:
  assumes "invar q"
  shows "\<exists>q'. pop q = Some (case contents q of [] \<Rightarrow> None | x # _ \<Rightarrow> Some x, q') \<and>
           invar q' \<and> contents q' = tl (contents q) \<and> cap q' = cap q \<and> room q' = room q"
  using pop_ok [OF assms] pop_empty [OF assms] assms by (cases "contents q") fastforce+

text \<open>First in, first out: what is pushed into an empty queue is what the next pop returns.\<close>

lemma push_pop_roundtrip:
  assumes "invar q" "0 < room q" "0 < cap q" "contents q = []"
  shows "\<exists>q' q''. push q x = Some (True, q') \<and> pop q' = Some (Some x, q'') \<and> contents q'' = []"
  using push_ok [OF assms(1,2)] assms(3,4) pop_ok by fastforce

end

text \<open>
  Batch operations, as the recursion that the counting loops of the sources unfold to: stop at
  the first push (pop) that reports failure and return how many succeeded (which items came).
\<close>

locale batched_queue = bounded_queue +
  fixes push_batch :: "'q \<Rightarrow> 'a list \<Rightarrow> (nat \<times> 'q) option"
    and pop_batch :: "'q \<Rightarrow> nat \<Rightarrow> ('a list \<times> 'q) option"
  assumes push_batch_Nil: "push_batch q [] = Some (0, q)"
    and push_batch_Cons: "push_batch q (x # xs) = (case push q x of
           None \<Rightarrow> None
         | Some (b, q') \<Rightarrow> if b then map_option (\<lambda>(n, q''). (Suc n, q'')) (push_batch q' xs)
                          else Some (0, q'))"
    and pop_batch_0: "pop_batch q 0 = Some ([], q)"
    and pop_batch_Suc: "pop_batch q (Suc n) = (case pop q of
           None \<Rightarrow> None
         | Some (None, q') \<Rightarrow> Some ([], q')
         | Some (Some x, q') \<Rightarrow> map_option (\<lambda>(ys, q''). (x # ys, q'')) (pop_batch q' n))"
begin

lemma push_batch_spec:
  assumes "invar q" "enat (length xs) \<le> room q"
  shows "\<exists>q'. push_batch q xs = Some (min (length xs) (cap q - length (contents q)), q') \<and>
           invar q' \<and> cap q' = cap q \<and>
           contents q' = contents q @ take (cap q - length (contents q)) xs"
  using assms
proof (induction xs arbitrary: q)
  case Nil
  then show ?case by (simp add: push_batch_Nil)
next
  case (Cons x xs)
  have room: "0 < room q" using Cons.prems(2) by (cases "room q") (auto simp: zero_enat_def)
  show ?case
  proof (cases "length (contents q) < cap q")
    case True
    then obtain q' where q': "push q x = Some (True, q')" "invar q'" "contents q' = contents q @ [x]"
      "cap q' = cap q" "room q \<le> eSuc (room q')"
      using push_ok [OF Cons.prems(1) room] by blast
    have "eSuc (enat (length xs)) \<le> eSuc (room q')"
      using Cons.prems(2) q'(5) by (simp add: eSuc_enat)
    then have "enat (length xs) \<le> room q'" by simp
    from Cons.IH [OF q'(2) this] q' True show ?thesis
      by (auto simp: push_batch_Cons Suc_diff_Suc take_Cons' diff_Suc split: nat.splits)
  next
    case False
    then have "push q x = Some (False, q)"
      using contents_le [OF Cons.prems(1)] by (intro push_full Cons.prems) simp
    with False Cons.prems(1) show ?thesis by (simp add: push_batch_Cons)
  qed
qed

lemma pop_batch_spec:
  assumes "invar q"
  shows "\<exists>q'. pop_batch q n = Some (take n (contents q), q') \<and> invar q' \<and> cap q' = cap q \<and>
           room q' = room q \<and> contents q' = drop n (contents q)"
  using assms
proof (induction n arbitrary: q)
  case 0
  then show ?case by (simp add: pop_batch_0)
next
  case (Suc n)
  show ?case
  proof (cases "contents q")
    case Nil
    then show ?thesis using pop_empty [OF Suc.prems] Suc.prems by (simp add: pop_batch_Suc)
  next
    case (Cons x xs)
    then obtain q' where "pop q = Some (Some x, q')" "invar q'" "contents q' = xs"
      "cap q' = cap q" "room q' = room q"
      using pop_ok [OF Suc.prems] by blast
    with Suc.IH [of q'] Cons show ?thesis by (auto simp: pop_batch_Suc)
  qed
qed

text \<open>A batch pushed into an empty queue that has space for it comes back unchanged.\<close>

lemma batch_roundtrip:
  assumes "invar q" "contents q = []" "length xs \<le> cap q" "enat (length xs) \<le> room q"
  shows "\<exists>q' q''. push_batch q xs = Some (length xs, q') \<and>
           pop_batch q' (length xs) = Some (xs, q'') \<and> contents q'' = []"
proof -
  obtain q' where "push_batch q xs = Some (length xs, q')" "invar q'" "contents q' = xs"
    using push_batch_spec [OF assms(1,4)] assms(2,3) by (auto simp: min_def)
  then show ?thesis using pop_batch_spec [of q' "length xs"] by auto
qed

end

subsection \<open>The atomic bounded queue\<close>

text \<open>
  The specification of the concurrent queues, as operations on a pair of a capacity and the queued items: an item is
  appended below capacity, the oldest item is removed and returned. Both operations may also fail and leave the
  queue as it is; when they do is a separate question, since an operation that is under way in
  another thread, or not yet observed, can make a queue look full or empty.
\<close>

datatype 'a queue_op = Enqueue 'a | Dequeue

datatype 'a queue_res = Enqueued bool | Dequeued "'a option"

inductive queue_spec :: "nat \<times> 'a list \<Rightarrow> 'a queue_op \<Rightarrow> 'a queue_res \<Rightarrow> nat \<times> 'a list \<Rightarrow> bool" where
  enqueue: "length q < n \<Longrightarrow> queue_spec (n, q) (Enqueue x) (Enqueued True) (n, q @ [x])"
| enqueue_fails: "queue_spec (n, q) (Enqueue x) (Enqueued False) (n, q)"
| dequeue: "queue_spec (n, x # q) Dequeue (Dequeued (Some x)) (n, q)"
| dequeue_fails: "queue_spec (n, q) Dequeue (Dequeued None) (n, q)"

lemma queue_spec_enq_drop:
  "T \<le> length en \<Longrightarrow> length en < T + n \<Longrightarrow> queue_spec (n, drop T en) (Enqueue x) (Enqueued True) (n, drop T (en @ [x]))"
  by (auto intro!: queue_spec.enqueue)

lemma queue_spec_deq_drop:
  "T < length en \<Longrightarrow> queue_spec (n, drop T en) Dequeue (Dequeued (Some (en ! T))) (n, drop (Suc T) en)"
  by (auto simp: Cons_nth_drop_Suc [symmetric] intro: queue_spec.dequeue)

end
