(* ===== verification/Ring_Buffer.thy ===== *)
theory Ring_Buffer
  imports Ticket_Ring Queue_Contract
begin

text \<open>
  \<^verbatim>\<open>include/lockless/ring_buffer.hpp\<close>, run by one thread: the class state, the constructor,
  the two operations with their retry loops and the batch operations. The retry loops are
  \<^theory_text>\<open>partial_function (option)\<close>: \<open>None\<close> is a loop that never returns, or signed overflow in the
  sequence comparison. \<open>rb_queue\<close> shows that the class implements the queue contract, so every
  operation returns and the queue is first-in first-out; the interleaved executions are in
  \<open>Ring_Buffer_Conc\<close>. The last section is about rings of one slot, which the \<^verbatim>\<open>static_assert\<close>
  accepts.

  The template parameter \<^verbatim>\<open>Size\<close> is the field \<open>rb_size\<close>, which no operation writes. A move
  (\<^verbatim>\<open>std::move\<close>) out of a slot is a copy: every element type of the repository is trivially
  copyable, so the two overloads of \<^verbatim>\<open>try_push\<close> are one definition.
\<close>

record 'a ring_buffer =
  rb_size :: size_t
  rb_sequences :: "size_t list"
  rb_buffer :: "'a list"
  rb_head :: size_t
  rb_tail :: size_t

definition rb_mask :: "'a ring_buffer \<Rightarrow> size_t" where
  "rb_mask rb = rb_size rb - 1"

text \<open>The constructor; \<open>d\<close> is the value a default-constructed \<^verbatim>\<open>T\<close> has.\<close>

definition rb_new :: "size_t \<Rightarrow> 'a \<Rightarrow> 'a ring_buffer" where
  "rb_new sz d = \<lparr>rb_size = sz, rb_sequences = map word_of_nat [0..<unat sz],
     rb_buffer = replicate (unat sz) d, rb_head = 0, rb_tail = 0\<rparr>"

definition rb_index :: "'a ring_buffer \<Rightarrow> size_t \<Rightarrow> nat" where
  "rb_index rb pos = unat (pos AND rb_mask rb)"

definition rb_seq_at :: "'a ring_buffer \<Rightarrow> size_t \<Rightarrow> size_t" where
  "rb_seq_at rb pos = rb_sequences rb ! rb_index rb pos"

text \<open>The three writes of a successful push and of a successful pop.\<close>

definition rb_publish :: "'a ring_buffer \<Rightarrow> size_t \<Rightarrow> size_t \<Rightarrow> 'a ring_buffer" where
  "rb_publish rb pos seq = rb\<lparr>rb_sequences := (rb_sequences rb)[rb_index rb pos := seq]\<rparr>"

definition rb_write :: "'a ring_buffer \<Rightarrow> size_t \<Rightarrow> 'a \<Rightarrow> 'a ring_buffer" where
  "rb_write rb pos item = rb\<lparr>rb_buffer := (rb_buffer rb)[rb_index rb pos := item]\<rparr>"

partial_function (option) rb_push_loop ::
  "'a ring_buffer \<Rightarrow> 'a \<Rightarrow> size_t \<Rightarrow> (bool \<times> 'a ring_buffer) option" where
  "rb_push_loop rb item head =
     (case intptr_sub (rb_seq_at rb head) head of
        None \<Rightarrow> None
      | Some diff \<Rightarrow>
          if diff = 0 then
            (if rb_head rb = head
             then Some (True, rb_publish (rb_write (rb\<lparr>rb_head := head + 1\<rparr>) head item) head (head + 1))
             else rb_push_loop rb item (rb_head rb))
          else if diff < 0 then Some (False, rb)
          else rb_push_loop rb item (rb_head rb))"

definition rb_try_push :: "'a ring_buffer \<Rightarrow> 'a \<Rightarrow> (bool \<times> 'a ring_buffer) option" where
  "rb_try_push rb item = rb_push_loop rb item (rb_head rb)"

partial_function (option) rb_pop_loop ::
  "'a ring_buffer \<Rightarrow> size_t \<Rightarrow> ('a option \<times> 'a ring_buffer) option" where
  "rb_pop_loop rb tail =
     (case intptr_sub (rb_seq_at rb tail) (tail + 1) of
        None \<Rightarrow> None
      | Some diff \<Rightarrow>
          if diff = 0 then
            (if rb_tail rb = tail
             then Some (Some (rb_buffer rb ! rb_index rb tail),
                        rb_publish (rb\<lparr>rb_tail := tail + 1\<rparr>) tail (tail + rb_mask rb + 1))
             else rb_pop_loop rb (rb_tail rb))
          else if diff < 0 then Some (None, rb)
          else rb_pop_loop rb (rb_tail rb))"

definition rb_try_pop :: "'a ring_buffer \<Rightarrow> ('a option \<times> 'a ring_buffer) option" where
  "rb_try_pop rb = rb_pop_loop rb (rb_tail rb)"

fun rb_try_push_batch :: "'a ring_buffer \<Rightarrow> 'a list \<Rightarrow> (nat \<times> 'a ring_buffer) option" where
  "rb_try_push_batch rb [] = Some (0, rb)"
| "rb_try_push_batch rb (item # items) =
     (case rb_try_push rb item of
        None \<Rightarrow> None
      | Some (ok, rb') \<Rightarrow>
          if ok then map_option (\<lambda>(pushed, rb''). (Suc pushed, rb'')) (rb_try_push_batch rb' items)
          else Some (0, rb'))"

fun rb_try_pop_batch :: "'a ring_buffer \<Rightarrow> nat \<Rightarrow> ('a list \<times> 'a ring_buffer) option" where
  "rb_try_pop_batch rb 0 = Some ([], rb)"
| "rb_try_pop_batch rb (Suc n) =
     (case rb_try_pop rb of
        None \<Rightarrow> None
      | Some (None, rb') \<Rightarrow> Some ([], rb')
      | Some (Some x, rb') \<Rightarrow> map_option (\<lambda>(xs, rb''). (x # xs, rb'')) (rb_try_pop_batch rb' n))"

subsection \<open>Invariant and abstraction\<close>

abbreviation rb_N :: "'a ring_buffer \<Rightarrow> nat" where "rb_N rb \<equiv> unat (rb_size rb)"
abbreviation rb_H :: "'a ring_buffer \<Rightarrow> nat" where "rb_H rb \<equiv> unat (rb_head rb)"
abbreviation rb_T :: "'a ring_buffer \<Rightarrow> nat" where "rb_T rb \<equiv> unat (rb_tail rb)"

text \<open>
  The range in which the comparison of sequence numbers is exact. Tickets start at zero and
  grow by one per successful push, so \<open>2 ^ 63 - Size\<close> pushes stay inside it.
\<close>

definition rb_in_range :: "'a ring_buffer \<Rightarrow> bool" where
  "rb_in_range rb \<longleftrightarrow> rb_H rb + rb_N rb < 2 ^ 63"

definition rb_invar :: "'a ring_buffer \<Rightarrow> bool" where
  "rb_invar rb \<longleftrightarrow> is_pow2 (rb_size rb) \<and> rb_in_range rb \<and>
     (\<exists>en. ticket_ring (rb_N rb) (rb_H rb) (rb_T rb) (map unat (rb_sequences rb)) (rb_buffer rb) en {} {})"

definition rb_contents :: "'a ring_buffer \<Rightarrow> 'a list" where
  "rb_contents rb = map (\<lambda>k. rb_buffer rb ! (k mod rb_N rb)) [rb_T rb..<rb_H rb]"

definition rb_room :: "'a ring_buffer \<Rightarrow> enat" where
  "rb_room rb = enat (2 ^ 63 - 1 - (rb_H rb + rb_N rb))"

subsection \<open>Word-level facts\<close>

lemma rb_index_mod [slot_simps]:
  "is_pow2 (rb_size rb) \<Longrightarrow> rb_index rb pos = unat pos mod rb_N rb"
  by (simp add: rb_index_def rb_mask_def is_pow2_mask)

lemma rb_seq_at_unat:
  assumes "is_pow2 (rb_size rb)" "length (rb_sequences rb) = rb_N rb"
  shows "unat (rb_seq_at rb pos) = map unat (rb_sequences rb) ! (unat pos mod rb_N rb)"
  using assms is_pow2_pos [OF assms(1)] by (simp add: rb_seq_at_def rb_index_mod)

lemma rb_next_seq:
  assumes "is_pow2 (rb_size rb)" "unat pos + rb_N rb < 2 ^ 64"
  shows "unat (pos + rb_mask rb + 1) = unat pos + rb_N rb"
proof -
  have eq: "pos + rb_mask rb + 1 = pos + rb_size rb" by (simp add: rb_mask_def)
  show ?thesis unfolding eq using assms by (simp add: unat_plus)
qed

lemma rb_map_seq_publish:
  "is_pow2 (rb_size rb) \<Longrightarrow> map unat (rb_sequences (rb_publish rb pos seq)) =
     (map unat (rb_sequences rb))[unat pos mod rb_N rb := unat seq]"
  by (simp add: rb_publish_def rb_index_mod map_update)

lemma rb_write_sel [simp]:
  "rb_size (rb_write rb pos x) = rb_size rb" "rb_sequences (rb_write rb pos x) = rb_sequences rb"
  "rb_head (rb_write rb pos x) = rb_head rb" "rb_tail (rb_write rb pos x) = rb_tail rb"
  "rb_index (rb_write rb pos x) = rb_index rb"
  "rb_buffer (rb_write rb pos x) = (rb_buffer rb)[rb_index rb pos := x]"
  by (auto simp: rb_write_def rb_index_def rb_mask_def fun_eq_iff)

lemma rb_publish_sel [simp]:
  "rb_size (rb_publish rb pos s) = rb_size rb" "rb_buffer (rb_publish rb pos s) = rb_buffer rb"
  "rb_head (rb_publish rb pos s) = rb_head rb" "rb_tail (rb_publish rb pos s) = rb_tail rb"
  "rb_index (rb_publish rb pos s) = rb_index rb"
  by (auto simp: rb_publish_def rb_index_def rb_mask_def fun_eq_iff)

lemma rb_index_upd [simp]:
  "rb_index (rb\<lparr>rb_head := h\<rparr>) = rb_index rb" "rb_index (rb\<lparr>rb_tail := t\<rparr>) = rb_index rb"
  "rb_mask (rb\<lparr>rb_head := h\<rparr>) = rb_mask rb" "rb_mask (rb\<lparr>rb_tail := t\<rparr>) = rb_mask rb"
  by (auto simp: rb_index_def rb_mask_def fun_eq_iff)

text \<open>The comparisons of both loops, under the ticket invariant and in range.\<close>

lemma rb_push_diff:
  assumes "is_pow2 (rb_size rb)" "H + rb_N rb < 2 ^ 63" "unat head \<le> H"
    and r: "ticket_ring (rb_N rb) H T (map unat (rb_sequences rb)) bf en P Q"
  shows "intptr_sub (rb_seq_at rb head) head =
     Some (int (map unat (rb_sequences rb) ! (unat head mod rb_N rb)) - int (unat head))"
proof -
  have len: "length (rb_sequences rb) = rb_N rb" using ticket_ringD(2) [OF r] by simp
  have "map unat (rb_sequences rb) ! (unat head mod rb_N rb) \<le> H + rb_N rb"
    by (rule ring_seq_bound [OF r]) (use is_pow2_pos [OF assms(1)] in simp)
  then have "unat (rb_seq_at rb head) < 2 ^ 63" "unat head < 2 ^ 63"
    using assms(2,3) by (auto simp: rb_seq_at_unat [OF assms(1) len])
  then show ?thesis by (simp only: intptr_sub_small rb_seq_at_unat [OF assms(1) len])
qed

lemma rb_pop_diff:
  assumes "is_pow2 (rb_size rb)" "H + rb_N rb < 2 ^ 63" "unat tail \<le> T"
    and r: "ticket_ring (rb_N rb) H T (map unat (rb_sequences rb)) bf en P Q"
  shows "intptr_sub (rb_seq_at rb tail) (tail + 1) =
     Some (int (map unat (rb_sequences rb) ! (unat tail mod rb_N rb)) - int (unat tail + 1))"
proof -
  have len: "length (rb_sequences rb) = rb_N rb" using ticket_ringD(2) [OF r] by simp
  have "map unat (rb_sequences rb) ! (unat tail mod rb_N rb) \<le> H + rb_N rb"
    by (rule ring_seq_bound [OF r]) (use is_pow2_pos [OF assms(1)] in simp)
  then have s: "unat (rb_seq_at rb tail) < 2 ^ 63"
    using assms(2) by (auto simp: rb_seq_at_unat [OF assms(1) len])
  have t: "unat tail + 1 < 2 ^ 63" using assms(2,3) ticket_ringD(1,5) [OF r] by linarith
  then have "unat (tail + 1) = unat tail + 1" by (simp add: unat_plus_1)
  with s t show ?thesis by (simp only: intptr_sub_small rb_seq_at_unat [OF assms(1) len])
qed

subsection \<open>The queue contract\<close>

lemma rb_invarD:
  assumes "rb_invar rb"
  obtains en where "is_pow2 (rb_size rb)" "rb_H rb + rb_N rb < 2 ^ 63"
    "ticket_ring (rb_N rb) (rb_H rb) (rb_T rb) (map unat (rb_sequences rb)) (rb_buffer rb) en {} {}"
    "rb_contents rb = drop (rb_T rb) en" "length (rb_contents rb) = rb_H rb - rb_T rb"
  using assms that unfolding rb_invar_def rb_in_range_def rb_contents_def
  by (metis ring_quiet_contents length_map length_upt)

lemma rb_new_invar:
  assumes "is_pow2 sz" "2 \<le> unat sz" "unat sz < 2 ^ 63"
  shows "rb_invar (rb_new sz d)" "rb_contents (rb_new sz d) = []"
proof -
  have "map unat (map word_of_nat [0..<unat sz] :: size_t list) = [0..<unat sz]"
    using unat_less_64 [of sz] by (auto simp: unat_of_nat intro!: map_idI)
  then show "rb_invar (rb_new sz d)"
    using assms ticket_ring_init [of "unat sz" "replicate (unat sz) d"]
    by (auto simp: rb_invar_def rb_in_range_def rb_new_def)
  show "rb_contents (rb_new sz d) = []" by (simp add: rb_contents_def rb_new_def)
qed

lemma rb_push_ok:
  assumes "rb_invar rb" "0 < rb_room rb" "length (rb_contents rb) < rb_N rb"
  shows "\<exists>rb'. rb_try_push rb x = Some (True, rb') \<and> rb_invar rb' \<and>
           rb_contents rb' = rb_contents rb @ [x] \<and> rb_size rb' = rb_size rb \<and>
           rb_room rb \<le> eSuc (rb_room rb')"
proof -
  obtain en where p: "is_pow2 (rb_size rb)" and b: "rb_H rb + rb_N rb < 2 ^ 63"
    and r: "ticket_ring (rb_N rb) (rb_H rb) (rb_T rb) (map unat (rb_sequences rb)) (rb_buffer rb) en {} {}"
    and c: "rb_contents rb = drop (rb_T rb) en" and l: "length (rb_contents rb) = rb_H rb - rb_T rb"
    using rb_invarD [OF assms(1)] .
  let ?h = "rb_head rb"
  have HT: "rb_H rb < rb_T rb + rb_N rb" using assms(3) l ticket_ringD(5) [OF r] by linarith
  have s: "map unat (rb_sequences rb) ! (rb_H rb mod rb_N rb) = rb_H rb"
    using ticket_ringD(11) [OF r, of "rb_H rb"] HT by simp
  have b1: "rb_H rb + 1 + rb_N rb < 2 ^ 63"
    using assms(2) b by (simp add: rb_room_def zero_enat_def)
  then have h1: "unat (?h + 1) = rb_H rb + 1" by (simp add: unat_plus_1)
  define rb' where "rb' = rb_publish (rb_write (rb\<lparr>rb_head := ?h + 1\<rparr>) ?h x) ?h (?h + 1)"
  have push: "rb_try_push rb x = Some (True, rb')"
    unfolding rb_try_push_def rb'_def
    by (subst rb_push_loop.simps) (simp add: rb_push_diff [OF p b order_refl r] s)
  have r1: "ticket_ring (rb_N rb) (rb_H rb + 1) (rb_T rb) (map unat (rb_sequences rb))
      (rb_buffer rb) (en @ [x]) {rb_H rb} {}"
    by (rule ring_take_push [OF r HT]) simp
  have len: "rb_H rb mod rb_N rb < length (rb_buffer rb)"
    using ticket_ringD(1,3) [OF r] by simp
  have "(en @ [x]) ! rb_H rb = x" using ticket_ringD(4) [OF r] by (simp add: nth_append)
  then have "ticket_ring (rb_N rb) (rb_H rb + 1) (rb_T rb)
      ((map unat (rb_sequences rb))[rb_H rb mod rb_N rb := rb_H rb + 1])
      ((rb_buffer rb)[rb_H rb mod rb_N rb := x]) (en @ [x]) {} {}"
    using ring_publish_push [OF ring_write [OF r1, of "rb_H rb" x], of "rb_H rb"] len by simp
  then have r2: "ticket_ring (rb_N rb') (rb_H rb') (rb_T rb') (map unat (rb_sequences rb'))
      (rb_buffer rb') (en @ [x]) {} {}"
    by (simp add: rb'_def rb_map_seq_publish p h1 rb_index_mod)
  then have inv: "rb_invar rb'"
    using p b1 h1 by (auto simp: rb_invar_def rb_in_range_def rb'_def)
  have "rb_contents rb' = drop (rb_T rb) (en @ [x])"
    using ring_quiet_contents [OF r2] by (simp add: rb_contents_def rb'_def)
  then have "rb_contents rb' = rb_contents rb @ [x]"
    using c ticket_ringD(4,5) [OF r] by simp
  moreover have "rb_room rb \<le> eSuc (rb_room rb')"
    using b1 h1 by (simp add: rb_room_def rb'_def eSuc_enat)
  ultimately show ?thesis using push inv by (simp add: rb'_def)
qed

lemma rb_push_full:
  assumes "rb_invar rb" "length (rb_contents rb) = rb_N rb"
  shows "rb_try_push rb x = Some (False, rb)"
proof -
  obtain en where p: "is_pow2 (rb_size rb)" and b: "rb_H rb + rb_N rb < 2 ^ 63"
    and r: "ticket_ring (rb_N rb) (rb_H rb) (rb_T rb) (map unat (rb_sequences rb)) (rb_buffer rb) en {} {}"
    and l: "length (rb_contents rb) = rb_H rb - rb_T rb"
    using rb_invarD [OF assms(1)] by metis
  have H: "rb_H rb = rb_T rb + rb_N rb" using assms(2) l ticket_ringD(1,5,6) [OF r] by linarith
  then have "map unat (rb_sequences rb) ! (rb_H rb mod rb_N rb) < rb_H rb"
    using ticket_ringD(9) [OF r, of "rb_T rb"] ticket_ringD(1) [OF r] by simp
  then show ?thesis
    unfolding rb_try_push_def
    by (subst rb_push_loop.simps) (simp add: rb_push_diff [OF p b order_refl r] del: of_nat_unat)
qed

lemma rb_pop_ok:
  assumes "rb_invar rb" "rb_contents rb = x # xs"
  shows "\<exists>rb'. rb_try_pop rb = Some (Some x, rb') \<and> rb_invar rb' \<and> rb_contents rb' = xs \<and>
           rb_size rb' = rb_size rb \<and> rb_room rb' = rb_room rb"
proof -
  obtain en where p: "is_pow2 (rb_size rb)" and b: "rb_H rb + rb_N rb < 2 ^ 63"
    and r: "ticket_ring (rb_N rb) (rb_H rb) (rb_T rb) (map unat (rb_sequences rb)) (rb_buffer rb) en {} {}"
    and c: "rb_contents rb = drop (rb_T rb) en" and l: "length (rb_contents rb) = rb_H rb - rb_T rb"
    using rb_invarD [OF assms(1)] .
  let ?t = "rb_tail rb"
  have TH: "rb_T rb < rb_H rb" using assms(2) l by simp
  have s: "map unat (rb_sequences rb) ! (rb_T rb mod rb_N rb) = rb_T rb + 1"
    using ticket_ringD(9) [OF r, of "rb_T rb"] TH by simp
  have t1: "unat (?t + 1) = rb_T rb + 1" using b TH by (simp add: unat_plus_1)
  have tN: "unat (?t + rb_mask rb + 1) = rb_T rb + rb_N rb"
    by (rule rb_next_seq [OF p]) (use b TH in simp)
  define rb' where "rb' = rb_publish (rb\<lparr>rb_tail := ?t + 1\<rparr>) ?t (?t + rb_mask rb + 1)"
  have "rb_buffer rb ! (rb_T rb mod rb_N rb) = en ! rb_T rb"
    using ticket_ringD(10) [OF r, of "rb_T rb"] TH by simp
  also have "en ! rb_T rb = x"
    using assms(2) c by (metis nth_via_drop)
  finally have pop: "rb_try_pop rb = Some (Some x, rb')"
    unfolding rb_try_pop_def rb'_def
    by (subst rb_pop_loop.simps) (simp add: rb_pop_diff [OF p b order_refl r] s rb_index_mod p)
  have "ticket_ring (rb_N rb) (rb_H rb) (rb_T rb + 1)
      ((map unat (rb_sequences rb))[rb_T rb mod rb_N rb := rb_T rb + rb_N rb]) (rb_buffer rb) en {} {}"
    using ring_publish_pop [OF ring_take_pop [OF r TH], of "rb_T rb"] by simp
  then have r2: "ticket_ring (rb_N rb') (rb_H rb') (rb_T rb') (map unat (rb_sequences rb'))
      (rb_buffer rb') en {} {}"
    by (simp add: rb'_def rb_map_seq_publish p t1 tN)
  then have "rb_invar rb'" using p b by (auto simp: rb_invar_def rb_in_range_def rb'_def)
  moreover have "rb_contents rb' = drop (rb_T rb + 1) en"
    using ring_quiet_contents [OF r2] t1 by (simp add: rb_contents_def rb'_def)
  then have "rb_contents rb' = xs" using assms(2) c by (metis drop_Suc list.sel(3) Suc_eq_plus1 tl_drop)
  ultimately show ?thesis using pop by (simp add: rb'_def rb_room_def)
qed

lemma rb_pop_empty:
  assumes "rb_invar rb" "rb_contents rb = []"
  shows "rb_try_pop rb = Some (None, rb)"
proof -
  obtain en where p: "is_pow2 (rb_size rb)" and b: "rb_H rb + rb_N rb < 2 ^ 63"
    and r: "ticket_ring (rb_N rb) (rb_H rb) (rb_T rb) (map unat (rb_sequences rb)) (rb_buffer rb) en {} {}"
    and l: "length (rb_contents rb) = rb_H rb - rb_T rb"
    using rb_invarD [OF assms(1)] by metis
  have "rb_T rb = rb_H rb" using assms(2) l ticket_ringD(5) [OF r] by simp
  then have "map unat (rb_sequences rb) ! (rb_T rb mod rb_N rb) = rb_T rb"
    using ticket_ringD(11) [OF r, of "rb_T rb"] ticket_ringD(1) [OF r] by simp
  then show ?thesis
    unfolding rb_try_pop_def
    by (subst rb_pop_loop.simps) (simp add: rb_pop_diff [OF p b order_refl r])
qed

interpretation rb_queue: batched_queue rb_try_push rb_try_pop rb_invar rb_contents rb_N rb_room
  rb_try_push_batch rb_try_pop_batch
proof
  show "length (rb_contents q) \<le> rb_N q" if "rb_invar q" for q :: "'a ring_buffer"
    using rb_invarD [OF that] ticket_ringD(6) by (metis add.commute le_diff_conv)
  show "\<exists>q'. rb_try_push q x = Some (True, q') \<and> rb_invar q' \<and>
      rb_contents q' = rb_contents q @ [x] \<and> rb_N q' = rb_N q \<and> rb_room q \<le> eSuc (rb_room q')"
    if "rb_invar q" "0 < rb_room q" "length (rb_contents q) < rb_N q" for q :: "'a ring_buffer" and x
    using rb_push_ok [OF that] by metis
  show "\<exists>q'. rb_try_pop q = Some (Some x, q') \<and> rb_invar q' \<and> rb_contents q' = xs \<and>
      rb_N q' = rb_N q \<and> rb_room q' = rb_room q"
    if "rb_invar q" "rb_contents q = x # xs" for q :: "'a ring_buffer" and x xs
    using rb_pop_ok [OF that] by metis
qed (auto intro: rb_push_full rb_pop_empty split: option.splits)

subsection \<open>Properties of the sequential operations\<close>

text \<open>
  C31. In a well-formed ring, \<^verbatim>\<open>try_push\<close> always returns; it returns true exactly if fewer than
  \<^verbatim>\<open>Size\<close> items are queued, and then the item is appended; otherwise nothing changes. \<^verbatim>\<open>try_pop\<close> always returns
  the oldest queued item, which is removed, or false with nothing changed if the ring is empty.
\<close>

theorem rb_fifo_correct:
  assumes "rb_invar rb"
  shows "(0 < rb_room rb \<longrightarrow> (\<exists>b rb'. rb_try_push rb x = Some (b, rb') \<and> rb_invar rb' \<and> rb_N rb' = rb_N rb \<and>
           (b \<longleftrightarrow> length (rb_contents rb) < rb_N rb) \<and>
           rb_contents rb' = (if b then rb_contents rb @ [x] else rb_contents rb))) \<and>
    (\<exists>rb'. rb_try_pop rb = Some (case rb_contents rb of [] \<Rightarrow> None | x # _ \<Rightarrow> Some x, rb') \<and>
           rb_invar rb' \<and> rb_contents rb' = tl (rb_contents rb) \<and> rb_N rb' = rb_N rb \<and>
           rb_room rb' = rb_room rb)"
  using rb_queue.push_total [OF assms] rb_queue.pop_total [OF assms] by blast

theorem rb_fifo_correct_witness:
  "\<exists>b rb1. rb_try_push (rb_new 4 (0::nat)) 7 = Some (b, rb1) \<and> b \<and> (\<exists>rb2. rb_try_pop rb1 = Some (Some 7, rb2) \<and> rb_contents rb2 = [])"
proof -
  have i: "rb_invar (rb_new 4 (0::nat))" "rb_contents (rb_new 4 (0::nat)) = []"
    by (rule rb_new_invar; simp add: is_pow2_def)+
  have "0 < rb_room (rb_new 4 (0::nat))" "rb_N (rb_new 4 (0::nat)) = 4" by (simp_all add: rb_room_def rb_new_def zero_enat_def)
  with rb_fifo_correct [OF i(1), of 7] i(2) obtain rb1 where 1: "rb_try_push (rb_new 4 (0::nat)) 7 = Some (True, rb1)" "rb_invar rb1"
    "rb_contents rb1 = [7]" by auto
  then show ?thesis using rb_fifo_correct [OF 1(2)] by auto
qed

text \<open>
  \<^verbatim>\<open>try_push_batch\<close> followed by \<^verbatim>\<open>try_pop_batch\<close>: the batch push stores the longest prefix
  that fits behind the queued items and reports its length, and a batch pop returns the oldest
  items in order, at most as many as asked for.
\<close>

theorem rb_batch_correct:
  assumes "rb_invar rb" "enat (length xs) \<le> rb_room rb"
  shows "\<exists>rb' rb''. rb_try_push_batch rb xs =
             Some (min (length xs) (rb_N rb - length (rb_contents rb)), rb') \<and>
           rb_contents rb' = rb_contents rb @ take (rb_N rb - length (rb_contents rb)) xs \<and>
           rb_try_pop_batch rb' n = Some (take n (rb_contents rb'), rb'') \<and>
           rb_contents rb'' = drop n (rb_contents rb') \<and> rb_invar rb''"
  using rb_queue.push_batch_spec [OF assms] rb_queue.pop_batch_spec by metis

theorem rb_batch_correct_witness:
  "\<exists>rb' rb''. rb_try_push_batch (rb_new 2 (0::nat)) [1, 2, 3] = Some (2, rb') \<and>
     rb_try_pop_batch rb' 5 = Some ([1, 2], rb'')"
proof -
  have i: "rb_invar (rb_new 2 (0::nat))" "rb_contents (rb_new 2 (0::nat)) = []"
    by (rule rb_new_invar; simp add: is_pow2_def)+
  have "enat (length [1, 2, 3::nat]) \<le> rb_room (rb_new 2 (0::nat))"
    by (simp add: rb_room_def rb_new_def)
  from rb_batch_correct [OF i(1) this, of 5] i(2) show ?thesis by (auto simp: rb_new_def)
qed

subsection \<open>Rings of one slot\<close>

text \<open>
  \<^verbatim>\<open>static_assert\<close> accepts \<^verbatim>\<open>Size = 1\<close>, where "published" and "free for the next ticket" are the same
  sequence number. The loop that follows never leaves the state it starts in.
\<close>

lemma rb_pop_loop_stuck:
  assumes "rb_pop_loop rb tail = Some r"
  shows "\<not> (rb_tail rb = tail \<and> intptr_sub (rb_seq_at rb tail) (tail + 1) = Some 1)"
proof (rule rb_pop_loop.raw_induct [where P = "\<lambda>rb tail r. \<not> (rb_tail rb = tail \<and>
    intptr_sub (rb_seq_at rb tail) (tail + 1) = Some 1)", OF _ assms])
  fix f :: "'a ring_buffer \<Rightarrow> size_t \<Rightarrow> ('a option \<times> 'a ring_buffer) option" and rb tail r
  assume IH: "\<And>rb tail r. f rb tail = Some r \<Longrightarrow>
      \<not> (rb_tail rb = tail \<and> intptr_sub (rb_seq_at rb tail) (tail + 1) = Some 1)"
    and eq: "(case intptr_sub (rb_seq_at rb tail) (tail + 1) of None \<Rightarrow> None
      | Some diff \<Rightarrow> if diff = 0 then
            (if rb_tail rb = tail
             then Some (Some (rb_buffer rb ! rb_index rb tail),
                        rb_publish (rb\<lparr>rb_tail := tail + 1\<rparr>) tail (tail + rb_mask rb + 1))
             else f rb (rb_tail rb))
          else if diff < 0 then Some (None, rb) else f rb (rb_tail rb)) = Some r"
  show "\<not> (rb_tail rb = tail \<and> intptr_sub (rb_seq_at rb tail) (tail + 1) = Some 1)"
    using eq IH [of rb "rb_tail rb" r] by auto
qed

text \<open>
  A ring of size 1 passes the \<^verbatim>\<open>static_assert\<close> but is not a queue: two pushes in a row succeed,
  the first item is overwritten, and the next \<^verbatim>\<open>try_pop\<close> never returns.
\<close>

theorem rb_size_one_broken:
  "is_pow2 1 \<and>
   (\<exists>rb1 rb2. rb_try_push (rb_new 1 d) a = Some (True, rb1) \<and> rb_try_push rb1 b = Some (True, rb2) \<and>
      rb_buffer rb2 = [b] \<and> rb_try_pop rb2 = None)"
proof -
  let ?rb1 = "\<lparr>rb_size = 1, rb_sequences = [1], rb_buffer = [a], rb_head = 1, rb_tail = 0\<rparr>"
  let ?rb2 = "\<lparr>rb_size = 1, rb_sequences = [2], rb_buffer = [b], rb_head = 2, rb_tail = 0\<rparr>"
  note defs = rb_seq_at_def rb_index_def rb_mask_def rb_publish_def rb_write_def intptr_sub_def
  have 1: "rb_try_push (rb_new 1 d) a = Some (True, ?rb1)"
    unfolding rb_try_push_def
    by (subst rb_push_loop.simps) (simp add: defs rb_new_def)
  have 2: "rb_try_push ?rb1 b = Some (True, ?rb2)"
    unfolding rb_try_push_def
    by (subst rb_push_loop.simps) (simp add: defs)
  have "intptr_sub (rb_seq_at ?rb2 0) (0 + 1) = Some 1" by (simp add: defs)
  then have "rb_try_pop ?rb2 = None"
    using rb_pop_loop_stuck [of ?rb2 0] unfolding rb_try_pop_def
    by (cases "rb_pop_loop ?rb2 0") auto
  with 1 2 show ?thesis by (auto simp: is_pow2_def)
qed

end
