(* ===== verification/Interleaving.thy ===== *)
theory Interleaving
  imports Lockless_Prelude
begin

text \<open>
  The execution model of the concurrent components. Threads are numbered; each has a local
  state (its program counter and local variables) and all share one global state. A component
  gives a function \<open>exec\<close> that performs one atomic access of one thread: given the action the
  environment chose (which operation an idle thread calls, whether a weak compare-exchange
  fails spuriously), the global state and the thread's local state, it returns both states
  afterwards. Any thread may move at any time, so the interleavings are the reachable
  configurations below. Accesses are interleaved one at a time (sequential consistency).

  The locale \<open>og_proof\<close> is the proof rule for such systems, in the style of Owicki and Gries:
  a global invariant, an assertion per local state, a relation between the local states of two
  different threads, and the obligations on one atomic step. The bound \<open>B\<close> is a condition on
  the global state that no step establishes (a counter still below a limit); invariants are
  claimed as long as it holds. \<open>Linearizability\<close> extends the rule by an abstract specification.
\<close>

type_synonym tid = nat
type_synonym ('g, 'l) config = "'g \<times> (tid \<Rightarrow> 'l)"

definition sys_step :: "('a \<Rightarrow> 'g \<Rightarrow> 'l \<Rightarrow> 'g \<times> 'l) \<Rightarrow> tid \<times> 'a \<Rightarrow> ('g, 'l) config \<Rightarrow> ('g, 'l) config" where
  "sys_step exec ta c =
     (case ta of (t, a) \<Rightarrow> case c of (g, ls) \<Rightarrow>
        (case exec a g (ls t) of (g', l') \<Rightarrow> (g', ls(t := l'))))"

fun run :: "('a \<Rightarrow> 'g \<Rightarrow> 'l \<Rightarrow> 'g \<times> 'l) \<Rightarrow> ('g, 'l) config \<Rightarrow> (tid \<times> 'a) list \<Rightarrow> ('g, 'l) config" where
  "run exec c [] = c"
| "run exec c (e # es) = run exec (sys_step exec e c) es"

text \<open>A single thread running alone: the same action repeated, on one local state.\<close>

fun solo :: "('a \<Rightarrow> 'g \<Rightarrow> 'l \<Rightarrow> 'g \<times> 'l) \<Rightarrow> 'a \<Rightarrow> nat \<Rightarrow> 'g \<Rightarrow> 'l \<Rightarrow> 'g \<times> 'l" where
  "solo exec a 0 g l = (g, l)"
| "solo exec a (Suc n) g l = (case exec a g l of (g', l') \<Rightarrow> solo exec a n g' l')"

inductive reach :: "('a \<Rightarrow> 'g \<Rightarrow> 'l \<Rightarrow> 'g \<times> 'l) \<Rightarrow> ('g \<Rightarrow> bool) \<Rightarrow> (tid \<Rightarrow> 'l) \<Rightarrow> ('g, 'l) config \<Rightarrow> bool"
  for exec ginit linit where
  start: "ginit g \<Longrightarrow> reach exec ginit linit (g, linit)"
| step: "reach exec ginit linit c \<Longrightarrow> reach exec ginit linit (sys_step exec e c)"

lemma run_append: "run exec c (es @ fs) = run exec (run exec c es) fs"
  by (induction es arbitrary: c) auto

lemma reach_run: "reach exec ginit linit c \<Longrightarrow> reach exec ginit linit (run exec c es)"
proof (induction es arbitrary: c)
  case (Cons e es)
  have "reach exec ginit linit (sys_step exec e c)" by (rule reach.step [OF Cons.prems])
  then show ?case using Cons.IH by simp
qed simp

lemma reach_run_init: "ginit g \<Longrightarrow> reach exec ginit linit (run exec (g, linit) es)"
  by (intro reach_run reach.start)

text \<open>The reachable configurations are exactly those a schedule produces.\<close>

lemma reach_iff_run:
  "reach exec ginit linit c \<longleftrightarrow> (\<exists>g es. ginit g \<and> c = run exec (g, linit) es)"
proof
  assume "reach exec ginit linit c"
  then show "\<exists>g es. ginit g \<and> c = run exec (g, linit) es"
  proof (induction rule: reach.induct)
    case (start g)
    then show ?case by (intro exI [of _ g] exI [of _ "[]"]) simp
  next
    case (step c e)
    then obtain g es where "ginit g" "c = run exec (g, linit) es" by blast
    then show ?case by (intro exI [of _ g] exI [of _ "es @ [e]"]) (simp add: run_append)
  qed
qed (auto intro: reach_run_init)

lemma sys_step_eq: "sys_step exec (t, a) (g, ls) = (case exec a g (ls t) of (g', l') \<Rightarrow> (g', ls(t := l')))"
  by (simp add: sys_step_def)

text \<open>A thread that runs alone for \<open>n\<close> steps is the schedule that names it \<open>n\<close> times.\<close>

lemma run_replicate:
  "run exec (g, ls) (replicate n (t, a)) =
     (case solo exec a n g (ls t) of (g', l') \<Rightarrow> (g', ls(t := l')))"
  by (induction n arbitrary: g ls) (auto simp: sys_step_eq split: prod.splits)

lemma solo_add: "solo exec a (m + n) g l = (case solo exec a m g l of (g', l') \<Rightarrow> solo exec a n g' l')"
  by (induction m arbitrary: g l) (auto split: prod.splits)

subsection \<open>Owicki-Gries proof rule\<close>

locale og_proof =
  fixes exec :: "'a \<Rightarrow> 'g \<Rightarrow> 'l \<Rightarrow> 'g \<times> 'l"
    and ginit :: "'g \<Rightarrow> bool"
    and linit :: "tid \<Rightarrow> 'l"
    and B :: "'g \<Rightarrow> bool"
    and G :: "'g \<Rightarrow> bool"
    and L :: "'g \<Rightarrow> 'l \<Rightarrow> bool"
    and X :: "'l \<Rightarrow> 'l \<Rightarrow> bool"
  assumes bound_down: "exec a g l = (g', l') \<Longrightarrow> B g' \<Longrightarrow> B g"
    and init_G: "ginit g \<Longrightarrow> B g \<Longrightarrow> G g"
    and init_L: "ginit g \<Longrightarrow> B g \<Longrightarrow> L g (linit t)"
    and init_X: "t \<noteq> u \<Longrightarrow> X (linit t) (linit u)"
    and X_sym: "X l m \<Longrightarrow> X m l"
    and own_step: "exec a g l = (g', l') \<Longrightarrow> B g' \<Longrightarrow> G g \<Longrightarrow> L g l \<Longrightarrow> G g' \<and> L g' l'"
    and other_step: "exec a g l = (g', l') \<Longrightarrow> B g' \<Longrightarrow> G g \<Longrightarrow> L g l \<Longrightarrow> L g m \<Longrightarrow> X l m \<Longrightarrow>
          L g' m \<and> X l' m"
begin

lemma reach_inv:
  assumes "reach exec ginit linit c"
  shows "B (fst c) \<Longrightarrow> G (fst c) \<and> (\<forall>t. L (fst c) (snd c t)) \<and>
           (\<forall>t u. t \<noteq> u \<longrightarrow> X (snd c t) (snd c u))"
  using assms
proof (induction rule: reach.induct)
  case (start g)
  then show ?case by (auto intro: init_G init_L init_X)
next
  case (step c e)
  obtain t a where e: "e = (t, a)" by (cases e)
  obtain g ls where c: "c = (g, ls)" by (cases c)
  obtain g' l' where ex: "exec a g (ls t) = (g', l')" by (cases "exec a g (ls t)")
  have c': "sys_step exec e c = (g', ls(t := l'))" by (simp add: sys_step_eq e c ex)
  with step.prems have Bg': "B g'" by simp
  have Bg: "B g" by (rule bound_down [OF ex Bg'])
  from step.IH [unfolded c] Bg have inv: "G g" "\<And>t. L g (ls t)"
    and X: "\<And>t u. t \<noteq> u \<Longrightarrow> X (ls t) (ls u)" by auto
  have own: "G g'" "L g' l'" using own_step [OF ex Bg' inv] by auto
  have other: "L g' (ls u) \<and> X l' (ls u)" if "u \<noteq> t" for u
    by (rule other_step [OF ex Bg' inv(1) inv(2) inv(2)]) (use X that in auto)
  have "X ((ls(t := l')) u) ((ls(t := l')) v)" if "u \<noteq> v" for u v
    using that other X X_sym by (cases "u = t"; cases "v = t") auto
  with own other show ?case by (auto simp: c')
qed

lemma reach_G: "reach exec ginit linit (g, ls) \<Longrightarrow> B g \<Longrightarrow> G g"
  using reach_inv [of "(g, ls)"] by simp

lemma reach_L: "reach exec ginit linit (g, ls) \<Longrightarrow> B g \<Longrightarrow> L g (ls t)"
  using reach_inv [of "(g, ls)"] by simp

lemma reach_X: "reach exec ginit linit (g, ls) \<Longrightarrow> B g \<Longrightarrow> t \<noteq> u \<Longrightarrow> X (ls t) (ls u)"
  using reach_inv [of "(g, ls)"] by simp

end

subsection \<open>Client programs\<close>

text \<open>
  A client machine runs a program of its own in every thread and calls the operations of a base
  machine: each of its steps either leaves the base machine alone or is one step of it. What
  is true of all reachable configurations of the base machine is then true under every client.
\<close>

locale client_system =
  fixes exec :: "'a \<Rightarrow> 'g \<Rightarrow> 'l \<Rightarrow> 'g \<times> 'l"
    and ginit :: "'g \<Rightarrow> bool"
    and linit :: "tid \<Rightarrow> 'l"
    and cexec :: "'b \<Rightarrow> 'cg \<Rightarrow> 'cl \<Rightarrow> 'cg \<times> 'cl"
    and cinit :: "'cg \<Rightarrow> bool"
    and clinit :: "tid \<Rightarrow> 'cl"
    and gproj :: "'cg \<Rightarrow> 'g"
    and lproj :: "'cl \<Rightarrow> 'l"
  assumes proj_ginit: "cinit cg \<Longrightarrow> ginit (gproj cg)"
    and proj_linit: "lproj (clinit t) = linit t"
    and proj_step: "cexec b cg cl = (cg', cl') \<Longrightarrow>
          gproj cg' = gproj cg \<and> lproj cl' = lproj cl \<or> (\<exists>a. exec a (gproj cg) (lproj cl) = (gproj cg', lproj cl'))"
begin

lemma reach_proj:
  assumes "reach cexec cinit clinit c"
  shows "reach exec ginit linit (gproj (fst c), \<lambda>t. lproj (snd c t))"
  using assms
proof (induction rule: reach.induct)
  case (start cg)
  then show ?case using reach.start [of ginit "gproj cg" exec linit] by (simp add: proj_ginit proj_linit)
next
  case (step c e)
  obtain t b where e: "e = (t, b)" by (cases e)
  obtain cg cls where c: "c = (cg, cls)" by (cases c)
  obtain cg' cl' where ex: "cexec b cg (cls t) = (cg', cl')" by (cases "cexec b cg (cls t)")
  have upd: "(\<lambda>u. lproj ((cls(t := cl')) u)) = (\<lambda>u. lproj (cls u))(t := lproj cl')" by auto
  from proj_step [OF ex] show ?case
  proof
    assume "gproj cg' = gproj cg \<and> lproj cl' = lproj (cls t)"
    then show ?thesis using step.IH by (simp add: e c ex sys_step_eq upd fun_upd_idem del: fun_upd_apply)
  next
    assume "\<exists>a. exec a (gproj cg) (lproj (cls t)) = (gproj cg', lproj cl')"
    then obtain a where "exec a (gproj cg) (lproj (cls t)) = (gproj cg', lproj cl')" ..
    then have "sys_step exec (t, a) (gproj cg, \<lambda>u. lproj (cls u)) =
        (gproj cg', (\<lambda>u. lproj (cls u))(t := lproj cl'))" by (simp add: sys_step_eq)
    then show ?thesis using reach.step [OF step.IH, of "(t, a)"] by (simp add: e c ex sys_step_eq upd del: fun_upd_apply)
  qed
qed

end


end
