(* ===== verification/Linearizability.thy ===== *)
theory Linearizability
  imports Interleaving
begin

text \<open>
  Linearizability of an interleaved object. The specification is an atomic object: a thread calls an
  operation, the operation takes effect in one step (\<open>Commit\<close>), which relates the abstract state before and after and fixes
  the result, and the thread gets exactly this result back. The effect lies between call and return, so the order of operations
  that do not overlap is respected. A history of calls and returns is linearizable if it becomes a run of the
  atomic object when the effects are inserted at suitable places.
\<close>

datatype ('o, 'r) label = Invoke 'o | Commit 'o 'r | Respond 'r

datatype ('o, 'r) status = Ready | Called 'o | Answered 'r

inductive object_step ::
  "('s \<Rightarrow> 'o \<Rightarrow> 'r \<Rightarrow> 's \<Rightarrow> bool) \<Rightarrow> 's \<times> (tid \<Rightarrow> ('o, 'r) status) \<Rightarrow> tid \<times> ('o, 'r) label \<Rightarrow> 's \<times> (tid \<Rightarrow> ('o, 'r) status) \<Rightarrow> bool"
  for spec where
  invoke: "ps t = Ready \<Longrightarrow> object_step spec (s, ps) (t, Invoke x) (s, ps(t := Called x))"
| commit: "ps t = Called x \<Longrightarrow> spec s x r s' \<Longrightarrow> object_step spec (s, ps) (t, Commit x r) (s', ps(t := Answered r))"
| respond: "ps t = Answered r \<Longrightarrow> object_step spec (s, ps) (t, Respond r) (s, ps(t := Ready))"

inductive object_run ::
  "('s \<Rightarrow> 'o \<Rightarrow> 'r \<Rightarrow> 's \<Rightarrow> bool) \<Rightarrow> 's \<times> (tid \<Rightarrow> ('o, 'r) status) \<Rightarrow> (tid \<times> ('o, 'r) label) list \<Rightarrow> 's \<times> (tid \<Rightarrow> ('o, 'r) status) \<Rightarrow> bool"
  for spec c where
  nil: "object_run spec c [] c"
| snoc: "object_run spec c es c' \<Longrightarrow> object_step spec c' e c'' \<Longrightarrow> object_run spec c (es @ [e]) c''"

fun visible :: "tid \<times> ('o, 'r) label \<Rightarrow> bool" where
  "visible (t, Commit x r) = False"
| "visible _ = True"

definition linearizable ::
  "('s \<Rightarrow> 'o \<Rightarrow> 'r \<Rightarrow> 's \<Rightarrow> bool) \<Rightarrow> 's \<Rightarrow> (tid \<times> ('o, 'r) label) list \<Rightarrow> 's \<Rightarrow> bool" where
  "linearizable spec s0 h s \<longleftrightarrow> (\<exists>es ps. object_run spec (s0, \<lambda>_. Ready) es (s, ps) \<and> filter visible es = h)"

text \<open>The history of a schedule: what the callers see, read off the local states before and after a step.\<close>

fun history ::
  "('l \<Rightarrow> 'l \<Rightarrow> ('o, 'r) label option) \<Rightarrow> ('a \<Rightarrow> 'g \<Rightarrow> 'l \<Rightarrow> 'g \<times> 'l) \<Rightarrow> ('g, 'l) config \<Rightarrow> (tid \<times> 'a) list \<Rightarrow> (tid \<times> ('o, 'r) label) list" where
  "history obs exec c [] = []"
| "history obs exec c ((t, a) # es) =
     (case obs (snd c t) (snd (sys_step exec (t, a) c) t) of None \<Rightarrow> [] | Some e \<Rightarrow> [(t, e)]) @
     history obs exec (sys_step exec (t, a) c) es"

lemma history_append: "history obs exec c (es @ fs) = history obs exec c es @ history obs exec (run exec c es) fs"
  by (induction obs exec c es rule: history.induct) auto

text \<open>A step of an implementation, as the atomic object sees it.\<close>

inductive lin_move ::
  "('s \<Rightarrow> 'o \<Rightarrow> 'r \<Rightarrow> 's \<Rightarrow> bool) \<Rightarrow> 's \<times> ('o, 'r) status \<Rightarrow> ('o, 'r) label option \<Rightarrow> 's \<times> ('o, 'r) status \<Rightarrow> bool" for spec where
  stutter: "lin_move spec (s, p) None (s, p)"
| effect: "spec s x r s' \<Longrightarrow> lin_move spec (s, Called x) None (s', Answered r)"
| call: "lin_move spec (s, Ready) (Some (Invoke x)) (s, Called x)"
| return: "lin_move spec (s, Answered r) (Some (Respond r)) (s, Ready)"

lemma lin_move_run:
  assumes "object_run spec c es (s, ps)" "lin_move spec (s, ps t) e (s', p')"
  shows "\<exists>es'. object_run spec c es' (s', ps(t := p')) \<and>
    filter visible es' = filter visible es @ (case e of None \<Rightarrow> [] | Some x \<Rightarrow> [(t, x)])"
  using assms(2)
proof (cases rule: lin_move.cases)
  case stutter
  then show ?thesis using assms(1) by (auto simp: fun_upd_idem)
next
  case (effect x r)
  then show ?thesis using object_run.snoc [OF assms(1) object_step.commit [of ps t x spec s r s']] by fastforce
next
  case (call x)
  then show ?thesis using object_run.snoc [OF assms(1) object_step.invoke [of ps t spec s x]] by fastforce
next
  case (return r)
  then show ?thesis using object_run.snoc [OF assms(1) object_step.respond [of ps t r spec s]] by fastforce
qed

text \<open>
  The proof rule: beside the invariants of \<open>og_proof\<close>, an abstract state and, for every thread, how far its operation
  has got. Each step moves the status of its own thread and leaves that of the others.
\<close>

locale og_linearizable = og_proof +
  fixes abst :: "'g \<Rightarrow> 's"
    and spec :: "'s \<Rightarrow> 'o \<Rightarrow> 'r \<Rightarrow> 's \<Rightarrow> bool"
    and status :: "'g \<Rightarrow> 'l \<Rightarrow> ('o, 'r) status"
    and obs :: "'l \<Rightarrow> 'l \<Rightarrow> ('o, 'r) label option"
  assumes init_status: "status g (linit t) = Ready"
    and status_move: "exec a g l = (g', l') \<Longrightarrow> B g' \<Longrightarrow> G g \<Longrightarrow> L g l \<Longrightarrow>
          lin_move spec (abst g, status g l) (obs l l') (abst g', status g' l')"
    and status_stable: "exec a g l = (g', l') \<Longrightarrow> B g' \<Longrightarrow> G g \<Longrightarrow> L g l \<Longrightarrow> L g m \<Longrightarrow> X l m \<Longrightarrow>
          status g' m = status g m"
begin

lemma run_object:
  assumes "ginit g0" "run exec (g0, linit) es = (g, ls)" "B g"
  shows "\<exists>fs. object_run spec (abst g0, \<lambda>_. Ready) fs (abst g, \<lambda>t. status g (ls t)) \<and>
    filter visible fs = history obs exec (g0, linit) es"
  using assms(2,3)
proof (induction es arbitrary: g ls rule: rev_induct)
  case Nil
  then have "g = g0" "ls = linit" by auto
  then show ?case by (intro exI [of _ "[]"]) (simp add: init_status object_run.nil)
next
  case (snoc e es)
  obtain g1 ls1 where r: "run exec (g0, linit) es = (g1, ls1)" by fastforce
  obtain t a where e: "e = (t, a)" by (cases e)
  obtain l' where ex: "exec a g1 (ls1 t) = (g, l')" and ls: "ls = ls1(t := l')"
    using snoc.prems(1) r by (auto simp: run_append e sys_step_eq split: prod.splits)
  have B1: "B g1" by (rule bound_down [OF ex snoc.prems(2)])
  have "reach exec ginit linit (g1, ls1)" using reach_run_init [of ginit g0, OF assms(1)] r by metis
  note inv = reach_G [OF this B1] reach_L [OF this B1] reach_X [OF this B1]
  obtain fs where fs: "object_run spec (abst g0, \<lambda>_. Ready) fs (abst g1, \<lambda>t. status g1 (ls1 t))"
    "filter visible fs = history obs exec (g0, linit) es" using snoc.IH [OF r B1] by blast
  have upd: "(\<lambda>t. status g1 (ls1 t))(t := status g l') = (\<lambda>u. status g (ls u))"
  proof
    fix u
    have "status g (ls1 u) = status g1 (ls1 u)" if "u \<noteq> t"
      using status_stable [OF ex snoc.prems(2) inv(1,2,2)] inv(3) [of t u] that by simp
    then show "((\<lambda>t. status g1 (ls1 t))(t := status g l')) u = status g (ls u)" by (simp add: ls)
  qed
  show ?case
    using lin_move_run [OF fs(1) status_move [OF ex snoc.prems(2) inv(1,2)]] fs(2)
    by (simp add: upd history_append r e sys_step_eq ex del: fun_upd_apply) (simp add: ls)
qed

lemma run_linearizable:
  assumes "ginit g0" "run exec (g0, linit) es = (g, ls)" "B g"
  shows "linearizable spec (abst g0) (history obs exec (g0, linit) es) (abst g)"
  using run_object [OF assms] unfolding linearizable_def by blast

end

end
