(* ===== verification/Ring_Buffer_Conc.thy ===== *)
theory Ring_Buffer_Conc
  imports Ring_Buffer Linearizability
begin

text \<open>
  \<^verbatim>\<open>RingBuffer\<close> under any number of producers and consumers. Each program point of \<^verbatim>\<open>try_push\<close> and
  \<^verbatim>\<open>try_pop\<close> is a constructor of \<open>rb_pc\<close> that carries the local variables alive there, and
  \<open>rb_go\<close> performs the one access of shared memory at that point. The ghost fields record, at
  the compare-exchange that hands out a ticket, the item of the ticket (\<open>g_enq\<close>), the number
  of consumer tickets (\<open>g_deq\<close>), and which tickets are between their compare-exchange and their
  release store (\<open>g_pushing\<close>, \<open>g_popping\<close>). No operation reads them.
\<close>

record 'a rb_global =
  g_rb :: "'a ring_buffer"
  g_enq :: "'a list"
  g_deq :: nat
  g_pushing :: "nat set"
  g_popping :: "nat set"

datatype 'a rb_pc =
    RbIdle
  | PushLoad 'a                 \<comment> \<open>about to load \<^verbatim>\<open>head_\<close>\<close>
  | PushCheck 'a size_t         \<comment> \<open>about to load the slot's sequence and compare\<close>
  | PushCas 'a size_t           \<comment> \<open>about to compare-exchange \<^verbatim>\<open>head_\<close>\<close>
  | PushWrite 'a size_t         \<comment> \<open>owns the ticket, about to write \<^verbatim>\<open>buffer_\<close>\<close>
  | PushPublish size_t          \<comment> \<open>about to store the new sequence\<close>
  | PushRet bool
  | PopLoad
  | PopCheck size_t
  | PopCas size_t
  | PopRead size_t              \<comment> \<open>owns the ticket, about to read \<^verbatim>\<open>buffer_\<close>\<close>
  | PopPublish 'a size_t
  | PopRet "'a option"
  | RbUndefined                 \<comment> \<open>signed overflow in the comparison\<close>

datatype 'a rb_act = CallPush 'a | CallPop | Go bool \<comment> \<open>\<open>Go True\<close>: a weak compare-exchange fails spuriously\<close>

fun rb_go :: "bool \<Rightarrow> 'a rb_global \<Rightarrow> 'a rb_pc \<Rightarrow> 'a rb_global \<times> 'a rb_pc" where
  "rb_go spurious g RbIdle = (g, RbIdle)"
| "rb_go spurious g (PushLoad item) = (g, PushCheck item (rb_head (g_rb g)))"
| "rb_go spurious g (PushCheck item head) =
     (g, case intptr_sub (rb_seq_at (g_rb g) head) head of
           None \<Rightarrow> RbUndefined
         | Some diff \<Rightarrow> if diff = 0 then PushCas item head
                       else if diff < 0 then PushRet False
                       else PushLoad item)"
| "rb_go spurious g (PushCas item head) =
     (if rb_head (g_rb g) = head \<and> \<not> spurious
      then (g\<lparr>g_rb := (g_rb g)\<lparr>rb_head := head + 1\<rparr>, g_enq := g_enq g @ [item],
              g_pushing := insert (unat head) (g_pushing g)\<rparr>, PushWrite item head)
      else (g, PushCheck item (rb_head (g_rb g))))"
| "rb_go spurious g (PushWrite item head) =
     (g\<lparr>g_rb := rb_write (g_rb g) head item\<rparr>, PushPublish head)"
| "rb_go spurious g (PushPublish head) =
     (g\<lparr>g_rb := rb_publish (g_rb g) head (head + 1), g_pushing := g_pushing g - {unat head}\<rparr>,
      PushRet True)"
| "rb_go spurious g (PushRet b) = (g, RbIdle)"
| "rb_go spurious g PopLoad = (g, PopCheck (rb_tail (g_rb g)))"
| "rb_go spurious g (PopCheck tail) =
     (g, case intptr_sub (rb_seq_at (g_rb g) tail) (tail + 1) of
           None \<Rightarrow> RbUndefined
         | Some diff \<Rightarrow> if diff = 0 then PopCas tail
                       else if diff < 0 then PopRet None
                       else PopLoad)"
| "rb_go spurious g (PopCas tail) =
     (if rb_tail (g_rb g) = tail \<and> \<not> spurious
      then (g\<lparr>g_rb := (g_rb g)\<lparr>rb_tail := tail + 1\<rparr>, g_deq := g_deq g + 1,
              g_popping := insert (unat tail) (g_popping g)\<rparr>, PopRead tail)
      else (g, PopCheck (rb_tail (g_rb g))))"
| "rb_go spurious g (PopRead tail) = (g, PopPublish (rb_buffer (g_rb g) ! rb_index (g_rb g) tail) tail)"
| "rb_go spurious g (PopPublish item tail) =
     (g\<lparr>g_rb := rb_publish (g_rb g) tail (tail + rb_mask (g_rb g) + 1),
        g_popping := g_popping g - {unat tail}\<rparr>, PopRet (Some item))"
| "rb_go spurious g (PopRet r) = (g, RbIdle)"
| "rb_go spurious g RbUndefined = (g, RbUndefined)"

fun rb_exec :: "'a rb_act \<Rightarrow> 'a rb_global \<Rightarrow> 'a rb_pc \<Rightarrow> 'a rb_global \<times> 'a rb_pc" where
  "rb_exec (CallPush item) g l = (g, case l of RbIdle \<Rightarrow> PushLoad item | _ \<Rightarrow> l)"
| "rb_exec CallPop g l = (g, case l of RbIdle \<Rightarrow> PopLoad | _ \<Rightarrow> l)"
| "rb_exec (Go spurious) g l = rb_go spurious g l"

definition rb_start :: "size_t \<Rightarrow> 'a \<Rightarrow> 'a rb_global" where
  "rb_start sz d = \<lparr>g_rb = rb_new sz d, g_enq = [], g_deq = 0, g_pushing = {}, g_popping = {}\<rparr>"

definition rb_ginit :: "'a rb_global \<Rightarrow> bool" where
  "rb_ginit g \<longleftrightarrow> (\<exists>sz d. is_pow2 sz \<and> 2 \<le> unat sz \<and> g = rb_start sz d)"

abbreviation rb_reach :: "('a rb_global, 'a rb_pc) config \<Rightarrow> bool" where
  "rb_reach \<equiv> reach rb_exec rb_ginit (\<lambda>_. RbIdle)"

subsection \<open>Assertions\<close>

definition rb_bound :: "'a rb_global \<Rightarrow> bool" where
  "rb_bound g \<longleftrightarrow> length (g_enq g) + rb_N (g_rb g) < 2 ^ 63"

definition rb_G :: "'a rb_global \<Rightarrow> bool" where
  "rb_G g \<longleftrightarrow> is_pow2 (rb_size (g_rb g)) \<and> rb_H (g_rb g) = length (g_enq g) \<and>
     rb_T (g_rb g) = g_deq g \<and>
     ticket_ring (rb_N (g_rb g)) (length (g_enq g)) (g_deq g) (map unat (rb_sequences (g_rb g)))
       (rb_buffer (g_rb g)) (g_enq g) (g_pushing g) (g_popping g)"

abbreviation rb_slot :: "'a rb_global \<Rightarrow> size_t \<Rightarrow> 'a" where
  "rb_slot g pos \<equiv> rb_buffer (g_rb g) ! (unat pos mod rb_N (g_rb g))"

fun rb_L :: "'a rb_global \<Rightarrow> 'a rb_pc \<Rightarrow> bool" where
  "rb_L g (PushCheck item head) = (unat head \<le> length (g_enq g))"
| "rb_L g (PushCas item head) = (unat head \<le> length (g_enq g) \<and>
     (unat head = length (g_enq g) \<longrightarrow> length (g_enq g) < g_deq g + rb_N (g_rb g) \<and>
        \<not> (rb_N (g_rb g) \<le> length (g_enq g) \<and> length (g_enq g) - rb_N (g_rb g) \<in> g_popping g)))"
| "rb_L g (PushWrite item head) = (unat head \<in> g_pushing g \<and> g_enq g ! unat head = item)"
| "rb_L g (PushPublish head) = (unat head \<in> g_pushing g \<and> rb_slot g head = g_enq g ! unat head)"
| "rb_L g (PopCheck tail) = (unat tail \<le> g_deq g)"
| "rb_L g (PopCas tail) = (unat tail \<le> g_deq g \<and>
     (unat tail = g_deq g \<longrightarrow> g_deq g < length (g_enq g) \<and> g_deq g \<notin> g_pushing g))"
| "rb_L g (PopRead tail) = (unat tail \<in> g_popping g \<and> rb_slot g tail = g_enq g ! unat tail)"
| "rb_L g (PopPublish item tail) = (unat tail \<in> g_popping g \<and> item = g_enq g ! unat tail)"
| "rb_L g RbUndefined = False"
| "rb_L g _ = True"

fun push_ticket :: "'a rb_pc \<Rightarrow> size_t option" where
  "push_ticket (PushWrite item head) = Some head"
| "push_ticket (PushPublish head) = Some head"
| "push_ticket _ = None"

fun pop_ticket :: "'a rb_pc \<Rightarrow> size_t option" where
  "pop_ticket (PopRead tail) = Some tail"
| "pop_ticket (PopPublish item tail) = Some tail"
| "pop_ticket _ = None"

definition rb_X :: "'a rb_pc \<Rightarrow> 'a rb_pc \<Rightarrow> bool" where
  "rb_X l m \<longleftrightarrow> (push_ticket l = None \<or> push_ticket l \<noteq> push_ticket m) \<and>
               (pop_ticket l = None \<or> pop_ticket l \<noteq> pop_ticket m)"

subsection \<open>Obligations of the proof rule\<close>

lemma rb_G_D:
  assumes "rb_G g"
  shows "is_pow2 (rb_size (g_rb g))" "rb_H (g_rb g) = length (g_enq g)" "rb_T (g_rb g) = g_deq g"
    and "ticket_ring (rb_N (g_rb g)) (length (g_enq g)) (g_deq g) (map unat (rb_sequences (g_rb g)))
       (rb_buffer (g_rb g)) (g_enq g) (g_pushing g) (g_popping g)"
  using assms by (auto simp: rb_G_def)

lemma rb_exec_size:
  "rb_exec a g l = (g', l') \<Longrightarrow> rb_size (g_rb g') = rb_size (g_rb g) \<and> length (g_enq g) \<le> length (g_enq g')"
  by (cases a; cases l) (auto split: if_splits)

lemma rb_bound_down: "rb_exec a g l = (g', l') \<Longrightarrow> rb_bound g' \<Longrightarrow> rb_bound g"
  using rb_exec_size [of a g l g' l'] by (auto simp: rb_bound_def)

text \<open>The state-changing accesses keep the global invariant.\<close>

lemma rb_G_push_cas:
  assumes G: "rb_G g" and L: "rb_L g (PushCas x h)" and h: "rb_head (g_rb g) = h"
    and B: "length (g_enq g) + 1 + rb_N (g_rb g) < 2 ^ 63"
  shows "rb_G (g\<lparr>g_rb := (g_rb g)\<lparr>rb_head := h + 1\<rparr>, g_enq := g_enq g @ [x],
              g_pushing := insert (unat h) (g_pushing g)\<rparr>)"
proof -
  have uh: "unat h = length (g_enq g)" using rb_G_D(2) [OF G] h by simp
  then have "unat (h + 1) = length (g_enq g) + 1" using B by (simp add: unat_plus_1)
  moreover have "ticket_ring (rb_N (g_rb g)) (length (g_enq g) + 1) (g_deq g)
      (map unat (rb_sequences (g_rb g))) (rb_buffer (g_rb g)) (g_enq g @ [x])
      (insert (length (g_enq g)) (g_pushing g)) (g_popping g)"
    by (rule ring_take_push [OF rb_G_D(4) [OF G]]) (use L uh in auto)
  ultimately show ?thesis using rb_G_D(1-3) [OF G] uh by (simp add: rb_G_def)
qed

lemma rb_G_push_write:
  assumes "rb_G g" "unat h \<in> g_pushing g"
  shows "rb_G (g\<lparr>g_rb := rb_write (g_rb g) h x\<rparr>)"
  using rb_G_D [OF assms(1)] ring_write [OF rb_G_D(4) [OF assms(1)] assms(2), of x]
  by (simp add: rb_G_def rb_index_mod)

lemma rb_G_push_publish:
  assumes G: "rb_G g" and L: "rb_L g (PushPublish h)" and B: "rb_bound g"
  shows "rb_G (g\<lparr>g_rb := rb_publish (g_rb g) h (h + 1), g_pushing := g_pushing g - {unat h}\<rparr>)"
proof -
  have "unat h < length (g_enq g)" using ticket_ringD(7) [OF rb_G_D(4) [OF G]] L by auto
  then have "unat (h + 1) = unat h + 1" using B by (simp add: unat_plus_1 rb_bound_def)
  then show ?thesis
    using rb_G_D [OF G] ring_publish_push [OF rb_G_D(4) [OF G], of "unat h"] L
    by (simp add: rb_G_def rb_map_seq_publish)
qed

lemma rb_G_pop_cas:
  assumes G: "rb_G g" and L: "rb_L g (PopCas t)" and t: "rb_tail (g_rb g) = t" and B: "rb_bound g"
  shows "rb_G (g\<lparr>g_rb := (g_rb g)\<lparr>rb_tail := t + 1\<rparr>, g_deq := g_deq g + 1,
              g_popping := insert (unat t) (g_popping g)\<rparr>)"
proof -
  have ut: "unat t = g_deq g" using rb_G_D(3) [OF G] t by simp
  then have "unat (t + 1) = g_deq g + 1" using B L by (simp add: unat_plus_1 rb_bound_def)
  moreover have "ticket_ring (rb_N (g_rb g)) (length (g_enq g)) (g_deq g + 1)
      (map unat (rb_sequences (g_rb g))) (rb_buffer (g_rb g)) (g_enq g) (g_pushing g)
      (insert (g_deq g) (g_popping g))"
    by (rule ring_take_pop [OF rb_G_D(4) [OF G]]) (use L ut in auto)
  ultimately show ?thesis using rb_G_D(1-3) [OF G] ut by (simp add: rb_G_def)
qed

lemma rb_G_pop_publish:
  assumes G: "rb_G g" and L: "unat t \<in> g_popping g" and B: "rb_bound g"
  shows "rb_G (g\<lparr>g_rb := rb_publish (g_rb g) t (t + rb_mask (g_rb g) + 1),
              g_popping := g_popping g - {unat t}\<rparr>)"
proof -
  have "unat t < length (g_enq g)" using ticket_ringD(5,8) [OF rb_G_D(4) [OF G]] L by fastforce
  then have "unat (t + rb_mask (g_rb g) + 1) = unat t + rb_N (g_rb g)"
    using B by (intro rb_next_seq rb_G_D(1) [OF G]) (simp add: rb_bound_def)
  then show ?thesis
    using rb_G_D [OF G] ring_publish_pop [OF rb_G_D(4) [OF G] L]
    by (simp add: rb_G_def rb_map_seq_publish)
qed

text \<open>The two comparisons, under the global invariant.\<close>

lemma rb_push_check:
  assumes G: "rb_G g" and L: "unat h \<le> length (g_enq g)" and B: "rb_bound g"
  defines "s \<equiv> map unat (rb_sequences (g_rb g)) ! (unat h mod rb_N (g_rb g))"
  shows "snd (rb_go sp g (PushCheck x h)) =
     (if s = unat h then PushCas x h else if s < unat h then PushRet False else PushLoad x)"
  using rb_push_diff [OF rb_G_D(1) [OF G] _ L rb_G_D(4) [OF G]] B
  by (simp add: rb_bound_def s_def del: of_nat_unat)

lemma rb_pop_check:
  assumes G: "rb_G g" and L: "unat t \<le> g_deq g" and B: "rb_bound g"
  defines "s \<equiv> map unat (rb_sequences (g_rb g)) ! (unat t mod rb_N (g_rb g))"
  shows "snd (rb_go sp g (PopCheck t)) =
     (if s = unat t + 1 then PopCas t else if s < unat t + 1 then PopRet None else PopLoad)"
proof -
  have "intptr_sub (rb_seq_at (g_rb g) t) (t + 1) = Some (int s - int (unat t + 1))"
    unfolding s_def using B
    by (intro rb_pop_diff [OF rb_G_D(1) [OF G] _ L rb_G_D(4) [OF G]]) (simp add: rb_bound_def)
  then show ?thesis by (auto simp del: of_nat_unat)
qed

lemma rb_own_push_cas:
  assumes go: "rb_go sp g (PushCas x h) = (g', l')" and B': "rb_bound g'" and G: "rb_G g" and L: "rb_L g (PushCas x h)"
  shows "rb_G g' \<and> rb_L g' l'"
proof (cases "rb_head (g_rb g) = h \<and> \<not> sp")
  case True
  then have "rb_G g'" using go B' G L by (auto simp: rb_bound_def intro!: rb_G_push_cas)
  then show ?thesis using go True rb_G_D(2) [OF G] by (auto simp: nth_append)
next
  case False
  then show ?thesis using go G rb_G_D(2) [OF G] by auto
qed

lemma rb_own_pop_cas:
  assumes go: "rb_go sp g (PopCas t) = (g', l')" and B: "rb_bound g" and G: "rb_G g" and L: "rb_L g (PopCas t)"
  shows "rb_G g' \<and> rb_L g' l'"
proof (cases "rb_tail (g_rb g) = t \<and> \<not> sp")
  case True
  then have "rb_G g'" using rb_G_pop_cas [OF G L _ B] go by auto
  moreover have "rb_slot g t = g_enq g ! unat t"
    using ticket_ringD(10) [OF rb_G_D(4) [OF G], of "g_deq g"] True L rb_G_D(3) [OF G] by auto
  ultimately show ?thesis using go True by auto
next
  case False
  then show ?thesis using go G rb_G_D(3) [OF G] by auto
qed

lemma rb_own_step:
  assumes ex: "rb_exec a g l = (g', l')" and B': "rb_bound g'" and G: "rb_G g" and L: "rb_L g l"
  shows "rb_G g' \<and> rb_L g' l'"
proof -
  note B = rb_bound_down [OF ex B'] and r = rb_G_D(4) [OF G]
  show ?thesis
  proof (cases a)
    case (Go sp)
    with ex have go: "rb_go sp g l = (g', l')" by simp
    show ?thesis
    proof (cases l)
      case (PushCheck x h)
      have g: "g' = g" using go by (simp add: PushCheck)
      have Lh: "unat h \<le> length (g_enq g)" using L PushCheck by simp
      have l': "l' = snd (rb_go sp g (PushCheck x h))" using go unfolding PushCheck by (metis snd_conv)
      show ?thesis
        using G ring_push_free [OF r] Lh unfolding g l' rb_push_check [OF G Lh B] by auto
    next
      case (PushCas x h)
      then show ?thesis using rb_own_push_cas [OF _ B' G] go L by simp
    next
      case (PushWrite x h)
      have "unat h mod rb_N (g_rb g) < length (rb_buffer (g_rb g))"
        using ticket_ringD(1,3) [OF r] by simp
      then show ?thesis
        using go PushWrite L rb_G_push_write [OF G] rb_G_D(1) [OF G] by (auto simp: rb_index_mod)
    next
      case (PushPublish h)
      then show ?thesis using go L rb_G_push_publish [OF G _ B] by auto
    next
      case (PopCheck t)
      have g: "g' = g" using go by (simp add: PopCheck)
      have Lt: "unat t \<le> g_deq g" using L PopCheck by simp
      have l': "l' = snd (rb_go sp g (PopCheck t))" using go unfolding PopCheck by (metis snd_conv)
      show ?thesis
        using G ring_pop_ready [OF r] Lt unfolding g l' rb_pop_check [OF G Lt B] by auto
    next
      case (PopCas t)
      then show ?thesis using rb_own_pop_cas [OF _ B G] go L by simp
    next
      case (PopRead t)
      then show ?thesis using go L G rb_G_D(1) [OF G] by (auto simp: rb_index_mod)
    next
      case (PopPublish x t)
      then show ?thesis using go L rb_G_pop_publish [OF G _ B] by auto
    qed (use go G L rb_G_D(2,3) [OF G] in auto)
  qed (use ex G L in \<open>auto split: rb_pc.splits\<close>)
qed

text \<open>No access of one thread breaks the assertion of another, and tickets stay unique.\<close>

lemma rb_L_frame:
  assumes "g_enq g' = g_enq g" "g_deq g' = g_deq g" "rb_size (g_rb g') = rb_size (g_rb g)"
    and "\<And>k. push_ticket m = Some k \<Longrightarrow> unat k \<in> g_pushing g \<Longrightarrow> unat k \<in> g_pushing g'"
    and "\<And>k. pop_ticket m = Some k \<Longrightarrow> unat k \<in> g_popping g \<Longrightarrow> unat k \<in> g_popping g'"
    and "g_pushing g' \<subseteq> g_pushing g" "g_popping g' \<subseteq> g_popping g"
    and "\<And>k. push_ticket m = Some k \<or> pop_ticket m = Some k \<Longrightarrow> rb_L g m \<Longrightarrow> rb_slot g' k = rb_slot g k"
    and "rb_L g m"
  shows "rb_L g' m"
  using assms by (cases m) auto

lemma rb_L_push_cas:
  assumes G: "rb_G g" and m: "rb_L g m"
  shows "rb_L (g\<lparr>g_rb := (g_rb g)\<lparr>rb_head := h + 1\<rparr>, g_enq := g_enq g @ [x],
              g_pushing := insert (length (g_enq g)) (g_pushing g)\<rparr>) m"
proof -
  note r = rb_G_D(4) [OF G]
  have P: "k < length (g_enq g)" if "k \<in> g_pushing g" for k using ticket_ringD(7) [OF r that] by simp
  have Q: "k < length (g_enq g)" if "k \<in> g_popping g" for k
    using ticket_ringD(5,8) [OF r] that by fastforce
  show ?thesis using m P Q by (cases m) (auto simp: nth_append)
qed

lemma rb_L_pop_cas:
  assumes G: "rb_G g" and m: "rb_L g m" and T: "g_deq g < length (g_enq g)"
  shows "rb_L (g\<lparr>g_rb := (g_rb g)\<lparr>rb_tail := t + 1\<rparr>, g_deq := g_deq g + 1,
              g_popping := insert (g_deq g) (g_popping g)\<rparr>) m"
  using m T by (cases m) auto

lemma rb_X_sym: "rb_X l m \<Longrightarrow> rb_X m l"
  by (auto simp: rb_X_def)

lemma rb_tickets_in_flight:
  "rb_L g m \<Longrightarrow> push_ticket m = Some k \<Longrightarrow> unat k \<in> g_pushing g"
  "rb_L g m \<Longrightarrow> pop_ticket m = Some k \<Longrightarrow> unat k \<in> g_popping g"
  by (cases m; auto)+

lemma rb_other_cas:
  assumes G: "rb_G g" and m: "rb_L g m" and X: "rb_X l m"
  shows "rb_go sp g (PushCas x h) = (g', l') \<Longrightarrow> l = PushCas x h \<Longrightarrow> rb_L g' m \<and> rb_X l' m"
    and "rb_go sp g (PopCas t) = (g', l') \<Longrightarrow> l = PopCas t \<Longrightarrow> rb_L g l \<Longrightarrow> rb_L g' m \<and> rb_X l' m"
proof -
  note r = rb_G_D(4) [OF G]
  assume go: "rb_go sp g (PushCas x h) = (g', l')"
  show "rb_L g' m \<and> rb_X l' m"
  proof (cases "rb_head (g_rb g) = h \<and> \<not> sp")
    case True
    then have uh: "unat h = length (g_enq g)" using rb_G_D(2) [OF G] by simp
    have "push_ticket m \<noteq> Some h"
      using rb_tickets_in_flight(1) [OF m] ticket_ringD(7) [OF r] uh by fastforce
    then show ?thesis
      using go True rb_L_push_cas [OF G m, where h = h and x = x] uh by (auto simp: rb_X_def)
  qed (use go m in \<open>auto simp: rb_X_def\<close>)
next
  note r = rb_G_D(4) [OF G]
  assume go: "rb_go sp g (PopCas t) = (g', l')" "l = PopCas t" "rb_L g l"
  show "rb_L g' m \<and> rb_X l' m"
  proof (cases "rb_tail (g_rb g) = t \<and> \<not> sp")
    case True
    then have ut: "unat t = g_deq g" using rb_G_D(3) [OF G] by simp
    have "pop_ticket m \<noteq> Some t"
      using rb_tickets_in_flight(2) [OF m] ticket_ringD(8) [OF r] ut by fastforce
    then show ?thesis using go True rb_L_pop_cas [OF G m, of t] ut by (auto simp: rb_X_def)
  qed (use go m in \<open>auto simp: rb_X_def\<close>)
qed

lemma rb_other_write:
  assumes G: "rb_G g" and L: "rb_L g (PushWrite x h)" and m: "rb_L g m" and X: "rb_X (PushWrite x h) m"
  shows "rb_L (g\<lparr>g_rb := rb_write (g_rb g) h x\<rparr>) m"
proof -
  note r = rb_G_D(4) [OF G]
  let ?g' = "g\<lparr>g_rb := rb_write (g_rb g) h x\<rparr>"
  have other: "rb_slot ?g' k = rb_slot g k" if "push_ticket m = Some k \<or> pop_ticket m = Some k" for k
  proof -
    have "unat k \<in> g_pushing g \<union> g_popping g" using rb_tickets_in_flight [OF m] that by blast
    moreover have "unat h \<noteq> unat k"
      using that
    proof
      assume "push_ticket m = Some k"
      then show ?thesis using X by (auto simp: rb_X_def word_unat_eq_iff)
    next
      assume "pop_ticket m = Some k"
      then show ?thesis using rb_tickets_in_flight(2) [OF m] ticket_ringD(7,8) [OF r] L by fastforce
    qed
    ultimately have "unat h mod rb_N (g_rb g) \<noteq> unat k mod rb_N (g_rb g)"
      using ring_slots_distinct [OF r, of "unat h" "unat k"] L by auto
    then show ?thesis using rb_G_D(1) [OF G] by (auto simp: rb_index_mod)
  qed
  show ?thesis by (rule rb_L_frame [OF _ _ _ _ _ _ _ _ m]) (use other in auto)
qed

lemma rb_other_step:
  assumes ex: "rb_exec a g l = (g', l')" and B': "rb_bound g'" and G: "rb_G g" and L: "rb_L g l"
    and m: "rb_L g m" and X: "rb_X l m"
  shows "rb_L g' m \<and> rb_X l' m"
proof (cases a)
  case (Go sp)
  from Go ex have go: "rb_go sp g l = (g', l')" by simp
  show ?thesis
  proof (cases l)
    case (PushCheck x h)
    then show ?thesis using go m X by (auto simp: rb_X_def split: option.splits if_splits)
  next
    case (PushCas x h)
    then show ?thesis using rb_other_cas(1) [OF G m X] go by simp
  next
    case (PushWrite x h)
    then show ?thesis using go X rb_other_write [OF G _ m, of x h] L by (auto simp: rb_X_def)
  next
    case (PushPublish h)
    have "rb_L g' m"
      by (rule rb_L_frame [OF _ _ _ _ _ _ _ _ m]) (use go PushPublish X in \<open>auto simp: rb_X_def word_unat_eq_iff\<close>)
    then show ?thesis using go PushPublish X by (auto simp: rb_X_def)
  next
    case (PopCheck t)
    then show ?thesis using go m X by (auto simp: rb_X_def split: option.splits if_splits)
  next
    case (PopCas t)
    then show ?thesis using rb_other_cas(2) [OF G m X] go L by simp
  next
    case (PopPublish x t)
    have "rb_L g' m"
      by (rule rb_L_frame [OF _ _ _ _ _ _ _ _ m]) (use go PopPublish X in \<open>auto simp: rb_X_def word_unat_eq_iff\<close>)
    then show ?thesis using go PopPublish X by (auto simp: rb_X_def)
  qed (use go m X in \<open>auto simp: rb_X_def\<close>)
qed (use ex m X in \<open>auto simp: rb_X_def split: rb_pc.splits\<close>)

text \<open>The slot position a thread owns, between its compare-exchange and its release store.\<close>

definition rb_owns :: "'a rb_pc \<Rightarrow> size_t option" where
  "rb_owns l = (case push_ticket l of Some h \<Rightarrow> Some h | None \<Rightarrow> pop_ticket l)"

lemma rb_owned_slots:
  assumes G: "rb_G g" and L: "rb_L g l" "rb_L g m" "rb_X l m" and "rb_owns l = Some h" "rb_owns m = Some k"
  shows "unat h mod rb_N (g_rb g) \<noteq> unat k mod rb_N (g_rb g)"
proof -
  note r = rb_G_D(4) [OF G]
  have own: "unat h \<in> g_pushing g \<and> push_ticket l = Some h \<or> unat h \<in> g_popping g \<and> pop_ticket l = Some h"
    if "rb_L g l" "rb_owns l = Some h" for l h
    using that rb_tickets_in_flight [OF that(1)] by (auto simp: rb_owns_def split: option.splits)
  have disj: "g_pushing g \<inter> g_popping g = {}" using ticket_ringD(7,8) [OF r] by fastforce
  have "unat h \<noteq> unat k"
    using own [OF L(1) assms(5)] own [OF L(2) assms(6)] disj L(3) by (auto simp: rb_X_def word_unat_eq_iff)
  then show ?thesis
    using ring_slots_distinct [OF r, of "unat h" "unat k"] own [OF L(1) assms(5)] own [OF L(2) assms(6)] by auto
qed

subsection \<open>The abstract queue\<close>

text \<open>
  The abstract state of the ring is the list of items whose ticket no consumer has taken yet. An operation
  takes effect at the compare-exchange that hands out its ticket, or when it gives up; the item that a consumer
  will return is fixed by its ticket.
\<close>

definition rb_abs :: "'a rb_global \<Rightarrow> nat \<times> 'a list" where
  "rb_abs g = (rb_N (g_rb g), drop (g_deq g) (g_enq g))"

fun rb_status :: "'a rb_global \<Rightarrow> 'a rb_pc \<Rightarrow> ('a queue_op, 'a queue_res) status" where
  "rb_status g (PushLoad item) = Called (Enqueue item)"
| "rb_status g (PushCheck item head) = Called (Enqueue item)"
| "rb_status g (PushCas item head) = Called (Enqueue item)"
| "rb_status g (PushWrite item head) = Answered (Enqueued True)"
| "rb_status g (PushPublish head) = Answered (Enqueued True)"
| "rb_status g (PushRet b) = Answered (Enqueued b)"
| "rb_status g PopLoad = Called Dequeue"
| "rb_status g (PopCheck tail) = Called Dequeue"
| "rb_status g (PopCas tail) = Called Dequeue"
| "rb_status g (PopRead tail) = Answered (Dequeued (Some (g_enq g ! unat tail)))"
| "rb_status g (PopPublish item tail) = Answered (Dequeued (Some item))"
| "rb_status g (PopRet r) = Answered (Dequeued r)"
| "rb_status g _ = Ready"

text \<open>What the callers see: an idle thread that starts an operation, and the return with its result.\<close>

fun rb_obs :: "'a rb_pc \<Rightarrow> 'a rb_pc \<Rightarrow> ('a queue_op, 'a queue_res) label option" where
  "rb_obs RbIdle (PushLoad item) = Some (Invoke (Enqueue item))"
| "rb_obs RbIdle PopLoad = Some (Invoke Dequeue)"
| "rb_obs (PushRet b) RbIdle = Some (Respond (Enqueued b))"
| "rb_obs (PopRet r) RbIdle = Some (Respond (Dequeued r))"
| "rb_obs _ _ = None"

lemmas rb_move_intros = lin_move.stutter lin_move.call lin_move.return lin_move.effect
  lin_move.effect [of queue_spec, OF queue_spec.enqueue_fails] lin_move.effect [of queue_spec, OF queue_spec.dequeue_fails]

lemma rb_status_move:
  assumes ex: "rb_exec a g l = (g', l')" and B: "rb_bound g'" and G: "rb_G g" and L: "rb_L g l"
  shows "lin_move queue_spec (rb_abs g, rb_status g l) (rb_obs l l') (rb_abs g', rb_status g' l')"
proof -
  note r = rb_G_D(4) [OF G]
  have push: "queue_spec (rb_abs g) (Enqueue x) (Enqueued True) (rb_N (g_rb g), drop (g_deq g) (g_enq g @ [x]))"
    if "length (g_enq g) < g_deq g + rb_N (g_rb g)" for x
    unfolding rb_abs_def using that ticket_ringD(5) [OF r] by (intro queue_spec_enq_drop)
  have pop: "queue_spec (rb_abs g) Dequeue (Dequeued (Some (g_enq g ! g_deq g))) (rb_N (g_rb g), drop (Suc (g_deq g)) (g_enq g))"
    if "g_deq g < length (g_enq g)"
    using that queue_spec_deq_drop by (auto simp: rb_abs_def)
  show ?thesis
  proof (cases a)
    case (CallPush x)
    then show ?thesis using ex by (cases l) (auto intro: rb_move_intros)
  next
    case CallPop
    then show ?thesis using ex by (cases l) (auto intro: rb_move_intros)
  next
    case (Go sp)
    show ?thesis
    proof (cases l)
      case (PushCheck x h)
      have "g' = g \<and> l' \<in> {PushCas x h, PushRet False, PushLoad x}"
        using rb_push_check [OF G, of h] rb_own_step [OF ex B G L] ex Go PushCheck by (auto split: if_splits option.splits)
      then show ?thesis using PushCheck by (auto simp: rb_abs_def intro: rb_move_intros)
    next
      case (PopCheck k)
      have "g' = g \<and> l' \<in> {PopCas k, PopRet None, PopLoad}"
        using rb_own_step [OF ex B G L] ex Go PopCheck by (auto split: if_splits option.splits)
      then show ?thesis using PopCheck by (auto simp: rb_abs_def intro: rb_move_intros)
    next
      case (PushCas x h)
      then show ?thesis using ex L Go push [of x] rb_G_D(2) [OF G] by (auto simp: rb_abs_def split: if_splits intro: rb_move_intros)
    next
      case (PopCas k)
      then show ?thesis using ex L Go pop rb_G_D(3) [OF G] by (auto simp: rb_abs_def split: if_splits intro: rb_move_intros)
    next
      case (PopRead k)
      then show ?thesis using ex L Go rb_G_D(1) [OF G] by (auto simp: rb_abs_def rb_index_mod intro: rb_move_intros)
    qed (use ex L Go in \<open>auto simp: rb_abs_def intro: rb_move_intros\<close>)
  qed
qed

lemma rb_enq_grows: "rb_exec a g l = (g', l') \<Longrightarrow> i < length (g_enq g) \<Longrightarrow> g_enq g' ! i = g_enq g ! i"
  by (cases a; cases l) (auto simp: nth_append split: if_splits)

lemma rb_status_stable:
  assumes "rb_exec a g l = (g', l')" "rb_G g" "rb_L g m"
  shows "rb_status g' m = rb_status g m"
proof (cases m)
  case (PopRead k)
  then have "unat k < length (g_enq g)" using assms(3) ticket_ringD(5,8) [OF rb_G_D(4) [OF assms(2)]] by fastforce
  then show ?thesis using PopRead rb_enq_grows [OF assms(1)] by simp
qed auto

interpretation rb_og: og_linearizable rb_exec rb_ginit "\<lambda>_. RbIdle" rb_bound rb_G rb_L rb_X rb_abs queue_spec rb_status rb_obs
proof
  show "rb_G g" if "rb_ginit g" "rb_bound g" for g :: "'a rb_global"
  proof -
    from that obtain sz d where g: "g = rb_start sz d" and p: "is_pow2 sz" "2 \<le> unat sz"
      by (auto simp: rb_ginit_def)
    have "map unat (map word_of_nat [0..<unat sz] :: size_t list) = [0..<unat sz]"
      using unat_less_64 [of sz] by (auto simp: unat_of_nat intro!: map_idI)
    then show ?thesis
      using p ticket_ring_init [of "unat sz" "replicate (unat sz) d"]
      by (simp add: g rb_G_def rb_start_def rb_new_def)
  qed
  show "rb_X RbIdle RbIdle" by (simp add: rb_X_def)
  show "rb_L g RbIdle" "rb_status g RbIdle = Ready" for g :: "'a rb_global" by simp_all
qed (fact rb_bound_down rb_X_sym rb_own_step rb_other_step rb_status_move | (rule rb_status_stable; assumption))+

text \<open>Every ticket in flight has a thread that holds it, and a ring without such tickets is the sequential one.\<close>

lemma rb_tickets_owned:
  assumes "rb_reach c"
  shows "(\<forall>k \<in> g_pushing (fst c). \<exists>t. map_option unat (push_ticket (snd c t)) = Some k) \<and>
         (\<forall>k \<in> g_popping (fst c). \<exists>t. map_option unat (pop_ticket (snd c t)) = Some k)"
  using assms
proof (induction rule: reach.induct)
  case (start g)
  then show ?case by (auto simp: rb_ginit_def rb_start_def)
next
  case (step c e)
  obtain t a g ls where e: "e = (t, a)" "c = (g, ls)" by (metis surj_pair)
  obtain g' l' where ex: "rb_exec a g (ls t) = (g', l')" by (cases "rb_exec a g (ls t)")
  have own: "k \<in> g_pushing g' \<Longrightarrow> map_option unat (push_ticket l') = Some k \<or>
        k \<in> g_pushing g \<and> map_option unat (push_ticket (ls t)) \<noteq> Some k \<or> k \<in> g_pushing g \<and> push_ticket l' = push_ticket (ls t)"
    "k \<in> g_popping g' \<Longrightarrow> map_option unat (pop_ticket l') = Some k \<or>
        k \<in> g_popping g \<and> map_option unat (pop_ticket (ls t)) \<noteq> Some k \<or> k \<in> g_popping g \<and> pop_ticket l' = pop_ticket (ls t)" for k
    using ex by (cases a; cases "ls t"; auto split: if_splits option.splits)+
  then show ?case using step.IH unfolding e sys_step_eq ex by (auto; metis fun_upd_apply)
qed

lemma rb_quiet:
  assumes "rb_G g" "rb_bound g" "g_pushing g = {}" "g_popping g = {}"
  shows "rb_invar (g_rb g)" "rb_contents (g_rb g) = drop (g_deq g) (g_enq g)"
proof -
  note r = rb_G_D(4) [OF assms(1), unfolded assms(3,4)]
  show "rb_invar (g_rb g)"
    using r rb_G_D(1-3) [OF assms(1)] assms(2) by (auto simp: rb_invar_def rb_in_range_def rb_bound_def)
  show "rb_contents (g_rb g) = drop (g_deq g) (g_enq g)"
    using ring_quiet_contents [OF r] rb_G_D(2,3) [OF assms(1)] by (simp add: rb_contents_def)
qed

subsection \<open>A thread running alone\<close>

lemma solo_idle [simp]: "solo rb_exec (Go sp) n g RbIdle = (g, RbIdle)"
  by (induction n) auto

lemma solo_Suc_go:
  "solo rb_exec (Go sp) (Suc n) g l = solo rb_exec (Go sp) n (fst (rb_go sp g l)) (snd (rb_go sp g l))"
  by (simp split: prod.split)

lemma rb_fresh_push:
  assumes "rb_G g" "rb_bound g"
  shows "snd (rb_go sp g (PushCheck x (rb_head (g_rb g)))) \<in> {PushCas x (rb_head (g_rb g)), PushRet False}"
  using rb_push_check [OF assms(1) _ assms(2), of "rb_head (g_rb g)" sp x] rb_G_D(2) [OF assms(1)]
    ring_seq_le_head [OF rb_G_D(4) [OF assms(1)]] by auto

lemma rb_fresh_pop:
  assumes "rb_G g" "rb_bound g"
  shows "snd (rb_go sp g (PopCheck (rb_tail (g_rb g)))) \<in> {PopCas (rb_tail (g_rb g)), PopRet None}"
  using rb_pop_check [OF assms(1) _ assms(2), of "rb_tail (g_rb g)" sp] rb_G_D(3) [OF assms(1)]
    ring_seq_le_tail [OF rb_G_D(4) [OF assms(1)]] by auto

text \<open>Steps to the end of the operation, counted back from its last program point.\<close>

lemma rb_solo_finish:
  "snd (solo rb_exec (Go False) (Suc n) g (PushRet b)) = RbIdle"
  "snd (solo rb_exec (Go False) (3 + n) g (PushWrite x h)) = RbIdle"
  "snd (solo rb_exec (Go False) (2 + n) g (PushPublish h)) = RbIdle"
  "rb_head (g_rb g) = h \<Longrightarrow> snd (solo rb_exec (Go False) (4 + n) g (PushCas x h)) = RbIdle"
  "snd (solo rb_exec (Go False) (Suc n) g (PopRet r)) = RbIdle"
  "snd (solo rb_exec (Go False) (3 + n) g (PopRead t)) = RbIdle"
  "snd (solo rb_exec (Go False) (2 + n) g (PopPublish x t)) = RbIdle"
  "rb_tail (g_rb g) = t \<Longrightarrow> snd (solo rb_exec (Go False) (4 + n) g (PopCas t)) = RbIdle"
  by (auto simp: numeral_eq_Suc split: prod.splits)

lemma rb_solo_fresh:
  assumes "rb_G g" "rb_bound g"
  shows "snd (solo rb_exec (Go False) (5 + n) g (PushCheck x (rb_head (g_rb g)))) = RbIdle"
    and "snd (solo rb_exec (Go False) (5 + n) g (PopCheck (rb_tail (g_rb g)))) = RbIdle"
proof -
  have "5 + n = Suc (4 + n)" by simp
  then show "snd (solo rb_exec (Go False) (5 + n) g (PushCheck x (rb_head (g_rb g)))) = RbIdle"
    using rb_fresh_push [OF assms, of False x] rb_solo_finish(1) [of "3 + n" g False]
      rb_solo_finish(4) [OF refl, of n g x]
    by (auto simp: solo_Suc_go numeral_eq_Suc simp del: solo.simps)
  show "snd (solo rb_exec (Go False) (5 + n) g (PopCheck (rb_tail (g_rb g)))) = RbIdle"
    using rb_fresh_pop [OF assms, of False] rb_solo_finish(5) [of "3 + n" g None]
      rb_solo_finish(8) [OF refl, of n g]
    by (auto simp: solo_Suc_go numeral_eq_Suc simp del: solo.simps)
qed

subsection \<open>Properties of all interleavings\<close>

lemma rb_reach_run:
  assumes "is_pow2 sz" "2 \<le> unat sz"
  shows "rb_reach (run rb_exec (rb_start sz d, \<lambda>_. RbIdle) es)"
  by (rule reach_run_init) (use assms in \<open>auto simp: rb_ginit_def\<close>)

text \<open>Concrete schedules of a ring of two slots, for the witnesses.\<close>

definition rb_demo :: "(tid \<times> nat rb_act) list \<Rightarrow> (nat rb_global, nat rb_pc) config" where
  "rb_demo es = run rb_exec (rb_start 2 0, \<lambda>_. RbIdle) es"

lemma rb_demo_reach: "rb_reach (fst (rb_demo es), snd (rb_demo es))"
  unfolding prod.collapse rb_demo_def by (rule rb_reach_run) (simp_all add: is_pow2_def)

lemmas rb_eval = rb_demo_def sys_step_def rb_start_def rb_new_def rb_seq_at_def rb_index_def
  rb_mask_def rb_publish_def rb_write_def intptr_sub_def rb_bound_def rb_abs_def

definition rb_sched_pop :: "(tid \<times> nat rb_act) list" where
  "rb_sched_pop = [(0, CallPush 5), (0, Go False), (0, Go False), (0, Go False), (0, Go False),
     (0, Go False), (1, CallPop), (1, Go False), (1, Go False), (1, Go False), (1, Go False)]"

definition rb_sched_two :: "(tid \<times> nat rb_act) list" where
  "rb_sched_two = [(0, CallPush 5), (1, CallPush 6), (0, Go False), (0, Go False), (0, Go False),
      (1, Go False), (1, Go False), (1, Go False)]"

definition rb_sched_gap :: "(tid \<times> nat rb_act) list" where
  "rb_sched_gap = [(0, CallPush 5), (0, Go False), (0, Go False), (0, Go False), (1, CallPop),
     (1, Go False)]"

lemma rb_demo_pop:
  "rb_bound (fst (rb_demo rb_sched_pop))" "snd (rb_demo rb_sched_pop) 1 = PopPublish 5 0"
  "g_enq (fst (rb_demo rb_sched_pop)) = [5]" "g_deq (fst (rb_demo rb_sched_pop)) = 1"
  by (simp_all add: rb_eval rb_sched_pop_def)

lemma rb_demo_two:
  "rb_bound (fst (rb_demo rb_sched_two))" "rb_owns (snd (rb_demo rb_sched_two) 0) = Some 0"
  "rb_owns (snd (rb_demo rb_sched_two) 1) = Some 1"
  by (simp_all add: rb_eval rb_sched_two_def rb_owns_def)

lemma rb_demo_gap:
  "rb_bound (fst (rb_demo rb_sched_gap))" "snd (rb_demo rb_sched_gap) 1 = PopCheck 0"
  "snd (rb_go False (fst (rb_demo rb_sched_gap)) (snd (rb_demo rb_sched_gap) 1)) = PopRet None"
  "snd (rb_abs (fst (rb_demo rb_sched_gap))) = [5]"
  by (simp_all add: rb_eval rb_sched_gap_def)

text \<open>
  Linearizability of the ring buffer: whatever the schedule of producers and consumers, the calls with their results are
  those of an atomic bounded queue.
\<close>

theorem rb_linearizable:
  assumes "is_pow2 sz" "2 \<le> unat sz"
    and "run rb_exec (rb_start sz d, \<lambda>_. RbIdle) es = (g, ls)" "rb_bound g"
  shows "linearizable queue_spec (unat sz, []) (history rb_obs rb_exec (rb_start sz d, \<lambda>_. RbIdle) es) (rb_abs g)"
proof -
  have "rb_ginit (rb_start sz d)" "rb_abs (rb_start sz d) = (unat sz, [])"
    using assms(1,2) by (auto simp: rb_ginit_def rb_abs_def rb_start_def rb_new_def)
  then show ?thesis using rb_og.run_linearizable [OF _ assms(3,4)] by simp
qed

text \<open>
  Every consumer that is about to hand over a value hands over the item pushed under its own
  ticket: the \<open>k\<close>-th successful \<^verbatim>\<open>try_pop\<close> returns the item of the \<open>k\<close>-th successful \<^verbatim>\<open>try_push\<close>, and no
  two threads hold the same ticket, so no item is lost or returned twice.
\<close>

theorem rb_pop_returns_ticket_item:
  assumes "rb_reach (g, ls)" "rb_bound g" "ls t = PopPublish v k"
  shows "unat k < g_deq g \<and> v = g_enq g ! unat k \<and> unat k < length (g_enq g) \<and>
           (\<forall>u. pop_ticket (ls u) = Some k \<longrightarrow> u = t)"
proof -
  have L: "rb_L g (PopPublish v k)" using rb_og.reach_L [OF assms(1,2), of t] assms(3) by simp
  note r = rb_G_D(4) [OF rb_og.reach_G [OF assms(1,2)]]
  have "u = t" if "pop_ticket (ls u) = Some k" for u
    using rb_og.reach_X [OF assms(1,2), of u t] that assms(3) by (auto simp: rb_X_def)
  then show ?thesis using L ticket_ringD(5,8) [OF r] by fastforce
qed

theorem rb_pop_returns_ticket_item_witness:
  "snd (rb_demo rb_sched_pop) 1 = PopPublish 5 (0::size_t) \<and> g_enq (fst (rb_demo rb_sched_pop)) ! 0 = 5 \<and>
   pop_ticket (snd (rb_demo rb_sched_pop) 0) \<noteq> Some 0"
  using rb_pop_returns_ticket_item [OF rb_demo_reach rb_demo_pop(1,2)] rb_demo_pop(2) by auto

text \<open>
  Data-race freedom of \<^verbatim>\<open>buffer_\<close>: two threads that own a slot at the same time (between their
  compare-exchange and their release store, where the plain reads and writes of the buffer are)
  own different slots, and the slots exist.
\<close>

theorem rb_slot_exclusive:
  assumes "rb_reach (g, ls)" "rb_bound g" "t \<noteq> u" "rb_owns (ls t) = Some h" "rb_owns (ls u) = Some k"
  shows "rb_index (g_rb g) h \<noteq> rb_index (g_rb g) k \<and> rb_index (g_rb g) h < length (rb_buffer (g_rb g))"
proof -
  note G = rb_og.reach_G [OF assms(1,2)]
  have "unat h mod rb_N (g_rb g) \<noteq> unat k mod rb_N (g_rb g)"
    using rb_owned_slots [OF G rb_og.reach_L [OF assms(1,2)] rb_og.reach_L [OF assms(1,2)] rb_og.reach_X [OF assms(1,2,3)] assms(4,5)] .
  then show ?thesis using ticket_ringD(1,3) [OF rb_G_D(4) [OF G]] rb_G_D(1) [OF G] by (simp add: rb_index_mod)
qed

theorem rb_slot_exclusive_witness:
  "rb_owns (snd (rb_demo rb_sched_two) 0) = Some 0 \<and> rb_owns (snd (rb_demo rb_sched_two) 1) = Some 1 \<and>
   rb_index (g_rb (fst (rb_demo rb_sched_two))) 0 \<noteq> rb_index (g_rb (fst (rb_demo rb_sched_two))) 1"
  using rb_slot_exclusive [OF rb_demo_reach rb_demo_two(1) _ rb_demo_two(2,3)] rb_demo_two(2,3) by simp

text \<open>A push or pop that gives up has seen a ring that was full or empty at that moment.\<close>

lemma rb_push_gives_up:
  assumes G: "rb_G g" and B: "rb_bound g" and L: "rb_L g (PushCheck x h)" and "snd (rb_go sp g (PushCheck x h)) = PushRet False"
  shows "unat h = length (g_enq g)"
    "length (snd (rb_abs g)) = rb_N (g_rb g) \<or> rb_N (g_rb g) \<le> unat h \<and> unat h - rb_N (g_rb g) \<in> g_popping g"
proof -
  note r = rb_G_D(4) [OF G]
  have h: "unat h \<le> length (g_enq g)" and lt: "map unat (rb_sequences (g_rb g)) ! (unat h mod rb_N (g_rb g)) < unat h"
    using L assms(4) rb_push_check [OF G _ B, of h sp x] by (auto split: if_splits)
  show uh: "unat h = length (g_enq g)" using h lt ring_seq_ge_stale [OF r, of "unat h"] by linarith
  with lt show "length (snd (rb_abs g)) = rb_N (g_rb g) \<or> rb_N (g_rb g) \<le> unat h \<and> unat h - rb_N (g_rb g) \<in> g_popping g"
    using ring_push_full [OF r] by (auto simp: rb_abs_def)
qed

lemma rb_pop_gives_up:
  assumes G: "rb_G g" and B: "rb_bound g" and L: "rb_L g (PopCheck k)" and "snd (rb_go sp g (PopCheck k)) = PopRet None"
  shows "unat k = g_deq g" "snd (rb_abs g) = [] \<or> unat k \<in> g_pushing g"
proof -
  note r = rb_G_D(4) [OF G]
  have k: "unat k \<le> g_deq g" and lt: "map unat (rb_sequences (g_rb g)) ! (unat k mod rb_N (g_rb g)) < unat k + 1"
    using L assms(4) rb_pop_check [OF G _ B, of k sp] by (auto split: if_splits)
  show uk: "unat k = g_deq g" using k lt ring_seq_gt_stale [OF r, of "unat k"] by linarith
  with lt show "snd (rb_abs g) = [] \<or> unat k \<in> g_pushing g" using ring_pop_empty [OF r] by (auto simp: rb_abs_def)
qed

text \<open>
  \<^verbatim>\<open>try_push\<close> reports "full" only if, when it read the slot, \<^verbatim>\<open>Size\<close> items were queued, or the consumer of the
  ticket \<^verbatim>\<open>Size\<close> places back, the previous user of the slot, had not released it.
  \<^verbatim>\<open>try_pop\<close> reports "empty" only if nothing was queued, or the producer of the oldest ticket had not
  published its item.
\<close>

theorem rb_failure_justified:
  assumes "rb_reach (g, ls)" "rb_bound g"
  shows "(ls t = PushCheck x h \<and> snd (rb_go sp g (ls t)) = PushRet False \<longrightarrow>
            unat h = length (g_enq g) \<and>
            (length (snd (rb_abs g)) = rb_N (g_rb g) \<or>
             rb_N (g_rb g) \<le> unat h \<and> unat h - rb_N (g_rb g) \<in> g_popping g)) \<and>
         (ls t = PopCheck k \<and> snd (rb_go sp g (ls t)) = PopRet None \<longrightarrow>
            unat k = g_deq g \<and> (snd (rb_abs g) = [] \<or> unat k \<in> g_pushing g))"
  using rb_push_gives_up [OF rb_og.reach_G [OF assms] assms(2)] rb_pop_gives_up [OF rb_og.reach_G [OF assms] assms(2)]
    rb_og.reach_L [OF assms, of t] by metis

theorem rb_failure_justified_witness:
  "snd (rb_demo rb_sched_gap) 1 = PopCheck 0 \<and> snd (rb_abs (fst (rb_demo rb_sched_gap))) = [5] \<and>
   snd (rb_go False (fst (rb_demo rb_sched_gap)) (snd (rb_demo rb_sched_gap) 1)) = PopRet None \<and>
   0 \<in> g_pushing (fst (rb_demo rb_sched_gap))"
  using rb_failure_justified [OF rb_demo_reach rb_demo_gap(1), of 1 0 0 False 0] rb_demo_gap(2-4)
  by simp

lemma rb_obstruction_free_gen:
  assumes "rb_reach (g, ls)" "rb_bound g"
  shows "snd (solo rb_exec (Go False) 7 g (ls t)) = RbIdle"
proof -
  note G = rb_og.reach_G [OF assms] and L = rb_og.reach_L [OF assms, of t] and B = assms(2)
  have cas: "snd (solo rb_exec (Go False) 6 g (PushCas x h)) = RbIdle" for x h
    using rb_solo_finish(4) [of g h 2 x] rb_solo_fresh(1) [OF G B, of 0 x]
    by (cases "rb_head (g_rb g) = h") (simp_all add: numeral_eq_Suc)
  have load: "snd (solo rb_exec (Go False) 6 g (PushLoad x)) = RbIdle" for x
    using rb_solo_fresh(1) [OF G B, of 0 x] by (simp add: numeral_eq_Suc)
  have pcas: "snd (solo rb_exec (Go False) 6 g (PopCas k)) = RbIdle" for k
    using rb_solo_finish(8) [of g k 2] rb_solo_fresh(2) [OF G B, of 0]
    by (cases "rb_tail (g_rb g) = k") (simp_all add: numeral_eq_Suc)
  have pload: "snd (solo rb_exec (Go False) 6 g PopLoad) = RbIdle"
    using rb_solo_fresh(2) [OF G B, of 0] by (simp add: numeral_eq_Suc)
  show ?thesis
  proof (cases "ls t")
    case (PushCheck x h)
    then have "snd (rb_go False g (ls t)) \<in> {PushCas x h, PushRet False, PushLoad x}"
      using rb_push_check [OF G _ B, of h False x] L by auto
    then show ?thesis
      using cas load rb_solo_finish(1) [of 5 g] PushCheck solo_Suc_go [of False 6 g "ls t"]
      by (auto simp: numeral_eq_Suc simp del: solo.simps)
  next
    case (PopCheck k)
    then have "snd (rb_go False g (ls t)) \<in> {PopCas k, PopRet None, PopLoad}"
      using rb_pop_check [OF G _ B, of k False] L by auto
    then show ?thesis
      using pcas pload rb_solo_finish(5) [of 5 g] PopCheck solo_Suc_go [of False 6 g "ls t"]
      by (auto simp: numeral_eq_Suc simp del: solo.simps)
  next
    case (PushCas x h)
    then show ?thesis
      using rb_solo_finish(4) [of g h 3 x] rb_solo_fresh(1) [OF G B, of 1 x]
      by (cases "rb_head (g_rb g) = h") (simp_all add: numeral_eq_Suc)
  next
    case (PushLoad x)
    then show ?thesis using rb_solo_fresh(1) [OF G B, of 1 x] by (simp add: numeral_eq_Suc)
  next
    case (PopCas k)
    then show ?thesis
      using rb_solo_finish(8) [of g k 3] rb_solo_fresh(2) [OF G B, of 1]
      by (cases "rb_tail (g_rb g) = k") (simp_all add: numeral_eq_Suc)
  next
    case PopLoad
    then show ?thesis using rb_solo_fresh(2) [OF G B, of 1] by (simp add: numeral_eq_Suc)
  qed (use L in \<open>auto simp: numeral_eq_Suc\<close>)
qed

text \<open>
  Lock-freedom and safety of the comparison: no thread ever reaches signed overflow, and a
  compare-exchange that finds another value in \<^verbatim>\<open>head_\<close> (\<^verbatim>\<open>tail_\<close>) means that the ticket it wanted
  has been handed to another thread, so some operation succeeded in the meantime.
\<close>

theorem rb_lock_free:
  assumes "rb_reach (g, ls)" "rb_bound g"
  shows "ls t \<noteq> RbUndefined \<and>
    (ls t = PushCas x h \<and> rb_head (g_rb g) \<noteq> h \<longrightarrow> unat h < length (g_enq g)) \<and>
    (ls t = PopCas k \<and> rb_tail (g_rb g) \<noteq> k \<longrightarrow> unat k < g_deq g)"
  using rb_og.reach_L [OF assms, of t] rb_G_D(2,3) [OF rb_og.reach_G [OF assms]]
  by (auto simp: word_unat_eq_iff)

theorem rb_lock_free_witness:
  "rb_reach (fst (rb_demo rb_sched_gap), snd (rb_demo rb_sched_gap)) \<and>
   snd (rb_demo rb_sched_gap) 1 \<noteq> RbUndefined"
  using rb_lock_free [OF rb_demo_reach rb_demo_gap(1), of 1] rb_demo_reach by blast

text \<open>An operation that is not disturbed computes what the sequential function computes.\<close>

lemma rb_solo_push:
  assumes G: "rb_G g" and B: "rb_bound g"
  shows "\<exists>n \<le> 5. \<exists>g' b. solo rb_exec (Go False) n g (PushLoad x) = (g', PushRet b) \<and>
            rb_try_push (g_rb g) x = Some (b, g_rb g')"
  using rb_fresh_push [OF G B, of False x]
proof
  assume c: "snd (rb_go False g (PushCheck x (rb_head (g_rb g)))) \<in> {PushRet False}"
  then have "solo rb_exec (Go False) 2 g (PushLoad x) = (g, PushRet False)"
    by (simp add: numeral_2_eq_2)
  moreover have "rb_try_push (g_rb g) x = Some (False, g_rb g)"
    unfolding rb_try_push_def using c
    by (subst rb_push_loop.simps) (auto split: option.splits if_splits)
  ultimately show ?thesis by (intro exI [of _ "2 :: nat"] conjI) (simp, blast)
next
  assume c: "snd (rb_go False g (PushCheck x (rb_head (g_rb g)))) = PushCas x (rb_head (g_rb g))"
  obtain g' where g': "solo rb_exec (Go False) 5 g (PushLoad x) = (g', PushRet True)"
    and rb': "g_rb g' = rb_publish (rb_write ((g_rb g)\<lparr>rb_head := rb_head (g_rb g) + 1\<rparr>) (rb_head (g_rb g)) x) (rb_head (g_rb g)) (rb_head (g_rb g) + 1)"
    using c by (simp add: numeral_eq_Suc)
  have "rb_try_push (g_rb g) x = Some (True, g_rb g')"
    unfolding rb_try_push_def rb' using c
    by (subst rb_push_loop.simps) (auto split: option.splits if_splits)
  with g' show ?thesis by (intro exI [of _ "5 :: nat"] conjI) (simp, blast)
qed

lemma rb_solo_pop:
  assumes G: "rb_G g" and B: "rb_bound g"
  shows "\<exists>n \<le> 5. \<exists>g' r. solo rb_exec (Go False) n g PopLoad = (g', PopRet r) \<and>
            rb_try_pop (g_rb g) = Some (r, g_rb g')"
  using rb_fresh_pop [OF G B, of False]
proof
  assume c: "snd (rb_go False g (PopCheck (rb_tail (g_rb g)))) \<in> {PopRet None}"
  then have "solo rb_exec (Go False) 2 g PopLoad = (g, PopRet None)"
    by (simp add: numeral_2_eq_2)
  moreover have "rb_try_pop (g_rb g) = Some (None, g_rb g)"
    unfolding rb_try_pop_def using c
    by (subst rb_pop_loop.simps) (auto split: option.splits if_splits)
  ultimately show ?thesis by (intro exI [of _ "2 :: nat"] conjI) (simp, blast)
next
  assume c: "snd (rb_go False g (PopCheck (rb_tail (g_rb g)))) = PopCas (rb_tail (g_rb g))"
  obtain g' where g': "solo rb_exec (Go False) 5 g PopLoad =
      (g', PopRet (Some (rb_buffer (g_rb g) ! rb_index (g_rb g) (rb_tail (g_rb g)))))"
    and rb': "g_rb g' = rb_publish ((g_rb g)\<lparr>rb_tail := rb_tail (g_rb g) + 1\<rparr>) (rb_tail (g_rb g)) (rb_tail (g_rb g) + rb_mask (g_rb g) + 1)"
    using c by (simp add: numeral_eq_Suc)
  have "rb_try_pop (g_rb g) = Some (Some (rb_buffer (g_rb g) ! rb_index (g_rb g) (rb_tail (g_rb g))), g_rb g')"
    unfolding rb_try_pop_def rb' using c
    by (subst rb_pop_loop.simps) (auto split: option.splits if_splits)
  with g' show ?thesis by (intro exI [of _ "5 :: nat"] conjI) (simp, blast)
qed

lemma rb_solo_sequential:
  assumes "rb_reach (g, ls)" "rb_bound g"
  shows "\<exists>n \<le> 5. \<exists>g' b. solo rb_exec (Go False) n g (PushLoad x) = (g', PushRet b) \<and>
            rb_try_push (g_rb g) x = Some (b, g_rb g')"
    and "\<exists>n \<le> 5. \<exists>g' r. solo rb_exec (Go False) n g PopLoad = (g', PopRet r) \<and>
            rb_try_pop (g_rb g) = Some (r, g_rb g')"
  by (rule rb_solo_push [OF rb_og.reach_G [OF assms] assms(2)], rule rb_solo_pop [OF rb_og.reach_G [OF assms] assms(2)])

text \<open>
  C25. Non-blocking progress, and agreement with the sequential code: in every reachable state, wherever the
  threads have stopped, a thread that runs alone (no spurious compare-exchange failures) finishes
  its operation within seven accesses, and an operation that it then begins returns within
  five with the result and the ring that the sequential \<^verbatim>\<open>try_push\<close> (\<^verbatim>\<open>try_pop\<close>) computes.
\<close>

theorem rb_solo_is_sequential:
  assumes "rb_reach (g, ls)" "rb_bound g"
  shows "snd (solo rb_exec (Go False) 7 g (ls t)) = RbIdle \<and>
         (\<exists>n \<le> 5. \<exists>g' b. solo rb_exec (Go False) n g (PushLoad x) = (g', PushRet b) \<and>
            rb_try_push (g_rb g) x = Some (b, g_rb g')) \<and>
         (\<exists>n \<le> 5. \<exists>g' r. solo rb_exec (Go False) n g PopLoad = (g', PopRet r) \<and>
            rb_try_pop (g_rb g) = Some (r, g_rb g'))"
  using rb_obstruction_free_gen [OF assms] rb_solo_sequential [OF assms] by blast

theorem rb_solo_is_sequential_witness:
  "\<exists>n \<le> 5. \<exists>g' r. solo rb_exec (Go False) n (fst (rb_demo rb_sched_gap)) PopLoad = (g', PopRet r) \<and>
     rb_try_pop (g_rb (fst (rb_demo rb_sched_gap))) = Some (r, g_rb g')"
  using rb_solo_is_sequential [OF rb_demo_reach rb_demo_gap(1)] by blast

end
