(* ===== verification/Ring_Clients.thy ===== *)
theory Ring_Clients
  imports Ring_Buffer_Conc "HOL-Library.Multiset" "HOL-Library.Sublist"
begin

text \<open>
  Programs whose threads share one \<^verbatim>\<open>RingBuffer\<close>. A producer thread pushes a list of items in
  order, each with \<^verbatim>\<open>while (!buffer.try_push(x)) yield();\<close> a consumer thread pops until its local
  count reaches a quota, yielding when the ring is empty, and then adds its count to a shared
  atomic total (counts are integers; at most 2000 in the programs here, so an \<^verbatim>\<open>int\<close> holds them). These are the thread bodies of \<^verbatim>\<open>mpmc_example\<close> and of \<^verbatim>\<open>concurrent_trading_example\<close>
  (\<^verbatim>\<open>examples/\<close>), which \<open>Examples\<close> instantiates.

  The machine is a client of the interleaved ring buffer: every thread is at a program point of
  its own body and, inside a call, at a program point \<open>rb_pc\<close> of the ring buffer. The locale
  \<open>ring_workload\<close> says what work is given to the threads and shows, for every schedule, that no item
  is lost, duplicated or reordered, what the threads have counted when they have all exited, and
  that they can always still exit.
\<close>

record 'a rc_global =
  rc_rb :: "'a rb_global"
  rc_total :: int

text \<open>
  The body of a thread: the items a producer still has to push; the local count and the quota of
  a consumer, and (ghost) the values it has popped.
\<close>

datatype 'a rc_role =
    Producing "'a list"
  | Consuming int int "'a list"
  | Exited "'a list"

text \<open>Between two calls: enter the next call, or leave the loop.\<close>

fun rc_call :: "'a rc_global \<Rightarrow> 'a rc_role \<Rightarrow> 'a rc_global \<times> 'a rc_role \<times> 'a rb_pc" where
  "rc_call cg (Producing (x # xs)) = (cg, Producing (x # xs), PushLoad x)"
| "rc_call cg (Producing []) = (cg, Exited [], RbIdle)"
| "rc_call cg (Consuming cnt quota vs) =
     (if cnt < quota then (cg, Consuming cnt quota vs, PopLoad)
      else (cg\<lparr>rc_total := rc_total cg + cnt\<rparr>, Exited vs, RbIdle))"
| "rc_call cg (Exited vs) = (cg, Exited vs, RbIdle)"

text \<open>After a call: a push that failed and a pop that found nothing are repeated.\<close>

fun rc_pushed :: "bool \<Rightarrow> 'a rc_role \<Rightarrow> 'a rc_role" where
  "rc_pushed True (Producing (x # xs)) = Producing xs"
| "rc_pushed b role = role"

fun rc_popped :: "'a option \<Rightarrow> 'a rc_role \<Rightarrow> 'a rc_role" where
  "rc_popped (Some v) (Consuming cnt quota vs) = Consuming (cnt + 1) quota (vs @ [v])"
| "rc_popped r role = role"

definition rc_exec :: "bool \<Rightarrow> 'a rc_global \<Rightarrow> 'a rc_role \<times> 'a rb_pc \<Rightarrow> 'a rc_global \<times> 'a rc_role \<times> 'a rb_pc" where
  "rc_exec spurious cg rl =
     (case rl of (role, l) \<Rightarrow>
       (case l of
          RbIdle \<Rightarrow> rc_call cg role
        | PushRet b \<Rightarrow> (cg, rc_pushed b role, RbIdle)
        | PopRet r \<Rightarrow> (cg, rc_popped r role, RbIdle)
        | _ \<Rightarrow> (case rb_go spurious (rc_rb cg) l of (g', l') \<Rightarrow> (cg\<lparr>rc_rb := g'\<rparr>, role, l'))))"

definition rc_start :: "size_t \<Rightarrow> 'a \<Rightarrow> 'a rc_global" where
  "rc_start sz d = \<lparr>rc_rb = rb_start sz d, rc_total = 0\<rparr>"

text \<open>All threads of the program have returned (\<^verbatim>\<open>join\<close>).\<close>

definition rc_joined :: "(tid \<Rightarrow> 'a rc_role \<times> 'a rb_pc) \<Rightarrow> bool" where
  "rc_joined ls \<longleftrightarrow> (\<forall>t. \<exists>vs. ls t = (Exited vs, RbIdle))"

text \<open>The loop over the threads that joins them, as a test of the first \<open>n\<close> threads.\<close>

fun rc_returned :: "'a rc_role \<times> 'a rb_pc \<Rightarrow> bool" where
  "rc_returned (Exited vs, RbIdle) = True"
| "rc_returned rl = False"

definition join_all :: "nat \<Rightarrow> (tid \<Rightarrow> 'a rc_role \<times> 'a rb_pc) \<Rightarrow> bool" where
  "join_all n ls = list_all (\<lambda>t. rc_returned (ls t)) [0..<n]"

lemma rc_returned_iff: "rc_returned rl \<longleftrightarrow> (\<exists>vs. rl = (Exited vs, RbIdle))"
  by (cases rl rule: rc_returned.cases) auto

subsection \<open>Projection to the ring buffer\<close>

lemma rc_exec_proj:
  assumes "rc_exec sp cg (role, l) = (cg', role', l')"
  shows "rc_rb cg' = rc_rb cg \<and> l' = l \<or> (\<exists>a. rb_exec a (rc_rb cg) l = (rc_rb cg', l'))"
proof (cases l)
  case RbIdle
  then show ?thesis using assms
    by (cases "(cg, role)" rule: rc_call.cases)
       (auto simp: rc_exec_def split: if_splits intro: exI [of _ "CallPush _"] exI [of _ CallPop])
next
  case (PushRet b)
  then show ?thesis using assms by (auto simp: rc_exec_def intro!: exI [of _ "Go sp"])
next
  case (PopRet r)
  then show ?thesis using assms by (auto simp: rc_exec_def intro!: exI [of _ "Go sp"])
qed (use assms in \<open>auto simp: rc_exec_def split: prod.splits intro!: exI [of _ "Go sp"]\<close>)

subsection \<open>Bookkeeping of a thread\<close>

fun rc_todo :: "'a rc_role \<Rightarrow> 'a list" where
  "rc_todo (Producing xs) = xs"
| "rc_todo _ = []"

fun rc_vals :: "'a rc_role \<Rightarrow> 'a list" where
  "rc_vals (Producing xs) = []"
| "rc_vals (Consuming cnt quota vs) = vs"
| "rc_vals (Exited vs) = vs"

fun rc_took :: "'a rb_pc \<Rightarrow> bool" where
  "rc_took (PushWrite x h) = True"
| "rc_took (PushPublish h) = True"
| "rc_took (PushRet b) = b"
| "rc_took _ = False"

text \<open>The items the ring has not accepted yet, and the values the ring has handed over.\<close>

definition rc_left :: "'a rc_role \<times> 'a rb_pc \<Rightarrow> 'a list" where
  "rc_left rl = (if rc_took (snd rl) then tl (rc_todo (fst rl)) else rc_todo (fst rl))"

fun rc_flight :: "'a list \<Rightarrow> 'a rb_pc \<Rightarrow> 'a list" where
  "rc_flight en (PopRead t) = [en ! unat t]"
| "rc_flight en (PopPublish v t) = [v]"
| "rc_flight en (PopRet (Some v)) = [v]"
| "rc_flight en _ = []"

definition rc_got :: "'a list \<Rightarrow> 'a rc_role \<times> 'a rb_pc \<Rightarrow> 'a list" where
  "rc_got en rl = rc_vals (fst rl) @ rc_flight en (snd rl)"

text \<open>Inside a push the thread is a producer at that item, inside a pop a consumer below its quota.\<close>

fun rc_at :: "'a rc_role \<times> 'a rb_pc \<Rightarrow> bool" where
  "rc_at (role, RbIdle) = True"
| "rc_at (role, PushLoad x) = (\<exists>xs. role = Producing (x # xs))"
| "rc_at (role, PushCheck x h) = (\<exists>xs. role = Producing (x # xs))"
| "rc_at (role, PushCas x h) = (\<exists>xs. role = Producing (x # xs))"
| "rc_at (role, PushWrite x h) = (\<exists>xs. role = Producing (x # xs))"
| "rc_at (role, PushPublish h) = (\<exists>x xs. role = Producing (x # xs))"
| "rc_at (role, PushRet b) = (\<exists>x xs. role = Producing (x # xs))"
| "rc_at (role, RbUndefined) = True"
| "rc_at (role, l) = (\<exists>cnt quota vs. role = Consuming cnt quota vs \<and> cnt < quota)"

fun rc_fresh :: "'a rc_role \<Rightarrow> bool" where
  "rc_fresh (Producing xs) = True"
| "rc_fresh (Consuming cnt quota vs) = (cnt = 0 \<and> 0 \<le> quota \<and> vs = [])"
| "rc_fresh (Exited vs) = (vs = [])"

fun rc_quota :: "'a rc_role \<Rightarrow> int" where
  "rc_quota (Consuming cnt quota vs) = quota"
| "rc_quota _ = 0"

text \<open>What a thread has added to the shared total.\<close>

fun rc_added :: "'a rc_role \<Rightarrow> int" where
  "rc_added (Exited vs) = int (length vs)"
| "rc_added _ = 0"

text \<open>The work a thread has left: pushes or pops, and leaving its loop.\<close>

fun rc_work :: "'a rc_role \<Rightarrow> nat" where
  "rc_work (Producing xs) = Suc (length xs)"
| "rc_work (Consuming cnt quota vs) = Suc (nat (quota - cnt))"
| "rc_work (Exited vs) = 0"

text \<open>The role of a thread that began with the first role and is now in the second.\<close>

fun rc_follows :: "'a rc_role \<Rightarrow> 'a rc_role \<Rightarrow> bool" where
  "rc_follows r0 (Producing xs) = (\<exists>ys. r0 = Producing ys)"
| "rc_follows r0 (Consuming cnt quota vs) =
     (\<exists>c vs0. r0 = Consuming c quota vs0 \<and> cnt = int (length vs) \<and> cnt \<le> quota)"
| "rc_follows r0 (Exited vs) = (int (length vs) = rc_quota r0)"

lemma rc_at_step:
  assumes "rc_exec sp cg rl = (cg', rl')" "rc_at rl"
  shows "rc_at rl'"
proof -
  obtain role l where rl: "rl = (role, l)" by (cases rl)
  show ?thesis
  proof (cases l)
    case RbIdle
    then show ?thesis using assms
      by (cases "(cg, role)" rule: rc_call.cases) (auto simp: rc_exec_def rl split: if_splits)
  qed (use assms in \<open>auto simp: rc_exec_def rl split: if_splits option.splits prod.splits\<close>)
qed

lemma rc_follows_step:
  assumes "rc_exec sp cg rl = (cg', rl')" "rc_at rl" "rc_follows r0 (fst rl)"
  shows "rc_follows r0 (fst rl')"
proof -
  obtain role l where rl: "rl = (role, l)" by (cases rl)
  show ?thesis
  proof (cases l)
    case RbIdle
    then show ?thesis using assms
      by (cases "(cg, role)" rule: rc_call.cases) (auto simp: rc_exec_def rl split: if_splits)
  next
    case (PushRet b)
    then show ?thesis using assms by (cases b) (auto simp: rc_exec_def rl)
  next
    case (PopRet r)
    then show ?thesis using assms by (cases r) (auto simp: rc_exec_def rl)
  qed (use assms in \<open>auto simp: rc_exec_def rl split: prod.splits\<close>)
qed

text \<open>What a step accepts into the ring: nothing, or the next item of the thread.\<close>

lemma rc_push_step:
  assumes "rc_exec sp cg rl = (cg', rl')" "rc_at rl"
  shows "\<exists>ys. rc_left rl = ys @ rc_left rl' \<and> g_enq (rc_rb cg') = g_enq (rc_rb cg) @ ys"
proof -
  obtain role l where rl: "rl = (role, l)" by (cases rl)
  show ?thesis
  proof (cases l)
    case RbIdle
    then show ?thesis using assms
      by (cases "(cg, role)" rule: rc_call.cases) (auto simp: rc_exec_def rl rc_left_def split: if_splits)
  next
    case (PushRet b)
    then show ?thesis using assms by (cases b) (auto simp: rc_exec_def rl rc_left_def)
  next
    case (PopRet r)
    then show ?thesis using assms by (cases r) (auto simp: rc_exec_def rl rc_left_def)
  qed (use assms in \<open>auto simp: rc_exec_def rl rc_left_def split: if_splits option.splits prod.splits\<close>)
qed

text \<open>What a step takes out of the ring: nothing, or the oldest item, which is then with the thread.\<close>

lemma rc_got_stable:
  assumes G: "rb_G g" and L: "rb_L g l"
  shows "rc_flight (g_enq g @ ys) l = rc_flight (g_enq g) l"
proof (cases l)
  case (PopRead t)
  then have "unat t < length (g_enq g)"
    using ticket_ringD(5,8) [OF rb_G_D(4) [OF G]] L by fastforce
  then show ?thesis using PopRead by (simp add: nth_append)
next
  case (PopRet r)
  then show ?thesis by (cases r) auto
qed auto

lemma rc_pop_step:
  assumes ex: "rc_exec sp cg rl = (cg', rl')" and G: "rb_G (rc_rb cg)" and L: "rb_L (rc_rb cg) (snd rl)" and at: "rc_at rl"
  shows "\<exists>zs. rc_got (g_enq (rc_rb cg')) rl' = rc_got (g_enq (rc_rb cg)) rl @ zs \<and>
     take (g_deq (rc_rb cg')) (g_enq (rc_rb cg')) = take (g_deq (rc_rb cg)) (g_enq (rc_rb cg)) @ zs"
proof -
  obtain role l where rl: "rl = (role, l)" by (cases rl)
  note d = ticket_ringD(5) [OF rb_G_D(4) [OF G]]
  show ?thesis
  proof (cases l)
    case RbIdle
    then show ?thesis using ex
      by (cases "(cg, role)" rule: rc_call.cases) (auto simp: rc_exec_def rl rc_got_def split: if_splits)
  next
    case (PushCas x h)
    then show ?thesis using ex d by (auto simp: rc_exec_def rl rc_got_def split: if_splits)
  next
    case (PushRet b)
    then show ?thesis using ex at by (cases b) (auto simp: rc_exec_def rl rc_got_def)
  next
    case (PopCas t)
    then show ?thesis using ex L rb_G_D(3) [OF G]
      by (auto simp: rc_exec_def rl rc_got_def take_Suc_conv_app_nth split: if_splits)
  next
    case (PopRead t)
    then show ?thesis using ex L rb_G_D(1) [OF G] by (auto simp: rc_exec_def rl rc_got_def rb_index_mod)
  next
    case (PopRet r)
    then show ?thesis using ex at by (cases r) (auto simp: rc_exec_def rl rc_got_def)
  qed (use ex in \<open>auto simp: rc_exec_def rl rc_got_def split: option.splits\<close>)
qed

lemma rc_total_step:
  assumes "rc_exec sp cg rl = (cg', rl')" "rc_follows r0 (fst rl)"
  shows "rc_total cg' + rc_added (fst rl) =
         rc_total cg + rc_added (fst rl')"
proof -
  obtain role l where rl: "rl = (role, l)" by (cases rl)
  show ?thesis
  proof (cases l)
    case RbIdle
    then show ?thesis using assms
      by (cases "(cg, role)" rule: rc_call.cases) (auto simp: rc_exec_def rl split: if_splits)
  next
    case (PushRet b)
    then show ?thesis using assms by (cases "(b, role)" rule: rc_pushed.cases) (auto simp: rc_exec_def rl)
  next
    case (PopRet r)
    then show ?thesis using assms by (cases "(r, role)" rule: rc_popped.cases) (auto simp: rc_exec_def rl)
  qed (use assms in \<open>auto simp: rc_exec_def rl split: prod.splits\<close>)
qed

lemma sum_update:
  fixes f :: "'l \<Rightarrow> 'b :: cancel_comm_monoid_add" and n :: nat
  assumes "t < n"
  shows "(\<Sum>u<n. f ((ls(t := l)) u)) + f (ls t) = (\<Sum>u<n. f (ls u)) + f l"
proof -
  have "(\<Sum>u<n. f ((ls(t := l)) u)) = f l + (\<Sum>u \<in> {..<n} - {t}. f (ls u))"
    using assms by (subst sum.remove [of _ t]) (auto intro!: sum.cong)
  moreover have "(\<Sum>u<n. f (ls u)) = f (ls t) + (\<Sum>u \<in> {..<n} - {t}. f (ls u))"
    using assms by (subst sum.remove [of _ t]) auto
  ultimately show ?thesis by (simp add: ac_simps)
qed

lemma length_by_owner:
  "\<forall>x \<in> set xs. own x < (n :: nat) \<Longrightarrow> length xs = (\<Sum>t<n. length (filter (\<lambda>x. own x = t) xs))"
proof (induction xs)
  case (Cons x xs)
  have "(\<Sum>t<n. length (filter (\<lambda>y. own y = t) (x # xs))) = (\<Sum>t<n. (if own x = t then 1 else 0) + length (filter (\<lambda>y. own y = t) xs))"
    by (intro sum.cong) auto
  also have "\<dots> = 1 + (\<Sum>t<n. length (filter (\<lambda>y. own y = t) xs))"
    using Cons.prems by (simp add: sum.distrib sum.delta)
  finally show ?case using Cons by simp
qed simp

lemma mset_by_owner:
  "\<forall>x \<in> set xs. own x < (n :: nat) \<Longrightarrow> mset xs = (\<Sum>t<n. mset (filter (\<lambda>x. own x = t) xs))"
proof (induction xs)
  case (Cons x xs)
  have "(\<Sum>t<n. mset (filter (\<lambda>y. own y = t) (x # xs))) = (\<Sum>t<n. (if own x = t then {#x#} else {#}) + mset (filter (\<lambda>y. own y = t) xs))"
    by (intro sum.cong) auto
  also have "\<dots> = {#x#} + (\<Sum>t<n. mset (filter (\<lambda>y. own y = t) xs))"
    using Cons.prems by (simp add: sum.distrib sum.delta)
  finally show ?case using Cons by simp
qed simp

lemma size_sum_mset: "size (\<Sum>t<(n::nat). f t :: 'a multiset) = (\<Sum>t<n. size (f t))"
  by (induction n) auto

subsection \<open>Pushing and popping threads\<close>

text \<open>The program points of a thread inside \<^verbatim>\<open>try_push\<close>, and of one between or inside calls of \<^verbatim>\<open>try_pop\<close>.\<close>

fun push_pc :: "'a rb_pc \<Rightarrow> bool" where
  "push_pc (PushLoad x) = True" | "push_pc (PushCheck x h) = True" | "push_pc (PushCas x h) = True" | "push_pc (PushWrite x h) = True"
| "push_pc (PushPublish h) = True" | "push_pc (PushRet b) = True" | "push_pc RbUndefined = True" | "push_pc _ = False"

fun pop_pc :: "'a rb_pc \<Rightarrow> bool" where
  "pop_pc RbIdle = True" | "pop_pc RbUndefined = True" | "pop_pc l = (\<not> push_pc l)"

lemma push_step:
  assumes "rb_go sp r l = (r', l')" "push_pc l" "\<forall>b. l \<noteq> PushRet b"
  shows "push_pc l'" "g_deq r' = g_deq r" "\<exists>ys. g_enq r' = g_enq r @ ys"
  using assms by (cases "(sp, r, l)" rule: rb_go.cases; auto split: option.splits if_splits)+

lemma pop_step:
  assumes "rb_go sp r l = (r', l')" "pop_pc l" "rb_G r" "rb_L r l" "\<forall>v. l \<noteq> PopRet v"
  shows "pop_pc l' \<and> g_enq r' = g_enq r \<and>
    (\<exists>zs. take (g_deq r') (g_enq r') = take (g_deq r) (g_enq r) @ zs \<and> rc_flight (g_enq r') l' = rc_flight (g_enq r) l @ zs)"
proof (cases l)
  case (PopCas t)
  then show ?thesis using assms rb_G_D(3) [OF assms(3)] by (auto simp: take_Suc_conv_app_nth split: if_splits)
next
  case (PopRead t)
  then show ?thesis using assms rb_G_D(1) [OF assms(3)] by (auto simp: rb_index_mod)
qed (use assms in \<open>auto split: option.splits if_splits\<close>)

subsection \<open>Threads running alone\<close>

lemma rc_exec_go:
  assumes "l \<notin> {RbIdle}" "\<forall>b. l \<noteq> PushRet b" "\<forall>r. l \<noteq> PopRet r"
  shows "rc_exec sp cg (role, l) = (cg\<lparr>rc_rb := fst (rb_go sp (rc_rb cg) l)\<rparr>, role, snd (rb_go sp (rc_rb cg) l))"
  using assms by (cases l) (auto simp: rc_exec_def split: prod.splits)

text \<open>Inside a call the client follows the ring buffer, up to the value it returns.\<close>

lemma rc_solo_call:
  "solo rb_exec (Go False) n (rc_rb cg) l = (g', l') \<Longrightarrow> l' \<noteq> RbIdle \<Longrightarrow>
   solo rc_exec False n cg (role, l) = (cg\<lparr>rc_rb := g'\<rparr>, role, l')"
proof (induction n arbitrary: cg l)
  case (Suc n)
  have st: "solo rb_exec (Go False) n (fst (rb_go False (rc_rb cg) l)) (snd (rb_go False (rc_rb cg) l)) = (g', l')"
    using Suc.prems(1) by (simp split: prod.splits)
  have "l \<noteq> RbIdle" "\<forall>b. l \<noteq> PushRet b" "\<forall>r. l \<noteq> PopRet r"
    using Suc.prems(2) st by (auto simp: solo_idle)
  then show ?case using Suc.IH [of "cg\<lparr>rc_rb := fst (rb_go False (rc_rb cg) l)\<rparr>"] st Suc.prems(2)
    by (simp add: rc_exec_go)
qed simp

text \<open>A thread that is inside a call returns from it.\<close>

lemma rc_solo_settle:
  "snd (solo rb_exec (Go False) n (rc_rb cg) l) = RbIdle \<Longrightarrow>
   \<exists>k cg' role'. solo rc_exec False k cg (role, l) = (cg', role', RbIdle)"
proof (induction n arbitrary: cg role l)
  case 0
  then show ?case by (intro exI [of _ 0]) simp
next
  case (Suc n)
  show ?case
  proof (cases "l = RbIdle")
    case True
    then show ?thesis by (intro exI [of _ 0]) simp
  next
    case False
    obtain cg1 role1 l1 where st: "rc_exec False cg (role, l) = (cg1, role1, l1)" by (metis surj_pair)
    then have "rc_rb cg1 = fst (rb_go False (rc_rb cg) l) \<and> l1 = snd (rb_go False (rc_rb cg) l)"
      using False by (cases l) (auto simp: rc_exec_def split: prod.splits)
    then obtain k cg' role' where "solo rc_exec False k cg1 (role1, l1) = (cg', role', RbIdle)"
      using Suc.IH [of cg1 l1 role1] Suc.prems by (auto split: prod.splits)
    then show ?thesis using st by (intro exI [of _ "Suc k"]) auto
  qed
qed

subsection \<open>Workloads\<close>

locale ring_workload =
  fixes roles :: "tid \<Rightarrow> 'a rc_role" and own :: "'a \<Rightarrow> tid" and threads :: nat
    and sz :: size_t and d :: 'a
  assumes fresh: "rc_fresh (roles t)"
    and outside: "threads \<le> t \<Longrightarrow> roles t = Exited []"
    and owner: "x \<in> set (rc_todo (roles t)) \<Longrightarrow> own x = t"
    and size: "is_pow2 sz" "2 \<le> unat sz"
    and fits: "(\<Sum>t<threads. length (rc_todo (roles t))) + unat sz < 2 ^ 63"
begin

abbreviation wl_reach where
  "wl_reach \<equiv> reach rc_exec (\<lambda>cg. cg = rc_start sz d) (\<lambda>t. (roles t, RbIdle))"

sublocale ring: client_system rb_exec rb_ginit "\<lambda>_. RbIdle" rc_exec "\<lambda>cg. cg = rc_start sz d" "\<lambda>t. (roles t, RbIdle)" rc_rb snd
proof
  show "rb_ginit (rc_rb cg)" if "cg = rc_start sz d" for cg
    using that size by (auto simp: rb_ginit_def rc_start_def)
qed (use rc_exec_proj in fastforce)+

lemma reach_thread:
  assumes "wl_reach c"
  shows "rc_at (snd c t) \<and> rc_follows (roles t) (fst (snd c t)) \<and> (threads \<le> t \<longrightarrow> snd c t = (Exited [], RbIdle))"
  using assms
proof (induction rule: reach.induct)
  case (start cg)
  then show ?case using fresh [of t] outside [of t] by (cases "roles t") auto
next
  case (step c e)
  obtain u sp cg ls where e: "e = (u, sp)" "c = (cg, ls)" by (metis surj_pair)
  obtain cg' l' where ex: "rc_exec sp cg (ls u) = (cg', l')" by (cases "rc_exec sp cg (ls u)")
  show ?case
  proof (cases "u = t")
    case True
    then show ?thesis using step.IH ex rc_at_step [OF ex] rc_follows_step [OF ex]
      by (auto simp: e sys_step_eq rc_exec_def)
  qed (use step.IH ex in \<open>auto simp: e sys_step_eq\<close>)
qed

text \<open>Each producer's items are in the ring's history in order, as far as they are accepted.\<close>

lemma reach_pushed:
  assumes "wl_reach c"
  shows "(\<forall>t. rc_todo (roles t) = filter (\<lambda>x. own x = t) (g_enq (rc_rb (fst c))) @ rc_left (snd c t)) \<and>
         (\<forall>x \<in> set (g_enq (rc_rb (fst c))). own x < threads)"
  using assms
proof (induction rule: reach.induct)
  case (start cg)
  then show ?case by (simp add: rc_start_def rb_start_def rc_left_def)
next
  case (step c e)
  obtain u sp cg ls where e: "e = (u, sp)" "c = (cg, ls)" by (metis surj_pair)
  obtain cg' l' where ex: "rc_exec sp cg (ls u) = (cg', l')" by (cases "rc_exec sp cg (ls u)")
  have "rc_at (ls u)" using reach_thread [OF step.hyps, of u] by (simp add: e)
  then obtain ys where ys: "rc_left (ls u) = ys @ rc_left l'" "g_enq (rc_rb cg') = g_enq (rc_rb cg) @ ys"
    using rc_push_step [OF ex] by blast
  have IH: "rc_todo (roles t) = filter (\<lambda>x. own x = t) (g_enq (rc_rb cg)) @ rc_left (ls t)"
    "\<forall>x \<in> set (g_enq (rc_rb cg)). own x < threads" for t using step.IH by (auto simp: e)
  have o: "\<forall>x \<in> set ys. own x = u \<and> u < threads"
    using owner [of _ u] IH(1) [of u] ys(1) outside [of u] by (cases "threads \<le> u") auto
  then have "filter (\<lambda>x. own x = t) ys = (if t = u then ys else [])" for t
    by (auto simp: filter_empty_conv intro!: filter_True)
  then show ?case using IH ys o by (auto simp: e ex sys_step_eq)
qed

lemma reach_size:
  assumes "wl_reach (cg, ls)"
  shows "rb_size (g_rb (rc_rb cg)) = sz"
  using assms
proof (induction "(cg, ls)" arbitrary: cg ls rule: reach.induct)
  case (step c e)
  obtain t sp cg0 ls0 where e: "e = (t, sp)" "c = (cg0, ls0)" by (metis surj_pair)
  then show ?case using step by (auto simp: sys_step_eq split: prod.splits
      dest!: rc_exec_proj [of sp cg0 "fst (ls0 t)" "snd (ls0 t)", simplified] dest: rb_exec_size)
qed (simp add: rc_start_def rb_start_def rb_new_def)

lemma reach_bound:
  assumes "wl_reach (cg, ls)"
  shows "rb_bound (rc_rb cg)" "length (g_enq (rc_rb cg)) \<le> (\<Sum>t<threads. length (rc_todo (roles t)))"
proof -
  note p = reach_pushed [OF assms, simplified]
  have "length (g_enq (rc_rb cg)) = (\<Sum>t<threads. length (filter (\<lambda>x. own x = t) (g_enq (rc_rb cg))))"
    by (rule length_by_owner) (use p in blast)
  also have "\<dots> \<le> (\<Sum>t<threads. length (rc_todo (roles t)))"
  proof (rule sum_mono)
    fix t show "length (filter (\<lambda>x. own x = t) (g_enq (rc_rb cg))) \<le> length (rc_todo (roles t))"
      using p by (metis length_append le_add1)
  qed
  finally show "length (g_enq (rc_rb cg)) \<le> (\<Sum>t<threads. length (rc_todo (roles t)))" .
  then show "rb_bound (rc_rb cg)" using fits reach_size [OF assms] by (simp add: rb_bound_def)
qed

lemmas reach_ring = ring.reach_proj [of "(_, _)", simplified]

lemma reach_rb:
  assumes "wl_reach (cg, ls)"
  shows "rb_G (rc_rb cg)" "rb_L (rc_rb cg) (snd (ls t))"
  using rb_og.reach_G [OF reach_ring [OF assms] reach_bound(1) [OF assms]]
    rb_og.reach_L [OF reach_ring [OF assms] reach_bound(1) [OF assms], of t] by auto

text \<open>The values handed over to the threads are exactly the items taken from the ring.\<close>

lemma reach_popped:
  assumes "wl_reach c"
  shows "(\<Sum>t<threads. mset (rc_got (g_enq (rc_rb (fst c))) (snd c t))) =
           mset (take (g_deq (rc_rb (fst c))) (g_enq (rc_rb (fst c)))) \<and>
         rc_total (fst c) = (\<Sum>t<threads. rc_added (fst (snd c t)))"
  using assms
proof (induction rule: reach.induct)
  case (start cg)
  have "rc_vals (roles t) = []" "rc_added (roles t) = 0" for t
    using fresh [of t] by (cases "roles t"; simp)+
  then show ?case using start by (simp add: rc_start_def rb_start_def rc_got_def)
next
  case (step c e)
  obtain u sp cg ls where e: "e = (u, sp)" "c = (cg, ls)" by (metis surj_pair)
  obtain cg' l' where ex: "rc_exec sp cg (ls u) = (cg', l')" by (cases "rc_exec sp cg (ls u)")
  note th = reach_thread [OF step.hyps, of u, unfolded e, simplified]
  show ?case
  proof (cases "u < threads")
    case True
    let ?en = "g_enq (rc_rb cg)" and ?en' = "g_enq (rc_rb cg')" and ?ex = "\<lambda>l. rc_added (fst l)"
    have st: "wl_reach (cg, ls)" using step.hyps e by simp
    obtain ys where ys: "?en' = ?en @ ys" using rc_push_step [OF ex] th by blast
    obtain zs where "rc_got ?en' l' = rc_got ?en (ls u) @ zs" and
        zs: "take (g_deq (rc_rb cg')) ?en' = take (g_deq (rc_rb cg)) ?en @ zs"
      using rc_pop_step [OF ex reach_rb [OF st]] th by blast
    then have "mset (rc_got ?en' l') = mset (rc_got ?en (ls u)) + mset zs" by simp
    note zs = this zs
    have "rc_got ?en' (ls t) = rc_got ?en (ls t)" for t
      using rc_got_stable [OF reach_rb(1) [OF st] reach_rb(2) [OF st, of t]] by (simp add: rc_got_def ys)
    then have "(\<Sum>t<threads. mset (rc_got ?en' ((ls(u := l')) t))) + mset (rc_got ?en (ls u)) =
        (\<Sum>t<threads. mset (rc_got ?en (ls t))) + mset (rc_got ?en' l')"
      using sum_update [OF True, of "\<lambda>l. mset (rc_got ?en' l)" ls l'] by simp
    moreover have "(\<Sum>t<threads. ?ex ((ls(u := l')) t)) + ?ex (ls u) = (\<Sum>t<threads. ?ex (ls t)) + ?ex l'"
      by (rule sum_update [OF True])
    ultimately show ?thesis
      using step.IH zs rc_total_step [OF ex, of "roles u"] th by (simp add: e ex sys_step_eq del: fun_upd_apply)
  next
    case False
    then have "cg' = cg" "l' = ls u" using th ex by (auto simp: rc_exec_def)
    then show ?thesis using step.IH by (simp add: e ex sys_step_eq del: fun_upd_apply)
  qed
qed

text \<open>Each consumer receives the items it gets in the order of the ring.\<close>

lemma reach_subseq:
  assumes "wl_reach c"
  shows "subseq (rc_got (g_enq (rc_rb (fst c))) (snd c t)) (take (g_deq (rc_rb (fst c))) (g_enq (rc_rb (fst c))))"
  using assms
proof (induction rule: reach.induct)
  case (start cg)
  have "rc_vals (roles t) = []" using fresh [of t] by (cases "roles t") auto
  then show ?case by (simp add: rc_got_def)
next
  case (step c e)
  obtain u sp cg ls where e: "e = (u, sp)" "c = (cg, ls)" by (metis surj_pair)
  obtain cg' l' where ex: "rc_exec sp cg (ls u) = (cg', l')" by (cases "rc_exec sp cg (ls u)")
  have st: "wl_reach (cg, ls)" using step.hyps e by simp
  have at: "rc_at (ls u)" using reach_thread [OF step.hyps, of u] by (simp add: e)
  let ?en = "g_enq (rc_rb cg)" and ?en' = "g_enq (rc_rb cg')"
  obtain ys where ys: "?en' = ?en @ ys" using rc_push_step [OF ex at] by blast
  obtain zs where zs: "rc_got ?en' l' = rc_got ?en (ls u) @ zs" "take (g_deq (rc_rb cg')) ?en' = take (g_deq (rc_rb cg)) ?en @ zs"
    using rc_pop_step [OF ex reach_rb [OF st] at] by blast
  have "rc_got ?en' (ls t) = rc_got ?en (ls t)"
    using rc_got_stable [OF reach_rb(1) [OF st] reach_rb(2) [OF st, of t]] by (simp add: rc_got_def ys)
  then show ?case using step.IH zs ex by (cases "u = t") (auto simp: e sys_step_eq intro: subseq_rev_drop_many)
qed

lemma reach_counts:
  assumes "wl_reach (cg, ls)"
  shows "g_deq (rc_rb cg) = (\<Sum>t<threads. length (rc_got (g_enq (rc_rb cg)) (ls t)))"
    and "length (g_enq (rc_rb cg)) + (\<Sum>t<threads. length (rc_left (ls t))) = (\<Sum>t<threads. length (rc_todo (roles t)))"
proof -
  have "size (\<Sum>t<threads. mset (rc_got (g_enq (rc_rb cg)) (ls t))) = g_deq (rc_rb cg)"
    using reach_popped [OF assms] ticket_ringD(5) [OF rb_G_D(4) [OF reach_rb(1) [OF assms]]] by simp
  then show "g_deq (rc_rb cg) = (\<Sum>t<threads. length (rc_got (g_enq (rc_rb cg)) (ls t)))"
    by (simp add: size_sum_mset)
  note p = reach_pushed [OF assms, simplified]
  have "length (rc_todo (roles t)) = length (filter (\<lambda>x. own x = t) (g_enq (rc_rb cg))) + length (rc_left (ls t))" for t
    using p by (metis length_append)
  then show "length (g_enq (rc_rb cg)) + (\<Sum>t<threads. length (rc_left (ls t))) = (\<Sum>t<threads. length (rc_todo (roles t)))"
    using length_by_owner [of "g_enq (rc_rb cg)" own threads] p by (simp add: sum.distrib)
qed

text \<open>With no thread inside a call, the ring is a sequential ring buffer.\<close>

lemma reach_quiet:
  assumes "wl_reach (cg, ls)" "\<forall>t. snd (ls t) = RbIdle"
  shows "rb_invar (g_rb (rc_rb cg))" "rb_contents (g_rb (rc_rb cg)) = drop (g_deq (rc_rb cg)) (g_enq (rc_rb cg))"
proof -
  have "g_pushing (rc_rb cg) = {}" "g_popping (rc_rb cg) = {}"
    using rb_tickets_owned [OF reach_ring [OF assms(1)]] assms(2) by auto
  note q = rb_quiet [OF reach_rb(1) [OF assms(1)] reach_bound(1) [OF assms(1)] this]
  show "rb_invar (g_rb (rc_rb cg))" "rb_contents (g_rb (rc_rb cg)) = drop (g_deq (rc_rb cg)) (g_enq (rc_rb cg))"
    by (rule q)+
qed

text \<open>
  When all threads have exited: each producer's items are in the ring's history, all of them and in
  order, the consumers have the oldest items among themselves, the total is what they counted, and
  the ring holds the rest.
\<close>

text \<open>Whichever items of a producer a consumer has received, it received them in the order in which they were pushed.\<close>

lemma received_in_order:
  assumes "wl_reach (cg, ls)"
  shows "subseq (filter (\<lambda>x. own x = u) (rc_vals (fst (ls t)))) (rc_todo (roles u))"
proof -
  let ?en = "g_enq (rc_rb cg)"
  have "subseq (rc_vals (fst (ls t))) (rc_got ?en (ls t))" by (simp add: rc_got_def subseq_rev_drop_many)
  also have "subseq \<dots> (take (g_deq (rc_rb cg)) ?en)" using reach_subseq [OF assms, of t] by simp
  also have "subseq \<dots> ?en" using subseq_rev_drop_many [OF subseq_order.order_refl] by (metis append_take_drop_id)
  finally have "subseq (filter (\<lambda>x. own x = u) (rc_vals (fst (ls t)))) (filter (\<lambda>x. own x = u) ?en)" by (rule subseq_filter)
  moreover have "subseq (filter (\<lambda>x. own x = u) ?en) (rc_todo (roles u))"
    using reach_pushed [OF assms] by (metis fst_conv subseq_order.order_refl subseq_rev_drop_many)
  ultimately show ?thesis by (rule subseq_order.order_trans)
qed

lemma joined:
  assumes "wl_reach (cg, ls)" "rc_joined ls"
  defines "en \<equiv> g_enq (rc_rb cg)" and "k \<equiv> nat (rc_total cg)"
  shows "filter (\<lambda>x. own x = t) en = rc_todo (roles t)"
    and "mset en = (\<Sum>t<threads. mset (rc_todo (roles t)))"
    and "rc_total cg = (\<Sum>t<threads. rc_quota (roles t))"
    and "(\<Sum>t<threads. mset (rc_vals (fst (ls t)))) = mset (take k en)" "k \<le> length en"
    and "rb_invar (g_rb (rc_rb cg))" "rb_contents (g_rb (rc_rb cg)) = drop k en"
proof -
  have j: "\<exists>vs. ls t = (Exited vs, RbIdle)" for t using assms(2) by (simp add: rc_joined_def)
  then have idle: "\<forall>t. snd (ls t) = RbIdle" by (metis snd_conv)
  have left: "rc_left (ls t) = []" for t using j [of t] by (auto simp: rc_left_def)
  have got: "rc_got en (ls t) = rc_vals (fst (ls t))" for t using j [of t] by (auto simp: rc_got_def)
  have cnt: "rc_added (fst (ls t)) = int (length (rc_vals (fst (ls t))))" for t using j [of t] by auto
  have quota: "rc_quota (roles t) = int (length (rc_vals (fst (ls t))))" for t
    using reach_thread [OF assms(1), of t] j [of t] by auto
  note p = reach_pushed [OF assms(1), simplified] and q = reach_popped [OF assms(1), simplified]
  show f: "filter (\<lambda>x. own x = t) en = rc_todo (roles t)" for t using p left by (metis append_Nil2 en_def)
  show "mset en = (\<Sum>t<threads. mset (rc_todo (roles t)))"
    using mset_by_owner [of en own threads] p f by (simp add: en_def)
  show "rc_total cg = (\<Sum>t<threads. rc_quota (roles t))" using q cnt quota by simp
  have k: "k = g_deq (rc_rb cg)" using q cnt reach_counts(1) [OF assms(1)] got unfolding en_def k_def by (simp flip: of_nat_sum)
  show "(\<Sum>t<threads. mset (rc_vals (fst (ls t)))) = mset (take k en)" using q got by (simp add: k en_def)
  show "k \<le> length en" using ticket_ringD(5) [OF rb_G_D(4) [OF reach_rb(1) [OF assms(1)]]] by (simp add: k en_def)
  show "rb_invar (g_rb (rc_rb cg))" "rb_contents (g_rb (rc_rb cg)) = drop k en"
    using reach_quiet [OF assms(1) idle] by (simp_all add: k en_def)
qed

lemma join_all_iff:
  assumes "wl_reach (cg, ls)"
  shows "join_all threads ls \<longleftrightarrow> rc_joined ls"
proof -
  have "rc_returned (ls t)" if "threads \<le> t" for t using reach_thread [OF assms, of t] that by simp
  then show ?thesis by (auto simp: join_all_def rc_joined_def list_all_iff simp flip: rc_returned_iff)
qed

text \<open>How a thread that runs alone from a quiet state reduces the work that is left.\<close>

lemma run_solo:
  assumes "wl_reach (cg, ls)" "solo rc_exec False k cg (ls t) = (cg', l')"
  shows "run rc_exec (cg, ls) (replicate k (t, False)) = (cg', ls(t := l'))" "wl_reach (cg', ls(t := l'))"
proof -
  show r: "run rc_exec (cg, ls) (replicate k (t, False)) = (cg', ls(t := l'))"
    using assms(2) by (simp add: run_replicate)
  show "wl_reach (cg', ls(t := l'))" using reach_run [OF assms(1), of "replicate k (t, False)"] by (simp add: r)
qed

lemma settle:
  assumes "wl_reach (cg, ls)"
  shows "\<exists>es cg' ls'. run rc_exec (cg, ls) es = (cg', ls') \<and> (\<forall>t. snd (ls' t) = RbIdle)"
proof -
  have "\<exists>es cg' ls'. run rc_exec (cg, ls) es = (cg', ls') \<and> (\<forall>t<n. snd (ls' t) = RbIdle)" for n
  proof (induction n)
    case 0
    then show ?case by (intro exI [of _ "[]"]) simp
  next
    case (Suc n)
    then obtain es cg1 ls1 where r: "run rc_exec (cg, ls) es = (cg1, ls1)" "\<forall>t<n. snd (ls1 t) = RbIdle" by blast
    have w: "wl_reach (cg1, ls1)" using reach_run [OF assms, of es] r(1) by simp
    obtain k cg2 role2 where "solo rc_exec False k cg1 (ls1 n) = (cg2, role2, RbIdle)"
      using rc_solo_settle [OF rb_obstruction_free_gen [OF reach_ring [OF w] reach_bound(1) [OF w], of n], of "fst (ls1 n)"] by auto
    note s = run_solo(1) [OF w this]
    have "run rc_exec (cg, ls) (es @ replicate k (n, False)) = (cg2, ls1(n := (role2, RbIdle)))"
      using r s by (simp add: run_append)
    moreover have "\<forall>t<Suc n. snd ((ls1(n := (role2, RbIdle))) t) = RbIdle" using r(2) by (simp add: less_Suc_eq)
    ultimately show ?case by blast
  qed
  from this [of threads] obtain es cg' ls' where r: "run rc_exec (cg, ls) es = (cg', ls')" "\<forall>t<threads. snd (ls' t) = RbIdle" by blast
  have "wl_reach (cg', ls')" using reach_run [OF assms, of es] r(1) by simp
  then have "snd (ls' t) = RbIdle" for t using r(2) reach_thread [of "(cg', ls')" t] by (cases "t < threads") auto
  then show ?thesis using r(1) by blast
qed

lemma work_less:
  assumes "t < threads" "rc_work role' < rc_work (fst (ls t))"
  shows "(\<Sum>u<threads. rc_work (fst ((ls(t := (role', l))) u))) < (\<Sum>u<threads. rc_work (fst (ls u)))"
  using sum_update [OF assms(1), of "\<lambda>l. rc_work (fst l)" ls "(role', l)"] assms(2) by simp

lemma quiet_exit:
  assumes "\<forall>t. snd (ls t) = RbIdle" "fst (ls t) = Producing [] \<or> (\<exists>cnt quota vs. fst (ls t) = Consuming cnt quota vs \<and> quota \<le> cnt)"
  shows "\<exists>k cg' role'. solo rc_exec False k cg (ls t) = (cg', role', RbIdle) \<and> rc_work role' < rc_work (fst (ls t))"
  using assms(1) [rule_format, of t] assms(2)
  by (intro exI [of _ 1]) (cases "ls t"; auto simp: rc_exec_def)

lemma quiet_pop:
  assumes w: "wl_reach (cg, ls)" and q: "\<forall>t. snd (ls t) = RbIdle"
    and c: "fst (ls t) = Consuming cnt quota vs" "cnt < quota" and ne: "g_deq (rc_rb cg) < length (g_enq (rc_rb cg))"
  shows "\<exists>k cg' role'. solo rc_exec False k cg (ls t) = (cg', role', RbIdle) \<and> rc_work role' < rc_work (fst (ls t))"
proof -
  note Q = reach_quiet [OF w q]
  obtain n g' r where n: "solo rb_exec (Go False) n (rc_rb cg) PopLoad = (g', PopRet r)" "rb_try_pop (g_rb (rc_rb cg)) = Some (r, g_rb g')"
    using rb_solo_sequential(2) [OF reach_ring [OF w] reach_bound(1) [OF w]] by blast
  obtain x where r: "r = Some x"
    using n(2) rb_queue.pop_total [OF Q(1)] Q(2) ne by (auto split: list.splits)
  have l: "ls t = (Consuming cnt quota vs, RbIdle)" using c(1) q by (metis prod.collapse)
  have 1: "solo rc_exec False (Suc n) cg (ls t) = (cg\<lparr>rc_rb := g'\<rparr>, Consuming cnt quota vs, PopRet (Some x))"
    using rc_solo_call [OF n(1), of "Consuming cnt quota vs"] l c(2) r by (simp add: rc_exec_def)
  have "solo rc_exec False (Suc n + 1) cg (ls t) = (cg\<lparr>rc_rb := g'\<rparr>, Consuming (cnt + 1) quota (vs @ [x]), RbIdle)"
    unfolding solo_add 1 by (simp add: rc_exec_def)
  then show ?thesis using c by (intro exI [of _ "Suc n + 1"]) auto
qed

lemma quiet_push:
  assumes w: "wl_reach (cg, ls)" and q: "\<forall>t. snd (ls t) = RbIdle"
    and c: "fst (ls t) = Producing (x # xs)" and room: "length (g_enq (rc_rb cg)) < g_deq (rc_rb cg) + unat sz"
  shows "\<exists>k cg' role'. solo rc_exec False k cg (ls t) = (cg', role', RbIdle) \<and> rc_work role' < rc_work (fst (ls t))"
proof -
  note Q = reach_quiet [OF w q]
  obtain n g' b where n: "solo rb_exec (Go False) n (rc_rb cg) (PushLoad x) = (g', PushRet b)" "rb_try_push (g_rb (rc_rb cg)) x = Some (b, g_rb g')"
    using rb_solo_sequential(1) [OF reach_ring [OF w] reach_bound(1) [OF w]] by blast
  have l: "ls t = (Producing (x # xs), RbIdle)" using c(1) q by (metis prod.collapse)
  then have "t < threads" using reach_thread [OF w, of t] by (cases "t < threads") auto
  then have "length (rc_left (ls t)) \<le> (\<Sum>t<threads. length (rc_left (ls t)))" by (intro member_le_sum) auto
  then have lt: "length (g_enq (rc_rb cg)) < (\<Sum>t<threads. length (rc_todo (roles t)))"
    using reach_counts(2) [OF w] l by (simp add: rc_left_def)
  have H: "rb_H (g_rb (rc_rb cg)) = length (g_enq (rc_rb cg))" by (rule rb_G_D(2) [OF reach_rb(1) [OF w]])
  have "0 < rb_room (g_rb (rc_rb cg))"
    using lt fits reach_size [OF w] H by (simp add: rb_room_def zero_enat_def)
  then have b: "b" using n(2) rb_queue.push_total [OF Q(1), of x] Q(2) room reach_size [OF w]
      ticket_ringD(5) [OF rb_G_D(4) [OF reach_rb(1) [OF w]]] by auto
  have 1: "solo rc_exec False (Suc n) cg (ls t) = (cg\<lparr>rc_rb := g'\<rparr>, Producing (x # xs), PushRet True)"
    using rc_solo_call [OF n(1), of "Producing (x # xs)"] l b by (simp add: rc_exec_def)
  have "solo rc_exec False (Suc n + 1) cg (ls t) = (cg\<lparr>rc_rb := g'\<rparr>, Producing xs, RbIdle)"
    unfolding solo_add 1 by (simp add: rc_exec_def)
  then show ?thesis using c by (intro exI [of _ "Suc n + 1"]) auto
qed

text \<open>
  In a quiet state that is not final some thread can make progress, if the consumers want no more
  than the producers deliver and the ring has room for what they leave.
\<close>

lemma quiet_thread:
  assumes "wl_reach (cg, ls)" "fst (ls t) \<noteq> Exited []"
  shows "t < threads"
  using reach_thread [OF assms(1), of t] assms(2) by (cases "t < threads") auto

lemma quiet_counts:
  assumes w: "wl_reach (cg, ls)" and q: "\<forall>t. snd (ls t) = RbIdle"
  shows "g_deq (rc_rb cg) = (\<Sum>t<threads. length (rc_vals (fst (ls t))))"
    and "length (g_enq (rc_rb cg)) + (\<Sum>t<threads. length (rc_todo (fst (ls t)))) = (\<Sum>t<threads. length (rc_todo (roles t)))"
  using reach_counts [OF w] q by (simp_all add: rc_left_def rc_got_def)

lemma quiet_consumer:
  assumes w: "wl_reach (cg, ls)" and q: "\<forall>t. snd (ls t) = RbIdle"
    and wanted: "(\<Sum>t<threads. rc_quota (roles t)) \<le> int (\<Sum>t<threads. length (rc_todo (roles t)))"
    and t: "fst (ls t) = Consuming cnt quota vs" "cnt < quota"
  shows "\<exists>t<threads. \<exists>k cg' role'. solo rc_exec False k cg (ls t) = (cg', role', RbIdle) \<and> rc_work role' < rc_work (fst (ls t))"
proof (cases "g_deq (rc_rb cg) < length (g_enq (rc_rb cg))")
  case True
  moreover have "t < threads" using quiet_thread [OF w, of t] t(1) by simp
  ultimately show ?thesis using quiet_pop [OF w q t] by blast
next
  case False
  have tt: "t < threads" using quiet_thread [OF w, of t] t(1) by simp
  have le: "int (length (rc_vals (fst (ls t)))) \<le> rc_quota (roles t)" for t
    using reach_thread [OF w, of t] fresh [of t] by (cases "fst (ls t)"; cases "roles t") auto
  have "int (length (rc_vals (fst (ls t)))) < rc_quota (roles t)" using reach_thread [OF w, of t] t by auto
  then have "(\<Sum>t<threads. int (length (rc_vals (fst (ls t))))) < (\<Sum>t<threads. rc_quota (roles t))"
    using tt le by (intro sum_strict_mono_ex1) auto
  then have "int (g_deq (rc_rb cg)) < (\<Sum>t<threads. rc_quota (roles t))" using quiet_counts(1) [OF w q] by simp
  then have "length (g_enq (rc_rb cg)) < (\<Sum>t<threads. length (rc_todo (roles t)))" using wanted False by linarith
  then have "(\<Sum>t<threads. length (rc_todo (fst (ls t)))) \<noteq> 0" using quiet_counts(2) [OF w q] by linarith
  then obtain u where u: "u < threads" "rc_todo (fst (ls u)) \<noteq> []" by auto
  then obtain x xs where "fst (ls u) = Producing (x # xs)" by (cases "fst (ls u)") (auto simp: neq_Nil_conv)
  moreover have "length (g_enq (rc_rb cg)) < g_deq (rc_rb cg) + unat sz" using False size by simp
  ultimately show ?thesis using quiet_push [OF w q] u(1) by blast
qed

lemma quiet_producer:
  assumes w: "wl_reach (cg, ls)" and q: "\<forall>t. snd (ls t) = RbIdle"
    and leftover: "int (\<Sum>t<threads. length (rc_todo (roles t))) \<le> (\<Sum>t<threads. rc_quota (roles t)) + int (unat sz)"
    and t: "fst (ls t) = Producing (x # xs)"
    and over: "\<forall>t. (\<exists>ys. fst (ls t) = Producing ys) \<or> (\<exists>vs. fst (ls t) = Exited vs)"
  shows "\<exists>t<threads. \<exists>k cg' role'. solo rc_exec False k cg (ls t) = (cg', role', RbIdle) \<and> rc_work role' < rc_work (fst (ls t))"
proof -
  have tt: "t < threads" using quiet_thread [OF w] t by simp
  have "rc_quota (roles u) = int (length (rc_vals (fst (ls u))))" for u
    using reach_thread [OF w, of u] over [rule_format, of u] by auto
  then have T: "(\<Sum>t<threads. rc_quota (roles t)) = int (g_deq (rc_rb cg))" using quiet_counts(1) [OF w q] by simp
  have "0 < (\<Sum>t<threads. length (rc_todo (fst (ls t))))" using tt t by (intro sum_pos2 [of _ t]) auto
  then have "length (g_enq (rc_rb cg)) < g_deq (rc_rb cg) + unat sz" using leftover quiet_counts(2) [OF w q] T by linarith
  then show ?thesis using quiet_push [OF w q t] tt by blast
qed

lemma quiet_progress:
  assumes w: "wl_reach (cg, ls)" and q: "\<forall>t. snd (ls t) = RbIdle" and n: "\<not> rc_joined ls"
    and wanted: "(\<Sum>t<threads. rc_quota (roles t)) \<le> int (\<Sum>t<threads. length (rc_todo (roles t)))"
    and leftover: "int (\<Sum>t<threads. length (rc_todo (roles t))) \<le> (\<Sum>t<threads. rc_quota (roles t)) + int (unat sz)"
  shows "\<exists>t<threads. \<exists>k cg' role'. solo rc_exec False k cg (ls t) = (cg', role', RbIdle) \<and> rc_work role' < rc_work (fst (ls t))"
proof -
  consider t where "fst (ls t) = Producing [] \<or> (\<exists>cnt quota vs. fst (ls t) = Consuming cnt quota vs \<and> quota \<le> cnt)"
    | t cnt quota vs where "fst (ls t) = Consuming cnt quota vs" "cnt < quota"
    | t x xs where "fst (ls t) = Producing (x # xs)" "\<forall>t. (\<exists>ys. fst (ls t) = Producing ys) \<or> (\<exists>vs. fst (ls t) = Exited vs)"
    using n q unfolding rc_joined_def by (metis neq_Nil_conv not_le prod.collapse rc_role.exhaust)
  then show ?thesis
  proof cases
    case (1 t)
    then have "t < threads" using quiet_thread [OF w, of t] by auto
    then show ?thesis using quiet_exit [OF q 1] by blast
  next
    case (2 t cnt quota vs)
    then show ?thesis by (rule quiet_consumer [OF w q wanted])
  next
    case (3 t x xs)
    then show ?thesis by (rule quiet_producer [OF w q leftover])
  qed
qed

lemma can_finish:
  assumes "wl_reach (cg, ls)"
    and wanted: "(\<Sum>t<threads. rc_quota (roles t)) \<le> int (\<Sum>t<threads. length (rc_todo (roles t)))"
    and leftover: "int (\<Sum>t<threads. length (rc_todo (roles t))) \<le> (\<Sum>t<threads. rc_quota (roles t)) + int (unat sz)"
  shows "\<exists>es cg' ls'. run rc_exec (cg, ls) es = (cg', ls') \<and> rc_joined ls'"
proof -
  have quiet: "\<exists>es cg' ls'. run rc_exec (cg, ls) es = (cg', ls') \<and> rc_joined ls'"
    if "wl_reach (cg, ls)" "\<forall>t. snd (ls t) = RbIdle" for cg ls
    using that
  proof (induction "\<Sum>t<threads. rc_work (fst (ls t))" arbitrary: cg ls rule: less_induct)
    case less
    show ?case
    proof (cases "rc_joined ls")
      case True
      then show ?thesis by (intro exI [of _ "[]"]) simp
    next
      case False
      then obtain t k cg1 role1 where t: "t < threads" "solo rc_exec False k cg (ls t) = (cg1, role1, RbIdle)"
          "rc_work role1 < rc_work (fst (ls t))"
        using quiet_progress [OF less.prems _ wanted leftover] by blast
      note s = run_solo [OF less.prems(1) t(2)]
      have "\<forall>u. snd ((ls(t := (role1, RbIdle))) u) = RbIdle" using less.prems(2) by simp
      from less.hyps [OF work_less [of t role1 ls, OF t(1,3)] s(2) this] obtain es cg2 ls2 where
        "run rc_exec (cg1, ls(t := (role1, RbIdle))) es = (cg2, ls2)" "rc_joined ls2" by blast
      then have "run rc_exec (cg, ls) (replicate k (t, False) @ es) = (cg2, ls2) \<and> rc_joined ls2"
        using s(1) by (simp add: run_append)
      then show ?thesis by blast
    qed
  qed
  obtain es cg1 ls1 where 1: "run rc_exec (cg, ls) es = (cg1, ls1)" "\<forall>t. snd (ls1 t) = RbIdle"
    using settle [OF assms(1)] by blast
  have "wl_reach (cg1, ls1)" using reach_run [OF assms(1), of es] 1(1) by simp
  from quiet [OF this 1(2)] obtain fs cg2 ls2 where "run rc_exec (cg1, ls1) fs = (cg2, ls2)" "rc_joined ls2" by blast
  then have "run rc_exec (cg, ls) (es @ fs) = (cg2, ls2) \<and> rc_joined ls2" using 1(1) by (simp add: run_append)
  then show ?thesis by blast
qed

text \<open>If the ring is large enough for all items, no push ever fails.\<close>

lemma never_full:
  assumes "wl_reach c" and large: "(\<Sum>t<threads. length (rc_todo (roles t))) \<le> unat sz"
  shows "snd (snd c t) \<noteq> PushRet False"
  using assms(1)
proof (induction rule: reach.induct)
  case (start cg)
  then show ?case by simp
next
  case (step c e)
  obtain u sp cg ls where e: "e = (u, sp)" "c = (cg, ls)" by (metis surj_pair)
  have w: "wl_reach (cg, ls)" using step.hyps e by simp
  show ?case
  proof (rule ccontr)
    assume "\<not> ?case"
    then have f: "snd (snd (rc_exec sp cg (ls t))) = PushRet False" and ut: "u = t"
      using step.IH by (auto simp: e sys_step_eq split: prod.splits if_splits)
    obtain role l where l: "ls t = (role, l)" by (cases "ls t")
    have at: "rc_at (role, l)" using reach_thread [OF w, of t] l by simp
    obtain x h where lx: "l = PushCheck x h" "snd (rb_go sp (rc_rb cg) l) = PushRet False"
      using f l at step.IH e by (cases l; cases "(cg, role)" rule: rc_call.cases)
        (auto simp: rc_exec_def split: prod.splits if_splits option.splits)
    have L: "rb_L (rc_rb cg) (PushCheck x h)" using reach_rb(2) [OF w, of t] l lx by simp
    note full = rb_push_gives_up [OF reach_rb(1) [OF w] reach_bound(1) [OF w] L lx(2) [unfolded lx(1)]]
    have "t < threads" using reach_thread [OF w, of t] l lx by (cases "t < threads") auto
    then have "length (rc_left (ls t)) \<le> (\<Sum>t<threads. length (rc_left (ls t)))" by (intro member_le_sum) auto
    moreover have "0 < length (rc_left (ls t))" using at l lx by (auto simp: rc_left_def)
    ultimately have "length (g_enq (rc_rb cg)) < unat sz" using reach_counts(2) [OF w] large by linarith
    then show False using full reach_size [OF w] by (auto simp: rb_abs_def)
  qed
qed

end

end
