(* ===== verification/Order_Book.thy ===== *)
theory Order_Book
  imports Ring_Buffer Interleaving
begin

text \<open>
  \<^verbatim>\<open>include/lockless/order_book.hpp\<close>. The order queue is the ring buffer of \<open>Ring_Buffer\<close>; the
  five atomic counters are the record \<open>book\<close>. This theory runs \<^verbatim>\<open>process_orders\<close> on one
  thread, which is how the repository's tests use it, and relates the 64-bit counters to a
  reference book over unbounded numbers that remembers every resting order. \<open>Order_Book_Conc\<close>
  lets any number of threads run \<^verbatim>\<open>process_single_order\<close> at once, access by access: the best
  prices stay exact, the quantities and the "not crossed" invariant do not.
\<close>

datatype side = BUY | SELL

record order =
  order_id :: uint64
  order_side :: side
  order_price :: uint64
  order_quantity :: uint64
  order_timestamp :: uint64

definition order_default :: order where
  "order_default = \<lparr>order_id = 0, order_side = BUY, order_price = 0, order_quantity = 0,
     order_timestamp = 0\<rparr>"

text \<open>\<^verbatim>\<open>PriceLevel\<close> is declared by the header and used by nothing else.\<close>

record price_level =
  pl_price :: uint64
  pl_total_quantity :: uint64

definition price_level_new :: "uint64 \<Rightarrow> price_level" where
  "price_level_new p = \<lparr>pl_price = p, pl_total_quantity = 0\<rparr>"

record book =
  best_bid :: uint64
  best_ask :: uint64
  total_buy :: uint64
  total_sell :: uint64
  matched :: uint64

record order_book =
  ob_queue :: "order ring_buffer"
  ob_book :: book

definition book_new :: book where
  "book_new = \<lparr>best_bid = 0, best_ask = UINT64_MAX, total_buy = 0, total_sell = 0, matched = 0\<rparr>"

definition ob_new :: "size_t \<Rightarrow> order_book" where
  "ob_new QueueSize = \<lparr>ob_queue = rb_new QueueSize order_default, ob_book = book_new\<rparr>"

definition submit_order :: "order_book \<Rightarrow> order \<Rightarrow> (bool \<times> order_book) option" where
  "submit_order ob ord =
     map_option (\<lambda>(b, q). (b, ob\<lparr>ob_queue := q\<rparr>)) (rb_try_push (ob_queue ob) ord)"

text \<open>
  On one thread the compare-exchange loops \<^verbatim>\<open>while (price > current) if (CAS) break\<close> end with the
  better of the two prices stored; the interleaved model below has the loops themselves.
\<close>

definition process_single_order :: "book \<Rightarrow> order \<Rightarrow> book" where
  "process_single_order bk ord =
     (if order_side ord = BUY then
        let current_ask = best_ask bk in
        if current_ask \<noteq> UINT64_MAX \<and> current_ask \<le> order_price ord then
          bk\<lparr>matched := matched bk + 1,
             total_sell := total_sell bk - min (order_quantity ord) (total_sell bk)\<rparr>
        else
          bk\<lparr>total_buy := total_buy bk + order_quantity ord,
             best_bid := (if best_bid bk < order_price ord then order_price ord else best_bid bk)\<rparr>
      else
        let current_bid = best_bid bk in
        if current_bid \<noteq> 0 \<and> order_price ord \<le> current_bid then
          bk\<lparr>matched := matched bk + 1,
             total_buy := total_buy bk - min (order_quantity ord) (total_buy bk)\<rparr>
        else
          bk\<lparr>total_sell := total_sell bk + order_quantity ord,
             best_ask := (if order_price ord < best_ask bk then order_price ord else best_ask bk)\<rparr>)"

definition process_orders :: "order_book \<Rightarrow> size_t \<Rightarrow> (nat \<times> order_book) option" where
  "process_orders ob batch_size =
     map_option (\<lambda>(orders, q). (length orders,
         ob\<lparr>ob_queue := q, ob_book := fold (\<lambda>ord bk. process_single_order bk ord) orders (ob_book ob)\<rparr>))
       (rb_try_pop_batch (ob_queue ob) (unat (min batch_size 100)))"

definition get_best_bid :: "order_book \<Rightarrow> uint64" where
  "get_best_bid ob = best_bid (ob_book ob)"

definition get_best_ask :: "order_book \<Rightarrow> uint64" where
  "get_best_ask ob = (let ask = best_ask (ob_book ob) in if ask = UINT64_MAX then 0 else ask)"

definition get_total_buy_quantity :: "order_book \<Rightarrow> uint64" where
  "get_total_buy_quantity ob = total_buy (ob_book ob)"

definition get_total_sell_quantity :: "order_book \<Rightarrow> uint64" where
  "get_total_sell_quantity ob = total_sell (ob_book ob)"

definition get_matched_orders :: "order_book \<Rightarrow> uint64" where
  "get_matched_orders ob = matched (ob_book ob)"

definition get_spread :: "order_book \<Rightarrow> uint64" where
  "get_spread ob =
     (let bid = get_best_bid ob; ask = get_best_ask ob in
      if bid = 0 \<or> ask = 0 then 0 else if bid < ask then ask - bid else 0)"

subsection \<open>A session with the book\<close>

datatype ob_call = Submit order | Process size_t

fun ob_call_run :: "order_book \<Rightarrow> ob_call \<Rightarrow> order_book option" where
  "ob_call_run ob (Submit ord) = map_option snd (submit_order ob ord)"
| "ob_call_run ob (Process n) = map_option snd (process_orders ob n)"

fun ob_session :: "order_book \<Rightarrow> ob_call list \<Rightarrow> order_book option" where
  "ob_session ob [] = Some ob"
| "ob_session ob (c # cs) = (case ob_call_run ob c of None \<Rightarrow> None | Some ob' \<Rightarrow> ob_session ob' cs)"

text \<open>
  The best prices of a book that was matched on one thread: the bid is below the ask, apart
  from the two prices the code also uses for "none" (0 as a bid, \<^verbatim>\<open>UINT64_MAX\<close> as an ask).
\<close>

definition uncrossed :: "book \<Rightarrow> bool" where
  "uncrossed bk \<longleftrightarrow> best_bid bk < best_ask bk \<or> best_ask bk = 0 \<and> best_bid bk = 0 \<or>
     best_ask bk = UINT64_MAX \<and> best_bid bk = UINT64_MAX"

lemma word_not_max: "(x :: uint64) \<noteq> UINT64_MAX \<longleftrightarrow> x < UINT64_MAX"
  by (metis word_order.not_eq_extremum)

lemma uncrossed_step: "uncrossed bk \<Longrightarrow> uncrossed (process_single_order bk ord)"
  using word_not_max [of "order_price ord"] word_gt_0 [of "order_price ord"]
  by (auto simp: uncrossed_def process_single_order_def Let_def)

lemma uncrossed_fold:
  "uncrossed bk \<Longrightarrow> uncrossed (fold (\<lambda>ord bk. process_single_order bk ord) ords bk)"
  by (induction ords arbitrary: bk) (auto intro: uncrossed_step)

lemma uncrossed_call: "uncrossed (ob_book ob) \<Longrightarrow> ob_call_run ob c = Some ob' \<Longrightarrow> uncrossed (ob_book ob')"
  by (cases c) (auto simp: submit_order_def process_orders_def intro: uncrossed_fold)

lemma uncrossed_session:
  "ob_session ob cs = Some ob' \<Longrightarrow> uncrossed (ob_book ob) \<Longrightarrow> uncrossed (ob_book ob')"
  by (induction cs arbitrary: ob) (auto split: option.splits dest: uncrossed_call)

text \<open>
  C14. After any sequence of submissions and processing calls on one thread the book is not
  crossed, and the spread is the exact difference of the two best prices: it is zero only if
  one side of the book is unknown.
\<close>

theorem ob_never_crossed:
  assumes "ob_session (ob_new n) cs = Some ob"
  shows "(get_best_bid ob \<noteq> 0 \<and> get_best_ask ob \<noteq> 0 \<longrightarrow>
            unat (get_best_bid ob) < unat (get_best_ask ob)) \<and>
         unat (get_spread ob) = (if get_best_bid ob = 0 \<or> get_best_ask ob = 0 then 0
            else unat (get_best_ask ob) - unat (get_best_bid ob))"
proof -
  have "uncrossed (ob_book ob)"
    by (rule uncrossed_session [OF assms]) (simp add: ob_new_def book_new_def uncrossed_def word_gt_0)
  then have lt: "get_best_bid ob < get_best_ask ob" if "get_best_bid ob \<noteq> 0" "get_best_ask ob \<noteq> 0"
    using that by (auto simp: uncrossed_def get_best_bid_def get_best_ask_def Let_def split: if_splits)
  then show ?thesis
    by (auto simp: get_spread_def Let_def word_less_nat_alt word_le_nat_alt unat_sub)
qed

definition ob_demo :: "ob_call list" where
  "ob_demo = [Submit \<lparr>order_id = 1, order_side = BUY, order_price = 10000, order_quantity = 100, order_timestamp = 1\<rparr>,
     Process 10,
     Submit \<lparr>order_id = 2, order_side = SELL, order_price = 10050, order_quantity = 100, order_timestamp = 2\<rparr>,
     Process 10]"

text \<open>The ring buffer of the book as the queue of \<open>Queue_Contract\<close>.\<close>

definition ob_ok :: "nat \<Rightarrow> order_book \<Rightarrow> bool" where
  "ob_ok k ob \<longleftrightarrow> rb_invar (ob_queue ob) \<and> enat k \<le> rb_room (ob_queue ob)"

lemma submit_order_spec:
  assumes "ob_ok (Suc k) ob"
  shows "\<exists>ob'. submit_order ob x = Some (length (rb_contents (ob_queue ob)) < rb_N (ob_queue ob), ob') \<and>
           ob_ok k ob' \<and> ob_book ob' = ob_book ob \<and> rb_N (ob_queue ob') = rb_N (ob_queue ob) \<and>
           rb_contents (ob_queue ob') = (if length (rb_contents (ob_queue ob)) < rb_N (ob_queue ob)
             then rb_contents (ob_queue ob) @ [x] else rb_contents (ob_queue ob))"
proof -
  have i: "rb_invar (ob_queue ob)" and r: "enat (Suc k) \<le> rb_room (ob_queue ob)"
    using assms by (auto simp: ob_ok_def)
  show ?thesis
  proof (cases "length (rb_contents (ob_queue ob)) < rb_N (ob_queue ob)")
    case True
    have "0 < rb_room (ob_queue ob)" using r by (cases "rb_room (ob_queue ob)") (auto simp: zero_enat_def)
    from rb_queue.push_ok [OF i this True, of x] obtain q where q:
      "rb_try_push (ob_queue ob) x = Some (True, q)" "rb_invar q"
      "rb_contents q = rb_contents (ob_queue ob) @ [x]" "rb_N q = rb_N (ob_queue ob)"
      "rb_room (ob_queue ob) \<le> eSuc (rb_room q)" by blast
    have "eSuc (enat k) \<le> eSuc (rb_room q)" using r q(5) by (simp add: eSuc_enat)
    then show ?thesis using q True by (simp add: submit_order_def ob_ok_def)
  next
    case False
    then have "length (rb_contents (ob_queue ob)) = rb_N (ob_queue ob)"
      using rb_queue.contents_le [OF i] by simp
    then have "rb_try_push (ob_queue ob) x = Some (False, ob_queue ob)" by (rule rb_queue.push_full [OF i])
    moreover have "enat k \<le> rb_room (ob_queue ob)" using r by (meson enat_ord_simps(1) le_Suc_eq order_trans order_refl)
    ultimately show ?thesis using False i by (simp add: submit_order_def ob_ok_def)
  qed
qed

lemma process_orders_spec:
  assumes "ob_ok k ob" "c = unat (min n 100)"
  shows "\<exists>ob'. process_orders ob n = Some (min c (length (rb_contents (ob_queue ob))), ob') \<and>
           ob_ok k ob' \<and> rb_N (ob_queue ob') = rb_N (ob_queue ob) \<and>
           rb_contents (ob_queue ob') = drop c (rb_contents (ob_queue ob)) \<and>
           ob_book ob' = fold (\<lambda>ord bk. process_single_order bk ord)
             (take c (rb_contents (ob_queue ob))) (ob_book ob)"
  using rb_queue.pop_batch_spec [of "ob_queue ob" c] assms
  by (auto simp: process_orders_def ob_ok_def min.commute)

subsection \<open>Sessions against a reference queue\<close>

text \<open>
  What a session does to the orders: a submission is accepted below the capacity, a processing
  call takes the oldest orders, at most a hundred, in the order of their submission.
\<close>

fun ref_call :: "nat \<Rightarrow> order list \<times> order list \<Rightarrow> ob_call \<Rightarrow> order list \<times> order list" where
  "ref_call cap (queued, processed) (Submit ord) =
     (if length queued < cap then (queued @ [ord], processed) else (queued, processed))"
| "ref_call cap (queued, processed) (Process n) =
     (let c = min (unat n) 100 in (drop c queued, processed @ take c queued))"

lemma unat_min_100: "unat (min n (100 :: size_t)) = min (unat n) 100"
  by (auto simp: min_def word_le_nat_alt)

lemma ob_call_refines:
  assumes "ob_ok (Suc k) ob" "ob_book ob = fold (\<lambda>ord bk. process_single_order bk ord) dn book_new"
  shows "\<exists>ob'. ob_call_run ob c = Some ob' \<and> ob_ok k ob' \<and> rb_N (ob_queue ob') = rb_N (ob_queue ob) \<and>
     (case ref_call (rb_N (ob_queue ob)) (rb_contents (ob_queue ob), dn) c of (q, dn1) \<Rightarrow>
        rb_contents (ob_queue ob') = q \<and>
        ob_book ob' = fold (\<lambda>ord bk. process_single_order bk ord) dn1 book_new)"
proof (cases c)
  case (Submit x)
  then show ?thesis using submit_order_spec [OF assms(1), of x] assms(2) by (auto split: if_splits)
next
  case (Process n)
  have "ob_ok k ob" using assms(1) unfolding ob_ok_def
    by (meson enat_ord_simps(1) le_Suc_eq order_trans order_refl)
  then show ?thesis
    using process_orders_spec [of k ob _ n] assms(2) Process by (auto simp: unat_min_100 Let_def)
qed

lemma ob_session_refines_gen:
  assumes "ob_ok (length cs) ob" "ob_book ob = fold (\<lambda>ord bk. process_single_order bk ord) dn book_new"
  shows "\<exists>ob'. ob_session ob cs = Some ob' \<and>
     (case foldl (ref_call (rb_N (ob_queue ob))) (rb_contents (ob_queue ob), dn) cs of (q, dn1) \<Rightarrow>
        rb_contents (ob_queue ob') = q \<and>
        ob_book ob' = fold (\<lambda>ord bk. process_single_order bk ord) dn1 book_new)"
  using assms
proof (induction cs arbitrary: ob dn)
  case (Cons c cs)
  obtain q dn1 where rc: "ref_call (rb_N (ob_queue ob)) (rb_contents (ob_queue ob), dn) c = (q, dn1)"
    by (cases "ref_call (rb_N (ob_queue ob)) (rb_contents (ob_queue ob), dn) c")
  obtain ob1 where ob1: "ob_call_run ob c = Some ob1" "ob_ok (length cs) ob1"
    "rb_N (ob_queue ob1) = rb_N (ob_queue ob)" "rb_contents (ob_queue ob1) = q"
    "ob_book ob1 = fold (\<lambda>ord bk. process_single_order bk ord) dn1 book_new"
    using ob_call_refines [of "length cs" ob dn c] Cons.prems rc by auto
  from Cons.IH [OF ob1(2,5)] ob1(1,3,4) rc show ?case by simp
qed auto

text \<open>
  C15. Every session of submissions and processing calls returns, and treats the orders as the
  reference queue does: the orders accepted are processed first in, first out, each exactly once,
  and what is left in the ring is exactly what was accepted and not processed.
\<close>

theorem ob_session_refines:
  assumes "is_pow2 n" "2 \<le> unat n" "unat n + length cs < 2 ^ 63"
  shows "\<exists>ob. ob_session (ob_new n) cs = Some ob \<and>
     (case foldl (ref_call (unat n)) ([], []) cs of (queued, processed) \<Rightarrow>
        rb_contents (ob_queue ob) = queued \<and>
        ob_book ob = fold (\<lambda>ord bk. process_single_order bk ord) processed book_new)"
proof -
  have i: "rb_invar (rb_new n order_default)" "rb_contents (rb_new n order_default) = []"
    using assms by (intro rb_new_invar; simp)+
  have "ob_ok (length cs) (ob_new n)" using i assms(3) by (simp add: ob_ok_def ob_new_def rb_room_def rb_new_def)
  from ob_session_refines_gen [OF this, of "[]"] i(2) show ?thesis
    by (simp add: ob_new_def rb_new_def)
qed

theorem ob_session_refines_witness:
  "\<exists>ob. ob_session (ob_new 4) ob_demo = Some ob \<and> rb_contents (ob_queue ob) = [] \<and>
     best_bid (ob_book ob) = 10000 \<and> best_ask (ob_book ob) = 10050"
proof -
  have "is_pow2 4" "2 \<le> unat (4::size_t)" "unat (4::size_t) + length ob_demo < 2 ^ 63"
    by (simp_all add: is_pow2_def ob_demo_def)
  from ob_session_refines [OF this] show ?thesis
    by (auto simp: ob_demo_def process_single_order_def book_new_def Let_def)
qed

theorem ob_never_crossed_witness:
  "\<exists>ob. ob_session (ob_new 4) ob_demo = Some ob \<and> unat (get_spread ob) = 50"
proof -
  have "is_pow2 4" "2 \<le> unat (4::size_t)" "unat (4::size_t) + length ob_demo < 2 ^ 63"
    by (simp_all add: is_pow2_def ob_demo_def)
  from ob_session_refines_gen [of ob_demo "ob_new 4" "[]"]
  obtain ob where ob: "ob_session (ob_new 4) ob_demo = Some ob" "best_bid (ob_book ob) = 10000"
      "best_ask (ob_book ob) = 10050"
    using rb_new_invar [of 4 order_default]
    by (auto simp: ob_demo_def ob_new_def is_pow2_def ob_ok_def rb_room_def rb_new_def
        process_single_order_def book_new_def Let_def)
  with ob_never_crossed [OF ob(1)] show ?thesis by (simp add: get_best_bid_def get_best_ask_def)
qed

subsection \<open>Matching against a reference book\<close>

text \<open>
  The reference book remembers every resting order and counts without wrapping. A buy order
  matches if some resting sell order is at or below its price, and then reduces the open sell
  quantity; otherwise it rests. Sell orders mirror this. A resting bid at price 0 and a resting
  ask at the largest price are invisible to the code, which uses these prices for "none".
\<close>

record ref_book =
  rf_bids :: "order list"
  rf_asks :: "order list"
  rf_buy :: nat
  rf_sell :: nat
  rf_matched :: nat

definition rf_ask_at :: "ref_book \<Rightarrow> uint64 \<Rightarrow> bool" where
  "rf_ask_at rf p \<longleftrightarrow> (\<exists>a \<in> set (rf_asks rf). order_price a \<noteq> UINT64_MAX \<and> order_price a \<le> p)"

definition rf_bid_at :: "ref_book \<Rightarrow> uint64 \<Rightarrow> bool" where
  "rf_bid_at rf p \<longleftrightarrow> (\<exists>b \<in> set (rf_bids rf). order_price b \<noteq> 0 \<and> p \<le> order_price b)"

definition rf_step :: "ref_book \<Rightarrow> order \<Rightarrow> ref_book" where
  "rf_step rf ord =
     (if order_side ord = BUY then
        if rf_ask_at rf (order_price ord)
        then rf\<lparr>rf_matched := rf_matched rf + 1, rf_sell := rf_sell rf - unat (order_quantity ord)\<rparr>
        else rf\<lparr>rf_bids := ord # rf_bids rf, rf_buy := rf_buy rf + unat (order_quantity ord)\<rparr>
      else
        if rf_bid_at rf (order_price ord)
        then rf\<lparr>rf_matched := rf_matched rf + 1, rf_buy := rf_buy rf - unat (order_quantity ord)\<rparr>
        else rf\<lparr>rf_asks := ord # rf_asks rf, rf_sell := rf_sell rf + unat (order_quantity ord)\<rparr>)"

definition rf_empty :: ref_book where
  "rf_empty = \<lparr>rf_bids = [], rf_asks = [], rf_buy = 0, rf_sell = 0, rf_matched = 0\<rparr>"

definition rf_best_bid :: "order list \<Rightarrow> uint64" where
  "rf_best_bid bids = Max (insert 0 (order_price ` set bids))"

definition rf_best_ask :: "order list \<Rightarrow> uint64" where
  "rf_best_ask asks = Min (insert UINT64_MAX (order_price ` set asks))"

definition book_rel :: "book \<Rightarrow> ref_book \<Rightarrow> bool" where
  "book_rel bk rf \<longleftrightarrow>
     best_bid bk = rf_best_bid (rf_bids rf) \<and> best_ask bk = rf_best_ask (rf_asks rf) \<and>
     unat (total_buy bk) = rf_buy rf \<and> unat (total_sell bk) = rf_sell rf \<and>
     unat (matched bk) = rf_matched rf"

lemma unat_sub_min: "unat (x - min y x :: uint64) = unat x - unat y"
  by (auto simp: min_def unat_sub word_le_nat_alt)

lemma rf_ask_at_best:
  assumes "book_rel bk rf"
  shows "rf_ask_at rf p \<longleftrightarrow> best_ask bk \<noteq> UINT64_MAX \<and> best_ask bk \<le> p"
proof -
  let ?S = "order_price ` set (rf_asks rf)"
  have ask: "best_ask bk = Min (insert UINT64_MAX ?S)" using assms by (simp add: book_rel_def rf_best_ask_def)
  have in_S: "best_ask bk \<noteq> UINT64_MAX \<Longrightarrow> best_ask bk \<in> ?S"
    using Min_in [of "insert UINT64_MAX ?S"] unfolding ask by blast
  have le: "best_ask bk \<le> order_price a" if "a \<in> set (rf_asks rf)" for a
    using that unfolding ask by (intro Min_le) auto
  show ?thesis
  proof
    assume "rf_ask_at rf p"
    then obtain a where a: "a \<in> set (rf_asks rf)" "order_price a < UINT64_MAX" "order_price a \<le> p"
      by (auto simp: rf_ask_at_def word_not_max)
    then show "best_ask bk \<noteq> UINT64_MAX \<and> best_ask bk \<le> p" using le [OF a(1)] by auto
  qed (use in_S in \<open>auto simp: rf_ask_at_def\<close>)
qed

lemma rf_bid_at_best:
  assumes "book_rel bk rf"
  shows "rf_bid_at rf p \<longleftrightarrow> best_bid bk \<noteq> 0 \<and> p \<le> best_bid bk"
proof -
  let ?S = "order_price ` set (rf_bids rf)"
  have bid: "best_bid bk = Max (insert 0 ?S)" using assms by (simp add: book_rel_def rf_best_bid_def)
  have in_S: "best_bid bk \<noteq> 0 \<Longrightarrow> best_bid bk \<in> ?S"
    using Max_in [of "insert 0 ?S"] unfolding bid by blast
  have le: "order_price b \<le> best_bid bk" if "b \<in> set (rf_bids rf)" for b
    using that unfolding bid by (intro Max_ge) auto
  show ?thesis
  proof
    assume "rf_bid_at rf p"
    then obtain b where b: "b \<in> set (rf_bids rf)" "0 < order_price b" "p \<le> order_price b"
      by (auto simp: rf_bid_at_def word_gt_0)
    then show "best_bid bk \<noteq> 0 \<and> p \<le> best_bid bk" using le [OF b(1)] by auto
  qed (use in_S in \<open>auto simp: rf_bid_at_def\<close>)
qed

text \<open>The effect of the compare-exchange loops on the best price.\<close>

lemma rf_best_bid_Cons:
  "rf_best_bid (x # xs) = (if rf_best_bid xs < order_price x then order_price x else rf_best_bid xs)"
proof -
  have "rf_best_bid (x # xs) = Max (insert (order_price x) (insert 0 (order_price ` set xs)))"
    by (simp add: rf_best_bid_def insert_commute)
  also have "\<dots> = max (order_price x) (rf_best_bid xs)"
    unfolding rf_best_bid_def by (rule Max_insert) auto
  finally show ?thesis
    by (cases "rf_best_bid xs < order_price x") (auto simp: max_absorb1 max_absorb2 not_less)
qed

lemma rf_best_ask_Cons:
  "rf_best_ask (x # xs) = (if order_price x < rf_best_ask xs then order_price x else rf_best_ask xs)"
proof -
  have "rf_best_ask (x # xs) = Min (insert (order_price x) (insert UINT64_MAX (order_price ` set xs)))"
    by (simp add: rf_best_ask_def insert_commute)
  also have "\<dots> = min (order_price x) (rf_best_ask xs)"
    unfolding rf_best_ask_def by (rule Min_insert) auto
  finally show ?thesis by (simp only: min_def) (metis less_le)
qed

lemma book_rel_step:
  assumes rel: "book_rel bk rf"
    and "rf_buy rf + unat (order_quantity ord) < 2 ^ 64" "rf_sell rf + unat (order_quantity ord) < 2 ^ 64"
    and "rf_matched rf + 1 < 2 ^ 64"
  shows "book_rel (process_single_order bk ord) (rf_step rf ord)"
proof -
  note best = rf_ask_at_best [OF rel] rf_bid_at_best [OF rel]
  have q: "unat (total_buy bk + order_quantity ord) = rf_buy rf + unat (order_quantity ord)"
    "unat (total_sell bk + order_quantity ord) = rf_sell rf + unat (order_quantity ord)"
    "unat (matched bk + 1) = rf_matched rf + 1"
    using assms by (auto simp: book_rel_def unat_plus unat_plus_1)
  show ?thesis
    using rel q
    by (simp add: process_single_order_def rf_step_def Let_def best book_rel_def unat_sub_min
        rf_best_bid_Cons rf_best_ask_Cons)
qed

lemma book_rel_fold:
  assumes "book_rel bk rf" "rf_buy rf + (\<Sum>ord\<leftarrow>ords. unat (order_quantity ord)) < 2 ^ 64"
    "rf_sell rf + (\<Sum>ord\<leftarrow>ords. unat (order_quantity ord)) < 2 ^ 64"
    "rf_matched rf + length ords < 2 ^ 64"
  shows "book_rel (fold (\<lambda>ord bk. process_single_order bk ord) ords bk) (foldl rf_step rf ords)"
  using assms
proof (induction ords arbitrary: bk rf)
  case (Cons x xs)
  have "book_rel (process_single_order bk x) (rf_step rf x)"
    using Cons.prems by (intro book_rel_step) auto
  moreover have "rf_buy (rf_step rf x) \<le> rf_buy rf + unat (order_quantity x)"
    "rf_sell (rf_step rf x) \<le> rf_sell rf + unat (order_quantity x)"
    "rf_matched (rf_step rf x) \<le> rf_matched rf + 1"
    by (auto simp: rf_step_def)
  ultimately show ?case using Cons.IH [of "process_single_order bk x" "rf_step rf x"] Cons.prems by simp
qed simp

text \<open>
  C16. The five counters after matching a list of orders are those of the reference book: the best
  bid is the highest price of all resting buy orders, the best ask the lowest of all resting
  sell orders, an order matches exactly if the other side has a resting order at its price or
  better, and neither quantity ever wraps below zero or above \<^verbatim>\<open>UINT64_MAX\<close>, as long as all
  quantities together fit 64 bits.
\<close>

theorem ob_matching_refines:
  assumes "(\<Sum>ord\<leftarrow>ords. unat (order_quantity ord)) < 2 ^ 64" "length ords < 2 ^ 64"
  shows "book_rel (fold (\<lambda>ord bk. process_single_order bk ord) ords book_new) (foldl rf_step rf_empty ords)"
proof -
  have "book_rel book_new rf_empty" 
    by (simp add: book_rel_def book_new_def rf_empty_def rf_best_bid_def rf_best_ask_def)
  then show ?thesis by (rule book_rel_fold) (use assms in \<open>simp_all add: rf_empty_def\<close>)
qed

definition ord_sell :: "uint64 \<Rightarrow> uint64 \<Rightarrow> order" where
  "ord_sell p q = \<lparr>order_id = 0, order_side = SELL, order_price = p, order_quantity = q, order_timestamp = 0\<rparr>"

definition ord_buy :: "uint64 \<Rightarrow> uint64 \<Rightarrow> order" where
  "ord_buy p q = \<lparr>order_id = 0, order_side = BUY, order_price = p, order_quantity = q, order_timestamp = 0\<rparr>"

lemmas ord_defs = ord_sell_def ord_buy_def

theorem ob_matching_refines_witness:
  "unat (total_sell (fold (\<lambda>ord bk. process_single_order bk ord)
       [ord_sell 100 50, ord_buy 90 7, ord_buy 100 20] book_new)) = 30"
proof -
  have "book_rel (fold (\<lambda>ord bk. process_single_order bk ord)
      [ord_sell 100 50, ord_buy 90 7, ord_buy 100 20] book_new)
      (foldl rf_step rf_empty [ord_sell 100 50, ord_buy 90 7, ord_buy 100 20])"
    by (rule ob_matching_refines) (simp_all add: ord_defs)
  moreover have "rf_sell (foldl rf_step rf_empty [ord_sell 100 50, ord_buy 90 7, ord_buy 100 20]) = 30"
    by (simp add: ord_defs rf_step_def rf_empty_def rf_ask_at_def rf_bid_at_def)
  ultimately show ?thesis by (simp add: book_rel_def)
qed

text \<open>
  Best prices are never withdrawn: once a sell order has rested, a buy order at its price is
  counted as matched even if the whole sell quantity is already used up, and its own quantity
  then appears on no side of the book.
\<close>

theorem ob_match_without_quantity:
  "let bk = fold (\<lambda>ord bk. process_single_order bk ord) [ord_sell 100 50, ord_buy 100 50] book_new;
       bk' = process_single_order bk (ord_buy 100 q)
   in total_sell bk = 0 \<and> total_buy bk = 0 \<and> matched bk' = matched bk + 1 \<and>
      total_buy bk' = 0 \<and> total_sell bk' = 0 \<and> best_ask bk' = 100"
  by (simp add: ord_defs process_single_order_def book_new_def Let_def)

end
