(* ===== verification/Examples.thy ===== *)
theory Examples
  imports Ring_Clients Order_Book
begin

text \<open>
  The two example programs, \<^verbatim>\<open>examples/ring_buffer_example.cpp\<close> and \<^verbatim>\<open>examples/order_book_example.cpp\<close>, as
  clients of the library: what they print. The single-threaded parts run the sequential models; the
  loops that retry are \<^theory_text>\<open>partial_function (option)\<close> and shown to end. The two multi-threaded parts are
  workloads of \<open>Ring_Clients\<close>; what the threads do is a schedule, and the theorems hold for every one.
  \<open>d\<close> is the arbitrary content of the uninitialised slots of a new ring of integers.
\<close>

datatype out = Line string | Show string int | ShowUnit string int string

subsection \<open>Ring buffer: one thread\<close>

partial_function (option) push_retry :: "'a ring_buffer \<Rightarrow> 'a \<Rightarrow> 'a ring_buffer option" where
  "push_retry rb x =
     (case rb_try_push rb x of
        None \<Rightarrow> None
      | Some (ok, rb') \<Rightarrow> if ok then Some rb' else push_retry rb' x)"

fun produce_loop :: "'a ring_buffer \<Rightarrow> 'a list \<Rightarrow> 'a ring_buffer option" where
  "produce_loop rb [] = Some rb"
| "produce_loop rb (x # xs) = (case push_retry rb x of None \<Rightarrow> None | Some rb' \<Rightarrow> produce_loop rb' xs)"

definition producer_example :: "int \<Rightarrow> out list option" where
  "producer_example d =
     map_option (\<lambda>rb. [Line ''Produced 100 items'']) (produce_loop (rb_new 256 d) (map int [0..<100]))"

fun fill_loop :: "'a ring_buffer \<Rightarrow> 'a list \<Rightarrow> 'a ring_buffer option" where
  "fill_loop rb [] = Some rb"
| "fill_loop rb (x # xs) = (case rb_try_push rb x of None \<Rightarrow> None | Some (ok, rb') \<Rightarrow> fill_loop rb' xs)"

partial_function (option) consume_loop :: "int ring_buffer \<Rightarrow> int \<Rightarrow> (out list \<times> int) option" where
  "consume_loop rb cnt =
     (case rb_try_pop rb of
        None \<Rightarrow> None
      | Some (None, rb') \<Rightarrow> Some ([], cnt)
      | Some (Some v, rb') \<Rightarrow> Option.bind (consume_loop rb' (cnt + 1)) (\<lambda>(os, n). Some (Show ''Consumed: '' v # os, n)))"

definition consumer_example :: "int \<Rightarrow> out list option" where
  "consumer_example d =
     (case fill_loop (rb_new 256 d) (map int [0..<50]) of
        None \<Rightarrow> None
      | Some rb \<Rightarrow> map_option (\<lambda>(os, cnt). os @ [Show ''Total consumed: '' cnt]) (consume_loop rb 0))"

subsection \<open>Ring buffer: producers and consumers\<close>

definition NUM_PRODUCERS :: nat where "NUM_PRODUCERS = 2"
definition NUM_CONSUMERS :: nat where "NUM_CONSUMERS = 2"
definition ITEMS_PER_PRODUCER :: nat where "ITEMS_PER_PRODUCER = 1000"

text \<open>The threads in the order of \<^verbatim>\<open>emplace_back\<close>: the producers, then the consumers.\<close>

definition mpmc_roles :: "tid \<Rightarrow> int rc_role" where
  "mpmc_roles i =
     (if i < NUM_PRODUCERS then Producing (map (\<lambda>j. int i * int ITEMS_PER_PRODUCER + int j) [0..<ITEMS_PER_PRODUCER])
      else if i < NUM_PRODUCERS + NUM_CONSUMERS then Consuming 0 (int ITEMS_PER_PRODUCER) []
      else Exited [])"

text \<open>A run of the program: its threads follow a schedule.\<close>

definition mpmc_example :: "int \<Rightarrow> (tid \<times> bool) list \<Rightarrow> (int rc_global, int rc_role \<times> int rb_pc) config" where
  "mpmc_example d es = run rc_exec (rc_start 1024 d, \<lambda>t. (mpmc_roles t, RbIdle)) es"

definition mpmc_output :: "int rc_global \<Rightarrow> out list" where
  "mpmc_output cg = [ShowUnit ''MPMC Example: Consumed '' (rc_total cg) '' items'']"

text \<open>\<^verbatim>\<open>main\<close> prints only once the threads are joined: a schedule that ends earlier has no output yet.\<close>

definition ring_buffer_main :: "int \<Rightarrow> int \<Rightarrow> int \<Rightarrow> (tid \<times> bool) list \<Rightarrow> out list option" where
  "ring_buffer_main d1 d2 d3 es =
     (case producer_example d1 of
        None \<Rightarrow> None
      | Some o1 \<Rightarrow> (case consumer_example d2 of
          None \<Rightarrow> None
        | Some o2 \<Rightarrow> (case mpmc_example d3 es of (cg, ls) \<Rightarrow>
            if join_all (NUM_PRODUCERS + NUM_CONSUMERS) ls
            then Some (Line ''=== Ring Buffer Examples ==='' # Line (CHR 0x0A # ''1. Producer Example:'') # o1 @
                   Line (CHR 0x0A # ''2. Consumer Example:'') # o2 @ Line (CHR 0x0A # ''3. MPMC Example:'') # mpmc_output cg)
            else None)))"

subsection \<open>Order book: one thread\<close>

definition mk_order :: "uint64 \<Rightarrow> side \<Rightarrow> uint64 \<Rightarrow> uint64 \<Rightarrow> uint64 \<Rightarrow> order" where
  "mk_order i s p qty ts = \<lparr>order_id = i, order_side = s, order_price = p, order_quantity = qty, order_timestamp = ts\<rparr>"

definition basic_trading_example :: "out list option" where
  "basic_trading_example =
     map_option (\<lambda>ob. [Line ''Submitting initial orders...'',
         Show ''Best Bid: '' (uint (get_best_bid ob)), Show ''Best Ask: '' (uint (get_best_ask ob)),
         Show ''Spread: '' (uint (get_spread ob)), Show ''Matched Orders: '' (uint (get_matched_orders ob))])
       (ob_session (ob_new 1024)
          [Submit (mk_order 1 BUY 9950 100 1), Submit (mk_order 2 BUY 9975 200 2), Submit (mk_order 3 BUY 10000 150 3),
           Submit (mk_order 4 SELL 10050 100 4), Submit (mk_order 5 SELL 10025 200 5), Submit (mk_order 6 SELL 10010 150 6),
           Process 10])"

definition matching_example :: "out list option" where
  "matching_example =
     (case ob_session (ob_new 1024) [Submit (mk_order 1 SELL 10000 100 1), Process 10] of
        None \<Rightarrow> None
      | Some ob \<Rightarrow> map_option (\<lambda>ob'. [Line (CHR 0x0A # ''Demonstrating order matching...''),
            Show ''After sell order - Best Ask: '' (uint (get_best_ask ob)),
            Show ''After matching buy order - Matched Orders: '' (uint (get_matched_orders ob'))])
          (ob_session ob [Submit (mk_order 2 BUY 10000 100 2), Process 10]))"

subsection \<open>Order book: concurrent traders\<close>

definition NUM_TRADERS :: nat where "NUM_TRADERS = 4"
definition ORDERS_PER_TRADER :: nat where "ORDERS_PER_TRADER = 500"

definition trader_order :: "nat \<Rightarrow> nat \<Rightarrow> order" where
  "trader_order i j =
     (let oid = word_of_nat (i * ORDERS_PER_TRADER + j);
          sd = (if j mod 2 = 0 then BUY else SELL);
          price = word_of_int (10000 + int (j mod 100) - 50);
          quantity = word_of_int (10 + int (j mod 90))
      in mk_order oid sd price quantity oid)"

definition trader_roles :: "tid \<Rightarrow> order rc_role" where
  "trader_roles i =
     (if i < NUM_TRADERS then Producing (map (trader_order i) [0..<ORDERS_PER_TRADER]) else Exited [])"

text \<open>The traders run; \<^verbatim>\<open>submit_order\<close> is \<^verbatim>\<open>try_push\<close> on the book's queue.\<close>

definition concurrent_traders :: "(tid \<times> bool) list \<Rightarrow> (order rc_global, order rc_role \<times> order rb_pc) config" where
  "concurrent_traders es = run rc_exec (rc_start 4096 order_default, \<lambda>t. (trader_roles t, RbIdle)) es"

text \<open>The main thread then processes batches of 100 until one is empty.\<close>

partial_function (option) drain_loop :: "order_book \<Rightarrow> uint64 \<Rightarrow> (uint64 \<times> order_book) option" where
  "drain_loop ob total_processed =
     (case process_orders ob 100 of
        None \<Rightarrow> None
      | Some (processed, ob') \<Rightarrow>
          let total = total_processed + word_of_nat processed in
          if processed = 0 then Some (total, ob') else drain_loop ob' total)"

definition concurrent_trading_output :: "order rc_global \<Rightarrow> out list option" where
  "concurrent_trading_output cg =
     map_option (\<lambda>(total, ob). [Line (CHR 0x0A # ''Concurrent trading simulation...''), Show ''Total orders processed: '' (uint total),
         Show ''Final Best Bid: '' (uint (get_best_bid ob)), Show ''Final Best Ask: '' (uint (get_best_ask ob)),
         Show ''Final Spread: '' (uint (get_spread ob)), Show ''Matched Orders: '' (uint (get_matched_orders ob))])
       (drain_loop \<lparr>ob_queue = g_rb (rc_rb cg), ob_book = book_new\<rparr> 0)"

definition order_book_main :: "(tid \<times> bool) list \<Rightarrow> out list option" where
  "order_book_main es =
     (case basic_trading_example of
        None \<Rightarrow> None
      | Some o1 \<Rightarrow> (case matching_example of
          None \<Rightarrow> None
        | Some o2 \<Rightarrow> (case concurrent_traders es of (cg, ls) \<Rightarrow>
            if join_all NUM_TRADERS ls
            then map_option (\<lambda>o3. Line ''=== Order Book Examples ==='' # o1 @ o2 @ o3) (concurrent_trading_output cg)
            else None)))"

subsection \<open>The loops end\<close>

lemma push_retry_spec:
  assumes "rb_invar rb" "0 < rb_room rb" "length (rb_contents rb) < rb_N rb"
  shows "\<exists>rb'. push_retry rb x = Some rb' \<and> rb_invar rb' \<and> rb_contents rb' = rb_contents rb @ [x] \<and> rb_N rb' = rb_N rb \<and>
    rb_room rb \<le> eSuc (rb_room rb')"
  using rb_queue.push_ok [OF assms, of x] by (subst push_retry.simps) auto

lemma produce_loop_spec:
  assumes "rb_invar rb" "enat (length xs) \<le> rb_room rb" "length (rb_contents rb) + length xs \<le> rb_N rb"
  shows "\<exists>rb'. produce_loop rb xs = Some rb' \<and> rb_invar rb' \<and> rb_contents rb' = rb_contents rb @ xs"
  using assms
proof (induction xs arbitrary: rb)
  case (Cons x xs)
  have "0 < rb_room rb" using Cons.prems(2) by (cases "rb_room rb") (auto simp: zero_enat_def)
  then obtain rb1 where 1: "push_retry rb x = Some rb1" "rb_invar rb1" "rb_contents rb1 = rb_contents rb @ [x]"
      "rb_N rb1 = rb_N rb" "rb_room rb \<le> eSuc (rb_room rb1)"
    using push_retry_spec [OF Cons.prems(1), of x] Cons.prems(3) by auto
  have "eSuc (enat (length xs)) \<le> eSuc (rb_room rb1)" using Cons.prems(2) 1(5) by (simp add: eSuc_enat)
  then show ?case using Cons.IH [OF 1(2)] 1 Cons.prems(3) by simp
qed simp

text \<open>With enough room the results of \<^verbatim>\<open>try_push\<close> need no check.\<close>

lemma fill_loop_produce:
  assumes "rb_invar rb" "enat (length xs) \<le> rb_room rb" "length (rb_contents rb) + length xs \<le> rb_N rb"
  shows "fill_loop rb xs = produce_loop rb xs"
  using assms
proof (induction xs arbitrary: rb)
  case (Cons x xs)
  have r: "0 < rb_room rb" using Cons.prems(2) by (cases "rb_room rb") (auto simp: zero_enat_def)
  then obtain rb1 where 1: "rb_try_push rb x = Some (True, rb1)" "rb_invar rb1" "rb_contents rb1 = rb_contents rb @ [x]"
      "rb_N rb1 = rb_N rb" "rb_room rb \<le> eSuc (rb_room rb1)"
    using rb_queue.push_ok [OF Cons.prems(1) r, of x] Cons.prems(3) by auto
  have "eSuc (enat (length xs)) \<le> eSuc (rb_room rb1)" using Cons.prems(2) 1(5) by (simp add: eSuc_enat)
  moreover have "push_retry rb x = Some rb1" using 1(1) by (subst push_retry.simps) simp
  ultimately show ?case using Cons.IH [OF 1(2)] 1 Cons.prems(3) by simp
qed simp

lemma consume_loop_spec:
  "rb_invar rb \<Longrightarrow> consume_loop rb n = Some (map (Show ''Consumed: '') (rb_contents rb), n + int (length (rb_contents rb)))"
proof (induction "rb_contents rb" arbitrary: rb n)
  case Nil
  then show ?case using rb_queue.pop_empty [OF Nil.prems] by (subst consume_loop.simps) simp
next
  case (Cons v vs)
  obtain rb1 where "rb_try_pop rb = Some (Some v, rb1)" "rb_invar rb1" "rb_contents rb1 = vs"
    using rb_queue.pop_ok [OF Cons.prems Cons.hyps(2) [symmetric]] by blast
  then show ?case using Cons.hyps(1) [of rb1 "n + 1"] Cons.hyps(2) [symmetric] by (subst consume_loop.simps) simp
qed

lemma drain_loop_spec:
  assumes "ob_ok k ob"
  shows "\<exists>ob'. drain_loop ob tot = Some (tot + word_of_nat (length (rb_contents (ob_queue ob))), ob') \<and>
     rb_contents (ob_queue ob') = [] \<and>
     ob_book ob' = fold (\<lambda>ord bk. process_single_order bk ord) (rb_contents (ob_queue ob)) (ob_book ob)"
  using assms
proof (induction "length (rb_contents (ob_queue ob))" arbitrary: ob tot rule: less_induct)
  case less
  let ?c = "rb_contents (ob_queue ob)"
  obtain ob1 where 1: "process_orders ob 100 = Some (min 100 (length ?c), ob1)" "ob_ok k ob1"
      "rb_contents (ob_queue ob1) = drop 100 ?c"
      "ob_book ob1 = fold (\<lambda>ord bk. process_single_order bk ord) (take 100 ?c) (ob_book ob)"
    using process_orders_spec [OF less.prems, of 100 100] by auto
  show ?case
  proof (cases "?c = []")
    case True
    then show ?thesis using 1 by (subst drain_loop.simps) simp
  next
    case False
    let ?tot = "tot + word_of_nat (min 100 (length ?c))"
    obtain ob2 where 2: "drain_loop ob1 ?tot = Some (?tot + word_of_nat (length (drop 100 ?c)), ob2)"
        "rb_contents (ob_queue ob2) = []"
        "ob_book ob2 = fold (\<lambda>ord bk. process_single_order bk ord) (drop 100 ?c) (ob_book ob1)"
      using less.hyps [of ob1 ?tot] 1(2,3) False by auto
    have "min 100 (length ?c) + length (drop 100 ?c) = length ?c" by simp
    then have "?tot + word_of_nat (length (drop 100 ?c)) = tot + word_of_nat (length ?c)"
      by (metis add.assoc of_nat_add)
    moreover have "fold f (drop 100 ?c) (fold f (take 100 ?c) b) = fold f ?c b" for f :: "order \<Rightarrow> book \<Rightarrow> book" and b
      by (metis append_take_drop_id fold_append o_apply)
    moreover have "drain_loop ob tot = drain_loop ob1 ?tot"
    proof -
      have "(min 100 (length ?c) = 0) = False" using False by simp
      with 1(1) show ?thesis by (subst drain_loop.simps) (simp only: option.case prod.case Let_def if_False)
    qed
    ultimately show ?thesis using 1(4) 2 by simp
  qed
qed

subsection \<open>What the single-threaded examples print\<close>

lemma rb_new_256: "rb_invar (rb_new 256 d)" "rb_contents (rb_new 256 d) = []" "rb_N (rb_new 256 d) = 256"
  "rb_room (rb_new 256 d) = enat (2 ^ 63 - 257)"
  using rb_new_invar [of 256 d] by (simp_all add: is_pow2_def) (simp_all add: rb_new_def rb_room_def)

lemma ob_session_1024:
  assumes "length cs \<le> 100"
  shows "\<exists>ob. ob_session (ob_new 1024) cs = Some ob \<and>
     ob_book ob = fold (\<lambda>ord bk. process_single_order bk ord) (snd (foldl (ref_call 1024) ([], []) cs)) book_new"
proof -
  have "rb_invar (rb_new 1024 order_default)" "rb_contents (rb_new 1024 order_default) = []"
    by (rule rb_new_invar; simp add: is_pow2_def)+
  moreover have "enat (length cs) \<le> rb_room (rb_new 1024 order_default)" using assms by (simp add: rb_new_def rb_room_def)
  ultimately show ?thesis using ob_session_refines_gen [of cs "ob_new 1024" "[]"]
    by (cases "foldl (ref_call 1024) ([], []) cs") (auto simp: ob_ok_def ob_new_def rb_new_def)
qed

lemma ob_session_append:
  "ob_session ob (cs @ ds) = (case ob_session ob cs of None \<Rightarrow> None | Some ob' \<Rightarrow> ob_session ob' ds)"
  by (induction cs arbitrary: ob) (auto split: option.splits)

lemmas ob_run_simps = Let_def mk_order_def process_single_order_def book_new_def get_best_bid_def get_best_ask_def
  get_spread_def get_matched_orders_def

text \<open>
  The single-threaded examples run to their end and print what their comments promise: all items are
  produced, fifty are consumed in order; the best prices are 10000 and 10010 and nothing matches; the
  buy order at the price of the resting sell order matches.
\<close>

lemma examples_output:
  shows "producer_example d = Some [Line ''Produced 100 items'']"
    "consumer_example d = Some (map (Show ''Consumed: '') (map int [0..<50]) @ [Show ''Total consumed: '' 50])"
    "basic_trading_example = Some [Line ''Submitting initial orders...'', Show ''Best Bid: '' 10000, Show ''Best Ask: '' 10010,
     Show ''Spread: '' 10, Show ''Matched Orders: '' 0]"
    "matching_example = Some [Line (CHR 0x0A # ''Demonstrating order matching...''), Show ''After sell order - Best Ask: '' 10000,
     Show ''After matching buy order - Matched Orders: '' 1]"
proof -
  show "producer_example d = Some [Line ''Produced 100 items'']"
    using produce_loop_spec [OF rb_new_256(1), of "map int [0..<100]" d] by (auto simp: producer_example_def rb_new_256)
  have e: "enat (length (map int [0..<50])) \<le> rb_room (rb_new 256 d)"
    "length (rb_contents (rb_new 256 d)) + length (map int [0..<50]) \<le> rb_N (rb_new 256 d)" by (simp_all add: rb_new_256)
  obtain rb where rb: "fill_loop (rb_new 256 d) (map int [0..<50]) = Some rb" "rb_invar rb" "rb_contents rb = map int [0..<50]"
    using produce_loop_spec [OF rb_new_256(1) e] fill_loop_produce [OF rb_new_256(1) e] by (auto simp: rb_new_256)
  then show "consumer_example d = Some (map (Show ''Consumed: '') (map int [0..<50]) @ [Show ''Total consumed: '' 50])"
    using consume_loop_spec [OF rb(2), of 0] by (simp add: consumer_example_def)
  let ?basic = "[Submit (mk_order 1 BUY 9950 100 1), Submit (mk_order 2 BUY 9975 200 2), Submit (mk_order 3 BUY 10000 150 3),
           Submit (mk_order 4 SELL 10050 100 4), Submit (mk_order 5 SELL 10025 200 5), Submit (mk_order 6 SELL 10010 150 6),
           Process 10]"
  obtain ob where "ob_session (ob_new 1024) ?basic = Some ob"
    "ob_book ob = fold (\<lambda>ord bk. process_single_order bk ord) (snd (foldl (ref_call 1024) ([], []) ?basic)) book_new"
    using ob_session_1024 [of ?basic] by auto
  then show "basic_trading_example = Some [Line ''Submitting initial orders...'', Show ''Best Bid: '' 10000, Show ''Best Ask: '' 10010,
     Show ''Spread: '' 10, Show ''Matched Orders: '' 0]"
    by (simp add: basic_trading_example_def ob_run_simps del: ob_session.simps)
  let ?m1 = "[Submit (mk_order 1 SELL 10000 100 1), Process 10]" and ?m2 = "[Submit (mk_order 2 BUY 10000 100 2), Process 10]"
  obtain ob1 where 1: "ob_session (ob_new 1024) ?m1 = Some ob1"
    "ob_book ob1 = fold (\<lambda>ord bk. process_single_order bk ord) (snd (foldl (ref_call 1024) ([], []) ?m1)) book_new"
    using ob_session_1024 [of ?m1] by auto
  obtain ob2 where 2: "ob_session (ob_new 1024) (?m1 @ ?m2) = Some ob2"
    "ob_book ob2 = fold (\<lambda>ord bk. process_single_order bk ord) (snd (foldl (ref_call 1024) ([], []) (?m1 @ ?m2))) book_new"
    using ob_session_1024 [of "?m1 @ ?m2"] by auto
  have "ob_session ob1 ?m2 = Some ob2" using 1(1) 2(1) unfolding ob_session_append by simp
  then show "matching_example = Some [Line (CHR 0x0A # ''Demonstrating order matching...''), Show ''After sell order - Best Ask: '' 10000,
     Show ''After matching buy order - Matched Orders: '' 1]"
    using 1 2(2) by (simp add: matching_example_def ob_run_simps del: ob_session.simps)
qed

subsection \<open>The concurrent examples under every schedule\<close>

declare upt_rec_numeral [simp del]

lemmas example_sizes = NUM_PRODUCERS_def NUM_CONSUMERS_def ITEMS_PER_PRODUCER_def NUM_TRADERS_def ORDERS_PER_TRADER_def

lemma sum_lessThan_4: "(\<Sum>t<4. f t) = f 0 + f 1 + f 2 + f (3 :: nat)"
  by (simp add: numeral_eq_Suc)

interpretation mpmc: ring_workload mpmc_roles "\<lambda>v. nat v div ITEMS_PER_PRODUCER" "NUM_PRODUCERS + NUM_CONSUMERS" 1024 d
  for d :: int
proof
  show "rc_fresh (mpmc_roles t)" for t by (simp add: mpmc_roles_def)
  show "nat x div ITEMS_PER_PRODUCER = t" if "x \<in> set (rc_todo (mpmc_roles t))" for x t
    using that by (auto simp: mpmc_roles_def example_sizes nat_add_distrib nat_mult_distrib split: if_splits)
qed (auto simp: mpmc_roles_def example_sizes is_pow2_def sum_lessThan_4)

lemma trader_order_id: "i < NUM_TRADERS \<Longrightarrow> j < ORDERS_PER_TRADER \<Longrightarrow> unat (order_id (trader_order i j)) = i * ORDERS_PER_TRADER + j"
  by (simp add: trader_order_def Let_def mk_order_def unat_of_nat example_sizes del: of_nat_add of_nat_mult)

interpretation traders: ring_workload trader_roles "\<lambda>ord. unat (order_id ord) div ORDERS_PER_TRADER" NUM_TRADERS 4096 order_default
proof
  show "unat (order_id x) div ORDERS_PER_TRADER = t" if "x \<in> set (rc_todo (trader_roles t))" for x t
    using that trader_order_id [of t] by (auto simp: trader_roles_def example_sizes split: if_splits)
qed (auto simp: trader_roles_def example_sizes is_pow2_def sum_lessThan_4)

lemma mpmc_reach: "mpmc_example d es = (cg, ls) \<Longrightarrow>
    reach rc_exec (\<lambda>cg. cg = rc_start 1024 d) (\<lambda>t. (mpmc_roles t, RbIdle)) (cg, ls)"
  using reach_run_init [of "\<lambda>cg. cg = rc_start 1024 d" "rc_start 1024 d" rc_exec "\<lambda>t. (mpmc_roles t, RbIdle)" es]
  by (simp add: mpmc_example_def)

lemma traders_reach: "concurrent_traders es = (cg, ls) \<Longrightarrow>
    reach rc_exec (\<lambda>cg. cg = rc_start 4096 order_default) (\<lambda>t. (trader_roles t, RbIdle)) (cg, ls)"
  using reach_run_init [of "\<lambda>cg. cg = rc_start 4096 order_default" "rc_start 4096 order_default" rc_exec "\<lambda>t. (trader_roles t, RbIdle)" es]
  by (simp add: concurrent_traders_def)

lemma mpmc_totals:
  "(\<Sum>t<NUM_PRODUCERS + NUM_CONSUMERS. rc_quota (mpmc_roles t)) = 2000"
  "(\<Sum>t<NUM_PRODUCERS + NUM_CONSUMERS. length (rc_todo (mpmc_roles t))) = 2000"
  "(\<Sum>t<NUM_TRADERS. rc_quota (trader_roles t)) = 0"
  "(\<Sum>t<NUM_TRADERS. length (rc_todo (trader_roles t))) = 2000"
  by (simp_all add: mpmc_roles_def trader_roles_def example_sizes sum_lessThan_4)

lemma mpmc_finishes: "\<exists>fs cg ls. mpmc_example d (es @ fs) = (cg, ls) \<and> rc_joined ls"
proof -
  obtain cg ls where c: "mpmc_example d es = (cg, ls)" by (cases "mpmc_example d es")
  from mpmc.can_finish [OF mpmc_reach [OF c]] c show ?thesis
    by (auto simp: mpmc_totals mpmc_example_def run_append)
qed

lemma traders_finish: "\<exists>fs cg ls. concurrent_traders (es @ fs) = (cg, ls) \<and> rc_joined ls"
proof -
  obtain cg ls where c: "concurrent_traders es = (cg, ls)" by (cases "concurrent_traders es")
  from traders.can_finish [OF traders_reach [OF c]] c show ?thesis
    by (auto simp: mpmc_totals concurrent_traders_def run_append)
qed

lemma mpmc_items: "(\<Sum>t<NUM_PRODUCERS + NUM_CONSUMERS. mset (rc_todo (mpmc_roles t))) = mset (map int [0..<2000])"
proof -
  have "map int [0..<n + n] = map int [0..<n] @ map (\<lambda>j. int n + int j) [0..<n]" for n
    by (rule nth_equalityI) (auto simp: nth_append)
  from this [of ITEMS_PER_PRODUCER]
  have "mset (map int [0..<2000]) = mset (map int [0..<ITEMS_PER_PRODUCER]) +
      mset (map (\<lambda>j. int ITEMS_PER_PRODUCER + int j) [0..<ITEMS_PER_PRODUCER])"
    by (simp only: mset_append [symmetric]) (simp add: example_sizes)
  then show ?thesis by (simp add: mpmc_roles_def NUM_PRODUCERS_def NUM_CONSUMERS_def sum_lessThan_4)
qed

lemma mpmc_joined:
  assumes "mpmc_example d es = (cg, ls)" "rc_joined ls"
  shows "rc_total cg = 2000" "mset (rc_vals (fst (ls 2))) + mset (rc_vals (fst (ls 3))) = mset (map int [0..<2000])"
    "rb_contents (g_rb (rc_rb cg)) = []"
    "i < 2 \<Longrightarrow> filter (\<lambda>v. nat v div 1000 = i) (g_enq (rc_rb cg)) = map (\<lambda>j. int i * 1000 + int j) [0..<1000]"
proof -
  note j = mpmc.joined [OF mpmc_reach [OF assms(1)] assms(2)]
  show tot: "rc_total cg = 2000" using j(3) by (simp only: mpmc_totals)
  have "length (g_enq (rc_rb cg)) = 2000" using arg_cong [OF j(2), of size] by (simp add: mpmc_items)
  then have all: "take (nat (rc_total cg)) (g_enq (rc_rb cg)) = g_enq (rc_rb cg)"
    "drop (nat (rc_total cg)) (g_enq (rc_rb cg)) = []" by (simp_all add: tot)
  have "rc_vals (fst (ls t)) = []" if "t < NUM_PRODUCERS" for t
    using mpmc.reach_thread [OF mpmc_reach [OF assms(1)], of t] assms(2) [unfolded rc_joined_def, rule_format, of t] that
    by (auto simp: mpmc_roles_def)
  then show "mset (rc_vals (fst (ls 2))) + mset (rc_vals (fst (ls 3))) = mset (map int [0..<2000])"
    using j(4) all(1) j(2) mpmc_items by (simp add: example_sizes sum_lessThan_4)
  show "rb_contents (g_rb (rc_rb cg)) = []" using j(7) all(2) by simp
  show "filter (\<lambda>v. nat v div 1000 = i) (g_enq (rc_rb cg)) = map (\<lambda>j. int i * 1000 + int j) [0..<1000]" if "i < 2"
    using j(1) [of i] that by (simp add: mpmc_roles_def example_sizes)
qed

lemma mpmc_in_order:
  assumes "mpmc_example d es = (cg, ls)" "i < 2"
  shows "subseq (filter (\<lambda>v. nat v div 1000 = i) (rc_vals (fst (ls t)))) (map (\<lambda>j. int i * 1000 + int j) [0..<1000])"
  using mpmc.received_in_order [OF mpmc_reach [OF assms(1)], of i t] assms(2) by (simp add: mpmc_roles_def example_sizes)

text \<open>
  C19. Whatever the schedule of \<^verbatim>\<open>mpmc_example\<close>, once all threads are joined it prints 2000, the two
  consumers together have received each of the values 0 to 1999 exactly once, the ring is empty, and
  each consumer has received the values it got of one producer in the order in which that producer pushed them.
\<close>

theorem mpmc_exactly_once:
  assumes "mpmc_example d es = (cg, ls)" "rc_joined ls"
  shows "mpmc_output cg = [ShowUnit ''MPMC Example: Consumed '' 2000 '' items''] \<and>
    mset (rc_vals (fst (ls 2))) + mset (rc_vals (fst (ls 3))) = mset (map int [0..<2000]) \<and>
    rb_contents (g_rb (rc_rb cg)) = [] \<and>
    (\<forall>i<2. \<forall>t. subseq (filter (\<lambda>v. nat v div 1000 = i) (rc_vals (fst (ls t)))) (map (\<lambda>j. int i * 1000 + int j) [0..<1000]))"
  using mpmc_joined [OF assms] mpmc_in_order [OF assms(1)] by (simp add: mpmc_output_def)

theorem mpmc_exactly_once_witness:
  "\<exists>es cg ls. mpmc_example 0 es = (cg, ls) \<and> rc_joined ls \<and> mpmc_output cg = [ShowUnit ''MPMC Example: Consumed '' 2000 '' items''] \<and>
     rb_contents (g_rb (rc_rb cg)) = []"
proof -
  obtain es cg ls where "mpmc_example 0 es = (cg, ls)" "rc_joined ls" using mpmc_finishes [of 0 "[]"] by auto
  with mpmc_exactly_once [OF this] show ?thesis by blast
qed

text \<open>
  C26. \<^verbatim>\<open>ring_buffer_example.cpp\<close> as a program: whatever the schedule, it prints these lines or has not finished
  yet, and it cannot get stuck. From whatever state a schedule has led to there is a continuation in which
  all threads return, so no consumer waits for an item that was lost and no producer for a slot that
  nobody will free.
\<close>

theorem ring_buffer_main_output:
  fixes d1 d2 d3 es
  defines "printed \<equiv>
     [Line ''=== Ring Buffer Examples ==='', Line (CHR 0x0A # ''1. Producer Example:''), Line ''Produced 100 items'',
      Line (CHR 0x0A # ''2. Consumer Example:'')] @ map (Show ''Consumed: '') (map int [0..<50]) @
     [Show ''Total consumed: '' 50, Line (CHR 0x0A # ''3. MPMC Example:''), ShowUnit ''MPMC Example: Consumed '' 2000 '' items'']"
  shows "ring_buffer_main d1 d2 d3 es \<in> {None, Some printed} \<and> (\<exists>fs. ring_buffer_main d1 d2 d3 (es @ fs) = Some printed)"
proof -
  have out: "ring_buffer_main d1 d2 d3 es = (if rc_joined (snd (mpmc_example d3 es)) then Some printed else None)" for es
  proof -
    obtain cg ls where c: "mpmc_example d3 es = (cg, ls)" by (cases "mpmc_example d3 es")
    note j = mpmc.join_all_iff [OF mpmc_reach [OF c]]
    show ?thesis using c j mpmc_joined(1) [OF c] examples_output(1) [of d1] examples_output(2) [of d2]
      by (auto simp: ring_buffer_main_def printed_def mpmc_output_def)
  qed
  moreover obtain fs where "rc_joined (snd (mpmc_example d3 (es @ fs)))" using mpmc_finishes [of d3 es] by (metis snd_conv)
  ultimately show ?thesis by auto
qed

lemma traders_joined:
  assumes "concurrent_traders es = (cg, ls)" "rc_joined ls"
  shows "mset (g_enq (rc_rb cg)) = (\<Sum>t<NUM_TRADERS. mset (map (trader_order t) [0..<ORDERS_PER_TRADER]))"
    "rb_invar (g_rb (rc_rb cg))" "rb_contents (g_rb (rc_rb cg)) = g_enq (rc_rb cg)" "length (g_enq (rc_rb cg)) = 2000"
    "i < NUM_TRADERS \<Longrightarrow> filter (\<lambda>ord. unat (order_id ord) div ORDERS_PER_TRADER = i) (g_enq (rc_rb cg)) =
       map (trader_order i) [0..<ORDERS_PER_TRADER]"
proof -
  note j = traders.joined [OF traders_reach [OF assms(1)] assms(2)]
  show "mset (g_enq (rc_rb cg)) = (\<Sum>t<NUM_TRADERS. mset (map (trader_order t) [0..<ORDERS_PER_TRADER]))"
    using j(2) by (simp add: trader_roles_def)
  have "rc_total cg = 0" using j(3) by (simp only: mpmc_totals)
  then show "rb_invar (g_rb (rc_rb cg))" "rb_contents (g_rb (rc_rb cg)) = g_enq (rc_rb cg)" using j(6,7) by simp_all
  show "length (g_enq (rc_rb cg)) = 2000" using arg_cong [OF j(2), of size] mpmc_totals(4) by (simp add: size_sum_mset)
  show "filter (\<lambda>ord. unat (order_id ord) div ORDERS_PER_TRADER = i) (g_enq (rc_rb cg)) =
       map (trader_order i) [0..<ORDERS_PER_TRADER]" if "i < NUM_TRADERS" using j(1) [of i] that by (simp add: trader_roles_def)
qed

lemma traders_drained:
  assumes "concurrent_traders es = (cg, ls)" "rc_joined ls"
  shows "\<exists>ob. drain_loop \<lparr>ob_queue = g_rb (rc_rb cg), ob_book = book_new\<rparr> 0 = Some (2000, ob) \<and> uncrossed (ob_book ob) \<and>
    ob_book ob = fold (\<lambda>ord bk. process_single_order bk ord) (g_enq (rc_rb cg)) book_new"
proof -
  let ?ob = "\<lparr>ob_queue = g_rb (rc_rb cg), ob_book = book_new\<rparr>" and ?en = "g_enq (rc_rb cg)"
  note j = traders_joined [OF assms]
  have "ob_ok 0 ?ob" using j(2) by (simp add: ob_ok_def zero_enat_def [symmetric])
  from drain_loop_spec [OF this, of 0] obtain ob where ob: "drain_loop ?ob 0 = Some (2000, ob)"
    "ob_book ob = fold (\<lambda>ord bk. process_single_order bk ord) ?en book_new" using j(3,4) by auto
  moreover have "uncrossed (ob_book ob)" unfolding ob(2)
    by (rule uncrossed_fold) (simp add: book_new_def uncrossed_def word_gt_0)
  ultimately show ?thesis by blast
qed

text \<open>
  C20. Whatever the schedule of \<^verbatim>\<open>concurrent_trading_example\<close>, once the four traders are joined the main
  thread's loop ends, prints 2000 processed orders, and leaves the book that results from matching all
  orders, each exactly once, in an order that keeps the order of each trader; the book is not crossed.
\<close>

theorem trading_processes_all:
  assumes "concurrent_traders es = (cg, ls)" "rc_joined ls"
  shows "\<exists>ords ob. drain_loop \<lparr>ob_queue = g_rb (rc_rb cg), ob_book = book_new\<rparr> 0 = Some (2000, ob) \<and>
    concurrent_trading_output cg = Some [Line (CHR 0x0A # ''Concurrent trading simulation...''), Show ''Total orders processed: '' 2000,
      Show ''Final Best Bid: '' (uint (get_best_bid ob)), Show ''Final Best Ask: '' (uint (get_best_ask ob)),
      Show ''Final Spread: '' (uint (get_spread ob)), Show ''Matched Orders: '' (uint (get_matched_orders ob))] \<and>
    ob_book ob = fold (\<lambda>ord bk. process_single_order bk ord) ords book_new \<and> uncrossed (ob_book ob) \<and>
    length ords = 2000 \<and>
    (\<forall>i<4. filter (\<lambda>ord. unat (order_id ord) div 500 = i) ords = map (trader_order i) [0..<500])"
proof -
  obtain ob where "drain_loop \<lparr>ob_queue = g_rb (rc_rb cg), ob_book = book_new\<rparr> 0 = Some (2000, ob)" "uncrossed (ob_book ob)"
    "ob_book ob = fold (\<lambda>ord bk. process_single_order bk ord) (g_enq (rc_rb cg)) book_new" using traders_drained [OF assms] by blast
  then show ?thesis using traders_joined(4,5) [OF assms]
    by (intro exI [of _ "g_enq (rc_rb cg)"] exI [of _ ob]) (simp add: concurrent_trading_output_def example_sizes)
qed

theorem trading_processes_all_witness:
  "\<exists>es cg ls ob. concurrent_traders es = (cg, ls) \<and> rc_joined ls \<and>
     drain_loop \<lparr>ob_queue = g_rb (rc_rb cg), ob_book = book_new\<rparr> 0 = Some (2000, ob) \<and> uncrossed (ob_book ob)"
proof -
  obtain es cg ls where e: "concurrent_traders es = (cg, ls)" "rc_joined ls" using traders_finish [of "[]"] by auto
  from trading_processes_all [OF this] e show ?thesis by blast
qed

text \<open>\<^verbatim>\<open>order_book_example.cpp\<close> as a program: it can always finish, and reports all orders.\<close>

lemma order_book_main_finishes:
  "\<exists>fs ob. uncrossed (ob_book ob) \<and> order_book_main (es @ fs) = Some
     [Line ''=== Order Book Examples ==='', Line ''Submitting initial orders...'', Show ''Best Bid: '' 10000, Show ''Best Ask: '' 10010,
      Show ''Spread: '' 10, Show ''Matched Orders: '' 0, Line (CHR 0x0A # ''Demonstrating order matching...''),
      Show ''After sell order - Best Ask: '' 10000, Show ''After matching buy order - Matched Orders: '' 1,
      Line (CHR 0x0A # ''Concurrent trading simulation...''), Show ''Total orders processed: '' 2000,
      Show ''Final Best Bid: '' (uint (get_best_bid ob)), Show ''Final Best Ask: '' (uint (get_best_ask ob)),
      Show ''Final Spread: '' (uint (get_spread ob)), Show ''Matched Orders: '' (uint (get_matched_orders ob))]"
proof -
  obtain fs cg ls where c: "concurrent_traders (es @ fs) = (cg, ls)" "rc_joined ls" using traders_finish [of es] by blast
  obtain ob where ob: "drain_loop \<lparr>ob_queue = g_rb (rc_rb cg), ob_book = book_new\<rparr> 0 = Some (2000, ob)" "uncrossed (ob_book ob)"
    using traders_drained [OF c] by blast
  have "join_all NUM_TRADERS ls" using traders.join_all_iff [OF traders_reach [OF c(1)]] c(2) by blast
  then show ?thesis using c(1) ob
    by (intro exI [of _ fs] exI [of _ ob]) (simp add: order_book_main_def concurrent_trading_output_def examples_output(3,4))
qed

text \<open>The queue is large enough: no submission of the traders ever finds it full.\<close>

lemma traders_never_full:
  assumes "concurrent_traders es = (cg, ls)"
  shows "snd (ls t) \<noteq> PushRet False"
  using traders.never_full [OF traders_reach [OF assms], of t] mpmc_totals(4) by simp

end
