(* ===== verification/SPSC_Queue.thy ===== *)
theory SPSC_Queue
  imports Queue_Contract
begin

text \<open>
  \<^verbatim>\<open>include/lockless/spsc_queue.hpp\<close>, run by one thread: Lamport's single-producer
  single-consumer ring. Indices stay below \<^verbatim>\<open>Size\<close>, one slot is always left empty, and no
  operation loops, so the definitions are total. \<open>spsc_queue\<close> shows that the class implements
  the queue contract with capacity \<^verbatim>\<open>Size - 1\<close> and no bound on the number of operations. The
  concurrent execution under release/acquire memory is in \<open>SPSC_Conc\<close>.
\<close>

record 'a spsc_queue =
  sq_size :: size_t
  sq_head :: size_t
  sq_tail :: size_t
  sq_buffer :: "'a list"

definition sq_mask :: "'a spsc_queue \<Rightarrow> size_t" where
  "sq_mask q = sq_size q - 1"

definition spsc_size_ok :: "size_t \<Rightarrow> bool" where
  "spsc_size_ok sz \<longleftrightarrow> is_pow2 sz \<and> 2 \<le> sz"

definition spsc_new :: "size_t \<Rightarrow> 'a \<Rightarrow> 'a spsc_queue" where
  "spsc_new sz d = \<lparr>sq_size = sz, sq_head = 0, sq_tail = 0, sq_buffer = replicate (unat sz) d\<rparr>"

definition spsc_try_push :: "'a spsc_queue \<Rightarrow> 'a \<Rightarrow> bool \<times> 'a spsc_queue" where
  "spsc_try_push q item =
     (let head = sq_head q; nxt = (head + 1) AND sq_mask q in
      if nxt = sq_tail q then (False, q)
      else (True, q\<lparr>sq_buffer := (sq_buffer q)[unat head := item], sq_head := nxt\<rparr>))"

definition spsc_try_pop :: "'a spsc_queue \<Rightarrow> 'a option \<times> 'a spsc_queue" where
  "spsc_try_pop q =
     (let tail = sq_tail q in
      if tail = sq_head q then (None, q)
      else (Some (sq_buffer q ! unat tail), q\<lparr>sq_tail := (tail + 1) AND sq_mask q\<rparr>))"

definition spsc_capacity :: "'a spsc_queue \<Rightarrow> size_t" where
  "spsc_capacity q = sq_size q - 1"

definition spsc_empty :: "'a spsc_queue \<Rightarrow> bool" where
  "spsc_empty q \<longleftrightarrow> sq_head q = sq_tail q"

subsection \<open>Invariant and abstraction\<close>

abbreviation sq_N :: "'a spsc_queue \<Rightarrow> nat" where "sq_N q \<equiv> unat (sq_size q)"

definition sq_len :: "'a spsc_queue \<Rightarrow> nat" where
  "sq_len q = (unat (sq_head q) + sq_N q - unat (sq_tail q)) mod sq_N q"

definition spsc_invar :: "'a spsc_queue \<Rightarrow> bool" where
  "spsc_invar q \<longleftrightarrow> is_pow2 (sq_size q) \<and> 2 \<le> sq_N q \<and> unat (sq_head q) < sq_N q \<and>
     unat (sq_tail q) < sq_N q \<and> length (sq_buffer q) = sq_N q"

definition spsc_contents :: "'a spsc_queue \<Rightarrow> 'a list" where
  "spsc_contents q = map (\<lambda>i. sq_buffer q ! ((unat (sq_tail q) + i) mod sq_N q)) [0..<sq_len q]"

subsection \<open>Index arithmetic\<close>

lemma unat_succ_mask:
  assumes "is_pow2 n" "unat i < unat n"
  shows "unat ((i + 1) AND (n - 1)) = (unat i + 1) mod unat n"
proof -
  have "unat i + 1 < 2 ^ 64" using assms(2) unat_less_64 [of n] by linarith
  then show ?thesis using assms(1) by (simp add: is_pow2_mask unat_plus_1)
qed

text \<open>Distance from \<open>t\<close> to \<open>h\<close> on a ring of \<open>n\<close> slots, and how one step changes it.\<close>

lemma ring_dist_eq:
  fixes h t n :: nat
  assumes "h < n" "t < n"
  shows "(h + n - t) mod n = (if t \<le> h then h - t else h + n - t)"
  using assms by (auto simp: mod_if)

lemma ring_dist_head:
  fixes h t n :: nat
  assumes "h < n" "t < n" "(h + 1) mod n \<noteq> t"
  shows "((h + 1) mod n + n - t) mod n = (h + n - t) mod n + 1"
proof -
  have "(h + 1) mod n = (if h + 1 = n then 0 else h + 1)" using assms(1) by (auto simp: mod_if)
  moreover have "(h + 1) mod n < n" using assms(1) by simp
  ultimately show ?thesis using assms by (simp only: ring_dist_eq split: if_splits) auto
qed

lemma ring_dist_tail:
  fixes h t n :: nat
  assumes "h < n" "t < n" "h \<noteq> t"
  shows "(h + n - (t + 1) mod n) mod n + 1 = (h + n - t) mod n"
proof -
  have "(t + 1) mod n = (if t + 1 = n then 0 else t + 1)" using assms(2) by (auto simp: mod_if)
  moreover have "(t + 1) mod n < n" using assms(2) by simp
  ultimately show ?thesis using assms by (simp only: ring_dist_eq split: if_splits) auto
qed

lemma ring_dist_full:
  fixes h t n :: nat
  assumes "h < n" "t < n" "2 \<le> n"
  shows "(h + n - t) mod n = n - 1 \<longleftrightarrow> (h + 1) mod n = t"
  using assms by (auto simp: ring_dist_eq mod_if)

lemma ring_dist_end:
  fixes h t n :: nat
  assumes "h < n" "t < n"
  shows "(t + (h + n - t) mod n) mod n = h"
  using assms by (auto simp: ring_dist_eq)

lemma spsc_invarD:
  assumes "spsc_invar q"
  shows "is_pow2 (sq_size q)" "2 \<le> sq_N q" "unat (sq_head q) < sq_N q" "unat (sq_tail q) < sq_N q"
    "length (sq_buffer q) = sq_N q"
    and "unat ((sq_head q + 1) AND sq_mask q) = (unat (sq_head q) + 1) mod sq_N q"
    and "unat ((sq_tail q + 1) AND sq_mask q) = (unat (sq_tail q) + 1) mod sq_N q"
  using assms by (auto simp: spsc_invar_def sq_mask_def unat_succ_mask)

subsection \<open>The queue contract\<close>

lemma spsc_new_invar:
  assumes "spsc_size_ok sz"
  shows "spsc_invar (spsc_new sz d)" "spsc_contents (spsc_new sz d) = []"
  using assms by (auto simp: spsc_size_ok_def spsc_invar_def spsc_new_def spsc_contents_def sq_len_def
      word_le_nat_alt)

lemma spsc_len_full:
  assumes i: "spsc_invar q"
  shows "sq_len q = sq_N q - 1 \<longleftrightarrow> (sq_head q + 1) AND sq_mask q = sq_tail q"
  using ring_dist_full [OF spsc_invarD(3,4,2) [OF i]] spsc_invarD(6) [OF i]
  by (simp add: sq_len_def word_unat_eq_iff)

lemma spsc_len_empty:
  assumes i: "spsc_invar q"
  shows "sq_len q = 0 \<longleftrightarrow> sq_head q = sq_tail q"
  using spsc_invarD(3,4) [OF i]
  by (auto simp: sq_len_def word_unat_eq_iff ring_dist_eq [OF spsc_invarD(3,4) [OF i]] split: if_splits)

lemma spsc_len_less:
  assumes i: "spsc_invar q"
  shows "sq_len q \<le> sq_N q - 1"
proof -
  have "sq_len q < sq_N q" unfolding sq_len_def using spsc_invarD(2) [OF i] by simp
  then show ?thesis by simp
qed

lemma spsc_push_ok:
  assumes i: "spsc_invar q" and l: "sq_len q < sq_N q - 1"
  shows "\<exists>q'. spsc_try_push q x = (True, q') \<and> spsc_invar q' \<and>
           spsc_contents q' = spsc_contents q @ [x] \<and> sq_size q' = sq_size q"
proof -
  note D = spsc_invarD [OF i]
  let ?h = "unat (sq_head q)" and ?t = "unat (sq_tail q)" and ?n = "sq_N q"
  have ne: "(sq_head q + 1) AND sq_mask q \<noteq> sq_tail q" using spsc_len_full [OF i] l by auto
  then have nu: "(?h + 1) mod ?n \<noteq> ?t" using D(6) by (metis word_unat_eq_iff)
  define q' where "q' = q\<lparr>sq_buffer := (sq_buffer q)[?h := x], sq_head := (sq_head q + 1) AND sq_mask q\<rparr>"
  have len: "sq_len q' = sq_len q + 1"
    using ring_dist_head [OF D(3,4) nu] D(6) by (simp add: sq_len_def q'_def)
  have old: "sq_buffer q' ! ((?t + i) mod ?n) = sq_buffer q ! ((?t + i) mod ?n)" if "i < sq_len q" for i
  proof -
    have "(?t + sq_len q) mod ?n = ?h" unfolding sq_len_def by (rule ring_dist_end [OF D(3,4)])
    moreover have "(?t + i) mod ?n \<noteq> (?t + sq_len q) mod ?n"
      using mod_window_inj [of "?t + i" ?n "?t + sq_len q" ?t] that l by linarith
    ultimately show ?thesis by (simp add: q'_def)
  qed
  have new: "sq_buffer q' ! ((?t + sq_len q) mod ?n) = x"
    using ring_dist_end [OF D(3,4)] D(3,5) by (simp add: q'_def sq_len_def)
  have "spsc_contents q' = spsc_contents q @ [x]"
    unfolding spsc_contents_def len using old new by (auto simp: q'_def)
  moreover have "spsc_invar q'"
    using D by (auto simp: spsc_invar_def q'_def)
  ultimately show ?thesis using ne by (auto simp: spsc_try_push_def Let_def q'_def)
qed

lemma spsc_pop_ok:
  assumes i: "spsc_invar q" and c: "spsc_contents q = x # xs"
  shows "\<exists>q'. spsc_try_pop q = (Some x, q') \<and> spsc_invar q' \<and> spsc_contents q' = xs \<and>
           sq_size q' = sq_size q"
proof -
  note D = spsc_invarD [OF i]
  let ?h = "unat (sq_head q)" and ?t = "unat (sq_tail q)" and ?n = "sq_N q"
  have "length (spsc_contents q) \<noteq> 0" using c by simp
  then have "sq_len q \<noteq> 0" by (simp add: spsc_contents_def)
  then have ne: "sq_tail q \<noteq> sq_head q" using spsc_len_empty [OF i] by auto
  then have nu: "?h \<noteq> ?t" by (metis word_unat_eq_iff)
  define q' where "q' = q\<lparr>sq_tail := (sq_tail q + 1) AND sq_mask q\<rparr>"
  have len: "sq_len q' + 1 = sq_len q"
    using ring_dist_tail [OF D(3,4) nu] D(7) by (simp add: sq_len_def q'_def)
  have "spsc_contents q = sq_buffer q ! ?t # map (\<lambda>i. sq_buffer q ! ((?t + Suc i) mod ?n)) [0..<sq_len q']"
    using D(4) unfolding spsc_contents_def len [symmetric]
    by (simp add: map_upt_Suc del: upt_Suc)
  moreover have "map (\<lambda>i. sq_buffer q ! ((?t + Suc i) mod ?n)) [0..<sq_len q'] = spsc_contents q'"
    using D(7) by (auto simp: spsc_contents_def q'_def mod_simps)
  ultimately have "sq_buffer q ! ?t = x" "spsc_contents q' = xs" using c by auto
  moreover have "spsc_invar q'" using D by (auto simp: spsc_invar_def q'_def)
  ultimately show ?thesis using ne by (auto simp: spsc_try_pop_def Let_def q'_def)
qed

lemma spsc_contents_len: "length (spsc_contents q) = sq_len q"
  by (simp add: spsc_contents_def)

interpretation spsc_queue: bounded_queue "\<lambda>q x. Some (spsc_try_push q x)" "\<lambda>q. Some (spsc_try_pop q)"
  spsc_invar spsc_contents "\<lambda>q. unat (spsc_capacity q)" "\<lambda>_. \<infinity>"
proof
  fix q :: "'a spsc_queue" and x xs
  assume i: "spsc_invar q"
  have cap: "unat (spsc_capacity q) = sq_N q - 1"
    unfolding spsc_capacity_def by (rule unat_minus_1) (use spsc_invarD(2) [OF i] in auto)
  show "length (spsc_contents q) \<le> unat (spsc_capacity q)"
    using spsc_len_less [OF i] by (simp add: spsc_contents_len cap)
  show "\<exists>q'. Some (spsc_try_push q x) = Some (True, q') \<and> spsc_invar q' \<and>
      spsc_contents q' = spsc_contents q @ [x] \<and> unat (spsc_capacity q') = unat (spsc_capacity q) \<and>
      \<infinity> \<le> eSuc \<infinity>"
    if "length (spsc_contents q) < unat (spsc_capacity q)"
  proof -
    have "sq_len q < sq_N q - 1" using that by (simp add: spsc_contents_len cap)
    from spsc_push_ok [OF i this, of x] show ?thesis by (auto simp: spsc_capacity_def)
  qed
  show "Some (spsc_try_push q x) = Some (False, q)"
    if "length (spsc_contents q) = unat (spsc_capacity q)"
    using that spsc_len_full [OF i] by (simp add: spsc_contents_len cap spsc_try_push_def Let_def)
  show "\<exists>q'. Some (spsc_try_pop q) = Some (Some x, q') \<and> spsc_invar q' \<and> spsc_contents q' = xs \<and>
      unat (spsc_capacity q') = unat (spsc_capacity q) \<and> \<infinity> = \<infinity>"
    if "spsc_contents q = x # xs"
    using spsc_pop_ok [OF i that] by (auto simp: spsc_capacity_def)
  show "Some (spsc_try_pop q) = Some (None, q)" if "spsc_contents q = []"
    using that spsc_len_empty [OF i] spsc_contents_len [of q] by (simp add: spsc_try_pop_def)
qed

subsection \<open>Properties of the sequential operations\<close>

text \<open>
  C32. On a well-formed queue, \<^verbatim>\<open>try_push\<close> appends exactly if fewer than \<^verbatim>\<open>capacity() = Size - 1\<close> items
  are stored and otherwise changes nothing; \<^verbatim>\<open>try_pop\<close> removes the oldest item; \<^verbatim>\<open>empty()\<close> is true
  exactly if no item is stored. No number of operations wears the queue out.
\<close>

theorem spsc_fifo:
  assumes "spsc_invar q"
  shows "(\<exists>b q'. spsc_try_push q x = (b, q') \<and> spsc_invar q' \<and>
            (b \<longleftrightarrow> length (spsc_contents q) < unat (spsc_capacity q)) \<and>
            spsc_contents q' = (if b then spsc_contents q @ [x] else spsc_contents q)) \<and>
         (\<exists>q'. spsc_try_pop q = (case spsc_contents q of [] \<Rightarrow> None | y # _ \<Rightarrow> Some y, q') \<and>
            spsc_invar q' \<and> spsc_contents q' = tl (spsc_contents q)) \<and>
         (spsc_empty q \<longleftrightarrow> spsc_contents q = [])"
proof (intro conjI)
  show "\<exists>b q'. spsc_try_push q x = (b, q') \<and> spsc_invar q' \<and>
            (b \<longleftrightarrow> length (spsc_contents q) < unat (spsc_capacity q)) \<and>
            spsc_contents q' = (if b then spsc_contents q @ [x] else spsc_contents q)"
    using spsc_queue.push_total [OF assms, of x] by auto
  show "\<exists>q'. spsc_try_pop q = (case spsc_contents q of [] \<Rightarrow> None | y # _ \<Rightarrow> Some y, q') \<and>
            spsc_invar q' \<and> spsc_contents q' = tl (spsc_contents q)"
    using spsc_queue.pop_total [OF assms] by auto
  show "spsc_empty q \<longleftrightarrow> spsc_contents q = []"
    using spsc_len_empty [OF assms] by (simp add: spsc_empty_def spsc_contents_def)
qed

theorem spsc_fifo_witness:
  "\<exists>b q'. spsc_try_push (spsc_new 2 (0::nat)) 7 = (b, q') \<and> b \<and> spsc_contents q' = [7]"
proof -
  have i: "spsc_invar (spsc_new 2 (0::nat))" "spsc_contents (spsc_new 2 (0::nat)) = []"
    by (rule spsc_new_invar; simp add: spsc_size_ok_def is_pow2_def)+
  have "unat (spsc_capacity (spsc_new 2 (0::nat))) = 1" by (simp add: spsc_capacity_def spsc_new_def)
  with spsc_fifo [OF i(1), of 7] i(2) show ?thesis by auto
qed

end
