(* ===== verification/SPSC_Conc.thy ===== *)
theory SPSC_Conc
  imports SPSC_Queue Linearizability
begin

text \<open>
  \<^verbatim>\<open>SPSCQueue\<close> with its producer and its consumer in parallel, under C++ release/acquire
  semantics rather than sequential consistency. The history of each of the two atomics is the
  list of the messages stored to it, in modification order. A release store appends a message
  with the vector clock of the storing thread; an acquire load may return any message not older
  than the newest one the thread has already seen of that atomic (so stale values are
  possible) and joins its clock. Each plain access of \<^verbatim>\<open>buffer_\<close> is stamped with the clock of its
  thread; it sets \<open>m_race\<close> unless the last conflicting access of that slot happened before it.
  The relaxed loads read the atomic that only the loading thread writes, so they return its
  newest message. \<open>m_enq\<close> is a ghost: the pushed items, in the order of the release stores.
\<close>

record sq_msg =
  msg_val :: size_t
  msg_vc :: "nat \<times> nat" \<comment> \<open>clocks of the producer and of the consumer\<close>

record 'a sq_mem =
  m_size :: size_t
  m_head :: "sq_msg list"
  m_tail :: "sq_msg list"
  m_buffer :: "'a list"
  m_wclk :: "nat list" \<comment> \<open>producer clock of the last write of each slot\<close>
  m_rclk :: "nat list" \<comment> \<open>consumer clock of the last read of each slot\<close>
  m_vp :: "nat \<times> nat"
  m_vc :: "nat \<times> nat"
  m_seen_tail :: nat
  m_seen_head :: nat
  m_race :: bool
  m_enq :: "'a list"

datatype 'a sq_pc =
    SqInert                    \<comment> \<open>a thread that does not use the queue\<close>
  | ProdIdle
  | ProdHead 'a                \<comment> \<open>about to load \<^verbatim>\<open>head_\<close> (relaxed, own atomic)\<close>
  | ProdTail 'a size_t         \<comment> \<open>about to load \<^verbatim>\<open>tail_\<close> (acquire)\<close>
  | ProdWrite 'a size_t        \<comment> \<open>about to write \<^verbatim>\<open>buffer_[head]\<close>\<close>
  | ProdStore 'a size_t        \<comment> \<open>about to store \<^verbatim>\<open>head_\<close> (release)\<close>
  | ProdRet bool
  | ConsIdle
  | ConsTail
  | ConsHead size_t
  | ConsRead size_t
  | ConsStore 'a size_t
  | ConsRet "'a option"

datatype 'a sq_act = SqPush 'a | SqPop | SqGo nat \<comment> \<open>the message an acquire load returns\<close>

definition vjoin :: "nat \<times> nat \<Rightarrow> nat \<times> nat \<Rightarrow> nat \<times> nat" where
  "vjoin v w = (max (fst v) (fst w), max (snd v) (snd w))"

definition pick_msg :: "nat \<Rightarrow> nat \<Rightarrow> sq_msg list \<Rightarrow> nat" where
  "pick_msg j seen msgs = max seen (min j (length msgs - 1))"

definition m_next :: "'a sq_mem \<Rightarrow> size_t \<Rightarrow> size_t" where
  "m_next g pos = (pos + 1) AND (m_size g - 1)"

fun sq_go :: "nat \<Rightarrow> 'a sq_mem \<Rightarrow> 'a sq_pc \<Rightarrow> 'a sq_mem \<times> 'a sq_pc" where
  "sq_go j g (ProdHead item) = (g, ProdTail item (msg_val (last (m_head g))))"
| "sq_go j g (ProdTail item head) =
     (let i = pick_msg j (m_seen_tail g) (m_tail g); msg = m_tail g ! i in
      (g\<lparr>m_seen_tail := i, m_vp := vjoin (m_vp g) (msg_vc msg)\<rparr>,
       if m_next g head = msg_val msg then ProdRet False else ProdWrite item head))"
| "sq_go j g (ProdWrite item head) =
     (g\<lparr>m_race := m_race g \<or> snd (m_vp g) < m_rclk g ! unat head,
        m_buffer := (m_buffer g)[unat head := item],
        m_wclk := (m_wclk g)[unat head := fst (m_vp g)]\<rparr>, ProdStore item head)"
| "sq_go j g (ProdStore item head) =
     (g\<lparr>m_head := m_head g @ [\<lparr>msg_val = m_next g head, msg_vc = m_vp g\<rparr>],
        m_vp := (fst (m_vp g) + 1, snd (m_vp g)), m_enq := m_enq g @ [item]\<rparr>, ProdRet True)"
| "sq_go j g (ProdRet b) = (g, ProdIdle)"
| "sq_go j g ConsTail = (g, ConsHead (msg_val (last (m_tail g))))"
| "sq_go j g (ConsHead tail) =
     (let i = pick_msg j (m_seen_head g) (m_head g); msg = m_head g ! i in
      (g\<lparr>m_seen_head := i, m_vc := vjoin (m_vc g) (msg_vc msg)\<rparr>,
       if tail = msg_val msg then ConsRet None else ConsRead tail))"
| "sq_go j g (ConsRead tail) =
     (g\<lparr>m_race := m_race g \<or> fst (m_vc g) < m_wclk g ! unat tail,
        m_rclk := (m_rclk g)[unat tail := snd (m_vc g)]\<rparr>, ConsStore (m_buffer g ! unat tail) tail)"
| "sq_go j g (ConsStore item tail) =
     (g\<lparr>m_tail := m_tail g @ [\<lparr>msg_val = m_next g tail, msg_vc = m_vc g\<rparr>],
        m_vc := (fst (m_vc g), snd (m_vc g) + 1)\<rparr>, ConsRet (Some item))"
| "sq_go j g (ConsRet r) = (g, ConsIdle)"
| "sq_go j g l = (g, l)"

fun sq_exec :: "'a sq_act \<Rightarrow> 'a sq_mem \<Rightarrow> 'a sq_pc \<Rightarrow> 'a sq_mem \<times> 'a sq_pc" where
  "sq_exec (SqPush item) g l = (g, case l of ProdIdle \<Rightarrow> ProdHead item | _ \<Rightarrow> l)"
| "sq_exec SqPop g l = (g, case l of ConsIdle \<Rightarrow> ConsTail | _ \<Rightarrow> l)"
| "sq_exec (SqGo j) g l = sq_go j g l"

definition sq_start :: "size_t \<Rightarrow> 'a \<Rightarrow> 'a sq_mem" where
  "sq_start sz d = \<lparr>m_size = sz, m_head = [\<lparr>msg_val = 0, msg_vc = (0, 0)\<rparr>],
     m_tail = [\<lparr>msg_val = 0, msg_vc = (0, 0)\<rparr>], m_buffer = replicate (unat sz) d,
     m_wclk = replicate (unat sz) 0, m_rclk = replicate (unat sz) 0, m_vp = (1, 0), m_vc = (0, 1),
     m_seen_tail = 0, m_seen_head = 0, m_race = False, m_enq = []\<rparr>"

definition sq_ginit :: "'a sq_mem \<Rightarrow> bool" where
  "sq_ginit g \<longleftrightarrow> (\<exists>sz d. spsc_size_ok sz \<and> g = sq_start sz d)"

text \<open>Thread 0 is the producer, thread 1 the consumer, as the class requires.\<close>

definition sq_linit :: "tid \<Rightarrow> 'a sq_pc" where
  "sq_linit t = (if t = 0 then ProdIdle else if t = 1 then ConsIdle else SqInert)"

abbreviation sq_reach :: "('a sq_mem, 'a sq_pc) config \<Rightarrow> bool" where
  "sq_reach \<equiv> reach sq_exec sq_ginit sq_linit"

subsection \<open>Assertions\<close>

abbreviation m_N :: "'a sq_mem \<Rightarrow> nat" where "m_N g \<equiv> unat (m_size g)"
abbreviation m_H :: "'a sq_mem \<Rightarrow> nat" where "m_H g \<equiv> length (m_enq g)"

definition m_T :: "'a sq_mem \<Rightarrow> nat" where "m_T g = length (m_tail g) - 1"

text \<open>
  The global invariant, in four parts: sizes and counters; the message histories (message \<open>k\<close>
  carries index \<open>k mod Size\<close> and its writer's clock \<open>k\<close>); the clocks and views of both threads;
  the buffer with the stamps of its slots.
\<close>

definition sq_count_inv :: "'a sq_mem \<Rightarrow> bool" where
  "sq_count_inv g \<longleftrightarrow> is_pow2 (m_size g) \<and> 2 \<le> m_N g \<and> length (m_head g) = Suc (m_H g) \<and>
     length (m_tail g) = Suc (m_T g) \<and> m_seen_tail g \<le> m_T g \<and> m_T g \<le> m_seen_head g \<and>
     m_seen_head g \<le> m_H g \<and> m_H g + 1 \<le> m_seen_tail g + m_N g"

definition sq_msg_inv :: "'a sq_mem \<Rightarrow> bool" where
  "sq_msg_inv g \<longleftrightarrow>
     (\<forall>k\<le>m_H g. unat (msg_val (m_head g ! k)) = k mod m_N g \<and>
        fst (msg_vc (m_head g ! k)) = k \<and> snd (msg_vc (m_head g ! k)) \<le> m_T g) \<and>
     (\<forall>k\<le>m_T g. unat (msg_val (m_tail g ! k)) = k mod m_N g \<and>
        snd (msg_vc (m_tail g ! k)) = k \<and> fst (msg_vc (m_tail g ! k)) \<le> m_H g)"

definition sq_clock_inv :: "'a sq_mem \<Rightarrow> bool" where
  "sq_clock_inv g \<longleftrightarrow> fst (m_vp g) = m_H g + 1 \<and> m_seen_tail g \<le> snd (m_vp g) \<and> snd (m_vp g) \<le> m_T g \<and>
     snd (m_vc g) = m_T g + 1 \<and> m_seen_head g \<le> fst (m_vc g) \<and> fst (m_vc g) \<le> m_H g"

definition sq_slot_inv :: "'a sq_mem \<Rightarrow> bool" where
  "sq_slot_inv g \<longleftrightarrow> \<not> m_race g \<and> length (m_buffer g) = m_N g \<and> length (m_wclk g) = m_N g \<and>
     length (m_rclk g) = m_N g \<and>
     (\<forall>k. m_T g \<le> k \<and> k < m_H g \<longrightarrow>
        m_buffer g ! (k mod m_N g) = m_enq g ! k \<and> m_wclk g ! (k mod m_N g) = k + 1) \<and>
     (\<forall>i<m_N g. m_rclk g ! i = 0 \<or>
        (\<exists>k. k mod m_N g = i \<and> m_rclk g ! i = k + 1 \<and> k < m_H g))"

definition sq_G :: "'a sq_mem \<Rightarrow> bool" where
  "sq_G g \<longleftrightarrow> sq_count_inv g \<and> sq_msg_inv g \<and> sq_clock_inv g \<and> sq_slot_inv g"

fun sq_L :: "'a sq_mem \<Rightarrow> 'a sq_pc \<Rightarrow> bool" where
  "sq_L g (ProdTail item head) = (unat head = m_H g mod m_N g)"
| "sq_L g (ProdWrite item head) = (unat head = m_H g mod m_N g \<and> m_H g + 2 \<le> m_seen_tail g + m_N g)"
| "sq_L g (ProdStore item head) = (unat head = m_H g mod m_N g \<and> m_H g + 2 \<le> m_seen_tail g + m_N g \<and>
     m_buffer g ! (m_H g mod m_N g) = item \<and> m_wclk g ! (m_H g mod m_N g) = m_H g + 1)"
| "sq_L g (ConsHead tail) = (unat tail = m_T g mod m_N g)"
| "sq_L g (ConsRead tail) = (unat tail = m_T g mod m_N g \<and> m_T g < m_seen_head g)"
| "sq_L g (ConsStore item tail) = (unat tail = m_T g mod m_N g \<and> m_T g < m_seen_head g \<and>
     item = m_enq g ! m_T g)"
| "sq_L g _ = True"

datatype sq_role = Producer | Consumer | Neither

fun role :: "'a sq_pc \<Rightarrow> sq_role" where
  "role ProdIdle = Producer" | "role (ProdHead _) = Producer" | "role (ProdTail _ _) = Producer"
| "role (ProdWrite _ _) = Producer" | "role (ProdStore _ _) = Producer" | "role (ProdRet _) = Producer"
| "role SqInert = Neither"
| "role _ = Consumer"

definition sq_X :: "'a sq_pc \<Rightarrow> 'a sq_pc \<Rightarrow> bool" where
  "sq_X l m \<longleftrightarrow> role l = Neither \<or> role l \<noteq> role m"

lemma role_exec: "sq_exec a g l = (g', l') \<Longrightarrow> role l' = role l"
  by (cases a; cases l) (auto simp: Let_def split: if_splits)

subsection \<open>Obligations of the proof rule\<close>

lemma sq_next_mod:
  assumes "sq_count_inv g" "unat pos = k mod m_N g"
  shows "unat (m_next g pos) = (k + 1) mod m_N g"
proof -
  have "unat pos < m_N g" using assms by (simp add: sq_count_inv_def)
  then show ?thesis
    using assms unat_succ_mask [of "m_size g" pos] by (simp add: sq_count_inv_def m_next_def mod_simps)
qed

lemma pick_tail:
  "sq_count_inv g \<Longrightarrow> m_seen_tail g \<le> pick_msg j (m_seen_tail g) (m_tail g) \<and>
     pick_msg j (m_seen_tail g) (m_tail g) \<le> m_T g"
  by (auto simp: pick_msg_def sq_count_inv_def)

lemma pick_head:
  "sq_count_inv g \<Longrightarrow> m_seen_head g \<le> pick_msg j (m_seen_head g) (m_head g) \<and>
     pick_msg j (m_seen_head g) (m_head g) \<le> m_H g"
  by (auto simp: pick_msg_def sq_count_inv_def)

text \<open>The slot of the producer's next ticket is not one the consumer can read.\<close>

lemma sq_slot_free:
  assumes "sq_count_inv g" "m_T g \<le> k" "k < m_H g"
  shows "m_H g mod m_N g \<noteq> k mod m_N g"
  using mod_window_inj [of k "m_N g" "m_H g" "m_T g"] assms by (auto simp: sq_count_inv_def)

lemma sq_write_no_race:
  assumes "sq_G g" "sq_L g (ProdWrite x head)"
  shows "m_rclk g ! unat head \<le> snd (m_vp g)"
proof -
  have h: "unat head = m_H g mod m_N g" "unat head < m_N g"
    using assms by (auto simp: sq_G_def sq_count_inv_def)
  then consider "m_rclk g ! unat head = 0"
    | k where "k mod m_N g = m_H g mod m_N g" "m_rclk g ! unat head = k + 1" "k < m_H g"
    using assms(1) by (fastforce simp: sq_G_def sq_slot_inv_def)
  then show ?thesis
  proof cases
    case 2
    then have "k + m_N g \<le> m_H g" by (intro mod_eq_gap)
    then show ?thesis using 2 assms by (auto simp: sq_G_def sq_clock_inv_def sq_count_inv_def)
  qed simp
qed

lemma sq_read_no_race:
  assumes "sq_G g" "sq_L g (ConsRead tail)"
  shows "m_wclk g ! unat tail \<le> fst (m_vc g)" "m_buffer g ! unat tail = m_enq g ! m_T g"
proof -
  have "m_T g < m_H g" using assms by (auto simp: sq_G_def sq_count_inv_def)
  then have "m_wclk g ! unat tail = m_T g + 1 \<and> m_buffer g ! unat tail = m_enq g ! m_T g"
    using assms by (auto simp: sq_G_def sq_slot_inv_def)
  then show "m_wclk g ! unat tail \<le> fst (m_vc g)" "m_buffer g ! unat tail = m_enq g ! m_T g"
    using assms by (auto simp: sq_G_def sq_clock_inv_def)
qed

lemma sq_prod_tail:
  assumes G: "sq_G g" and L: "sq_L g (ProdTail x head)" and go: "sq_go j g (ProdTail x head) = (g', l')"
  shows "sq_G g' \<and> sq_L g' l'"
proof -
  let ?i = "pick_msg j (m_seen_tail g) (m_tail g)"
  have C: "sq_count_inv g" using G by (simp add: sq_G_def)
  note i = pick_tail [OF C, of j]
  have g': "g' = g\<lparr>m_seen_tail := ?i, m_vp := vjoin (m_vp g) (msg_vc (m_tail g ! ?i))\<rparr>"
    using go by (auto simp: Let_def)
  have msg: "unat (msg_val (m_tail g ! ?i)) = ?i mod m_N g" "snd (msg_vc (m_tail g ! ?i)) = ?i"
    "fst (msg_vc (m_tail g ! ?i)) \<le> m_H g"
    using G i by (auto simp: sq_G_def sq_msg_inv_def)
  have "sq_G g'"
    using G i msg by (auto simp: g' sq_G_def sq_count_inv_def sq_msg_inv_def sq_clock_inv_def
        sq_slot_inv_def m_T_def vjoin_def)
  moreover have "m_H g + 2 \<le> ?i + m_N g" if "m_next g head \<noteq> msg_val (m_tail g ! ?i)"
  proof -
    have "(m_H g + 1) mod m_N g \<noteq> ?i mod m_N g"
      using that sq_next_mod [OF C, of head "m_H g"] L msg(1) by (auto simp: word_unat_eq_iff)
    then have "m_H g + 1 \<noteq> ?i + m_N g" by (metis mod_add_self2)
    then show ?thesis using C i by (simp add: sq_count_inv_def)
  qed
  ultimately show ?thesis using go L by (auto simp: g' Let_def m_T_def)
qed

lemma sq_cons_head:
  assumes G: "sq_G g" and L: "sq_L g (ConsHead tail)" and go: "sq_go j g (ConsHead tail) = (g', l')"
  shows "sq_G g' \<and> sq_L g' l'"
proof -
  let ?i = "pick_msg j (m_seen_head g) (m_head g)"
  have C: "sq_count_inv g" using G by (simp add: sq_G_def)
  note i = pick_head [OF C, of j]
  have g': "g' = g\<lparr>m_seen_head := ?i, m_vc := vjoin (m_vc g) (msg_vc (m_head g ! ?i))\<rparr>"
    using go by (auto simp: Let_def)
  have msg: "unat (msg_val (m_head g ! ?i)) = ?i mod m_N g" "fst (msg_vc (m_head g ! ?i)) = ?i"
    "snd (msg_vc (m_head g ! ?i)) \<le> m_T g"
    using G i by (auto simp: sq_G_def sq_msg_inv_def)
  have "sq_G g'"
    using G i msg by (auto simp: g' sq_G_def sq_count_inv_def sq_msg_inv_def sq_clock_inv_def
        sq_slot_inv_def m_T_def vjoin_def)
  moreover have "m_T g < ?i" if "tail \<noteq> msg_val (m_head g ! ?i)"
  proof -
    have "m_T g \<noteq> ?i" using that L msg(1) by (auto simp: word_unat_eq_iff)
    then show ?thesis using C i by (simp add: sq_count_inv_def)
  qed
  ultimately show ?thesis using go L by (auto simp: g' Let_def m_T_def)
qed

lemma sq_prod_write:
  assumes G: "sq_G g" and L: "sq_L g (ProdWrite x head)" and go: "sq_go j g (ProdWrite x head) = (g', l')"
  shows "sq_G g' \<and> sq_L g' l'"
proof -
  have C: "sq_count_inv g" using G by (simp add: sq_G_def)
  have h: "unat head = m_H g mod m_N g" "m_H g mod m_N g < m_N g"
    using L C by (auto simp: sq_count_inv_def)
  have len: "length (m_buffer g) = m_N g" "length (m_wclk g) = m_N g"
    using G by (auto simp: sq_G_def sq_slot_inv_def)
  have nr: "\<not> snd (m_vp g) < m_rclk g ! unat head" using sq_write_no_race [OF G L] by simp
  have vp: "fst (m_vp g) = m_H g + 1" using G by (simp add: sq_G_def sq_clock_inv_def)
  have g': "g' = g\<lparr>m_race := m_race g, m_buffer := (m_buffer g)[m_H g mod m_N g := x],
      m_wclk := (m_wclk g)[m_H g mod m_N g := m_H g + 1]\<rparr>" and l': "l' = ProdStore x head"
    using go nr vp h(1) by auto
  have "sq_slot_inv g'"
    using G sq_slot_free [OF C] by (auto simp: g' sq_G_def sq_slot_inv_def m_T_def)
  then have "sq_G g'"
    using G by (auto simp: g' sq_G_def sq_count_inv_def sq_msg_inv_def sq_clock_inv_def m_T_def)
  then show ?thesis using L h len by (auto simp: g' l')
qed

lemma sq_prod_store:
  assumes G: "sq_G g" and L: "sq_L g (ProdStore x head)" and go: "sq_go j g (ProdStore x head) = (g', l')"
  shows "sq_G g' \<and> sq_L g' l'"
proof -
  have C: "sq_count_inv g" using G by (simp add: sq_G_def)
  let ?m = "\<lparr>msg_val = m_next g head, msg_vc = m_vp g\<rparr>"
  have g': "g' = g\<lparr>m_head := m_head g @ [?m], m_vp := (fst (m_vp g) + 1, snd (m_vp g)),
      m_enq := m_enq g @ [x]\<rparr>" and l': "l' = ProdRet True"
    using go by auto
  have nx: "unat (m_next g head) = (m_H g + 1) mod m_N g" by (rule sq_next_mod [OF C]) (use L in auto)
  have "sq_count_inv g'" using C L by (auto simp: g' sq_count_inv_def m_T_def)
  moreover have "sq_msg_inv g'"
    using G C nx by (auto simp: g' sq_G_def sq_count_inv_def sq_msg_inv_def sq_clock_inv_def m_T_def
        nth_append le_Suc_eq)
  moreover have "sq_clock_inv g'" using G by (auto simp: g' sq_G_def sq_clock_inv_def m_T_def)
  moreover have "sq_slot_inv g'"
    using G L by (auto simp: g' sq_G_def sq_slot_inv_def m_T_def nth_append less_Suc_eq)
  ultimately show ?thesis by (simp add: sq_G_def l')
qed

lemma sq_cons_read:
  assumes G: "sq_G g" and L: "sq_L g (ConsRead tail)" and go: "sq_go j g (ConsRead tail) = (g', l')"
  shows "sq_G g' \<and> sq_L g' l'"
proof -
  have C: "sq_count_inv g" using G by (simp add: sq_G_def)
  have t: "unat tail = m_T g mod m_N g" "m_T g < m_H g" using L C by (auto simp: sq_count_inv_def)
  have nr: "\<not> fst (m_vc g) < m_wclk g ! unat tail" using sq_read_no_race(1) [OF G L] by simp
  have vc: "snd (m_vc g) = m_T g + 1" using G by (simp add: sq_G_def sq_clock_inv_def)
  have g': "g' = g\<lparr>m_race := m_race g, m_rclk := (m_rclk g)[m_T g mod m_N g := m_T g + 1]\<rparr>"
    and l': "l' = ConsStore (m_enq g ! m_T g) tail"
    using go nr vc t(1) sq_read_no_race(2) [OF G L] by auto
  have "sq_slot_inv g'"
    using G t(2) by (auto simp: g' sq_G_def sq_slot_inv_def m_T_def nth_list_update)
  then have "sq_G g'"
    using G by (auto simp: g' sq_G_def sq_count_inv_def sq_msg_inv_def sq_clock_inv_def m_T_def)
  then show ?thesis using L by (auto simp: g' l' m_T_def)
qed

lemma sq_cons_store:
  assumes G: "sq_G g" and L: "sq_L g (ConsStore x tail)" and go: "sq_go j g (ConsStore x tail) = (g', l')"
  shows "sq_G g' \<and> sq_L g' l'"
proof -
  have C: "sq_count_inv g" using G by (simp add: sq_G_def)
  let ?m = "\<lparr>msg_val = m_next g tail, msg_vc = m_vc g\<rparr>"
  have g': "g' = g\<lparr>m_tail := m_tail g @ [?m], m_vc := (fst (m_vc g), snd (m_vc g) + 1)\<rparr>"
    and l': "l' = ConsRet (Some x)"
    using go by auto
  have nx: "unat (m_next g tail) = (m_T g + 1) mod m_N g" by (rule sq_next_mod [OF C]) (use L in auto)
  have T': "m_T g' = m_T g + 1" using C by (simp add: g' m_T_def sq_count_inv_def)
  have "sq_count_inv g'" using C L unfolding sq_count_inv_def T' by (auto simp: g')
  moreover have "sq_msg_inv g'"
    using G C nx unfolding sq_msg_inv_def T'
    by (auto simp: g' sq_G_def sq_count_inv_def sq_msg_inv_def sq_clock_inv_def nth_append le_Suc_eq)
  moreover have "sq_clock_inv g'" using G unfolding sq_clock_inv_def T'
    by (auto simp: g' sq_G_def sq_clock_inv_def)
  moreover have "sq_slot_inv g'" using G unfolding sq_slot_inv_def T'
    by (auto simp: g' sq_G_def sq_slot_inv_def)
  ultimately show ?thesis by (simp add: sq_G_def l')
qed

lemma sq_last_vals:
  assumes "sq_G g"
  shows "unat (msg_val (last (m_head g))) = m_H g mod m_N g"
    and "unat (msg_val (last (m_tail g))) = m_T g mod m_N g"
proof -
  have l: "length (m_head g) = Suc (m_H g)" "length (m_tail g) = Suc (m_T g)"
    using assms by (auto simp: sq_G_def sq_count_inv_def)
  then have "last (m_head g) = m_head g ! m_H g" "last (m_tail g) = m_tail g ! m_T g"
    by (metis last_conv_nth length_0_conv diff_Suc_1 nat.distinct(1))+
  then show "unat (msg_val (last (m_head g))) = m_H g mod m_N g"
    and "unat (msg_val (last (m_tail g))) = m_T g mod m_N g"
    using assms by (auto simp: sq_G_def sq_msg_inv_def)
qed

lemma sq_own_step:
  assumes ex: "sq_exec a g l = (g', l')" and G: "sq_G g" and L: "sq_L g l"
  shows "sq_G g' \<and> sq_L g' l'"
proof (cases a)
  case (SqGo j)
  with ex have go: "sq_go j g l = (g', l')" by simp
  show ?thesis
  proof (cases l)
    case (ProdTail x head)
    then show ?thesis using sq_prod_tail [OF G] L go by blast
  next
    case (ProdWrite x head)
    then show ?thesis using sq_prod_write [OF G] L go by blast
  next
    case (ProdStore x head)
    then show ?thesis using sq_prod_store [OF G] L go by blast
  next
    case (ConsHead tail)
    then show ?thesis using sq_cons_head [OF G] L go by blast
  next
    case (ConsRead tail)
    then show ?thesis using sq_cons_read [OF G] L go by blast
  next
    case (ConsStore x tail)
    then show ?thesis using sq_cons_store [OF G] L go by blast
  qed (use go G sq_last_vals [OF G] in auto)
qed (use ex G L in \<open>auto split: sq_pc.splits\<close>)

lemma sq_other_step:
  assumes ex: "sq_exec a g l = (g', l')" and G: "sq_G g" and L: "sq_L g l"
    and m: "sq_L g m" and X: "sq_X l m"
  shows "sq_L g' m \<and> sq_X l' m"
proof -
  have C: "sq_count_inv g" using G by (simp add: sq_G_def)
  have X': "sq_X l' m" using X role_exec [OF ex] by (simp add: sq_X_def)
  show ?thesis
  proof (cases a)
    case (SqGo j)
    with ex have go: "sq_go j g l = (g', l')" by simp
    have "sq_L g' m"
    proof (cases "role l")
      case Producer
      then have "role m \<noteq> Producer" using X by (auto simp: sq_X_def)
      then show ?thesis
        using go m Producer C by (cases l; cases m) (auto simp: Let_def m_T_def nth_append sq_count_inv_def)
    next
      case Consumer
      then have "role m \<noteq> Consumer" using X by (auto simp: sq_X_def)
      then show ?thesis using go m Consumer by (cases l; cases m) (auto simp: Let_def)
    next
      case Neither
      then show ?thesis using go m by (cases l) auto
    qed
    with X' show ?thesis by simp
  qed (use ex m X' in auto)
qed

subsection \<open>The abstract queue\<close>

definition sq_abs :: "'a sq_mem \<Rightarrow> nat \<times> 'a list" where
  "sq_abs g = (m_N g - 1, drop (m_T g) (m_enq g))"

text \<open>A push takes effect at its release store of \<^verbatim>\<open>head_\<close> and a pop at its release store of \<^verbatim>\<open>tail_\<close>.\<close>

fun sq_status :: "'a sq_pc \<Rightarrow> ('a queue_op, 'a queue_res) status" where
  "sq_status (ProdHead item) = Called (Enqueue item)"
| "sq_status (ProdTail item head) = Called (Enqueue item)"
| "sq_status (ProdWrite item head) = Called (Enqueue item)"
| "sq_status (ProdStore item head) = Called (Enqueue item)"
| "sq_status (ProdRet b) = Answered (Enqueued b)"
| "sq_status ConsTail = Called Dequeue"
| "sq_status (ConsHead tail) = Called Dequeue"
| "sq_status (ConsRead tail) = Called Dequeue"
| "sq_status (ConsStore item tail) = Called Dequeue"
| "sq_status (ConsRet r) = Answered (Dequeued r)"
| "sq_status _ = Ready"

fun sq_obs :: "'a sq_pc \<Rightarrow> 'a sq_pc \<Rightarrow> ('a queue_op, 'a queue_res) label option" where
  "sq_obs ProdIdle (ProdHead item) = Some (Invoke (Enqueue item))"
| "sq_obs ConsIdle ConsTail = Some (Invoke Dequeue)"
| "sq_obs (ProdRet b) ProdIdle = Some (Respond (Enqueued b))"
| "sq_obs (ConsRet r) ConsIdle = Some (Respond (Dequeued r))"
| "sq_obs _ _ = None"

lemmas sq_move_simps = lin_move.stutter lin_move.call lin_move.return
  lin_move.effect [of queue_spec, OF queue_spec.enqueue_fails] lin_move.effect [of queue_spec, OF queue_spec.dequeue_fails]

lemma sq_status_move:
  assumes ex: "sq_exec a g l = (g', l')" and G: "sq_G g" and L: "sq_L g l"
  shows "lin_move queue_spec (sq_abs g, sq_status l) (sq_obs l l') (sq_abs g', sq_status l')"
proof (cases a)
  case (SqGo j)
  with ex have go: "sq_go j g l = (g', l')" by simp
  have C: "sq_count_inv g" using G by (simp add: sq_G_def)
  show ?thesis
  proof (cases l)
    case (ProdStore x head)
    have "queue_spec (m_N g - 1, drop (m_T g) (m_enq g)) (Enqueue x) (Enqueued True) (m_N g - 1, drop (m_T g) (m_enq g @ [x]))"
      by (rule queue_spec_enq_drop) (use C L ProdStore in \<open>auto simp: sq_count_inv_def\<close>)
    moreover have "sq_abs g' = (m_N g - 1, drop (m_T g) (m_enq g @ [x]))" "l' = ProdRet True" using go ProdStore by (auto simp: sq_abs_def m_T_def)
    ultimately show ?thesis using lin_move.effect [of queue_spec] ProdStore by (simp add: sq_abs_def)
  next
    case (ConsStore x tail)
    have "queue_spec (m_N g - 1, drop (m_T g) (m_enq g)) Dequeue (Dequeued (Some (m_enq g ! m_T g))) (m_N g - 1, drop (Suc (m_T g)) (m_enq g))"
      by (rule queue_spec_deq_drop) (use C L ConsStore in \<open>auto simp: sq_count_inv_def\<close>)
    moreover have "sq_abs g' = (m_N g - 1, drop (Suc (m_T g)) (m_enq g))" "l' = ConsRet (Some x)" "x = m_enq g ! m_T g"
      using go L ConsStore C by (auto simp: sq_abs_def m_T_def sq_count_inv_def)
    ultimately show ?thesis using lin_move.effect [of queue_spec] ConsStore by (simp add: sq_abs_def)
  qed (use go in \<open>auto simp: sq_abs_def m_T_def Let_def sq_move_simps\<close>)
next
  case (SqPush x)
  then show ?thesis using ex by (cases l) (auto simp: sq_move_simps)
next
  case SqPop
  then show ?thesis using ex by (cases l) (auto simp: sq_move_simps)
qed

interpretation sq_og: og_linearizable sq_exec sq_ginit sq_linit "\<lambda>_. True" sq_G sq_L sq_X sq_abs queue_spec "\<lambda>_. sq_status" sq_obs
proof
  show "sq_G g" if "sq_ginit g" for g :: "'a sq_mem"
    using that by (auto simp: sq_ginit_def sq_start_def sq_G_def sq_count_inv_def sq_msg_inv_def
        sq_clock_inv_def sq_slot_inv_def m_T_def spsc_size_ok_def word_le_nat_alt)
  show "sq_L g (sq_linit t)" for g :: "'a sq_mem" and t by (simp add: sq_linit_def)
  show "sq_X (sq_linit t :: 'a sq_pc) (sq_linit u)" if "t \<noteq> u" for t u
    using that by (auto simp: sq_linit_def sq_X_def)
  show "sq_X m l" if "sq_X l m" for l m :: "'a sq_pc"
    using that by (cases "role m") (auto simp: sq_X_def)
  show "sq_status (sq_linit t :: 'a sq_pc) = Ready" for t by (simp add: sq_linit_def)
qed (simp_all add: sq_own_step sq_other_step sq_status_move)

subsection \<open>Properties of all executions\<close>

definition sq_demo :: "(tid \<times> nat sq_act) list \<Rightarrow> (nat sq_mem, nat sq_pc) config" where
  "sq_demo es = run sq_exec (sq_start 2 0, sq_linit) es"

lemma sq_demo_reach: "sq_reach (fst (sq_demo es), snd (sq_demo es))"
  unfolding prod.collapse sq_demo_def
  by (rule reach_run_init, unfold sq_ginit_def, rule exI [of _ 2], rule exI [of _ 0])
     (simp add: spsc_size_ok_def is_pow2_def)

lemmas sq_eval = sq_demo_def sys_step_def sq_start_def sq_linit_def m_next_def pick_msg_def vjoin_def m_T_def
  Let_def

definition sq_sched :: "(tid \<times> nat sq_act) list" where
  "sq_sched = [(0, SqPush 5), (0, SqGo 0), (0, SqGo 0), (0, SqGo 0), (0, SqGo 0), (1, SqPop), (1, SqGo 0),
     (1, SqGo 1), (1, SqGo 0)]"

lemma sq_demo_state: "snd (sq_demo sq_sched) 1 = ConsStore 5 0"
  by (simp add: sq_eval sq_sched_def)

definition sq_sched_full :: "(tid \<times> nat sq_act) list" where
  "sq_sched_full = sq_sched @ [(0, SqGo 0), (1, SqGo 0), (0, SqPush 6), (0, SqGo 0), (0, SqGo 0), (1, SqGo 0), (0, SqGo 0)]"

lemma sq_demo_full:
  "sq_abs (fst (sq_demo sq_sched_full)) = (1, [])"
  "history sq_obs sq_exec (sq_start 2 0, sq_linit) sq_sched_full =
     [(0, Invoke (Enqueue 5)), (1, Invoke Dequeue), (0, Respond (Enqueued True)), (0, Invoke (Enqueue 6)),
      (1, Respond (Dequeued (Some 5))), (0, Respond (Enqueued False))]"
  by (simp_all add: sq_eval sq_sched_def sq_sched_full_def sq_abs_def)

text \<open>
  C3. Linearizability of the SPSC queue under release/acquire memory with stale reads: for every schedule of one producer and one consumer,
  the history of the calls of \<^verbatim>\<open>try_push\<close> and \<^verbatim>\<open>try_pop\<close> with the results they return is one of an atomic first-in
  first-out queue of capacity \<^verbatim>\<open>Size - 1\<close>: every call takes effect at one moment between its call and its return (a push at
  its release store of \<^verbatim>\<open>head_\<close>, a pop at its release store of \<^verbatim>\<open>tail_\<close>); a successful \<^verbatim>\<open>try_push\<close> appends its item, below
  capacity, and a successful \<^verbatim>\<open>try_pop\<close> removes the oldest item and returns it. A call may also fail with no effect, as a
  load may be stale: in the schedule of the witness the queue is empty when the second push reports that it is full.
\<close>

theorem spsc_ra_linearizable:
  assumes "spsc_size_ok sz" "run sq_exec (sq_start sz d, sq_linit) es = (g, ls)"
  shows "linearizable queue_spec (unat sz - 1, []) (history sq_obs sq_exec (sq_start sz d, sq_linit) es) (sq_abs g)"
proof -
  have "sq_ginit (sq_start sz d)" "sq_abs (sq_start sz d) = (unat sz - 1, [])"
    using assms(1) by (auto simp: sq_ginit_def sq_abs_def sq_start_def)
  then show ?thesis using sq_og.run_linearizable [OF _ assms(2)] by simp
qed

theorem spsc_ra_linearizable_witness:
  "linearizable queue_spec (1, [])
     [(0, Invoke (Enqueue (5 :: nat))), (1, Invoke Dequeue), (0, Respond (Enqueued True)), (0, Invoke (Enqueue 6)),
      (1, Respond (Dequeued (Some 5))), (0, Respond (Enqueued False))] (1, [])"
proof -
  have "run sq_exec (sq_start 2 0, sq_linit) sq_sched_full = (fst (sq_demo sq_sched_full), snd (sq_demo sq_sched_full))"
    by (simp add: sq_demo_def)
  from spsc_ra_linearizable [OF _ this] show ?thesis unfolding sq_demo_full by (simp add: spsc_size_ok_def is_pow2_def)
qed

text \<open>
  C11. Release/acquire is enough: no execution has a data race on \<^verbatim>\<open>buffer_\<close>, every slot index is
  inside the buffer, and the consumer's \<open>k\<close>-th pop delivers the item of the producer's \<open>k\<close>-th push.
\<close>

theorem spsc_ra_race_free:
  assumes "sq_reach (g, ls)"
  shows "\<not> m_race g \<and>
    (ls t = ProdWrite x head \<longrightarrow> unat head < length (m_buffer g)) \<and>
    (ls t = ConsRead tail \<longrightarrow> unat tail < length (m_buffer g)) \<and>
    (ls t = ConsStore v tail \<longrightarrow> m_T g < length (m_enq g) \<and> v = m_enq g ! m_T g)"
proof -
  have G: "sq_G g" and L: "sq_L g (ls t)" using sq_og.reach_G [OF assms] sq_og.reach_L [OF assms] by auto
  have "\<not> m_race g" "length (m_buffer g) = m_N g" "0 < m_N g" "m_seen_head g \<le> m_H g"
    using G by (auto simp: sq_G_def sq_slot_inv_def sq_count_inv_def)
  then show ?thesis using L by (auto simp: mod_less_divisor)
qed

theorem spsc_ra_race_free_witness:
  "\<not> m_race (fst (sq_demo sq_sched)) \<and> snd (sq_demo sq_sched) 1 = ConsStore 5 0 \<and>
   5 = m_enq (fst (sq_demo sq_sched)) ! m_T (fst (sq_demo sq_sched))"
  using spsc_ra_race_free [OF sq_demo_reach, of sq_sched 1 _ _ _ 5] sq_demo_state by auto

text \<open>
  How many accesses an operation still has to make at each program point, and how many steps of a
  schedule belong to one thread.
\<close>

fun sq_rank :: "'a sq_pc \<Rightarrow> nat" where
  "sq_rank (ProdHead _) = 5" | "sq_rank (ProdTail _ _) = 4" | "sq_rank (ProdWrite _ _) = 3"
| "sq_rank (ProdStore _ _) = 2" | "sq_rank (ProdRet _) = 1"
| "sq_rank ConsTail = 5" | "sq_rank (ConsHead _) = 4" | "sq_rank (ConsRead _) = 3"
| "sq_rank (ConsStore _ _) = 2" | "sq_rank (ConsRet _) = 1"
| "sq_rank _ = 0"

fun own_steps :: "tid \<Rightarrow> (tid \<times> 'a sq_act) list \<Rightarrow> nat" where
  "own_steps t [] = 0"
| "own_steps t ((u, a) # es) = (if u = t then 1 else 0) + own_steps t es"

fun is_call :: "'a sq_act \<Rightarrow> bool" where
  "is_call (SqGo j) = False"
| "is_call _ = True"

lemma sq_rank_step: "sq_rank (snd (sq_go j g l)) \<le> sq_rank l - 1"
  by (cases l) (auto simp: Let_def)

lemma sq_rank_run:
  assumes "\<forall>a. (t, a) \<in> set es \<longrightarrow> \<not> is_call a"
  shows "sq_rank (snd (run sq_exec (g, ls) es) t) \<le> sq_rank (ls t) - own_steps t es"
  using assms
proof (induction es arbitrary: g ls)
  case Nil
  then show ?case by simp
next
  case (Cons e es)
  obtain u a where e: "e = (u, a)" by (cases e)
  obtain g' l' where ex: "sq_exec a g (ls u) = (g', l')" by (cases "sq_exec a g (ls u)")
  have IH: "sq_rank (snd (run sq_exec (g', ls(u := l')) es) t) \<le> sq_rank ((ls(u := l')) t) - own_steps t es"
    by (rule Cons.IH) (use Cons.prems in auto)
  have st: "run sq_exec (g, ls) (e # es) = run sq_exec (g', ls(u := l')) es"
    by (simp add: e sys_step_eq ex)
  show ?case
  proof (cases "u = t")
    case True
    then obtain j where "a = SqGo j" using Cons.prems e by (cases a) auto
    then have "sq_rank l' \<le> sq_rank (ls t) - 1" using ex sq_rank_step [of j g "ls t"] True by simp
    then show ?thesis using IH True unfolding st by (simp add: e)
  next
    case False
    then show ?thesis using IH unfolding st by (simp add: e)
  qed
qed

text \<open>
  C28. Wait-freedom: an operation that has been called returns after at most five accesses of its
  own thread, whatever the other thread does in between and whatever the loads return.
\<close>

theorem spsc_wait_free:
  assumes "\<forall>a. (t, a) \<in> set es \<longrightarrow> \<not> is_call a" "5 \<le> own_steps t es"
  shows "snd (run sq_exec (g, ls) es) t \<in> {ProdIdle, ConsIdle, SqInert}"
proof -
  have "sq_rank (ls t) \<le> 5" by (cases "ls t") auto
  then have "sq_rank (snd (run sq_exec (g, ls) es) t) = 0"
    using sq_rank_run [OF assms(1), of g ls] assms(2) by linarith
  then show ?thesis by (cases "snd (run sq_exec (g, ls) es) t") auto
qed

theorem spsc_wait_free_witness:
  "snd (run sq_exec (sq_start 2 (0::nat), sq_linit(0 := ProdHead 5))
     [(0, SqGo 0), (1, SqPop), (0, SqGo 0), (0, SqGo 7), (1, SqGo 0), (0, SqGo 0), (0, SqGo 1)]) 0
   \<in> {ProdIdle, ConsIdle, SqInert}"
  by (rule spsc_wait_free) auto

end
