(* ===== verification/Message_Queue.thy ===== *)
theory Message_Queue
  imports Ring_Buffer Interleaving
begin

text \<open>
  \<^verbatim>\<open>include/lockless/message_queue.hpp\<close>: the bump allocator \<^verbatim>\<open>SharedMemoryArena\<close> and the
  \<^verbatim>\<open>ZeroCopyQueue\<close> that passes arena offsets through a ring buffer. Pointers are 64-bit
  addresses; \<open>ar_base\<close> is the address \<^verbatim>\<open>buffer_.data()\<close> of the arena's block, null is 0. The
  thrown \<^verbatim>\<open>std::runtime_error\<close> is the value \<open>Inl ArenaFull\<close>. The arena functions never read or
  write the bytes of the block, so the block itself is only an address range.

  First the operations run by one thread, then the allocator with its compare-exchange loop
  interleaved by any number of threads, then the queue. The addition in the bounds check
  \<^verbatim>\<open>current + bytes > size_\<close> wraps; the last theorem of the allocator shows what that does.
\<close>

record message_handle =
  mh_offset :: size_t
  mh_size :: size_t

record arena =
  ar_base :: size_t
  ar_size :: size_t
  ar_offset :: size_t \<comment> \<open>\<^verbatim>\<open>write_offset_\<close>\<close>

datatype arena_error = ArenaFull

definition arena_new :: "size_t \<Rightarrow> size_t \<Rightarrow> arena" where
  "arena_new base sz = \<lparr>ar_base = base, ar_size = sz, ar_offset = 0\<rparr>"

definition arena_allocate :: "arena \<Rightarrow> size_t \<Rightarrow> arena_error + (size_t \<times> arena)" where
  "arena_allocate ar bytes =
     (let current = ar_offset ar in
      if ar_size ar < current + bytes then Inl ArenaFull
      else Inr (ar_base ar + current, ar\<lparr>ar_offset := current + bytes\<rparr>))"

definition arena_get :: "arena \<Rightarrow> size_t \<Rightarrow> size_t" where
  "arena_get ar offset = (if ar_size ar \<le> offset then 0 else ar_base ar + offset)"

definition arena_get_offset :: "arena \<Rightarrow> size_t \<Rightarrow> size_t" where
  "arena_get_offset ar p =
     (if p < ar_base ar \<or> ar_base ar + ar_size ar \<le> p then SIZE_MAX else p - ar_base ar)"

text \<open>The block is not at address zero and does not wrap around the address space.\<close>

definition arena_ok :: "arena \<Rightarrow> bool" where
  "arena_ok ar \<longleftrightarrow> ar_base ar \<noteq> 0 \<and> unat (ar_base ar) + unat (ar_size ar) < 2 ^ 64 \<and>
     unat (ar_offset ar) \<le> unat (ar_size ar)"

lemma arena_in_block:
  assumes "arena_ok ar" "unat off \<le> unat (ar_size ar)"
  shows "unat (ar_base ar + off) = unat (ar_base ar) + unat off"
  using assms by (intro unat_plus) (simp add: arena_ok_def)

subsection \<open>The allocator run by one thread\<close>

lemma arena_allocate_cases:
  assumes "arena_ok ar" "unat (ar_size ar) + unat n < 2 ^ 64"
  shows "arena_allocate ar n =
     (if unat (ar_size ar) < unat (ar_offset ar) + unat n then Inl ArenaFull
      else Inr (ar_base ar + ar_offset ar, ar\<lparr>ar_offset := ar_offset ar + n\<rparr>)) \<and>
    (unat (ar_offset ar) + unat n \<le> unat (ar_size ar) \<longrightarrow>
      unat (ar_offset ar + n) = unat (ar_offset ar) + unat n)"
proof -
  have "unat (ar_offset ar) + unat n < 2 ^ 64" using assms by (simp add: arena_ok_def)
  then have "unat (ar_offset ar + n) = unat (ar_offset ar) + unat n" by (simp add: unat_plus)
  then show ?thesis by (simp add: arena_allocate_def Let_def word_less_nat_alt)
qed

text \<open>
  A request that does not wrap the bounds check either throws, exactly when it does not fit behind
  the blocks handed out before, or returns a block that starts at the old write offset, ends at
  the new one and lies inside the arena; offsets and pointers convert into each other.
\<close>

theorem arena_allocate_correct:
  assumes "arena_ok ar" "unat (ar_size ar) + unat n < 2 ^ 64"
  shows "case arena_allocate ar n of
      Inl e \<Rightarrow> unat (ar_size ar) < unat (ar_offset ar) + unat n
    | Inr (p, ar') \<Rightarrow> arena_ok ar' \<and> unat p = unat (ar_base ar) + unat (ar_offset ar) \<and>
        unat (ar_offset ar') = unat (ar_offset ar) + unat n \<and>
        unat (ar_offset ar') \<le> unat (ar_size ar') \<and> ar_size ar' = ar_size ar \<and>
        (0 < unat n \<longrightarrow> arena_get ar' (arena_get_offset ar' p) = p \<and>
                       arena_get_offset ar' p = ar_offset ar)"
proof (cases "unat (ar_size ar) < unat (ar_offset ar) + unat n")
  case True
  then show ?thesis using arena_allocate_cases [OF assms] by simp
next
  case False
  let ?ar' = "ar\<lparr>ar_offset := ar_offset ar + n\<rparr>" and ?p = "ar_base ar + ar_offset ar"
  have o: "unat (ar_offset ar + n) = unat (ar_offset ar) + unat n"
    using arena_allocate_cases [OF assms] False by simp
  have p: "unat ?p = unat (ar_base ar) + unat (ar_offset ar)"
    by (rule arena_in_block [OF assms(1)]) (use assms(1) in \<open>simp add: arena_ok_def\<close>)
  have e: "unat (ar_base ar + ar_size ar) = unat (ar_base ar) + unat (ar_size ar)"
    by (rule arena_in_block [OF assms(1)]) simp
  have "arena_get_offset ?ar' ?p = ar_offset ar" if "0 < unat n"
    using p e False that by (simp add: arena_get_offset_def word_less_nat_alt word_le_nat_alt)
  moreover have "arena_get ?ar' (ar_offset ar) = ?p" if "0 < unat n"
    using False that by (simp add: arena_get_def word_le_nat_alt)
  ultimately show ?thesis
    using arena_allocate_cases [OF assms] False o p assms(1) by (simp add: arena_ok_def)
qed

theorem arena_allocate_correct_witness:
  "\<exists>p ar'. arena_allocate (arena_new 4096 64) 16 = Inr (p, ar') \<and> unat p = 4096 \<and>
     arena_get ar' (arena_get_offset ar' p) = p"
proof -
  have "arena_ok (arena_new 4096 64)" "unat (ar_size (arena_new 4096 64)) + unat (16::size_t) < 2 ^ 64"
    by (simp_all add: arena_ok_def arena_new_def)
  from arena_allocate_correct [OF this] show ?thesis
    by (simp add: arena_allocate_def arena_new_def Let_def arena_get_def arena_get_offset_def)
qed

text \<open>
  The bounds check can be defeated: \<^verbatim>\<open>current + bytes\<close> wraps for a huge request, which is then
  granted, moves the write offset backwards and lets the next request overlap a block already
  handed out. Here blocks of 16 and 8 bytes overlap.
\<close>

theorem arena_overflow_overlap:
  "\<exists>p1 a1 p2 a2 p3 a3. arena_allocate (arena_new base 64) 16 = Inr (p1, a1) \<and>
     arena_allocate a1 (SIZE_MAX - 7) = Inr (p2, a2) \<and> arena_allocate a2 8 = Inr (p3, a3) \<and>
     p1 = base \<and> p3 = base + 8"
  by (simp add: arena_allocate_def arena_new_def Let_def)

subsection \<open>The allocator interleaved\<close>

text \<open>
  \<^verbatim>\<open>allocate\<close> loads the offset, checks the bound on its local copy, and tries to move the offset
  by a weak compare-exchange, which reloads the local copy when it fails. The ghost \<open>al_blocks\<close>
  lists the blocks handed out (offset and length), \<open>al_max\<close> is the largest request made so far.
\<close>

record alloc_global =
  al_arena :: arena
  al_blocks :: "(nat \<times> nat) list"
  al_max :: nat

datatype alloc_pc =
    AlIdle
  | AlLoad size_t
  | AlCas size_t size_t
  | AlRet "arena_error + size_t"

datatype alloc_act = AlCall size_t | AlGo bool

definition al_check :: "arena \<Rightarrow> size_t \<Rightarrow> size_t \<Rightarrow> alloc_pc" where
  "al_check ar bytes current =
     (if ar_size ar < current + bytes then AlRet (Inl ArenaFull) else AlCas bytes current)"

fun al_exec :: "alloc_act \<Rightarrow> alloc_global \<Rightarrow> alloc_pc \<Rightarrow> alloc_global \<times> alloc_pc" where
  "al_exec (AlCall bytes) g AlIdle = (g\<lparr>al_max := max (al_max g) (unat bytes)\<rparr>, AlLoad bytes)"
| "al_exec (AlCall bytes) g l = (g, l)"
| "al_exec (AlGo spurious) g AlIdle = (g, AlIdle)"
| "al_exec (AlGo spurious) g (AlLoad bytes) =
     (g, al_check (al_arena g) bytes (ar_offset (al_arena g)))"
| "al_exec (AlGo spurious) g (AlCas bytes current) =
     (if ar_offset (al_arena g) = current \<and> \<not> spurious
      then (g\<lparr>al_arena := (al_arena g)\<lparr>ar_offset := current + bytes\<rparr>,
              al_blocks := al_blocks g @ [(unat current, unat bytes)]\<rparr>,
            AlRet (Inr (ar_base (al_arena g) + current)))
      else (g, al_check (al_arena g) bytes (ar_offset (al_arena g))))"
| "al_exec (AlGo spurious) g (AlRet r) = (g, AlIdle)"

definition al_start :: "size_t \<Rightarrow> size_t \<Rightarrow> alloc_global" where
  "al_start base sz = \<lparr>al_arena = arena_new base sz, al_blocks = [], al_max = 0\<rparr>"

definition al_ginit :: "alloc_global \<Rightarrow> bool" where
  "al_ginit g \<longleftrightarrow> (\<exists>base sz. base \<noteq> 0 \<and> unat base + unat sz < 2 ^ 64 \<and> g = al_start base sz)"

abbreviation al_reach :: "(alloc_global, alloc_pc) config \<Rightarrow> bool" where
  "al_reach \<equiv> reach al_exec al_ginit (\<lambda>_. AlIdle)"

definition al_bound :: "alloc_global \<Rightarrow> bool" where
  "al_bound g \<longleftrightarrow> unat (ar_size (al_arena g)) + al_max g < 2 ^ 64"

text \<open>The blocks tile the arena from 0 to the write offset.\<close>

fun tiles :: "nat \<Rightarrow> (nat \<times> nat) list \<Rightarrow> nat \<Rightarrow> bool" where
  "tiles a [] b = (a = b)"
| "tiles a ((off, len) # bs) b = (off = a \<and> tiles (off + len) bs b)"

definition al_G :: "alloc_global \<Rightarrow> bool" where
  "al_G g \<longleftrightarrow> arena_ok (al_arena g) \<and> tiles 0 (al_blocks g) (unat (ar_offset (al_arena g)))"

fun al_L :: "alloc_global \<Rightarrow> alloc_pc \<Rightarrow> bool" where
  "al_L g (AlLoad n) = (unat n \<le> al_max g)"
| "al_L g (AlCas n cur) = (unat n \<le> al_max g \<and> unat cur + unat n \<le> unat (ar_size (al_arena g)))"
| "al_L g (AlRet (Inr p)) = (\<exists>b \<in> set (al_blocks g). unat p = unat (ar_base (al_arena g)) + fst b)"
| "al_L g _ = True"

lemma tiles_snoc: "tiles a (bs @ [(off, len)]) b \<longleftrightarrow> tiles a bs off \<and> b = off + len"
  by (induction a bs b rule: tiles.induct) auto

lemma tiles_le: "tiles a bs b \<Longrightarrow> a \<le> b"
  by (induction a bs b rule: tiles.induct) auto

lemma tiles_in: "tiles a bs b \<Longrightarrow> (off, len) \<in> set bs \<Longrightarrow> a \<le> off \<and> off + len \<le> b"
  by (induction a bs b rule: tiles.induct) (auto dest: tiles_le)

lemma tiles_disjoint:
  "tiles a bs b \<Longrightarrow> i < j \<Longrightarrow> j < length bs \<Longrightarrow> fst (bs ! i) + snd (bs ! i) \<le> fst (bs ! j)"
proof (induction a bs b arbitrary: i j rule: tiles.induct)
  case (2 a off len bs b)
  show ?case
  proof (cases i)
    case 0
    have "bs ! (j - 1) \<in> set bs" using 2 by auto
    then have "off + len \<le> fst (bs ! (j - 1))"
      using tiles_in [of "off + len" bs b "fst (bs ! (j - 1))" "snd (bs ! (j - 1))"] 2 by auto
    then show ?thesis using 0 2 by auto
  next
    case (Suc i')
    then show ?thesis using 2 by (cases j) auto
  qed
qed simp

lemma al_check_L:
  assumes "al_bound g" "unat n \<le> al_max g" "al_G g"
  shows "al_L g (al_check (al_arena g) n (ar_offset (al_arena g)))"
proof -
  have "unat (ar_offset (al_arena g)) + unat n < 2 ^ 64"
    using assms by (simp add: al_bound_def al_G_def arena_ok_def)
  then have "unat (ar_offset (al_arena g) + n) = unat (ar_offset (al_arena g)) + unat n"
    by (simp add: unat_plus)
  then show ?thesis using assms(2) by (simp add: al_check_def word_less_nat_alt)
qed

lemma al_exec_frame:
  "al_exec a g l = (g', l') \<Longrightarrow> al_max g \<le> al_max g' \<and> ar_size (al_arena g') = ar_size (al_arena g) \<and>
     ar_base (al_arena g') = ar_base (al_arena g) \<and> set (al_blocks g) \<subseteq> set (al_blocks g')"
  by (cases "(a, g, l)" rule: al_exec.cases) (auto split: if_splits)

lemma al_bound_down: "al_exec a g l = (g', l') \<Longrightarrow> al_bound g' \<Longrightarrow> al_bound g"
  using al_exec_frame [of a g l g' l'] by (auto simp: al_bound_def)

lemma al_own_step:
  assumes ex: "al_exec a g l = (g', l')" and B: "al_bound g'" and G: "al_G g" and L: "al_L g l"
  shows "al_G g' \<and> al_L g' l'"
proof (cases a)
  case (AlCall n)
  then show ?thesis using ex G L by (cases l) (auto simp: al_G_def)
next
  case (AlGo sp)
  note check = al_check_L [OF al_bound_down [OF ex B] _ G]
  show ?thesis
  proof (cases l)
    case (AlCas n cur)
    show ?thesis
    proof (cases "ar_offset (al_arena g) = cur \<and> \<not> sp")
      case True
      have "unat (cur + n) = unat cur + unat n"
        using L AlCas unat_less_64 [of "ar_size (al_arena g)"] by (intro unat_plus) simp
      moreover have "unat (ar_base (al_arena g) + cur) = unat (ar_base (al_arena g)) + unat cur"
        using G L AlCas by (intro arena_in_block) (auto simp: al_G_def)
      ultimately show ?thesis
        using ex AlGo AlCas True G L by (auto simp: al_G_def arena_ok_def tiles_snoc)
    next
      case False
      then have "al_exec a g l = (g, al_check (al_arena g) n (ar_offset (al_arena g)))"
        using AlGo AlCas by auto
      then show ?thesis using ex G L AlCas check [of n] by auto
    qed
  qed (use ex AlGo G L check in auto)
qed

interpretation al_og: og_proof al_exec al_ginit "\<lambda>_. AlIdle" al_bound al_G al_L "\<lambda>_ _. True"
proof
  show "al_L g' m \<and> True" if "al_exec a g l = (g', l')" "al_L g m" for a g l g' l' m
    using al_exec_frame [OF that(1)] that(2) by (cases "(g, m)" rule: al_L.cases) auto
  show "al_G g" if "al_ginit g" for g
    using that by (auto simp: al_ginit_def al_start_def al_G_def arena_ok_def arena_new_def)
qed (auto intro: al_own_step al_bound_down dest: al_own_step)

text \<open>
  C18. However many threads allocate at once, every block handed out lies inside the arena, the blocks are
  pairwise disjoint, and a pointer that \<^verbatim>\<open>allocate\<close> is about to return is the address of one of
  them, as long as no request is so large that \<^verbatim>\<open>current + bytes\<close> can wrap (the size of the arena
  plus the largest request is below $2^{64}$).
\<close>

theorem arena_blocks_disjoint:
  assumes "al_reach (g, ls)" "al_bound g"
  shows "(\<forall>i < length (al_blocks g). fst (al_blocks g ! i) + snd (al_blocks g ! i) \<le> unat (ar_size (al_arena g))) \<and>
    (\<forall>i j. i < j \<and> j < length (al_blocks g) \<longrightarrow> fst (al_blocks g ! i) + snd (al_blocks g ! i) \<le> fst (al_blocks g ! j)) \<and>
    (\<forall>t p. ls t = AlRet (Inr p) \<longrightarrow> (\<exists>b \<in> set (al_blocks g). unat p = unat (ar_base (al_arena g)) + fst b))"
proof -
  have G: "tiles 0 (al_blocks g) (unat (ar_offset (al_arena g)))"
    "unat (ar_offset (al_arena g)) \<le> unat (ar_size (al_arena g))"
    using al_og.reach_G [OF assms] by (auto simp: al_G_def arena_ok_def)
  have "fst b + snd b \<le> unat (ar_size (al_arena g))" if "b \<in> set (al_blocks g)" for b
    using tiles_in [OF G(1), of "fst b" "snd b"] that G(2) by simp
  moreover have "\<exists>b \<in> set (al_blocks g). unat p = unat (ar_base (al_arena g)) + fst b" if "ls t = AlRet (Inr p)" for t p
    using al_og.reach_L [OF assms, of t] that by simp
  ultimately show ?thesis using tiles_disjoint [OF G(1)] by simp
qed

definition al_sched :: "(tid \<times> alloc_act) list" where
  "al_sched = [(0, AlCall 16), (1, AlCall 8), (0, AlGo False), (1, AlGo False), (1, AlGo False),
     (0, AlGo False), (0, AlGo False)]"

theorem arena_blocks_disjoint_witness:
  "let g = fst (run al_exec (al_start 4096 64, \<lambda>_. AlIdle) al_sched) in
   length (al_blocks g) = 2 \<and> fst (al_blocks g ! 0) + snd (al_blocks g ! 0) \<le> fst (al_blocks g ! 1) \<and>
   fst (al_blocks g ! 1) + snd (al_blocks g ! 1) \<le> 64"
proof -
  let ?c = "run al_exec (al_start 4096 64, \<lambda>_. AlIdle) al_sched"
  have r: "al_reach (fst ?c, snd ?c)"
    unfolding prod.collapse
    by (rule reach_run_init, unfold al_ginit_def, rule exI [of _ 4096], rule exI [of _ 64]) simp
  have c: "al_bound (fst ?c)" "length (al_blocks (fst ?c)) = 2" "ar_size (al_arena (fst ?c)) = 64"
    by (simp_all add: al_sched_def al_start_def arena_new_def sys_step_def al_check_def al_bound_def)
  note th = arena_blocks_disjoint [OF r c(1)]
  show ?thesis using th [THEN conjunct1, rule_format, of 1] th [THEN conjunct2, THEN conjunct1, rule_format, of 0 1] c(2,3)
    by (simp add: Let_def)
qed

subsection \<open>The queue of message handles\<close>

record zero_copy_queue =
  zq_queue :: "message_handle ring_buffer"
  zq_arena :: arena

definition zq_new :: "size_t \<Rightarrow> size_t \<Rightarrow> size_t \<Rightarrow> zero_copy_queue" where
  "zq_new QueueSize base ArenaSize =
     \<lparr>zq_queue = rb_new QueueSize \<lparr>mh_offset = 0, mh_size = 0\<rparr>, zq_arena = arena_new base ArenaSize\<rparr>"

definition prepare_message ::
  "zero_copy_queue \<Rightarrow> size_t \<Rightarrow> arena_error + (size_t \<times> zero_copy_queue)" where
  "prepare_message zq n =
     (case arena_allocate (zq_arena zq) n of
        Inl e \<Rightarrow> Inl e
      | Inr (p, ar) \<Rightarrow> Inr (p, zq\<lparr>zq_arena := ar\<rparr>))"

definition push_message ::
  "zero_copy_queue \<Rightarrow> size_t \<Rightarrow> size_t \<Rightarrow> (bool \<times> zero_copy_queue) option" where
  "push_message zq p n =
     (let offset = arena_get_offset (zq_arena zq) p in
      if offset = SIZE_MAX then Some (False, zq)
      else map_option (\<lambda>(b, q). (b, zq\<lparr>zq_queue := q\<rparr>))
             (rb_try_push (zq_queue zq) \<lparr>mh_offset = offset, mh_size = n\<rparr>))"

definition pop_message :: "zero_copy_queue \<Rightarrow> (message_handle option \<times> zero_copy_queue) option" where
  "pop_message zq = map_option (\<lambda>(r, q). (r, zq\<lparr>zq_queue := q\<rparr>)) (rb_try_pop (zq_queue zq))"

definition get_message_data :: "zero_copy_queue \<Rightarrow> message_handle \<Rightarrow> size_t" where
  "get_message_data zq h = arena_get (zq_arena zq) (mh_offset h)"

text \<open>
  Seen from outside, the queue holds pointers into the arena with the sizes given to
  \<^verbatim>\<open>push_message\<close>; the handles in the ring are their encoding.
\<close>

definition zq_message :: "zero_copy_queue \<Rightarrow> message_handle \<Rightarrow> size_t \<times> size_t" where
  "zq_message zq h = (get_message_data zq h, mh_size h)"

definition zq_messages :: "zero_copy_queue \<Rightarrow> (size_t \<times> size_t) list" where
  "zq_messages zq = map (zq_message zq) (rb_contents (zq_queue zq))"

definition zq_invar :: "zero_copy_queue \<Rightarrow> bool" where
  "zq_invar zq \<longleftrightarrow> rb_invar (zq_queue zq) \<and> arena_ok (zq_arena zq) \<and>
     (\<forall>h \<in> set (rb_contents (zq_queue zq)). unat (mh_offset h) < unat (ar_size (zq_arena zq)))"

definition in_arena :: "arena \<Rightarrow> size_t \<Rightarrow> bool" where
  "in_arena ar p \<longleftrightarrow> unat (ar_base ar) \<le> unat p \<and> unat p < unat (ar_base ar) + unat (ar_size ar)"

lemma arena_get_offset_in:
  assumes "arena_ok ar"
  shows "arena_get_offset ar p = (if in_arena ar p then p - ar_base ar else SIZE_MAX)"
    and "in_arena ar p \<Longrightarrow> unat (p - ar_base ar) = unat p - unat (ar_base ar)"
proof -
  have e: "unat (ar_base ar + ar_size ar) = unat (ar_base ar) + unat (ar_size ar)"
    by (rule arena_in_block [OF assms]) simp
  show "arena_get_offset ar p = (if in_arena ar p then p - ar_base ar else SIZE_MAX)"
    by (auto simp: arena_get_offset_def in_arena_def word_less_nat_alt word_le_nat_alt e)
  show "unat (p - ar_base ar) = unat p - unat (ar_base ar)" if "in_arena ar p"
    using that by (intro unat_sub) (simp add: in_arena_def word_le_nat_alt)
qed

lemma arena_get_in:
  assumes "arena_ok ar" "in_arena ar p"
  shows "arena_get ar (p - ar_base ar) = p" "p - ar_base ar \<noteq> SIZE_MAX"
    "unat (p - ar_base ar) < unat (ar_size ar)"
proof -
  show lt: "unat (p - ar_base ar) < unat (ar_size ar)"
    using arena_get_offset_in(2) [OF assms] assms(2) by (auto simp: in_arena_def)
  then show "arena_get ar (p - ar_base ar) = p" by (simp add: arena_get_def word_le_nat_alt)
  have "unat (p - ar_base ar) < 2 ^ 64 - 1"
    using lt unat_less_64 [of "ar_size ar"] by simp
  moreover have "unat (SIZE_MAX :: size_t) = 2 ^ 64 - 1" by (simp add: unat_max_word)
  ultimately show "p - ar_base ar \<noteq> SIZE_MAX" by auto
qed

text \<open>
  \<^verbatim>\<open>push_message\<close> returns. It refuses a pointer outside the arena and a full queue, changing
  nothing; otherwise the message with exactly this pointer and this size is appended behind the
  messages already queued.
\<close>

theorem zq_push_message_correct:
  assumes "zq_invar zq" "0 < rb_room (zq_queue zq)"
  shows "\<exists>b zq'. push_message zq p n = Some (b, zq') \<and> zq_invar zq' \<and>
           (b \<longleftrightarrow> in_arena (zq_arena zq) p \<and> length (zq_messages zq) < rb_N (zq_queue zq)) \<and>
           zq_messages zq' = (if b then zq_messages zq @ [(p, n)] else zq_messages zq) \<and>
           zq_arena zq' = zq_arena zq"
proof (cases "in_arena (zq_arena zq) p")
  case False
  then have "push_message zq p n = Some (False, zq)"
    using arena_get_offset_in(1) [of "zq_arena zq" p] assms(1)
    by (simp add: push_message_def zq_invar_def Let_def)
  then show ?thesis using assms(1) False by auto
next
  case True
  let ?h = "\<lparr>mh_offset = p - ar_base (zq_arena zq), mh_size = n\<rparr>"
  have inv: "rb_invar (zq_queue zq)" "arena_ok (zq_arena zq)"
    using assms(1) by (auto simp: zq_invar_def)
  obtain b q where q: "rb_try_push (zq_queue zq) ?h = Some (b, q)" "rb_invar q"
    "b \<longleftrightarrow> length (rb_contents (zq_queue zq)) < rb_N (zq_queue zq)"
    "rb_contents q = (if b then rb_contents (zq_queue zq) @ [?h] else rb_contents (zq_queue zq))"
    using rb_queue.push_total [OF inv(1) assms(2)] by metis
  have "push_message zq p n = Some (b, zq\<lparr>zq_queue := q\<rparr>)"
    using q(1) arena_get_offset_in(1) [OF inv(2), of p] arena_get_in(2) [OF inv(2) True] True
    by (simp add: push_message_def Let_def)
  moreover have "zq_invar (zq\<lparr>zq_queue := q\<rparr>)"
    using assms(1) q(2,4) arena_get_in(3) [OF inv(2) True] by (auto simp: zq_invar_def)
  moreover have "zq_messages (zq\<lparr>zq_queue := q\<rparr>) =
      (if b then zq_messages zq @ [(p, n)] else zq_messages zq)"
    using q(4) arena_get_in(1) [OF inv(2) True]
    by (simp add: zq_messages_def zq_message_def get_message_data_def)
  ultimately show ?thesis using True q(3) by (simp add: zq_messages_def)
qed

lemma zq_new_invar:
  assumes "is_pow2 qs" "2 \<le> unat qs" "unat qs < 2 ^ 62" "base \<noteq> 0" "unat base + unat sz < 2 ^ 64"
  shows "zq_invar (zq_new qs base sz)" "zq_messages (zq_new qs base sz) = []"
proof -
  note r = rb_new_invar [OF assms(1,2), of "\<lparr>mh_offset = 0, mh_size = 0\<rparr>"]
  show "zq_invar (zq_new qs base sz)" "zq_messages (zq_new qs base sz) = []"
    using r assms by (auto simp: zq_invar_def zq_new_def zq_messages_def arena_ok_def arena_new_def)
qed

theorem zq_push_message_correct_witness:
  "\<exists>b zq'. push_message (zq_new 4 4096 64) 4112 8 = Some (b, zq') \<and> zq_messages zq' = [(4112, 8)]"
proof -
  have i: "zq_invar (zq_new 4 4096 64)" "zq_messages (zq_new 4 4096 64) = []"
    by (rule zq_new_invar; simp add: is_pow2_def)+
  have "0 < rb_room (zq_queue (zq_new 4 4096 64))"
    by (simp add: rb_room_def rb_new_def zq_new_def zero_enat_def)
  from zq_push_message_correct [OF i(1) this, of 4112 8] i(2) show ?thesis
    by (auto simp: in_arena_def zq_new_def arena_new_def rb_new_def)
qed

text \<open>
  \<^verbatim>\<open>pop_message\<close> returns the handle of the oldest message, and \<^verbatim>\<open>get_message_data\<close> gives the same
  pointer for it also after further allocations.
\<close>

theorem zq_pop_message_correct:
  assumes "zq_invar zq" "zq_messages zq = (p, n) # ms"
  shows "\<exists>h zq'. pop_message zq = Some (Some h, zq') \<and> zq_invar zq' \<and> zq_messages zq' = ms \<and>
           mh_size h = n \<and> get_message_data zq' h = p \<and>
           (case prepare_message zq' m of Inl e \<Rightarrow> True | Inr (q, zq'') \<Rightarrow>
              get_message_data zq'' h = p \<and> zq_messages zq'' = ms)"
proof -
  obtain h hs where c: "rb_contents (zq_queue zq) = h # hs" "zq_message zq h = (p, n)"
    "map (zq_message zq) hs = ms"
    using assms(2) by (auto simp: zq_messages_def map_eq_Cons_conv)
  obtain q where q: "rb_try_pop (zq_queue zq) = Some (Some h, q)" "rb_invar q" "rb_contents q = hs"
    using rb_queue.pop_ok [OF _ c(1)] assms(1) by (auto simp: zq_invar_def)
  let ?zq = "zq\<lparr>zq_queue := q\<rparr>"
  have msg: "zq_message zq'' = zq_message zq"
    if "ar_base (zq_arena zq'') = ar_base (zq_arena zq)" "ar_size (zq_arena zq'') = ar_size (zq_arena zq)"
    for zq'' using that by (auto simp: zq_message_def get_message_data_def arena_get_def fun_eq_iff)
  have m1: "get_message_data zq'' h = p" "zq_messages zq'' = ms"
    if "ar_base (zq_arena zq'') = ar_base (zq_arena zq)" "ar_size (zq_arena zq'') = ar_size (zq_arena zq)"
      "zq_queue zq'' = q" for zq''
    using msg [OF that(1,2)] c q(3) that(3) by (auto simp: zq_messages_def zq_message_def fun_eq_iff)
  have "case prepare_message ?zq m of Inl e \<Rightarrow> True | Inr (q', zq'') \<Rightarrow>
      get_message_data zq'' h = p \<and> zq_messages zq'' = ms"
    by (auto simp: prepare_message_def arena_allocate_def Let_def intro!: m1)
  moreover have "zq_invar ?zq" using assms(1) q(2,3) c(1) by (auto simp: zq_invar_def)
  ultimately show ?thesis
    using q(1) m1 [of ?zq] c(2) by (auto simp: pop_message_def zq_message_def)
qed

theorem zq_pop_message_correct_witness:
  "\<exists>zq1 zq2 h zq3. prepare_message (zq_new 4 4096 64) 16 = Inr (4096, zq1) \<and>
     push_message zq1 4096 16 = Some (True, zq2) \<and> pop_message zq2 = Some (Some h, zq3) \<and>
     get_message_data zq3 h = 4096 \<and> mh_size h = 16"
proof -
  let ?zq1 = "(zq_new 4 4096 64)\<lparr>zq_arena := \<lparr>ar_base = 4096, ar_size = 64, ar_offset = 16\<rparr>\<rparr>"
  have i: "zq_invar ?zq1" "zq_messages ?zq1 = []"
    using zq_new_invar [of 4 4096 64]
    by (simp_all add: is_pow2_def zq_invar_def zq_new_def arena_ok_def arena_new_def zq_messages_def)
  have "0 < rb_room (zq_queue ?zq1)" by (simp add: rb_room_def rb_new_def zq_new_def zero_enat_def)
  from zq_push_message_correct [OF i(1) this, of 4096 16] i(2) obtain zq2 where
    z2: "push_message ?zq1 4096 16 = Some (True, zq2)" "zq_invar zq2" "zq_messages zq2 = [(4096, 16)]"
    by (auto simp: in_arena_def zq_new_def rb_new_def)
  have "prepare_message (zq_new 4 4096 64) 16 = Inr (4096, ?zq1)"
    by (simp add: prepare_message_def arena_allocate_def zq_new_def arena_new_def Let_def)
  moreover obtain h zq3 where "pop_message zq2 = Some (Some h, zq3)" "get_message_data zq3 h = 4096"
    "mh_size h = 16"
    using zq_pop_message_correct [OF z2(2,3)] by blast
  ultimately show ?thesis using z2(1) by blast
qed

subsection \<open>Sessions\<close>

text \<open>
  One thread uses the queue: it prepares messages, pushes pointers of its choice with sizes of its choice, pops, and
  looks up the data of what it popped. \<open>zq_session\<close> runs the code and collects what every call
  returns (a refused call does not end the session); \<open>None\<close> means that a call did not return.
\<close>

datatype zq_request = CallPrepare size_t | CallPushMsg size_t size_t | CallPopMsg

datatype zq_result = Prepared "size_t option" | PushedMsg bool | PoppedMsg "(size_t \<times> size_t) option"

fun zq_call :: "zq_request \<Rightarrow> zero_copy_queue \<Rightarrow> (zq_result \<times> zero_copy_queue) option" where
  "zq_call (CallPrepare n) zq =
     Some (case prepare_message zq n of Inl e \<Rightarrow> (Prepared None, zq) | Inr (p, zq') \<Rightarrow> (Prepared (Some p), zq'))"
| "zq_call (CallPushMsg p n) zq = map_option (\<lambda>(b, zq'). (PushedMsg b, zq')) (push_message zq p n)"
| "zq_call CallPopMsg zq =
     map_option (\<lambda>(r, zq'). (PoppedMsg (map_option (\<lambda>h. (get_message_data zq' h, mh_size h)) r), zq')) (pop_message zq)"

fun zq_session :: "zq_request list \<Rightarrow> zero_copy_queue \<Rightarrow> zq_result list option" where
  "zq_session [] zq = Some []"
| "zq_session (c # cs) zq =
     (case zq_call c zq of None \<Rightarrow> None | Some (r, zq') \<Rightarrow> map_option (Cons r) (zq_session cs zq'))"

text \<open>
  The specification knows neither handles nor offsets: a number of bytes used, and a list of at most \<open>cap\<close>
  pairs of a pointer and a size, in the order in which they were pushed.
\<close>

fun message_spec :: "size_t \<Rightarrow> nat \<Rightarrow> nat \<Rightarrow> zq_request list \<Rightarrow> nat \<Rightarrow> (size_t \<times> size_t) list \<Rightarrow> zq_result list" where
  "message_spec base sz cap [] used q = []"
| "message_spec base sz cap (CallPrepare n # cs) used q =
     (if used + unat n \<le> sz then Prepared (Some (base + word_of_nat used)) # message_spec base sz cap cs (used + unat n) q
      else Prepared None # message_spec base sz cap cs used q)"
| "message_spec base sz cap (CallPushMsg p n # cs) used q =
     (if unat base \<le> unat p \<and> unat p < unat base + sz \<and> length q < cap
      then PushedMsg True # message_spec base sz cap cs used (q @ [(p, n)])
      else PushedMsg False # message_spec base sz cap cs used q)"
| "message_spec base sz cap (CallPopMsg # cs) used [] = PoppedMsg None # message_spec base sz cap cs used []"
| "message_spec base sz cap (CallPopMsg # cs) used (m # q) = PoppedMsg (Some m) # message_spec base sz cap cs used q"

text \<open>The relation between the two: \<open>k\<close> more calls stay within the range of the ring's counters.\<close>

definition zq_rel :: "size_t \<Rightarrow> size_t \<Rightarrow> nat \<Rightarrow> nat \<Rightarrow> nat \<Rightarrow> (size_t \<times> size_t) list \<Rightarrow> zero_copy_queue \<Rightarrow> bool" where
  "zq_rel base sz cap k used q zq \<longleftrightarrow> zq_invar zq \<and> zq_messages zq = q \<and> ar_base (zq_arena zq) = base \<and>
     ar_size (zq_arena zq) = sz \<and> unat (ar_offset (zq_arena zq)) = used \<and> rb_N (zq_queue zq) = cap \<and> enat k \<le> rb_room (zq_queue zq)"

definition zq_fits :: "size_t \<Rightarrow> zq_request \<Rightarrow> bool" where
  "zq_fits sz c \<longleftrightarrow> (case c of CallPrepare n \<Rightarrow> unat sz + unat n < 2 ^ 64 | _ \<Rightarrow> True)"

lemma zq_rel_Suc: "zq_rel base sz cap (Suc k) used q zq \<Longrightarrow> zq_rel base sz cap k used q zq"
  unfolding zq_rel_def by (meson enat_ord_simps(1) le_Suc_eq order_trans order_refl)

lemma zq_prepare_rel:
  assumes "zq_rel base sz cap (Suc k) used q zq" "unat sz + unat n < 2 ^ 64"
  shows "if used + unat n \<le> unat sz
    then \<exists>zq'. prepare_message zq n = Inr (base + word_of_nat used, zq') \<and> zq_rel base sz cap k (used + unat n) q zq'
    else prepare_message zq n = Inl ArenaFull"
proof -
  have r: "zq_invar zq" "arena_ok (zq_arena zq)" "zq_rel base sz cap k used q zq"
    using assms(1) zq_rel_Suc [OF assms(1)] by (auto simp: zq_rel_def zq_invar_def)
  have a: "ar_base (zq_arena zq) = base" "ar_size (zq_arena zq) = sz" "ar_offset (zq_arena zq) = word_of_nat used"
    "unat (ar_offset (zq_arena zq)) = used" using assms(1) by (auto simp: zq_rel_def)
  note c = arena_allocate_cases [OF r(2), of n, unfolded a(1,2,4), OF assms(2)]
  show ?thesis
  proof (cases "used + unat n \<le> unat sz")
    case True
    let ?zq = "zq\<lparr>zq_arena := (zq_arena zq)\<lparr>ar_offset := ar_offset (zq_arena zq) + n\<rparr>\<rparr>"
    have "zq_message ?zq = zq_message zq" by (simp add: fun_eq_iff zq_message_def get_message_data_def arena_get_def)
    then have "zq_rel base sz cap k (used + unat n) q ?zq"
      using r(3) c True by (auto simp: zq_rel_def zq_invar_def zq_messages_def arena_ok_def)
    moreover have "prepare_message zq n = Inr (base + word_of_nat used, ?zq)" using c True a(3) by (simp add: prepare_message_def)
    ultimately show ?thesis using True by auto
  qed (use c in \<open>simp add: prepare_message_def\<close>)
qed

lemma zq_push_rel:
  assumes "zq_rel base sz cap (Suc k) used q zq"
  shows "\<exists>b zq'. push_message zq p n = Some (b, zq') \<and>
    b = (unat base \<le> unat p \<and> unat p < unat base + unat sz \<and> length q < cap) \<and>
    zq_rel base sz cap k used (if b then q @ [(p, n)] else q) zq'"
proof -
  have r: "zq_invar zq" "enat (Suc k) \<le> rb_room (zq_queue zq)" "rb_invar (zq_queue zq)"
    using assms by (auto simp: zq_rel_def zq_invar_def)
  then have room: "0 < rb_room (zq_queue zq)" by (cases "rb_room (zq_queue zq)") (auto simp: zero_enat_def)
  obtain b zq' where z: "push_message zq p n = Some (b, zq')" "zq_invar zq'"
    "b \<longleftrightarrow> in_arena (zq_arena zq) p \<and> length (zq_messages zq) < rb_N (zq_queue zq)"
    "zq_messages zq' = (if b then zq_messages zq @ [(p, n)] else zq_messages zq)" "zq_arena zq' = zq_arena zq"
    using zq_push_message_correct [OF r(1) room] by blast
  have "zq' = zq \<or> (\<exists>h. rb_try_push (zq_queue zq) h = Some (b, zq_queue zq'))"
    using z(1) by (auto simp: push_message_def Let_def split: if_splits)
  then have "rb_N (zq_queue zq') = rb_N (zq_queue zq) \<and> enat k \<le> rb_room (zq_queue zq')"
  proof
    assume "\<exists>h. rb_try_push (zq_queue zq) h = Some (b, zq_queue zq')"
    then obtain h where h: "rb_try_push (zq_queue zq) h = Some (b, zq_queue zq')" by blast
    have "eSuc (enat k) \<le> eSuc (rb_room (zq_queue zq'))"
      using rb_queue.push_room [OF r(3) room h] r(2) by (simp add: eSuc_enat)
    then show ?thesis using rb_queue.push_total [OF r(3) room, of h] h by auto
  qed (use zq_rel_Suc [OF assms] in \<open>auto simp: zq_rel_def\<close>)
  then show ?thesis using z assms by (intro exI [of _ b] exI [of _ zq']) (auto simp: zq_rel_def in_arena_def)
qed

lemma zq_pop_rel:
  assumes "zq_rel base sz cap (Suc k) used q zq"
  shows "\<exists>zq'. zq_call CallPopMsg zq = Some (PoppedMsg (case q of [] \<Rightarrow> None | m # _ \<Rightarrow> Some m), zq') \<and>
    zq_rel base sz cap k used (tl q) zq'"
proof -
  note r = zq_rel_Suc [OF assms]
  have i: "rb_invar (zq_queue zq)" "q = map (zq_message zq) (rb_contents (zq_queue zq))"
    using assms by (auto simp: zq_rel_def zq_invar_def zq_messages_def)
  obtain rb where rb: "rb_try_pop (zq_queue zq) = Some (case rb_contents (zq_queue zq) of [] \<Rightarrow> None | x # _ \<Rightarrow> Some x, rb)"
    "rb_invar rb" "rb_contents rb = tl (rb_contents (zq_queue zq))" "rb_N rb = rb_N (zq_queue zq)" "rb_room rb = rb_room (zq_queue zq)"
    using rb_queue.pop_total [OF i(1)] by blast
  let ?zq = "zq\<lparr>zq_queue := rb\<rparr>"
  have msg: "zq_message ?zq = zq_message zq" by (simp add: fun_eq_iff zq_message_def get_message_data_def)
  have "set (rb_contents rb) \<subseteq> set (rb_contents (zq_queue zq))" unfolding rb(3) by (cases "rb_contents (zq_queue zq)") auto
  then have "zq_rel base sz cap k used (tl q) ?zq"
    using r rb(2-5) i(2) msg by (auto simp: zq_rel_def zq_invar_def zq_messages_def map_tl)
  moreover have "zq_call CallPopMsg zq = Some (PoppedMsg (case q of [] \<Rightarrow> None | m # _ \<Rightarrow> Some m), ?zq)"
    using rb(1) i(2) by (cases "rb_contents (zq_queue zq)") (auto simp: pop_message_def zq_message_def get_message_data_def)
  ultimately show ?thesis by blast
qed

lemma zq_session_rel:
  assumes "zq_rel base sz cap (length cs) used q zq" "\<forall>c \<in> set cs. zq_fits sz c"
  shows "zq_session cs zq = Some (message_spec base (unat sz) cap cs used q)"
  using assms
proof (induction cs arbitrary: used q zq)
  case (Cons c cs)
  then have rel: "zq_rel base sz cap (Suc (length cs)) used q zq" and fits: "zq_fits sz c" "\<forall>c \<in> set cs. zq_fits sz c" by auto
  show ?case
  proof (cases c)
    case (CallPrepare n)
    have n: "unat sz + unat n < 2 ^ 64" using fits(1) CallPrepare by (simp add: zq_fits_def)
    show ?thesis
    proof (cases "used + unat n \<le> unat sz")
      case True
      then obtain zq' where z: "prepare_message zq n = Inr (base + word_of_nat used, zq')"
        "zq_rel base sz cap (length cs) (used + unat n) q zq'" using zq_prepare_rel [OF rel n] by auto
      show ?thesis using Cons.IH [OF z(2) fits(2)] z(1) True CallPrepare by simp
    next
      case False
      then have "prepare_message zq n = Inl ArenaFull" using zq_prepare_rel [OF rel n] by simp
      then show ?thesis using Cons.IH [OF zq_rel_Suc [OF rel] fits(2)] False CallPrepare by simp
    qed
  next
    case (CallPushMsg p n)
    obtain b zq' where b: "push_message zq p n = Some (b, zq')"
      "b = (unat base \<le> unat p \<and> unat p < unat base + unat sz \<and> length q < cap)"
      "zq_rel base sz cap (length cs) used (if b then q @ [(p, n)] else q) zq'" using zq_push_rel [OF rel] by blast
    show ?thesis using Cons.IH [OF b(3) fits(2)] b(1,2) CallPushMsg by auto
  next
    case CallPopMsg
    obtain zq' where z: "zq_call CallPopMsg zq = Some (PoppedMsg (case q of [] \<Rightarrow> None | m # _ \<Rightarrow> Some m), zq')"
      "zq_rel base sz cap (length cs) used (tl q) zq'" using zq_pop_rel [OF rel] by (elim exE conjE)
    show ?thesis using Cons.IH [OF z(2) fits(2)] z(1) CallPopMsg by (cases q) (simp_all del: zq_call.simps)
  qed
qed simp

text \<open>
  C34. A \<^verbatim>\<open>ZeroCopyQueue\<close> used by one thread is a bump allocator beside a bounded FIFO queue of pointers and
  sizes: in every session that starts with a new queue, all calls return; \<^verbatim>\<open>prepare_message\<close> hands out the bytes
  of the arena in order and throws exactly when too few are left; \<^verbatim>\<open>push_message\<close> accepts exactly
  the pointers into the arena, while the queue is not full; and the handles that \<^verbatim>\<open>pop_message\<close> returns carry,
  through \<^verbatim>\<open>get_message_data\<close>, the very pointers and sizes pushed, in order, each once. No request is so
  large that the bounds check wraps, and the session is shorter than $2^{63}$ less the size of the queue.
\<close>

theorem zq_session_correct:
  assumes "is_pow2 qs" "2 \<le> unat qs" "unat qs < 2 ^ 62" "base \<noteq> 0" "unat base + unat sz < 2 ^ 64"
    and "\<forall>n. CallPrepare n \<in> set cs \<longrightarrow> unat sz + unat n < 2 ^ 64" "length cs < 2 ^ 63 - unat qs"
  shows "zq_session cs (zq_new qs base sz) = Some (message_spec base (unat sz) (unat qs) cs 0 [])"
proof (rule zq_session_rel)
  show "zq_rel base sz (unat qs) (length cs) 0 [] (zq_new qs base sz)"
    using zq_new_invar [OF assms(1-5)] assms(7) by (auto simp: zq_rel_def zq_new_def arena_new_def rb_new_def rb_room_def)
  show "\<forall>c \<in> set cs. zq_fits sz c" using assms(6) by (auto simp: zq_fits_def split: zq_request.splits)
qed

text \<open>Two messages of 16 and 8 bytes, and a pointer outside the arena; the second message is popped after a third allocation.\<close>

theorem zq_session_correct_witness:
  "zq_session [CallPrepare 16, CallPrepare 8, CallPushMsg 4096 16, CallPushMsg 4112 8, CallPushMsg 9000 1, CallPopMsg,
     CallPrepare 41, CallPrepare 40, CallPopMsg, CallPopMsg] (zq_new 4 4096 64) =
   Some [Prepared (Some 4096), Prepared (Some 4112), PushedMsg True, PushedMsg True, PushedMsg False, PoppedMsg (Some (4096, 16)),
     Prepared None, Prepared (Some 4120), PoppedMsg (Some (4112, 8)), PoppedMsg None]" (is "zq_session ?cs _ = _")
proof -
  have "zq_session ?cs (zq_new 4 4096 64) = Some (message_spec 4096 (unat (64::size_t)) (unat (4::size_t)) ?cs 0 [])"
    by (rule zq_session_correct) (auto simp: is_pow2_def)
  then show ?thesis by simp
qed

end
