(* ===== verification/Message_Service.thy ===== *)
theory Message_Service
  imports Ring_Clients Message_Queue
begin

text \<open>
  \<^verbatim>\<open>ZeroCopyQueue\<close> (\<^verbatim>\<open>message_queue.hpp\<close>) in use by any number of senders and receivers. A sender prepares
  a message (\<^verbatim>\<open>allocate\<close>), writes its bytes into the block, one at a time and without synchronisation, and
  pushes it, again if the queue is full. A receiver pops a handle and reads the bytes through
  \<^verbatim>\<open>get_message_data\<close>. Every access of the arena is a step of \<open>al_exec\<close>, every access of the queue one of
  \<open>rb_go\<close>; \<open>ms_mem\<close> is the memory. \<open>ms_sent\<close> is a ghost, the contents of the messages in the order of
  the queue. The interleaving is sequentially consistent.
\<close>

type_synonym bytes = "8 word list"

record ms_global =
  ms_al :: alloc_global
  ms_ring :: "message_handle rb_global"
  ms_mem :: "size_t \<Rightarrow> 8 word"
  ms_sent :: "bytes list"

datatype ms_pc =
    MsIdle
  | MsAlloc bytes alloc_pc                          \<comment> \<open>inside \<^verbatim>\<open>prepare_message\<close>\<close>
  | MsWrite bytes nat size_t                        \<comment> \<open>bytes written so far, the pointer\<close>
  | MsReady bytes size_t                            \<comment> \<open>about to call \<^verbatim>\<open>push_message\<close>\<close>
  | MsPush bytes size_t "message_handle rb_pc"
  | MsPop "message_handle rb_pc"                    \<comment> \<open>inside \<^verbatim>\<open>pop_message\<close>\<close>
  | MsRead message_handle bytes                     \<comment> \<open>the bytes read so far\<close>
  | MsGot message_handle bytes

datatype ms_act = MsCallSend bytes | MsCallReceive | MsGo bool

abbreviation ms_arena :: "ms_global \<Rightarrow> arena" where
  "ms_arena g \<equiv> al_arena (ms_al g)"

fun ms_go :: "bool \<Rightarrow> ms_global \<Rightarrow> ms_pc \<Rightarrow> ms_global \<times> ms_pc" where
  "ms_go sp g MsIdle = (g, MsIdle)"
| "ms_go sp g (MsAlloc m (AlRet (Inl e))) = (g, MsIdle)"
| "ms_go sp g (MsAlloc m (AlRet (Inr p))) = (g, MsWrite m 0 p)"
| "ms_go sp g (MsAlloc m l) = (case al_exec (AlGo sp) (ms_al g) l of (a, l') \<Rightarrow> (g\<lparr>ms_al := a\<rparr>, MsAlloc m l'))"
| "ms_go sp g (MsWrite m k p) =
     (if k < length m then (g\<lparr>ms_mem := (ms_mem g)(p + word_of_nat k := m ! k)\<rparr>, MsWrite m (k + 1) p) else (g, MsReady m p))"
| "ms_go sp g (MsReady m p) =
     (let offset = arena_get_offset (ms_arena g) p in
      if offset = SIZE_MAX then (g, MsIdle)
      else (g, MsPush m p (PushLoad \<lparr>mh_offset = offset, mh_size = word_of_nat (length m)\<rparr>)))"
| "ms_go sp g (MsPush m p (PushRet b)) = (g, if b then MsIdle else MsReady m p)"
| "ms_go sp g (MsPush m p l) =
     (case rb_go sp (ms_ring g) l of (r, l') \<Rightarrow>
        (g\<lparr>ms_ring := r, ms_sent := (if length (g_enq r) = length (g_enq (ms_ring g)) then ms_sent g else ms_sent g @ [m])\<rparr>, MsPush m p l'))"
| "ms_go sp g (MsPop (PopRet None)) = (g, MsIdle)"
| "ms_go sp g (MsPop (PopRet (Some h))) = (g, MsRead h [])"
| "ms_go sp g (MsPop l) = (case rb_go sp (ms_ring g) l of (r, l') \<Rightarrow> (g\<lparr>ms_ring := r\<rparr>, MsPop l'))"
| "ms_go sp g (MsRead h bs) =
     (if length bs < unat (mh_size h)
      then (g, MsRead h (bs @ [ms_mem g (arena_get (ms_arena g) (mh_offset h) + word_of_nat (length bs))])) else (g, MsGot h bs))"
| "ms_go sp g (MsGot h bs) = (g, MsIdle)"

fun ms_exec :: "ms_act \<Rightarrow> ms_global \<Rightarrow> ms_pc \<Rightarrow> ms_global \<times> ms_pc" where
  "ms_exec (MsCallSend m) g MsIdle =
     (if int (length m) < 2 ^ 64
      then (case al_exec (AlCall (word_of_nat (length m))) (ms_al g) AlIdle of (a, l') \<Rightarrow> (g\<lparr>ms_al := a\<rparr>, MsAlloc m l'))
      else (g, MsIdle))"
| "ms_exec MsCallReceive g MsIdle = (g, MsPop PopLoad)"
| "ms_exec (MsGo sp) g l = ms_go sp g l"
| "ms_exec _ g l = (g, l)"

definition ms_init :: "ms_global \<Rightarrow> bool" where
  "ms_init g \<longleftrightarrow> al_ginit (ms_al g) \<and> rb_ginit (ms_ring g) \<and> ms_sent g = []"

abbreviation ms_reach :: "(ms_global, ms_pc) config \<Rightarrow> bool" where
  "ms_reach \<equiv> reach ms_exec ms_init (\<lambda>_. MsIdle)"

subsection \<open>Projections to the arena and to the queue\<close>

fun ms_alloc_pc :: "ms_pc \<Rightarrow> alloc_pc" where
  "ms_alloc_pc (MsAlloc m l) = l"
| "ms_alloc_pc _ = AlIdle"

fun ms_rb_pc :: "ms_pc \<Rightarrow> message_handle rb_pc" where
  "ms_rb_pc (MsPush m p l) = l"
| "ms_rb_pc (MsPop l) = l"
| "ms_rb_pc _ = RbIdle"

lemma ms_exec_al:
  assumes "ms_exec a g l = (g', l')"
  shows "ms_al g' = ms_al g \<and> ms_alloc_pc l' = ms_alloc_pc l \<or> (\<exists>a. al_exec a (ms_al g) (ms_alloc_pc l) = (ms_al g', ms_alloc_pc l'))"
proof (cases "(a, g, l)" rule: ms_exec.cases)
  case (1 m g0)
  then show ?thesis using assms by (auto intro: exI [of _ "AlCall (word_of_nat (length m))"] split: if_splits)
next
  case (3 sp g0 l0)
  then show ?thesis using assms
    by (cases "(sp, g, l)" rule: ms_go.cases) (auto simp: Let_def split: prod.splits if_splits intro: exI [of _ "AlGo sp"])
qed (use assms in auto)

lemma ms_exec_rb:
  assumes "ms_exec a g l = (g', l')"
  shows "ms_ring g' = ms_ring g \<and> ms_rb_pc l' = ms_rb_pc l \<or> (\<exists>a. rb_exec a (ms_ring g) (ms_rb_pc l) = (ms_ring g', ms_rb_pc l'))"
proof (cases "(a, g, l)" rule: ms_exec.cases)
  case (2 g0)
  then show ?thesis using assms by (auto intro: exI [of _ CallPop])
next
  case (3 sp g0 l0)
  then show ?thesis using assms
    by (cases "(sp, g, l)" rule: ms_go.cases)
       (auto simp: Let_def split: prod.splits if_splits intro: exI [of _ "Go sp"] exI [of _ "CallPush _"])
qed (use assms in \<open>auto split: if_splits\<close>)

interpretation ms_arena: client_system al_exec al_ginit "\<lambda>_. AlIdle" ms_exec ms_init "\<lambda>_. MsIdle" ms_al ms_alloc_pc
  by unfold_locales (auto simp: ms_init_def dest: ms_exec_al)

interpretation ms_queue: client_system rb_exec rb_ginit "\<lambda>_. RbIdle" ms_exec ms_init "\<lambda>_. MsIdle" ms_ring ms_rb_pc
  by unfold_locales (auto simp: ms_init_def dest: ms_exec_rb)

lemmas ms_reach_al = ms_arena.reach_proj [of "(_, _)", simplified]
lemmas ms_reach_rb = ms_queue.reach_proj [of "(_, _)", simplified]

subsection \<open>Ownership of blocks\<close>

abbreviation ms_base :: "ms_global \<Rightarrow> size_t" where
  "ms_base g \<equiv> ar_base (ms_arena g)"

text \<open>The block at pointer \<open>p\<close> was handed out for the message \<open>m\<close> and holds its first \<open>k\<close> bytes.\<close>

definition holds :: "ms_global \<Rightarrow> size_t \<Rightarrow> bytes \<Rightarrow> nat \<Rightarrow> bool" where
  "holds g p m k \<longleftrightarrow> k \<le> length m \<and> (unat (p - ms_base g), length m) \<in> set (al_blocks (ms_al g)) \<and>
     (\<forall>j < k. ms_mem g (p + word_of_nat j) = m ! j)"

fun ms_owns :: "ms_pc \<Rightarrow> (size_t \<times> bytes \<times> nat) option" where
  "ms_owns (MsAlloc m (AlRet (Inr p))) = Some (p, m, 0)"
| "ms_owns (MsWrite m k p) = Some (p, m, k)"
| "ms_owns (MsReady m p) = Some (p, m, length m)"
| "ms_owns (MsPush m p l) = (if rc_took l then None else Some (p, m, length m))"
| "ms_owns _ = None"

definition handle_of :: "ms_global \<Rightarrow> size_t \<Rightarrow> bytes \<Rightarrow> message_handle" where
  "handle_of g p m = \<lparr>mh_offset = p - ms_base g, mh_size = word_of_nat (length m)\<rparr>"

text \<open>A range of bytes is given by its address and its length. An empty range is apart from the range that starts where it does.\<close>

definition apart :: "nat \<times> nat \<Rightarrow> nat \<times> nat \<Rightarrow> bool" where
  "apart a b \<longleftrightarrow> fst a + snd a \<le> fst b \<or> fst b + snd b \<le> fst a"

definition extent :: "size_t \<Rightarrow> bytes \<Rightarrow> nat \<times> nat" where
  "extent p m = (unat p, length m)"

definition handle_extent :: "ms_global \<Rightarrow> message_handle \<Rightarrow> nat \<times> nat" where
  "handle_extent g h = (unat (ms_base g + mh_offset h), unat (mh_size h))"

lemma apart_sym: "apart a b \<Longrightarrow> apart b a"
  by (auto simp: apart_def)

lemma apart_bytes: "apart (a, n) (b, m) \<Longrightarrow> i < n \<Longrightarrow> j < m \<Longrightarrow> a + i \<noteq> b + j"
  by (auto simp: apart_def)

lemma block_in:
  assumes G: "al_G (ms_al g)" and b: "(unat (p - ms_base g), n) \<in> set (al_blocks (ms_al g))"
  shows "unat p = unat (ms_base g) + unat (p - ms_base g)" "unat (p - ms_base g) + n \<le> unat (ar_offset (ms_arena g))"
    "unat p + n < 2 ^ 64"
proof -
  show o: "unat (p - ms_base g) + n \<le> unat (ar_offset (ms_arena g))"
    using tiles_in [of 0 "al_blocks (ms_al g)"] G b by (auto simp: al_G_def)
  then have le: "unat (ms_base g) + unat (p - ms_base g) + n < 2 ^ 64" using G by (auto simp: al_G_def arena_ok_def)
  have "p = ms_base g + (p - ms_base g)" by simp
  moreover have "unat (ms_base g + (p - ms_base g)) = unat (ms_base g) + unat (p - ms_base g)" using le by (intro unat_plus) simp
  ultimately show p: "unat p = unat (ms_base g) + unat (p - ms_base g)" by simp
  show "unat p + n < 2 ^ 64" using p le by simp
qed

lemma block_addr:
  assumes G: "al_G (ms_al g)" and b: "(unat (p - ms_base g), n) \<in> set (al_blocks (ms_al g))" and j: "j < n"
  shows "unat (p + word_of_nat j) = unat p + j"
proof -
  have "unat (word_of_nat j :: size_t) = j" using block_in(3) [OF G b] j by (simp add: unat_of_nat)
  then show ?thesis using block_in(3) [OF G b] j unat_plus [of p "word_of_nat j"] by simp
qed

lemma holds_block: "holds g p m k \<Longrightarrow> (unat (p - ms_base g), length m) \<in> set (al_blocks (ms_al g)) \<and> k \<le> length m"
  by (simp add: holds_def)

lemma apart_addr:
  assumes G: "al_G (ms_al g)" and p: "holds g p m k'" "k < length m" and q: "holds g q n i'" "i < length n" and a: "apart (extent p m) (extent q n)"
  shows "p + word_of_nat k \<noteq> q + word_of_nat i"
proof
  assume "p + word_of_nat k = q + word_of_nat i"
  then have "unat p + k = unat q + i"
    using block_addr [OF G, of p "length m" k] block_addr [OF G, of q "length n" i] holds_block [OF p(1)] holds_block [OF q(1)] p(2) q(2) by simp
  then show False using apart_bytes [OF a [unfolded extent_def] p(2) q(2)] by simp
qed

lemma holds_write:
  assumes G: "al_G (ms_al g)" and p: "holds g p m k" "k < length m" and q: "holds g q n i" "apart (extent p m) (extent q n)"
  shows "holds (g\<lparr>ms_mem := (ms_mem g)(p + word_of_nat k := x)\<rparr>) q n i"
proof -
  have "q + word_of_nat j \<noteq> p + word_of_nat k" if j: "j < i" for j
    using apart_addr [OF G p q(1) _ q(2), of j] holds_block [OF q(1)] j by simp
  then show ?thesis using q(1) by (auto simp: holds_def)
qed

lemma holds_next:
  assumes G: "al_G (ms_al g)" and p: "holds g p m k" "k < length m"
  shows "holds (g\<lparr>ms_mem := (ms_mem g)(p + word_of_nat k := m ! k)\<rparr>) p m (Suc k)"
proof -
  have b: "(unat (p - ms_base g), length m) \<in> set (al_blocks (ms_al g))" using p(1) by (simp add: holds_def)
  have "p + word_of_nat j \<noteq> p + word_of_nat k" if j: "j < k" for j
    using block_addr [OF G b, of j] block_addr [OF G b p(2)] j p(2) by auto
  then show ?thesis using p by (auto simp: holds_def less_Suc_eq)
qed

lemma holds_mono:
  assumes "holds g p m k" "ms_mem g' = ms_mem g" "ms_base g' = ms_base g" "set (al_blocks (ms_al g)) \<subseteq> set (al_blocks (ms_al g'))"
  shows "holds g' p m k"
  using assms by (auto simp: holds_def)

subsection \<open>Invariant\<close>

abbreviation ms_enq :: "ms_global \<Rightarrow> message_handle list" where
  "ms_enq g \<equiv> g_enq (ms_ring g)"

definition sent_ok :: "ms_global \<Rightarrow> message_handle \<Rightarrow> bytes \<Rightarrow> bool" where
  "sent_ok g h m \<longleftrightarrow> unat (mh_size h) = length m \<and> holds g (ms_base g + mh_offset h) m (length m)"

definition ms_G :: "ms_global \<Rightarrow> bool" where
  "ms_G g \<longleftrightarrow> length (ms_sent g) = length (ms_enq g) \<and>
     (\<forall>i < length (ms_enq g). sent_ok g (ms_enq g ! i) (ms_sent g ! i)) \<and>
     (\<forall>i < length (ms_enq g). \<forall>j < i. apart (handle_extent g (ms_enq g ! i)) (handle_extent g (ms_enq g ! j)))"

text \<open>What the program point of a thread says about its message.\<close>

fun ms_at :: "ms_global \<Rightarrow> ms_pc \<Rightarrow> bool" where
  "ms_at g (MsAlloc m l) = (length m < 2 ^ 64 \<and>
     (case l of AlIdle \<Rightarrow> False | AlLoad n \<Rightarrow> n = word_of_nat (length m) | AlCas n cur \<Rightarrow> n = word_of_nat (length m) | AlRet r \<Rightarrow> True))"
| "ms_at g (MsWrite m k p) = (length m < 2 ^ 64)"
| "ms_at g (MsReady m p) = (length m < 2 ^ 64)"
| "ms_at g (MsPush m p l) = (length m < 2 ^ 64 \<and> push_pc l \<and>
     (case l of PushLoad x \<Rightarrow> x = handle_of g p m | PushCheck x h \<Rightarrow> x = handle_of g p m | PushCas x h \<Rightarrow> x = handle_of g p m | _ \<Rightarrow> True))"
| "ms_at g (MsPop l) = (pop_pc l \<and> l \<noteq> RbIdle \<and> (\<forall>h. l = PopRet (Some h) \<longrightarrow> h \<in> set (ms_enq g)))"
| "ms_at g (MsRead h bs) = (\<exists>i < length (ms_enq g). ms_enq g ! i = h \<and> (\<exists>k \<le> length (ms_sent g ! i). bs = take k (ms_sent g ! i)))"
| "ms_at g (MsGot h bs) = (\<exists>i < length (ms_enq g). ms_enq g ! i = h \<and> bs = ms_sent g ! i)"
| "ms_at g MsIdle = True"

definition ms_T :: "ms_global \<Rightarrow> ms_pc \<Rightarrow> bool" where
  "ms_T g l \<longleftrightarrow> ms_at g l \<and> (\<forall>p m k. ms_owns l = Some (p, m, k) \<longrightarrow>
     holds g p m k \<and> (\<forall>h \<in> set (ms_enq g). apart (extent p m) (handle_extent g h)))"

definition ms_X :: "ms_pc \<Rightarrow> ms_pc \<Rightarrow> bool" where
  "ms_X l m \<longleftrightarrow> (\<forall>p x i q y j. ms_owns l = Some (p, x, i) \<longrightarrow> ms_owns m = Some (q, y, j) \<longrightarrow> apart (extent p x) (extent q y))"

lemma ms_TD: "ms_T g l \<Longrightarrow> ms_owns l = Some (p, m, k) \<Longrightarrow> holds g p m k \<and> (\<forall>h \<in> set (ms_enq g). apart (extent p m) (handle_extent g h))"
  by (simp add: ms_T_def)

lemma ms_X_sym: "ms_X l m \<Longrightarrow> ms_X m l"
  unfolding ms_X_def using apart_sym by blast

text \<open>Steps that leave the memory and the history of the queue alone, and may hand out further blocks.\<close>

definition ms_frame :: "ms_global \<Rightarrow> ms_global \<Rightarrow> bool" where
  "ms_frame g g' \<longleftrightarrow> ms_base g' = ms_base g \<and> ms_mem g' = ms_mem g \<and> ms_enq g' = ms_enq g \<and> ms_sent g' = ms_sent g \<and>
     set (al_blocks (ms_al g)) \<subseteq> set (al_blocks (ms_al g'))"

lemma ms_frame_refl: "ms_frame g g"
  by (simp add: ms_frame_def)

lemma ms_frame_holds: "ms_frame g g' \<Longrightarrow> holds g p m k \<Longrightarrow> holds g' p m k"
  using holds_mono by (simp add: ms_frame_def)

lemma ms_frame_at: "ms_frame g g' \<Longrightarrow> ms_at g' l = ms_at g l"
  by (cases l) (auto simp: ms_frame_def handle_of_def split: rb_pc.splits)

lemma ms_frame_G: "ms_frame g g' \<Longrightarrow> ms_G g \<Longrightarrow> ms_G g'"
  using ms_frame_holds [of g g'] unfolding ms_G_def sent_ok_def ms_frame_def handle_extent_def by auto

lemma ms_frame_T: "ms_frame g g' \<Longrightarrow> ms_T g l \<Longrightarrow> ms_T g' l"
  using ms_frame_holds [of g g'] ms_frame_at [of g g' l] unfolding ms_T_def ms_frame_def handle_extent_def by auto

text \<open>A frame step of a thread that keeps or loses its block.\<close>

lemma ms_frame_step:
  assumes "ms_frame g g'" "ms_G g" "ms_T g l" "ms_at g' l'" "ms_owns l' = ms_owns l \<or> ms_owns l' = None"
  shows "ms_G g' \<and> ms_T g' l' \<and> (\<forall>m. ms_T g m \<and> ms_X l m \<longrightarrow> ms_T g' m \<and> ms_X l' m)"
proof (intro conjI allI impI)
  have "ms_T g' l" by (rule ms_frame_T [OF assms(1,3)])
  then show "ms_T g' l'" using assms(4,5) unfolding ms_T_def by auto
  show "ms_G g'" by (rule ms_frame_G [OF assms(1,2)])
  fix m assume "ms_T g m \<and> ms_X l m"
  then show "ms_T g' m" "ms_X l' m" using ms_frame_T [OF assms(1)] assms(5) by (auto simp: ms_X_def)
qed

lemma ms_owns_check [simp]: "ms_owns (MsAlloc m (al_check ar n c)) = None"
  by (simp add: al_check_def)

lemma ms_at_check: "length m < 2 ^ 64 \<Longrightarrow> n = word_of_nat (length m) \<Longrightarrow> ms_at g (MsAlloc m (al_check ar n c))"
  by (simp add: al_check_def)

subsection \<open>Steps\<close>

lemma ms_cas_step:
  assumes ex: "al_exec (AlGo sp) (ms_al g) (AlCas n cur) = (a, AlRet (Inr p))" and T: "ms_T g (MsAlloc m (AlCas n cur))"
    and Gm: "ms_G g" and G: "al_G (ms_al g)"
  shows "ms_G (g\<lparr>ms_al := a\<rparr>) \<and> ms_T (g\<lparr>ms_al := a\<rparr>) (MsAlloc m (AlRet (Inr p))) \<and>
    (\<forall>l. ms_T g l \<longrightarrow> ms_T (g\<lparr>ms_al := a\<rparr>) l \<and> ms_X (MsAlloc m (AlRet (Inr p))) l)"
proof -
  let ?g' = "g\<lparr>ms_al := a\<rparr>"
  have m: "n = word_of_nat (length m)" "length m < 2 ^ 64" using T by (auto simp: ms_T_def)
  then have n: "unat n = length m" by (simp add: unat_of_nat)
  have c: "cur = ar_offset (ms_arena g)" "p = ms_base g + cur" "al_blocks a = al_blocks (ms_al g) @ [(unat cur, unat n)]"
    "ar_base (al_arena a) = ms_base g" using ex by (auto simp: al_check_def split: if_splits)
  have fr: "ms_frame g ?g'" using c(3,4) by (auto simp: ms_frame_def)
  have p: "unat p = unat (ms_base g) + unat cur"
    using G c(1) unfolding c(2) by (intro arena_in_block) (auto simp: al_G_def arena_ok_def)
  have fresh: "unat q + length x \<le> unat p" if h: "holds g q x k" for q x k
    using block_in(1,2) [OF G, of q "length x"] holds_block [OF h] p c(1) by simp
  have "apart (extent p m) (handle_extent g h)" if h: "h \<in> set (ms_enq g)" for h
  proof -
    obtain i where i: "i < length (ms_enq g)" "ms_enq g ! i = h" using h by (metis in_set_conv_nth)
    then have "sent_ok g h (ms_sent g ! i)" using Gm by (auto simp: ms_G_def)
    then show ?thesis using fresh [of "ms_base g + mh_offset h"] by (auto simp: sent_ok_def apart_def extent_def handle_extent_def)
  qed
  then have "ms_T ?g' (MsAlloc m (AlRet (Inr p)))" using m c n by (simp add: ms_T_def holds_def handle_extent_def)
  moreover have "ms_X (MsAlloc m (AlRet (Inr p))) l" if T: "ms_T g l" for l
    using ms_TD [OF T] fresh by (fastforce simp: ms_X_def apart_def extent_def)
  ultimately show ?thesis using ms_frame_G [OF fr Gm] ms_frame_T [OF fr] by blast
qed

lemma ms_alloc_step:
  assumes ex: "ms_go sp g (MsAlloc m l) = (g', l')" and Gm: "ms_G g" and T: "ms_T g (MsAlloc m l)" and G: "al_G (ms_al g)"
  shows "ms_G g' \<and> ms_T g' l' \<and> (\<forall>u. ms_T g u \<and> ms_X (MsAlloc m l) u \<longrightarrow> ms_T g' u \<and> ms_X l' u)"
proof (cases l)
  case AlIdle
  then show ?thesis using T by (simp add: ms_T_def)
next
  case (AlLoad n)
  then have "ms_at g (MsAlloc m (al_check (ms_arena g) n (ar_offset (ms_arena g))))" using T by (intro ms_at_check) (auto simp: ms_T_def)
  then show ?thesis using ex AlLoad ms_frame_step [OF ms_frame_refl Gm T, of l'] by auto
next
  case (AlCas n cur)
  obtain a l1 where a: "al_exec (AlGo sp) (ms_al g) l = (a, l1)" by (cases "al_exec (AlGo sp) (ms_al g) l")
  then have g': "g' = g\<lparr>ms_al := a\<rparr>" "l' = MsAlloc m l1" using ex AlCas by auto
  show ?thesis
  proof (cases "\<exists>p. l1 = AlRet (Inr p)")
    case True
    then show ?thesis using ms_cas_step [OF _ _ Gm G] a AlCas T g' by blast
  next
    case False
    then have "a = ms_al g" "l1 = al_check (ms_arena g) n (ar_offset (ms_arena g))" using a AlCas by (auto split: if_splits)
    moreover have "ms_at g (MsAlloc m (al_check (ms_arena g) n (ar_offset (ms_arena g))))"
      using T AlCas by (intro ms_at_check) (auto simp: ms_T_def)
    ultimately show ?thesis using ms_frame_step [OF ms_frame_refl Gm T, of l'] g' by auto
  qed
next
  case (AlRet r)
  then show ?thesis using ex T ms_frame_step [OF ms_frame_refl Gm T, of l'] by (cases r) (auto simp: ms_T_def)
qed

lemma ms_write_step:
  assumes ex: "ms_go sp g (MsWrite m k p) = (g', l')" and Gm: "ms_G g" and T: "ms_T g (MsWrite m k p)" and G: "al_G (ms_al g)"
  shows "ms_G g' \<and> ms_T g' l' \<and> (\<forall>u. ms_T g u \<and> ms_X (MsWrite m k p) u \<longrightarrow> ms_T g' u \<and> ms_X l' u)"
proof (cases "k < length m")
  case False
  then have "k = length m" using T by (auto simp: ms_T_def holds_def)
  then show ?thesis using ex T ms_frame_step [OF ms_frame_refl Gm T, of l'] by (auto simp: ms_T_def)
next
  case True
  have own: "holds g p m k" "\<forall>h \<in> set (ms_enq g). apart (extent p m) (handle_extent g h)" using T by (auto simp: ms_T_def)
  have g': "g' = g\<lparr>ms_mem := (ms_mem g)(p + word_of_nat k := m ! k)\<rparr>" "l' = MsWrite m (Suc k) p" using ex True by auto
  have other: "holds g' q x i" if "holds g q x i" "apart (extent p m) (extent q x)" for q x i
    unfolding g' by (rule holds_write [OF G own(1) True that])
  have at: "ms_at g' u = ms_at g u" for u by (cases u) (auto simp: g' handle_of_def split: rb_pc.splits)
  have "sent_ok g' (ms_enq g ! i) (ms_sent g ! i)" if i: "i < length (ms_enq g)" for i
  proof -
    let ?q = "ms_base g + mh_offset (ms_enq g ! i)"
    have ok: "unat (mh_size (ms_enq g ! i)) = length (ms_sent g ! i)" "holds g ?q (ms_sent g ! i) (length (ms_sent g ! i))"
      using Gm i by (auto simp: ms_G_def sent_ok_def)
    then have "apart (extent p m) (extent ?q (ms_sent g ! i))" using own(2) [rule_format, OF nth_mem [OF i]] by (simp add: extent_def handle_extent_def)
    then show ?thesis using ok other [OF ok(2)] by (simp add: sent_ok_def g')
  qed
  moreover have ext: "handle_extent g' h = handle_extent g h" for h by (simp add: handle_extent_def g')
  ultimately have "ms_G g'" using Gm by (simp add: ms_G_def ext) (simp add: g')
  moreover have "ms_T g' l'" using T holds_next [OF G own(1) True] own(2) by (simp add: ms_T_def ext) (simp add: g')
  moreover have "ms_T g' u" if u: "ms_T g u" "ms_X (MsWrite m k p) u" for u
  proof -
    have "holds g' q x i \<and> (\<forall>h \<in> set (ms_enq g'). apart (extent q x) (handle_extent g' h))" if o: "ms_owns u = Some (q, x, i)" for q x i
      using ms_TD [OF u(1) o] other [of q x i] u(2) o unfolding ext by (auto simp: ms_X_def g')
    then show ?thesis using u(1) at by (simp add: ms_T_def)
  qed
  moreover have "ms_X l' u" if "ms_X (MsWrite m k p) u" for u using that by (simp add: ms_X_def g')
  ultimately show ?thesis by blast
qed

lemma ms_ready_step:
  assumes ex: "ms_go sp g (MsReady m p) = (g', l')" and Gm: "ms_G g" and T: "ms_T g (MsReady m p)"
  shows "ms_G g' \<and> ms_T g' l' \<and> (\<forall>u. ms_T g u \<and> ms_X (MsReady m p) u \<longrightarrow> ms_T g' u \<and> ms_X l' u)"
proof -
  have "g' = g" using ex by (auto simp: Let_def split: if_splits)
  moreover have "ms_at g l' \<and> (ms_owns l' = ms_owns (MsReady m p) \<or> ms_owns l' = None)"
    using ex T by (auto simp: Let_def handle_of_def arena_get_offset_def ms_T_def split: if_splits)
  ultimately show ?thesis using ms_frame_step [OF ms_frame_refl Gm T, of l'] by simp
qed

text \<open>The compare-exchange of \<^verbatim>\<open>try_push\<close> hands the block over to the queue.\<close>

lemma ms_sent_step:
  assumes T: "ms_T g (MsPush m p (PushCas x h))" and Gm: "ms_G g"
    and g': "ms_base g' = ms_base g" "ms_mem g' = ms_mem g" "ms_al g' = ms_al g" "ms_enq g' = ms_enq g @ [x]" "ms_sent g' = ms_sent g @ [m]"
  shows "ms_G g' \<and> ms_T g' (MsPush m p (PushWrite x h)) \<and>
    (\<forall>u. ms_T g u \<and> ms_X (MsPush m p (PushCas x h)) u \<longrightarrow> ms_T g' u)"
proof -
  have own: "holds g p m (length m)" "\<forall>h \<in> set (ms_enq g). apart (extent p m) (handle_extent g h)" "x = handle_of g p m" "length m < 2 ^ 64"
    using T by (auto simp: ms_T_def)
  have hold: "holds g' q y i = holds g q y i" for q y i using g' by (simp add: holds_def)
  have x: "mh_offset x = p - ms_base g" "unat (mh_size x) = length m" using own(3,4) by (simp_all add: handle_of_def unat_of_nat)
  have ext: "handle_extent g' h = handle_extent g h" for h by (simp add: handle_extent_def g')
  have xs: "handle_extent g x = extent p m" using x by (simp add: handle_extent_def extent_def)
  have "sent_ok g' x m" using own(1) x g'(1) by (simp add: sent_ok_def hold)
  moreover have "sent_ok g' h y = sent_ok g h y" for h y by (simp add: sent_ok_def hold g'(1))
  ultimately have "ms_G g'" using Gm own(2) xs unfolding ms_G_def g'(4,5) ext by (auto simp: nth_append less_Suc_eq)
  moreover have "ms_T g' (MsPush m p (PushWrite x h))" using own(4) by (simp add: ms_T_def)
  moreover have "ms_T g' u" if u: "ms_T g u" "ms_X (MsPush m p (PushCas x h)) u" for u
  proof -
    have len: "length (ms_sent g) = length (ms_enq g)" using Gm by (simp add: ms_G_def)
    have "ms_at g' u" if "ms_at g u"
    proof (cases u)
      case (MsPush n q l)
      then show ?thesis using that g'(1) by (cases l) (auto simp: handle_of_def)
    next
      case (MsRead hh bs)
      then show ?thesis using that g' len by (fastforce simp: nth_append)
    next
      case (MsGot hh bs)
      then show ?thesis using that g' len by (fastforce simp: nth_append)
    qed (use that g' in auto)
    moreover have "\<forall>h \<in> set (ms_enq g'). apart (extent q y) (handle_extent g' h)" if o: "ms_owns u = Some (q, y, i)" for q y i
      using ms_TD [OF u(1) o] u(2) o apart_sym unfolding ext g'(4) by (auto simp: ms_X_def xs)
    ultimately show ?thesis using u(1) by (simp add: ms_T_def hold)
  qed
  ultimately show ?thesis by blast
qed

lemma ms_push_go:
  assumes "\<forall>b. l \<noteq> PushRet b"
  shows "ms_go sp g (MsPush m p l) = (case rb_go sp (ms_ring g) l of (r, l') \<Rightarrow>
    (g\<lparr>ms_ring := r, ms_sent := (if length (g_enq r) = length (ms_enq g) then ms_sent g else ms_sent g @ [m])\<rparr>, MsPush m p l'))"
  using assms by (cases l) auto

lemma ms_push_step:
  assumes ex: "ms_go sp g (MsPush m p l) = (g', l')" and Gm: "ms_G g" and T: "ms_T g (MsPush m p l)"
  shows "ms_G g' \<and> ms_T g' l' \<and> (\<forall>u. ms_T g u \<and> ms_X (MsPush m p l) u \<longrightarrow> ms_T g' u \<and> ms_X l' u)"
proof (cases "\<exists>b. l = PushRet b")
  case True
  then show ?thesis using ex T ms_frame_step [OF ms_frame_refl Gm T, of l'] by (auto simp: ms_T_def split: if_splits)
next
  case False
  obtain r l1 where r: "rb_go sp (ms_ring g) l = (r, l1)" by (cases "rb_go sp (ms_ring g) l")
  let ?g = "g\<lparr>ms_ring := r, ms_sent := (if length (g_enq r) = length (ms_enq g) then ms_sent g else ms_sent g @ [m])\<rparr>"
  have g': "g' = ?g" "l' = MsPush m p l1" using ex ms_push_go [of l sp g m p] False r by auto
  show ?thesis
  proof (cases "\<exists>x h. l = PushCas x h \<and> rb_head (g_rb (ms_ring g)) = h \<and> \<not> sp")
    case True
    then obtain x h where x: "l = PushCas x h" "l1 = PushWrite x h" "g_enq r = ms_enq g @ [x]" using r by auto
    have "ms_X l' u" for u using x by (simp add: ms_X_def g')
    then show ?thesis using ms_sent_step [of g m p x h g'] T Gm x g' by simp
  next
    case no: False
    have at: "length m < 2 ^ 64" "push_pc l" using T by (auto simp: ms_T_def)
    have enq: "g_enq r = ms_enq g" using r no at(2) by (cases l) (auto split: if_splits)
    then have fr: "ms_frame g ?g" by (simp add: ms_frame_def)
    have "ms_at g (MsPush m p l1)" using r no T False by (cases l) (auto simp: ms_T_def split: if_splits option.splits)
    moreover have "ms_owns (MsPush m p l1) = ms_owns (MsPush m p l) \<or> ms_owns (MsPush m p l1) = None"
      using r no False at(2) by (cases l) (auto split: if_splits option.splits)
    ultimately show ?thesis unfolding g' using ms_frame_step [OF fr Gm T] ms_frame_at [OF fr] by blast
  qed
qed

lemma ms_at_read:
  "i < length (ms_enq g) \<Longrightarrow> ms_enq g ! i = h \<Longrightarrow> k \<le> length (ms_sent g ! i) \<Longrightarrow> ms_at g (MsRead h (take k (ms_sent g ! i)))"
  by auto

lemma ms_pop_step:
  assumes ex: "ms_go sp g (MsPop l) = (g', l')" and Gm: "ms_G g" and T: "ms_T g (MsPop l)"
    and G: "rb_G (ms_ring g)" and L: "rb_L (ms_ring g) l"
  shows "ms_G g' \<and> ms_T g' l' \<and> (\<forall>u. ms_T g u \<and> ms_X (MsPop l) u \<longrightarrow> ms_T g' u \<and> ms_X l' u)"
proof (cases "\<exists>v. l = PopRet v")
  case True
  then obtain v where v: "l = PopRet v" by blast
  have "ms_at g l'"
  proof (cases v)
    case (Some h)
    then obtain i where "i < length (ms_enq g)" "ms_enq g ! i = h" using T v by (auto simp: ms_T_def in_set_conv_nth)
    then have "ms_at g (MsRead h [])" using ms_at_read [of i g h 0] by simp
    moreover have "l' = MsRead h []" using ex v Some by simp
    ultimately show ?thesis by (simp only:)
  qed (use ex v in auto)
  then show ?thesis using ex v ms_frame_step [OF ms_frame_refl Gm T, of l'] by (cases v) auto
next
  case False
  obtain r l1 where r: "rb_go sp (ms_ring g) l = (r, l1)" by (cases "rb_go sp (ms_ring g) l")
  have at: "pop_pc l" "l \<noteq> RbIdle" using T by (auto simp: ms_T_def)
  have g': "g' = g\<lparr>ms_ring := r\<rparr>" "l' = MsPop l1" using ex False r at by (cases l; auto)+
  note st = pop_step [OF r at(1) G L]
  have fr: "ms_frame g g'" using st False by (simp add: ms_frame_def g')
  have "h \<in> set (ms_enq g)" if h: "l1 = PopRet (Some h)" for h
  proof -
    obtain tl where tl: "l = PopPublish h tl" using r h at by (cases l) (auto split: if_splits option.splits)
    then have "unat tl < length (ms_enq g)" "h = ms_enq g ! unat tl"
      using L ticket_ringD(5,8) [OF rb_G_D(4) [OF G]] by fastforce+
    then show ?thesis by simp
  qed
  moreover have "l1 \<noteq> RbIdle" using r at False by (cases l) (auto split: if_splits option.splits)
  ultimately have "ms_at g' l'" using st False by (simp add: g')
  then show ?thesis using ms_frame_step [OF fr Gm T, of l'] g' by simp
qed

lemma ms_get:
  assumes G: "al_G (ms_al g)" and h: "holds g (ms_base g + mh_offset h) m k" and m: "0 < length m"
  shows "arena_get (ms_arena g) (mh_offset h) = ms_base g + mh_offset h"
proof -
  have "unat (mh_offset h) + length m \<le> unat (ar_offset (ms_arena g))"
    using block_in(2) [OF G, of "ms_base g + mh_offset h" "length m"] holds_block [OF h] by simp
  moreover have "unat (ar_offset (ms_arena g)) \<le> unat (ar_size (ms_arena g))" using G by (simp add: al_G_def arena_ok_def)
  ultimately have "unat (mh_offset h) < unat (ar_size (ms_arena g))" using m by linarith
  then show ?thesis by (simp add: arena_get_def word_le_nat_alt)
qed

lemma ms_read_step:
  assumes ex: "ms_go sp g (MsRead h bs) = (g', l')" and Gm: "ms_G g" and T: "ms_T g (MsRead h bs)" and G: "al_G (ms_al g)"
  shows "ms_G g' \<and> ms_T g' l' \<and> (\<forall>u. ms_T g u \<and> ms_X (MsRead h bs) u \<longrightarrow> ms_T g' u \<and> ms_X l' u)"
proof -
  obtain i k where i: "i < length (ms_enq g)" "ms_enq g ! i = h" "k \<le> length (ms_sent g ! i)" "bs = take k (ms_sent g ! i)"
    using T by (auto simp: ms_T_def)
  let ?m = "ms_sent g ! i" and ?p = "ms_base g + mh_offset h"
  have ok: "unat (mh_size h) = length ?m" "holds g ?p ?m (length ?m)" using Gm i(1,2) by (auto simp: ms_G_def sent_ok_def)
  have get: "arena_get (ms_arena g) (mh_offset h) = ?p" if "0 < length ?m" using ms_get [OF G ok(2) that] .
  have "ms_at g l'"
  proof (cases "k < length ?m")
    case True
    then have "l' = MsRead h (take (Suc k) ?m)" using ex i(3,4) ok get [OF gr_implies_not_zero [THEN neq0_conv [THEN iffD1], OF True]] by (auto simp: holds_def take_Suc_conv_app_nth)
    then show ?thesis using ms_at_read [OF i(1,2), of "Suc k"] True by (simp only: Suc_leI)
  qed (use ex i ok in auto)
  then show ?thesis using ex ms_frame_step [OF ms_frame_refl Gm T, of l'] by (auto split: if_splits)
qed

lemma ms_go_step:
  assumes ex: "ms_go sp g l = (g', l')" and Gm: "ms_G g" and T: "ms_T g l"
    and al: "al_G (ms_al g)" and rb: "rb_G (ms_ring g)" "rb_L (ms_ring g) (ms_rb_pc l)"
  shows "ms_G g' \<and> ms_T g' l' \<and> (\<forall>u. ms_T g u \<and> ms_X l u \<longrightarrow> ms_T g' u \<and> ms_X l' u)"
proof (cases l)
  case (MsAlloc m a)
  show ?thesis using ms_alloc_step [OF ex [unfolded MsAlloc] Gm T [unfolded MsAlloc] al] unfolding MsAlloc .
next
  case (MsWrite m k p)
  show ?thesis using ms_write_step [OF ex [unfolded MsWrite] Gm T [unfolded MsWrite] al] unfolding MsWrite .
next
  case (MsReady m p)
  show ?thesis using ms_ready_step [OF ex [unfolded MsReady] Gm T [unfolded MsReady]] unfolding MsReady .
next
  case (MsPush m p r)
  show ?thesis using ms_push_step [OF ex [unfolded MsPush] Gm T [unfolded MsPush]] unfolding MsPush .
next
  case (MsPop r)
  show ?thesis using ms_pop_step [OF ex [unfolded MsPop] Gm T [unfolded MsPop] rb(1)] rb(2) unfolding MsPop by simp
next
  case (MsRead h bs)
  show ?thesis using ms_read_step [OF ex [unfolded MsRead] Gm T [unfolded MsRead] al] unfolding MsRead .
qed (use ex ms_frame_step [OF ms_frame_refl Gm T, of l'] in auto)

lemma ms_call_step:
  assumes "ms_exec a g l = (g', l')" "ms_G g" "ms_T g l" "\<forall>sp. a \<noteq> MsGo sp"
  shows "ms_G g' \<and> ms_T g' l' \<and> (\<forall>u. ms_T g u \<and> ms_X l u \<longrightarrow> ms_T g' u \<and> ms_X l' u)"
proof (cases "(a, g, l)" rule: ms_exec.cases)
  case (1 m g0)
  show ?thesis
  proof (cases "int (length m) < 2 ^ 64")
    case True
    then have g': "g' = g\<lparr>ms_al := (ms_al g)\<lparr>al_max := max (al_max (ms_al g)) (unat (word_of_nat (length m) :: size_t))\<rparr>\<rparr>"
      "l' = MsAlloc m (AlLoad (word_of_nat (length m)))" using assms(1) 1 by auto
    have "ms_frame g g'" by (simp add: g' ms_frame_def)
    then show ?thesis using ms_frame_step [OF _ assms(2,3), of g' l'] True g'(2) by simp
  qed (use assms 1 in auto)
next
  case (2 g0)
  then show ?thesis using ms_frame_step [OF ms_frame_refl assms(2,3), of l'] assms(1) by auto
qed (use assms in auto)

lemma ms_reach_inv:
  assumes "ms_reach c"
  shows "al_bound (ms_al (fst c)) \<Longrightarrow> rb_bound (ms_ring (fst c)) \<Longrightarrow>
    ms_G (fst c) \<and> (\<forall>t. ms_T (fst c) (snd c t)) \<and> (\<forall>t u. t \<noteq> u \<longrightarrow> ms_X (snd c t) (snd c u))"
  using assms
proof (induction rule: reach.induct)
  case (start g)
  then show ?case by (auto simp: ms_init_def ms_G_def ms_T_def ms_X_def al_ginit_def al_start_def rb_ginit_def rb_start_def)
next
  case (step c e)
  obtain t a g ls where e: "e = (t, a)" "c = (g, ls)" by (metis surj_pair)
  obtain g' l' where ex: "ms_exec a g (ls t) = (g', l')" by (cases "ms_exec a g (ls t)")
  have "al_bound (ms_al g')" "rb_bound (ms_ring g')" using step.prems by (simp_all add: e ex sys_step_eq)
  then have B: "al_bound (ms_al g)" "rb_bound (ms_ring g)"
    using ms_exec_al [OF ex] al_og.bound_down ms_exec_rb [OF ex] rb_og.bound_down by metis+
  then have I: "ms_G g" "\<And>t. ms_T g (ls t)" "\<And>t u. t \<noteq> u \<Longrightarrow> ms_X (ls t) (ls u)" using step.IH e by auto
  have r: "al_reach (ms_al g, \<lambda>t. ms_alloc_pc (ls t))" "rb_reach (ms_ring g, \<lambda>t. ms_rb_pc (ls t))"
    using ms_reach_al ms_reach_rb step.hyps e by auto
  have st: "ms_G g' \<and> ms_T g' l' \<and> (\<forall>u. ms_T g u \<and> ms_X (ls t) u \<longrightarrow> ms_T g' u \<and> ms_X l' u)"
  proof (cases "\<exists>sp. a = MsGo sp")
    case True
    then obtain sp where "a = MsGo sp" by blast
    then have go: "ms_go sp g (ls t) = (g', l')" using ex by simp
    have "rb_L (ms_ring g) (ms_rb_pc (ls t))" using rb_og.reach_L [OF r(2) B(2), of t] by simp
    then show ?thesis by (rule ms_go_step [OF go I(1) I(2) al_og.reach_G [OF r(1) B(1)] rb_og.reach_G [OF r(2) B(2)]])
  next
    case False
    then show ?thesis using ms_call_step [OF ex I(1,2)] by blast
  qed
  have other: "ms_T g' (ls u) \<and> ms_X l' (ls u)" if "u \<noteq> t" for u using st I(2) I(3) [of t u] that by blast
  have "ms_X ((ls(t := l')) u) ((ls(t := l')) v)" if "u \<noteq> v" for u v
    using that other ms_X_sym I(3) by (cases "u = t"; cases "v = t") auto
  moreover have "ms_T g' ((ls(t := l')) u)" for u using st other by (cases "u = t") auto
  ultimately show ?case using st by (simp add: e ex sys_step_eq del: fun_upd_apply)
qed

subsection \<open>Properties of every schedule\<close>

text \<open>The byte a thread is about to access without synchronisation, and whether it writes it.\<close>

fun ms_access :: "ms_global \<Rightarrow> ms_pc \<Rightarrow> (bool \<times> size_t) option" where
  "ms_access g (MsWrite m k p) = (if k < length m then Some (True, p + word_of_nat k) else None)"
| "ms_access g (MsRead h bs) =
     (if length bs < unat (mh_size h) then Some (False, arena_get (ms_arena g) (mh_offset h) + word_of_nat (length bs)) else None)"
| "ms_access g _ = None"

lemma ms_no_conflict:
  assumes G: "al_G (ms_al g)" and I: "ms_G g" "\<And>t. ms_T g (ls t)" "\<And>t u. t \<noteq> u \<Longrightarrow> ms_X (ls t) (ls u)"
    and t: "t \<noteq> u" "ms_access g (ls t) = Some (True, a)" "ms_access g (ls u) = Some (w, b)"
  shows "a \<noteq> b"
proof -
  obtain m k p where w: "ls t = MsWrite m k p" "k < length m" "a = p + word_of_nat k"
    using t(2) by (cases "(g, ls t)" rule: ms_access.cases) (auto split: if_splits)
  then have own: "holds g p m k" "\<forall>h \<in> set (ms_enq g). apart (extent p m) (handle_extent g h)" using I(2) [of t] by (auto simp: ms_T_def)
  show ?thesis
  proof (cases w)
    case True
    then obtain n i q where u: "ls u = MsWrite n i q" "i < length n" "b = q + word_of_nat i"
      using t(3) by (cases "(g, ls u)" rule: ms_access.cases) (auto split: if_splits)
    then have "holds g q n i" "apart (extent p m) (extent q n)" using I(2) [of u] I(3) [OF t(1)] w(1) by (auto simp: ms_T_def ms_X_def)
    then show ?thesis using apart_addr [OF G own(1) w(2) _ u(2)] w(3) u(3) by blast
  next
    case False
    then obtain h bs where u: "ls u = MsRead h bs" "length bs < unat (mh_size h)"
        "b = arena_get (ms_arena g) (mh_offset h) + word_of_nat (length bs)"
      using t(3) by (cases "(g, ls u)" rule: ms_access.cases) (auto split: if_splits)
    then obtain i where i: "i < length (ms_enq g)" "ms_enq g ! i = h" using I(2) [of u] by (auto simp: ms_T_def)
    let ?m = "ms_sent g ! i" and ?q = "ms_base g + mh_offset h"
    have ok: "unat (mh_size h) = length ?m" "holds g ?q ?m (length ?m)" using I(1) i by (auto simp: ms_G_def sent_ok_def)
    then have "0 < length ?m" using u(2) by linarith
    then have "b = ?q + word_of_nat (length bs)" using u(3) ms_get [OF G ok(2)] by simp
    moreover have "apart (extent p m) (extent ?q ?m)"
      using own(2) [rule_format, OF nth_mem [OF i(1)]] i(2) ok(1) by (simp add: extent_def handle_extent_def)
    ultimately show ?thesis using apart_addr [OF G own(1) w(2) ok(2), of "length bs"] u(2) ok(1) w(3) by simp
  qed
qed

text \<open>
  C8. Messages arrive intact. In every sequentially consistent interleaving of senders and receivers: a receiver that has
  read a message has exactly the bytes that were sent with the handle it popped; the byte ranges of any
  two messages of the queue are disjoint; the byte range that a sender was given and has not yet pushed is disjoint from
  those of all messages of the queue and of all other senders; and no thread is about to write a byte that another one
  is about to read or write. The requests are so small that the bounds check of the arena does not wrap, and the
  indices of the ring stay in their exact range.
\<close>

theorem ms_messages_intact:
  assumes "ms_reach (g, ls)" "al_bound (ms_al g)" "rb_bound (ms_ring g)"
  shows "(\<forall>t h bs. ls t = MsGot h bs \<longrightarrow> (\<exists>i < length (ms_enq g). ms_enq g ! i = h \<and> bs = ms_sent g ! i)) \<and>
    (\<forall>i < length (ms_enq g). unat (mh_size (ms_enq g ! i)) = length (ms_sent g ! i)) \<and>
    (\<forall>i < length (ms_enq g). \<forall>j < i. apart (handle_extent g (ms_enq g ! i)) (handle_extent g (ms_enq g ! j))) \<and>
    (\<forall>t p m k. ms_owns (ls t) = Some (p, m, k) \<longrightarrow> (\<forall>h \<in> set (ms_enq g). apart (extent p m) (handle_extent g h)) \<and>
       (\<forall>u q n j. u \<noteq> t \<and> ms_owns (ls u) = Some (q, n, j) \<longrightarrow> apart (extent p m) (extent q n))) \<and>
    (\<forall>t u a w b. t \<noteq> u \<and> ms_access g (ls t) = Some (True, a) \<and> ms_access g (ls u) = Some (w, b) \<longrightarrow> a \<noteq> b)"
proof -
  have I: "ms_G g" "\<And>t. ms_T g (ls t)" "\<And>t u. t \<noteq> u \<Longrightarrow> ms_X (ls t) (ls u)"
    using ms_reach_inv [OF assms(1)] assms(2,3) by auto
  have G: "al_G (ms_al g)" using al_og.reach_G [OF ms_reach_al [OF assms(1)] assms(2)] .
  have got: "\<forall>t h bs. ls t = MsGot h bs \<longrightarrow> (\<exists>i < length (ms_enq g). ms_enq g ! i = h \<and> bs = ms_sent g ! i)"
  proof (intro allI impI)
    show "\<exists>i < length (ms_enq g). ms_enq g ! i = h \<and> bs = ms_sent g ! i" if "ls t = MsGot h bs" for t h bs
      using I(2) [of t] that by (simp add: ms_T_def)
  qed
  have own: "(\<forall>h \<in> set (ms_enq g). apart (extent p m) (handle_extent g h)) \<and>
      (\<forall>u q n j. u \<noteq> t \<and> ms_owns (ls u) = Some (q, n, j) \<longrightarrow> apart (extent p m) (extent q n))"
    if o: "ms_owns (ls t) = Some (p, m, k)" for t p m k
  proof (intro conjI allI impI)
    show "\<forall>h \<in> set (ms_enq g). apart (extent p m) (handle_extent g h)" using ms_TD [OF I(2) o] by blast
    show "apart (extent p m) (extent q n)" if u: "u \<noteq> t \<and> ms_owns (ls u) = Some (q, n, j)" for u q n j
      using I(3) [of t u] u o by (auto simp: ms_X_def)
  qed
  have sent: "\<forall>i < length (ms_enq g). unat (mh_size (ms_enq g ! i)) = length (ms_sent g ! i)"
    "\<forall>i < length (ms_enq g). \<forall>j < i. apart (handle_extent g (ms_enq g ! i)) (handle_extent g (ms_enq g ! j))"
    using I(1) by (simp_all add: ms_G_def sent_ok_def)
  have conflict: "\<forall>t u a w b. t \<noteq> u \<and> ms_access g (ls t) = Some (True, a) \<and> ms_access g (ls u) = Some (w, b) \<longrightarrow> a \<noteq> b"
    using ms_no_conflict [where ls = ls, OF G I] by (intro allI impI) (elim conjE)
  have owns: "\<forall>t p m k. ms_owns (ls t) = Some (p, m, k) \<longrightarrow> (\<forall>h \<in> set (ms_enq g). apart (extent p m) (handle_extent g h)) \<and>
      (\<forall>u q n j. u \<noteq> t \<and> ms_owns (ls u) = Some (q, n, j) \<longrightarrow> apart (extent p m) (extent q n))"
    by (intro allI impI) (rule own)
  show ?thesis by (intro conjI got sent owns conflict)
qed

subsection \<open>A schedule\<close>

text \<open>Thread 0 sends the bytes 5 and 6; thread 1 receives them while thread 0 is filling the next block.\<close>

definition ms_g0 :: ms_global where
  "ms_g0 = \<lparr>ms_al = al_start 4096 64, ms_ring = rb_start 2 \<lparr>mh_offset = 0, mh_size = 0\<rparr>, ms_mem = (\<lambda>_. 0), ms_sent = []\<rparr>"

definition ms_sched :: "(tid \<times> ms_act) list" where
  "ms_sched = (0, MsCallSend [5, 6]) # replicate 13 (0, MsGo False) @ (1, MsCallReceive) # replicate 7 (1, MsGo False) @
     (0, MsCallSend [7]) # replicate 4 (0, MsGo False) @ replicate 2 (1, MsGo False)"

abbreviation ms_run :: "(ms_global, ms_pc) config" where
  "ms_run \<equiv> run ms_exec (ms_g0, \<lambda>_. MsIdle) ms_sched"

lemma ms_g0_init: "ms_init ms_g0"
proof -
  have "al_ginit (al_start 4096 64)" unfolding al_ginit_def by (intro exI [of _ 4096] exI [of _ 64]) simp
  moreover have "rb_ginit (rb_start 2 \<lparr>mh_offset = 0, mh_size = 0\<rparr>)"
    unfolding rb_ginit_def by (intro exI [of _ 2] exI [of _ "\<lparr>mh_offset = 0, mh_size = 0\<rparr>"]) (simp add: is_pow2_def)
  ultimately show ?thesis by (simp add: ms_init_def ms_g0_def)
qed

lemma ms_run_ok:
  "snd ms_run 1 = MsGot \<lparr>mh_offset = 0, mh_size = 2\<rparr> [5, 6]" "snd ms_run 0 = MsWrite [7] 1 4098"
  "ms_sent (fst ms_run) = [[5, 6]]" "length (ms_enq (fst ms_run)) = 1" "rb_size (g_rb (ms_ring (fst ms_run))) = 2"
  "al_max (ms_al (fst ms_run)) = 2" "ar_size (ms_arena (fst ms_run)) = 64"
  by code_simp+

theorem ms_messages_intact_witness:
  "snd ms_run 1 = MsGot \<lparr>mh_offset = 0, mh_size = 2\<rparr> [5, 6] \<and> ms_sent (fst ms_run) ! 0 = [5, 6] \<and>
   apart (extent 4098 [7]) (handle_extent (fst ms_run) (ms_enq (fst ms_run) ! 0))"
proof -
  have "ms_reach (fst ms_run, snd ms_run)" using reach_run_init [of ms_init ms_g0 ms_exec "\<lambda>_. MsIdle" ms_sched, OF ms_g0_init] by simp
  moreover have "al_bound (ms_al (fst ms_run))" "rb_bound (ms_ring (fst ms_run))"
    by (simp_all add: al_bound_def rb_bound_def ms_run_ok(4-7))
  note th = ms_messages_intact [OF calculation(1) this]
  have "ms_owns (snd ms_run 0) = Some (4098, [7], 1)" by (simp add: ms_run_ok(2))
  note own = th [THEN conjunct2, THEN conjunct2, THEN conjunct2, THEN conjunct1, rule_format, OF this, THEN conjunct1, rule_format]
  have "0 < length (ms_enq (fst ms_run))" by (simp add: ms_run_ok(4))
  then show ?thesis using th [THEN conjunct1, rule_format, OF ms_run_ok(1)] own [OF nth_mem] ms_run_ok(1,4) by auto
qed

end
