(* ===== verification/Order_Book_Conc.thy ===== *)
theory Order_Book_Conc
  imports Order_Book
begin

text \<open>
  \<^verbatim>\<open>process_single_order\<close> of \<^verbatim>\<open>order_book.hpp\<close> run by any number of threads at once, one atomic
  access per step (\<^verbatim>\<open>process_orders\<close> is public and nothing in the class serialises its callers).
  The ghost lists record the prices of the orders that were sent to rest (\<open>mg_bids\<close>, \<open>mg_asks\<close>) and
  of those whose processing has finished. The best prices are exact under every schedule; the
  last two theorems show what is lost: quantities wrap below zero, and the book crosses.
\<close>

record match_global =
  mg_book :: book
  mg_bids :: "uint64 list"
  mg_asks :: "uint64 list"
  mg_bids_done :: "uint64 list"
  mg_asks_done :: "uint64 list"

datatype match_pc =
    MIdle
  | MLoadOther order \<comment> \<open>about to load the best price of the other side\<close>
  | MCount order
  | MLoadQty order
  | MSubQty order uint64
  | MAddQty order
  | MLoadBest order
  | MCas order uint64

datatype match_act = MCall order | MGo bool \<comment> \<open>\<open>MGo True\<close>: a weak compare-exchange fails spuriously\<close>

text \<open>The condition of the two \<^verbatim>\<open>while\<close> loops, on the local copy of the best price.\<close>

definition m_improves :: "order \<Rightarrow> uint64 \<Rightarrow> bool" where
  "m_improves ord current = (if order_side ord = BUY then current < order_price ord else order_price ord < current)"

definition m_finish :: "match_global \<Rightarrow> order \<Rightarrow> match_global" where
  "m_finish g ord = (if order_side ord = BUY then g\<lparr>mg_bids_done := order_price ord # mg_bids_done g\<rparr>
     else g\<lparr>mg_asks_done := order_price ord # mg_asks_done g\<rparr>)"

definition m_loop :: "match_global \<Rightarrow> order \<Rightarrow> uint64 \<Rightarrow> match_global \<times> match_pc" where
  "m_loop g ord current = (if m_improves ord current then (g, MCas ord current) else (m_finish g ord, MIdle))"

definition m_best :: "book \<Rightarrow> order \<Rightarrow> uint64" where
  "m_best bk ord = (if order_side ord = BUY then best_bid bk else best_ask bk)"

fun match_go :: "bool \<Rightarrow> match_global \<Rightarrow> match_pc \<Rightarrow> match_global \<times> match_pc" where
  "match_go sp g MIdle = (g, MIdle)"
| "match_go sp g (MLoadOther ord) =
     (if order_side ord = BUY then
        (if best_ask (mg_book g) \<noteq> UINT64_MAX \<and> best_ask (mg_book g) \<le> order_price ord
         then (g, MCount ord) else (g\<lparr>mg_bids := order_price ord # mg_bids g\<rparr>, MAddQty ord))
      else
        (if best_bid (mg_book g) \<noteq> 0 \<and> order_price ord \<le> best_bid (mg_book g)
         then (g, MCount ord) else (g\<lparr>mg_asks := order_price ord # mg_asks g\<rparr>, MAddQty ord)))"
| "match_go sp g (MCount ord) =
     (g\<lparr>mg_book := (mg_book g)\<lparr>matched := matched (mg_book g) + 1\<rparr>\<rparr>, MLoadQty ord)"
| "match_go sp g (MLoadQty ord) =
     (g, MSubQty ord (if order_side ord = BUY then total_sell (mg_book g) else total_buy (mg_book g)))"
| "match_go sp g (MSubQty ord qty) =
     (let d = min (order_quantity ord) qty; bk = mg_book g in
      (g\<lparr>mg_book := (if order_side ord = BUY then bk\<lparr>total_sell := total_sell bk - d\<rparr>
                     else bk\<lparr>total_buy := total_buy bk - d\<rparr>)\<rparr>, MIdle))"
| "match_go sp g (MAddQty ord) =
     (let bk = mg_book g in
      (g\<lparr>mg_book := (if order_side ord = BUY then bk\<lparr>total_buy := total_buy bk + order_quantity ord\<rparr>
                     else bk\<lparr>total_sell := total_sell bk + order_quantity ord\<rparr>)\<rparr>, MLoadBest ord))"
| "match_go sp g (MLoadBest ord) = m_loop g ord (m_best (mg_book g) ord)"
| "match_go sp g (MCas ord current) =
     (let bk = mg_book g in
      if m_best bk ord = current \<and> \<not> sp then
        (m_finish (g\<lparr>mg_book := (if order_side ord = BUY then bk\<lparr>best_bid := order_price ord\<rparr>
                                 else bk\<lparr>best_ask := order_price ord\<rparr>)\<rparr>) ord, MIdle)
      else m_loop g ord (m_best bk ord))"

fun match_exec :: "match_act \<Rightarrow> match_global \<Rightarrow> match_pc \<Rightarrow> match_global \<times> match_pc" where
  "match_exec (MCall ord) g l = (if l = MIdle then (g, MLoadOther ord) else (g, l))"
| "match_exec (MGo sp) g l = match_go sp g l"

definition match_start :: match_global where
  "match_start = \<lparr>mg_book = book_new, mg_bids = [], mg_asks = [], mg_bids_done = [], mg_asks_done = []\<rparr>"

abbreviation match_reach :: "(match_global, match_pc) config \<Rightarrow> bool" where
  "match_reach \<equiv> reach match_exec (\<lambda>g. g = match_start) (\<lambda>_. MIdle)"

subsection \<open>Invariant\<close>

definition match_G :: "match_global \<Rightarrow> bool" where
  "match_G g \<longleftrightarrow>
     (\<forall>p \<in> set (mg_bids_done g). p \<le> best_bid (mg_book g)) \<and>
     (\<forall>p \<in> set (mg_asks_done g). best_ask (mg_book g) \<le> p) \<and>
     best_bid (mg_book g) \<in> insert 0 (set (mg_bids g)) \<and>
     best_ask (mg_book g) \<in> insert UINT64_MAX (set (mg_asks g))"

definition m_rests :: "match_global \<Rightarrow> order \<Rightarrow> bool" where
  "m_rests g ord \<longleftrightarrow> (if order_side ord = BUY then order_price ord \<in> set (mg_bids g)
                       else order_price ord \<in> set (mg_asks g))"

fun match_L :: "match_global \<Rightarrow> match_pc \<Rightarrow> bool" where
  "match_L g (MAddQty ord) = m_rests g ord"
| "match_L g (MLoadBest ord) = m_rests g ord"
| "match_L g (MCas ord current) = (m_rests g ord \<and> m_improves ord current)"
| "match_L g _ = True"

lemma m_loop_inv:
  assumes "m_loop g ord (m_best (mg_book g) ord) = (g', l')" "match_G g" "m_rests g ord"
  shows "match_G g' \<and> match_L g' l'"
  using assms by (auto simp: m_loop_def m_improves_def m_finish_def m_best_def match_G_def word_gt_0 split: if_splits)

lemma m_cas_inv:
  assumes "match_G g" "match_L g (MCas ord (m_best (mg_book g) ord))"
  shows "match_G (m_finish (g\<lparr>mg_book := (if order_side ord = BUY then (mg_book g)\<lparr>best_bid := order_price ord\<rparr>
    else (mg_book g)\<lparr>best_ask := order_price ord\<rparr>)\<rparr>) ord)"
  using assms
  by (auto simp: m_finish_def match_G_def m_improves_def m_best_def m_rests_def split: if_splits;
      meson less_imp_le order_trans)

lemma match_own_step:
  assumes "match_go sp g l = (g', l')" "match_G g" "match_L g l"
  shows "match_G g' \<and> match_L g' l'"
proof (cases l)
  case (MLoadBest ord)
  then show ?thesis using assms m_loop_inv by simp
next
  case (MCas ord cur)
  then show ?thesis
    using assms m_loop_inv [of g ord g' l'] m_cas_inv [of g ord]
    by (auto simp: Let_def split: if_splits)
qed (use assms in \<open>auto simp: match_G_def m_rests_def Let_def split: if_splits\<close>)

lemma match_go_frame:
  assumes "match_go sp g l = (g', l')"
  shows "set (mg_bids g) \<subseteq> set (mg_bids g') \<and> set (mg_asks g) \<subseteq> set (mg_asks g')"
  using assms by (cases l) (auto simp: Let_def m_loop_def m_finish_def split: if_splits)

lemma match_other_step:
  assumes "match_go sp g l = (g', l')" "match_L g m"
  shows "match_L g' m"
  using assms(2) match_go_frame [OF assms(1)] by (cases m) (auto simp: m_rests_def split: if_splits)

interpretation match_og: og_proof match_exec "\<lambda>g. g = match_start" "\<lambda>_. MIdle" "\<lambda>_. True" match_G match_L "\<lambda>_ _. True"
proof
  show "match_G g' \<and> match_L g' l'" if "match_exec a g l = (g', l')" "match_G g" "match_L g l" for a g l g' l'
    using that match_own_step by (cases a) (auto split: if_splits)
  show "match_L g' m \<and> True" if "match_exec a g l = (g', l')" "match_L g m" for a g l g' l' m
    using that match_other_step by (cases a) (auto split: if_splits)
qed (auto simp: match_start_def match_G_def book_new_def)

text \<open>
  Under every schedule of concurrent matching threads, spurious compare-exchange failures
  included, the best bid is at least the price of every buy order whose processing has finished
  and is the price of a buy order that was sent to rest (or 0), and symmetrically for the best
  ask: no improvement of a best price is ever lost.
\<close>

theorem ob_conc_best_prices:
  assumes "match_reach (g, ls)"
  shows "(\<forall>p \<in> set (mg_bids_done g). p \<le> best_bid (mg_book g)) \<and>
         best_bid (mg_book g) \<in> insert 0 (set (mg_bids g)) \<and>
         (\<forall>p \<in> set (mg_asks_done g). best_ask (mg_book g) \<le> p) \<and>
         best_ask (mg_book g) \<in> insert UINT64_MAX (set (mg_asks g))"
  using match_og.reach_G [OF assms] by (simp add: match_G_def)

abbreviation match_run :: "(tid \<times> match_act) list \<Rightarrow> (match_global, match_pc) config" where
  "match_run es \<equiv> run match_exec (match_start, \<lambda>_. MIdle) es"

lemma match_run_reach: "match_reach (fst (match_run es), snd (match_run es))"
  using reach_run_init [of "\<lambda>g. g = match_start" match_start match_exec "\<lambda>_. MIdle" es] by simp

lemmas match_eval = sys_step_def match_start_def book_new_def ord_defs m_loop_def m_improves_def
  m_finish_def m_best_def Let_def

text \<open>Two buyers race to raise the bid; the slower one's compare-exchange fails and it retries.\<close>

definition match_sched_bids :: "(tid \<times> match_act) list" where
  "match_sched_bids = [(0, MCall (ord_buy 90 1)), (1, MCall (ord_buy 80 1)),
     (0, MGo False), (0, MGo False), (0, MGo False), (1, MGo False), (1, MGo False), (1, MGo False),
     (1, MGo False), (0, MGo False), (0, MGo False)]"

theorem ob_conc_best_prices_witness:
  "set (mg_bids_done (fst (match_run match_sched_bids))) = {80, 90} \<and>
   best_bid (mg_book (fst (match_run match_sched_bids))) = 90"
proof -
  have d: "set (mg_bids_done (fst (match_run match_sched_bids))) = {80, 90}"
    "mg_bids (fst (match_run match_sched_bids)) = [80, 90]"
    by (auto simp: match_sched_bids_def match_eval)
  with ob_conc_best_prices [OF match_run_reach [of match_sched_bids]] show ?thesis by auto
qed

text \<open>
  A thread that matches an order without interference finishes within four accesses, and has
  then done to the counters exactly what the sequential definition says.
\<close>

theorem ob_solo_is_sequential:
  "\<exists>k \<le> 4. \<exists>g'. solo match_exec (MGo False) k g (MLoadOther ord) = (g', MIdle) \<and>
     mg_book g' = process_single_order (mg_book g) ord"
proof -
  have "\<exists>g'. solo match_exec (MGo False) 4 g (MLoadOther ord) = (g', MIdle) \<and>
     mg_book g' = process_single_order (mg_book g) ord"
    by (auto simp: numeral_eq_Suc process_single_order_def m_loop_def m_improves_def m_finish_def m_best_def Let_def)
  then show ?thesis by blast
qed

definition match_sched_sells :: "(tid \<times> match_act) list" where
  "match_sched_sells = [(0, MCall (ord_sell 100 50)), (0, MGo False), (0, MGo False), (0, MGo False),
     (0, MGo False), (0, MCall (ord_buy 100 50)), (1, MCall (ord_buy 100 50)),
     (0, MGo False), (1, MGo False), (0, MGo False), (1, MGo False),
     (0, MGo False), (1, MGo False), (0, MGo False), (1, MGo False)]"

definition match_sched_cross :: "(tid \<times> match_act) list" where
  "match_sched_cross = [(0, MCall (ord_buy 100 1)), (1, MCall (ord_sell 100 1)),
     (0, MGo False), (1, MGo False), (0, MGo False), (1, MGo False),
     (0, MGo False), (1, MGo False), (0, MGo False), (1, MGo False)]"

lemmas match_scheds = match_sched_bids_def match_sched_sells_def match_sched_cross_def

text \<open>
  The subtraction of a matched quantity is not atomic with the load it is computed from: two
  concurrent buyers both see the quantity of the one resting sell order and both subtract it,
  and the total sell quantity wraps to \<open>2 ^ 64 - 50\<close>.
\<close>

theorem ob_conc_quantity_wraps:
  "\<exists>g ls. match_reach (g, ls) \<and> mg_asks g = [100] \<and> unat (total_sell (mg_book g)) = 2 ^ 64 - 50 \<and>
     (\<forall>t. ls t = MIdle)"
proof -
  let ?es = match_sched_sells
  have "mg_asks (fst (match_run ?es)) = [100]" "total_sell (mg_book (fst (match_run ?es))) = - 50"
    "snd (match_run ?es) t = MIdle" for t
    by (simp_all add: match_scheds match_eval)
  moreover have "unat (- 50 :: uint64) = 2 ^ 64 - 50" by simp
  ultimately show ?thesis using match_run_reach [of ?es] by (metis (no_types, lifting))
qed

text \<open>
  The check against the other side is not atomic with resting either: a buy and a sell order at
  the same price, processed at once, both miss each other and rest, which leaves a crossed book
  (best bid not below best ask, spread reported as 0) that one thread alone never produces.
\<close>

theorem ob_conc_crosses:
  "\<exists>g ls. match_reach (g, ls) \<and> best_bid (mg_book g) = 100 \<and> best_ask (mg_book g) = 100 \<and>
     matched (mg_book g) = 0 \<and> \<not> uncrossed (mg_book g)"
proof -
  let ?es = match_sched_cross
  have "best_bid (mg_book (fst (match_run ?es))) = 100" "best_ask (mg_book (fst (match_run ?es))) = 100"
    "matched (mg_book (fst (match_run ?es))) = 0" "\<not> uncrossed (mg_book (fst (match_run ?es)))"
    by (simp_all add: match_scheds match_eval uncrossed_def)
  then show ?thesis using match_run_reach [of ?es] by blast
qed

end
