(* ===== verification/Order_Book_Service.thy ===== *)
theory Order_Book_Service
  imports Ring_Clients Order_Book_Conc
begin

text \<open>
  The whole \<^verbatim>\<open>OrderBook\<close> in use by many threads: traders submit orders and ask for the spread at any time, one
  thread calls \<^verbatim>\<open>process_orders\<close>. Every access of the queue is a step of the interleaved ring buffer, every
  access of the counters a step of \<open>match_go\<close>, so the machine composes the two. \<open>os_done\<close> is a ghost, the
  orders whose processing has finished. With two processing threads the book can cross and quantities
  can wrap (\<open>Order_Book_Conc\<close>); with one, it is at every moment the book of the sequential code.
\<close>

record os_global =
  os_ring :: "order rb_global"
  os_match :: match_global
  os_done :: "order list"

datatype os_pc =
    OsIdle
  | OsSubmit "order rb_pc"                          \<comment> \<open>inside \<^verbatim>\<open>try_push\<close>\<close>
  | OsPop nat "order list" "order rb_pc"            \<comment> \<open>\<^verbatim>\<open>try_pop_batch\<close>: items left to ask for, items got\<close>
  | OsNext "order list" nat                         \<comment> \<open>orders left to process, \<^verbatim>\<open>count\<close>\<close>
  | OsMatch order "order list" nat match_pc         \<comment> \<open>inside \<^verbatim>\<open>process_single_order\<close>\<close>
  | OsProcessed nat
  | OsBid | OsAsk uint64 | OsSpread uint64          \<comment> \<open>\<^verbatim>\<open>get_spread\<close>\<close>

datatype os_role = Trader | Matcher

datatype os_act = OsCallSubmit order | OsCallProcess size_t | OsCallSpread | OsGo bool

definition spread_of :: "uint64 \<Rightarrow> uint64 \<Rightarrow> uint64" where
  "spread_of bid best = (let ask = (if best = UINT64_MAX then 0 else best) in
     if bid = 0 \<or> ask = 0 then 0 else if bid < ask then ask - bid else 0)"

fun os_go :: "bool \<Rightarrow> os_global \<Rightarrow> os_pc \<Rightarrow> os_global \<times> os_pc" where
  "os_go sp g OsIdle = (g, OsIdle)"
| "os_go sp g (OsSubmit (PushRet b)) = (g, OsIdle)"
| "os_go sp g (OsSubmit l) = (case rb_go sp (os_ring g) l of (r, l') \<Rightarrow> (g\<lparr>os_ring := r\<rparr>, OsSubmit l'))"
| "os_go sp g (OsPop n os RbIdle) = (g, if n = 0 then OsNext os (length os) else OsPop n os PopLoad)"
| "os_go sp g (OsPop n os (PopRet None)) = (g, OsNext os (length os))"
| "os_go sp g (OsPop n os (PopRet (Some ord))) = (g, OsPop (n - 1) (os @ [ord]) RbIdle)"
| "os_go sp g (OsPop n os l) = (case rb_go sp (os_ring g) l of (r, l') \<Rightarrow> (g\<lparr>os_ring := r\<rparr>, OsPop n os l'))"
| "os_go sp g (OsNext [] cnt) = (g, OsProcessed cnt)"
| "os_go sp g (OsNext (ord # os) cnt) = (g, OsMatch ord os cnt (MLoadOther ord))"
| "os_go sp g (OsMatch ord os cnt m) =
     (case match_go sp (os_match g) m of (mg, m') \<Rightarrow>
        if m' = MIdle then (g\<lparr>os_match := mg, os_done := os_done g @ [ord]\<rparr>, OsNext os cnt)
        else (g\<lparr>os_match := mg\<rparr>, OsMatch ord os cnt m'))"
| "os_go sp g (OsProcessed cnt) = (g, OsIdle)"
| "os_go sp g OsBid = (g, OsAsk (best_bid (mg_book (os_match g))))"
| "os_go sp g (OsAsk bid) = (g, OsSpread (spread_of bid (best_ask (mg_book (os_match g)))))"
| "os_go sp g (OsSpread v) = (g, OsIdle)"

text \<open>Only the matcher calls \<^verbatim>\<open>process_orders\<close>.\<close>

fun os_exec :: "os_act \<Rightarrow> os_global \<Rightarrow> os_role \<times> os_pc \<Rightarrow> os_global \<times> os_role \<times> os_pc" where
  "os_exec (OsCallSubmit ord) g (r, OsIdle) = (g, r, OsSubmit (PushLoad ord))"
| "os_exec (OsCallProcess batch_size) g (Matcher, OsIdle) = (g, Matcher, OsPop (unat (min batch_size 100)) [] RbIdle)"
| "os_exec OsCallSpread g (r, OsIdle) = (g, r, OsBid)"
| "os_exec (OsGo sp) g (r, l) = (case os_go sp g l of (g', l') \<Rightarrow> (g', r, l'))"
| "os_exec _ g rl = (g, rl)"

definition os_init :: "os_global \<Rightarrow> bool" where
  "os_init g \<longleftrightarrow> (\<exists>sz. is_pow2 sz \<and> 2 \<le> unat sz \<and> os_ring g = rb_start sz order_default) \<and> os_match g = match_start \<and> os_done g = []"

definition os_roles :: "tid \<Rightarrow> os_role \<times> os_pc" where
  "os_roles t = (if t = 0 then Matcher else Trader, OsIdle)"

abbreviation os_reach :: "(os_global, os_role \<times> os_pc) config \<Rightarrow> bool" where
  "os_reach \<equiv> reach os_exec os_init os_roles"

subsection \<open>Projection to the ring buffer\<close>

fun os_rb :: "os_pc \<Rightarrow> order rb_pc" where
  "os_rb (OsSubmit l) = l"
| "os_rb (OsPop n os l) = l"
| "os_rb _ = RbIdle"

lemma os_go_proj:
  assumes "os_go sp g l = (g', l')"
  shows "os_ring g' = os_ring g \<and> os_rb l' = os_rb l \<or> (\<exists>a. rb_exec a (os_ring g) (os_rb l) = (os_ring g', os_rb l'))"
  using assms
  by (cases "(sp, g, l)" rule: os_go.cases)
     (auto split: prod.splits if_splits intro: exI [of _ "Go sp"] exI [of _ CallPop])

lemma os_exec_proj:
  assumes "os_exec a g rl = (g', rl')"
  shows "os_ring g' = os_ring g \<and> os_rb (snd rl') = os_rb (snd rl) \<or> (\<exists>a. rb_exec a (os_ring g) (os_rb (snd rl)) = (os_ring g', os_rb (snd rl')))"
proof (cases "(a, g, rl)" rule: os_exec.cases)
  case (1 ord g0 r)
  then show ?thesis using assms by (auto intro: exI [of _ "CallPush ord"])
next
  case (4 sp g0 r l)
  then show ?thesis using assms os_go_proj [of sp g l] by (auto split: prod.splits)
qed (use assms in auto)

interpretation os_client: client_system rb_exec rb_ginit "\<lambda>_. RbIdle" os_exec os_init os_roles os_ring "\<lambda>rl. os_rb (snd rl)"
proof
  show "rb_ginit (os_ring g)" if "os_init g" for g using that by (auto simp: os_init_def rb_ginit_def)
qed (use os_exec_proj in \<open>auto simp: os_roles_def\<close>)

lemmas os_reach_rb = os_client.reach_proj [of "(_, _)", simplified]

subsection \<open>Matching one order\<close>

definition crosses :: "book \<Rightarrow> order \<Rightarrow> bool" where
  "crosses bk ord = (if order_side ord = BUY then best_ask bk \<noteq> UINT64_MAX \<and> best_ask bk \<le> order_price ord
     else best_bid bk \<noteq> 0 \<and> order_price ord \<le> best_bid bk)"

definition add_qty :: "book \<Rightarrow> order \<Rightarrow> book" where
  "add_qty bk ord = (if order_side ord = BUY then bk\<lparr>total_buy := total_buy bk + order_quantity ord\<rparr>
     else bk\<lparr>total_sell := total_sell bk + order_quantity ord\<rparr>)"

text \<open>The book in the middle of \<^verbatim>\<open>process_single_order\<close>, which began on \<open>bk0\<close> and is at the given program point.\<close>

fun in_match :: "book \<Rightarrow> order \<Rightarrow> book \<Rightarrow> match_pc \<Rightarrow> bool" where
  "in_match bk0 ord bk (MLoadOther o') = (o' = ord \<and> bk = bk0)"
| "in_match bk0 ord bk (MCount o') = (o' = ord \<and> bk = bk0 \<and> crosses bk0 ord)"
| "in_match bk0 ord bk (MLoadQty o') = (o' = ord \<and> bk = bk0\<lparr>matched := matched bk0 + 1\<rparr> \<and> crosses bk0 ord)"
| "in_match bk0 ord bk (MSubQty o' q) = (o' = ord \<and> bk = bk0\<lparr>matched := matched bk0 + 1\<rparr> \<and> crosses bk0 ord \<and>
     q = (if order_side ord = BUY then total_sell bk0 else total_buy bk0))"
| "in_match bk0 ord bk (MAddQty o') = (o' = ord \<and> bk = bk0 \<and> \<not> crosses bk0 ord)"
| "in_match bk0 ord bk (MLoadBest o') = (o' = ord \<and> bk = add_qty bk0 ord \<and> \<not> crosses bk0 ord)"
| "in_match bk0 ord bk (MCas o' cur) = (o' = ord \<and> bk = add_qty bk0 ord \<and> \<not> crosses bk0 ord \<and> cur = m_best bk ord \<and> m_improves ord cur)"
| "in_match bk0 ord bk MIdle = False"

lemmas in_match_simps = Let_def crosses_def add_qty_def m_best_def m_improves_def m_loop_def m_finish_def process_single_order_def

lemma in_match_step:
  assumes "match_go sp mg m = (mg', m')" "in_match bk0 ord (mg_book mg) m"
  shows "if m' = MIdle then mg_book mg' = process_single_order bk0 ord else in_match bk0 ord (mg_book mg') m'"
proof (cases m)
  case (MLoadOther o')
  then show ?thesis using assms by (cases "order_side ord"; cases "crosses bk0 ord") (auto simp: crosses_def)
next
  case (MCount o')
  then show ?thesis using assms by auto
next
  case (MLoadQty o')
  then show ?thesis using assms by auto
next
  case (MSubQty o' q)
  then show ?thesis using assms by (cases "order_side ord") (auto simp: in_match_simps)
next
  case (MAddQty o')
  then show ?thesis using assms by (auto simp: Let_def add_qty_def)
next
  case (MLoadBest o')
  then show ?thesis using assms by (cases "order_side ord"; cases "m_improves ord (m_best (mg_book mg) ord)") (auto simp: in_match_simps)
next
  case (MCas o' cur)
  then have c: "o' = ord" "mg_book mg = add_qty bk0 ord" "\<not> crosses bk0 ord" "cur = m_best (mg_book mg) ord" "m_improves ord cur"
    using assms(2) by auto
  show ?thesis
  proof (cases sp)
    case True
    then show ?thesis using assms(1) MCas c by (auto simp: Let_def m_loop_def)
  next
    case False
    then show ?thesis using assms(1) MCas c by (cases "order_side ord") (auto simp: in_match_simps)
  qed
qed (use assms in simp)

text \<open>The prices in the middle are those of before, and those of after are not worse.\<close>

lemma in_match_prices: "in_match bk0 ord bk m \<Longrightarrow> best_bid bk = best_bid bk0 \<and> best_ask bk = best_ask bk0"
  by (cases "(bk0, ord, bk, m)" rule: in_match.cases) (auto simp: add_qty_def)

lemma process_bid_mono: "best_bid bk \<le> best_bid (process_single_order bk ord)"
  by (auto simp: process_single_order_def Let_def)

subsection \<open>Invariant\<close>

abbreviation process_all :: "order list \<Rightarrow> book" where
  "process_all ords \<equiv> fold (\<lambda>ord bk. process_single_order bk ord) ords book_new"

text \<open>The orders that the matcher has taken from the queue and not finished.\<close>

fun os_hand :: "order list \<Rightarrow> os_pc \<Rightarrow> order list" where
  "os_hand en (OsPop n os l) = os @ rc_flight en l"
| "os_hand en (OsNext os cnt) = os"
| "os_hand en (OsMatch ord os cnt m) = ord # os"
| "os_hand en _ = []"

fun os_book_ok :: "os_global \<Rightarrow> os_pc \<Rightarrow> bool" where
  "os_book_ok g (OsMatch ord os cnt m) = in_match (process_all (os_done g)) ord (mg_book (os_match g)) m"
| "os_book_ok g _ = (mg_book (os_match g) = process_all (os_done g))"

text \<open>Traders are idle, submitting or asking for the spread, and the bid they have read is not above the current one.\<close>

fun os_at :: "os_role \<Rightarrow> os_global \<Rightarrow> os_pc \<Rightarrow> bool" where
  "os_at r g OsIdle = True"
| "os_at r g (OsSubmit l) = push_pc l"
| "os_at r g OsBid = True"
| "os_at r g (OsAsk bid) = (bid \<le> best_bid (mg_book (os_match g)))"
| "os_at r g (OsSpread v) = True"
| "os_at r g (OsPop n os l) = (r = Matcher \<and> pop_pc l)"
| "os_at r g _ = (r = Matcher)"

definition os_inv :: "os_global \<Rightarrow> (tid \<Rightarrow> os_role \<times> os_pc) \<Rightarrow> bool" where
  "os_inv g ls \<longleftrightarrow> (\<forall>t. fst (ls t) = Matcher \<longleftrightarrow> t = 0) \<and> (\<forall>t. os_at (fst (ls t)) g (snd (ls t))) \<and>
     take (g_deq (os_ring g)) (g_enq (os_ring g)) = os_done g @ os_hand (g_enq (os_ring g)) (snd (ls 0)) \<and>
     os_book_ok g (snd (ls 0))"

subsection \<open>Steps\<close>

text \<open>Submitting and asking for the spread, by any thread.\<close>

fun client_pc :: "os_pc \<Rightarrow> bool" where
  "client_pc (OsPop n os l) = False" | "client_pc (OsNext os cnt) = False" | "client_pc (OsMatch ord os cnt m) = False"
| "client_pc (OsProcessed cnt) = False" | "client_pc _ = True"

lemma os_go_client:
  assumes "os_go sp g l = (g', l')" "os_at r g l" "client_pc l"
  shows "os_match g' = os_match g \<and> os_done g' = os_done g \<and> g_deq (os_ring g') = g_deq (os_ring g) \<and>
    (\<exists>ys. g_enq (os_ring g') = g_enq (os_ring g) @ ys) \<and> os_at r g' l' \<and> client_pc l'"
proof (cases l)
  case (OsSubmit m)
  show ?thesis
  proof (cases "\<exists>b. m = PushRet b")
    case False
    obtain q m' where q: "rb_go sp (os_ring g) m = (q, m')" by (cases "rb_go sp (os_ring g) m")
    then have "os_go sp g l = (g\<lparr>os_ring := q\<rparr>, OsSubmit m')" using False OsSubmit by (cases m) auto
    then show ?thesis using push_step [OF q] assms OsSubmit False by auto
  qed (use assms OsSubmit in auto)
qed (use assms in auto)

lemma os_pop_next:
  assumes "pop_pc m" "m \<noteq> RbIdle" "\<forall>v. m \<noteq> PopRet v"
  shows "os_go sp g (OsPop n os m) = (g\<lparr>os_ring := fst (rb_go sp (os_ring g) m)\<rparr>, OsPop n os (snd (rb_go sp (os_ring g) m)))"
  using assms by (cases m) (auto split: prod.splits)

text \<open>The steps of \<^verbatim>\<open>process_orders\<close>: orders move from the queue through the matcher's hands to the processed ones.\<close>

lemma os_go_matcher:
  assumes ex: "os_go sp g l = (g', l')" and G: "rb_G (os_ring g)" and L: "rb_L (os_ring g) (os_rb l)"
    and l: "os_at Matcher g l" "\<not> client_pc l" and B: "os_book_ok g l"
    and H: "take (g_deq (os_ring g)) (g_enq (os_ring g)) = os_done g @ os_hand (g_enq (os_ring g)) l"
  shows "os_at Matcher g' l' \<and> os_book_ok g' l' \<and> best_bid (mg_book (os_match g)) \<le> best_bid (mg_book (os_match g')) \<and>
    take (g_deq (os_ring g')) (g_enq (os_ring g')) = os_done g' @ os_hand (g_enq (os_ring g')) l'"
proof (cases l)
  case (OsPop n os m)
  consider "m = RbIdle" | v where "m = PopRet v" | (go) "m \<noteq> RbIdle" "\<forall>v. m \<noteq> PopRet v" by blast
  then show ?thesis
  proof cases
    case 1
    then show ?thesis using ex H B OsPop by (auto split: if_splits)
  next
    case 2
    then show ?thesis using ex H B OsPop by (cases v) auto
  next
    case go
    obtain q m' where q: "rb_go sp (os_ring g) m = (q, m')" by (cases "rb_go sp (os_ring g) m")
    have "pop_pc m" using l OsPop by simp
    then show ?thesis using pop_step [OF q _ G] os_pop_next [of m sp g n os] go ex H B L OsPop q by auto
  qed
next
  case (OsNext os cnt)
  then show ?thesis using ex H B by (cases os) auto
next
  case (OsMatch ord os cnt m)
  obtain mg m' where m: "match_go sp (os_match g) m = (mg, m')" by (cases "match_go sp (os_match g) m")
  let ?bk = "process_all (os_done g)"
  have im: "in_match ?bk ord (mg_book (os_match g)) m" using B OsMatch by simp
  note st = in_match_step [OF m im]
  show ?thesis
  proof (cases "m' = MIdle")
    case True
    then show ?thesis using ex m st in_match_prices [OF im] process_bid_mono [of ?bk ord] H OsMatch by auto
  next
    case False
    then have "in_match ?bk ord (mg_book mg) m'" using st by simp
    from in_match_prices [OF this] in_match_prices [OF im] this show ?thesis using False ex m H OsMatch by auto
  qed
qed (use ex H B l in auto)

lemma os_hand_stable:
  assumes "rb_G r" "rb_L r (os_rb l)"
  shows "os_hand (g_enq r @ ys) l = os_hand (g_enq r) l"
  using rc_got_stable [OF assms] by (cases l) auto

lemma os_at_stable:
  assumes "os_at r g l" "best_bid (mg_book (os_match g)) \<le> best_bid (mg_book (os_match g'))"
  shows "os_at r g' l"
  using assms by (cases l) auto

lemma os_book_ok_same:
  assumes "os_match g' = os_match g" "os_done g' = os_done g"
  shows "os_book_ok g' l = os_book_ok g l"
  using assms by (cases l) auto

lemma client_hand: "client_pc l \<Longrightarrow> os_hand en l = [] \<and> os_book_ok g l = (mg_book (os_match g) = process_all (os_done g))"
  by (cases l) auto

lemma os_inv_client:
  assumes I: "os_inv g ls" and G: "rb_G (os_ring g)" and L: "\<And>t. rb_L (os_ring g) (os_rb (snd (ls t)))"
    and same: "os_match g' = os_match g" "os_done g' = os_done g" "g_deq (os_ring g') = g_deq (os_ring g)"
      "g_enq (os_ring g') = g_enq (os_ring g) @ ys"
    and l: "client_pc (snd (ls t))" "client_pc l'" "os_at (fst (ls t)) g' l'"
  shows "os_inv g' (ls(t := (fst (ls t), l')))"
proof -
  let ?ls = "ls(t := (fst (ls t), l'))"
  have "g_deq (os_ring g) \<le> length (g_enq (os_ring g))" by (rule ticket_ringD(5) [OF rb_G_D(4) [OF G]])
  moreover have "os_hand (g_enq (os_ring g) @ ys) (snd (?ls 0)) = os_hand (g_enq (os_ring g)) (snd (ls 0))"
    using os_hand_stable [OF G L [of 0]] client_hand [OF l(1)] client_hand [OF l(2)] by (cases "t = 0") auto
  moreover have "os_book_ok g' (snd (?ls 0)) = os_book_ok g (snd (ls 0))"
    using os_book_ok_same [OF same(1,2)] client_hand [OF l(1)] client_hand [OF l(2)] same(1,2) by (cases "t = 0") auto
  moreover have "os_at (fst (ls u)) g' (snd (ls u))" for u
    using I os_at_stable [of "fst (ls u)" g "snd (ls u)" g'] same(1) by (simp add: os_inv_def)
  ultimately show ?thesis using I l(3) same by (auto simp: os_inv_def)
qed

lemma os_at_client: "os_at r g l \<Longrightarrow> r \<noteq> Matcher \<Longrightarrow> client_pc l"
  by (cases l) auto

lemma os_inv_go:
  assumes I: "os_inv g ls" and G: "rb_G (os_ring g)" and L: "\<And>t. rb_L (os_ring g) (os_rb (snd (ls t)))"
    and ex: "os_go sp g (snd (ls t)) = (g', l')"
  shows "os_inv g' (ls(t := (fst (ls t), l')))"
proof (cases "client_pc (snd (ls t))")
  case True
  have at: "os_at (fst (ls t)) g (snd (ls t))" using I by (simp add: os_inv_def)
  show ?thesis using os_go_client [OF ex at True] os_inv_client [OF I G L, of g' _ t l'] True by blast
next
  case False
  have at: "os_at (fst (ls t)) g (snd (ls t))" using I by (simp add: os_inv_def)
  then have "fst (ls t) = Matcher" using os_at_client False by blast
  then have t: "t = 0" "fst (ls 0) = Matcher" using I by (auto simp: os_inv_def)
  have st: "os_at Matcher g' l' \<and> os_book_ok g' l' \<and> best_bid (mg_book (os_match g)) \<le> best_bid (mg_book (os_match g')) \<and>
    take (g_deq (os_ring g')) (g_enq (os_ring g')) = os_done g' @ os_hand (g_enq (os_ring g')) l'"
    using os_go_matcher [OF ex G L] at False t I by (simp add: os_inv_def)
  have "os_at (fst (ls u)) g' (snd (ls u))" for u
    using I st os_at_stable [of "fst (ls u)" g "snd (ls u)" g'] by (simp add: os_inv_def)
  then have "\<forall>u. os_at (fst ((ls(t := (fst (ls t), l'))) u)) g' (snd ((ls(t := (fst (ls t), l'))) u))" using st t by simp
  moreover have "\<forall>u. fst ((ls(t := (fst (ls t), l'))) u) = Matcher \<longleftrightarrow> u = 0" using I by (simp add: os_inv_def)
  ultimately show ?thesis using st t(1) unfolding os_inv_def by simp
qed

lemma os_reach_inv:
  assumes "os_reach c"
  shows "rb_bound (os_ring (fst c)) \<Longrightarrow> os_inv (fst c) (snd c)"
  using assms
proof (induction rule: reach.induct)
  case (start g)
  then show ?case by (auto simp: os_inv_def os_roles_def os_init_def rb_start_def match_start_def)
next
  case (step c e)
  obtain t a g ls where e: "e = (t, a)" "c = (g, ls)" by (metis surj_pair)
  obtain g' rl' where ex: "os_exec a g (ls t) = (g', rl')" by (cases "os_exec a g (ls t)")
  have "rb_bound (os_ring g')" using step.prems by (simp add: e ex sys_step_eq)
  then have B: "rb_bound (os_ring g)" using os_exec_proj [OF ex] rb_og.bound_down by metis
  then have I: "os_inv g ls" using step.IH e by simp
  have r: "rb_reach (os_ring g, \<lambda>t. os_rb (snd (ls t)))" using os_reach_rb step.hyps e by simp
  note G = rb_og.reach_G [OF r B] and L = rb_og.reach_L [OF r B]
  have "os_inv g' (ls(t := rl'))"
  proof (cases "(a, g, ls t)" rule: os_exec.cases)
    case (1 ord g0 r)
    then show ?thesis using os_inv_client [OF I G L, of g "[]" t "OsSubmit (PushLoad ord)"] ex by auto
  next
    case (2 batch_size g0)
    then have "t = 0" using I by (metis fst_conv os_inv_def prod.inject)
    then show ?thesis using I ex 2 by (auto simp: os_inv_def)
  next
    case (3 g0 r)
    then show ?thesis using os_inv_client [OF I G L, of g "[]" t OsBid] ex by auto
  next
    case (4 sp g0 r l)
    then show ?thesis using os_inv_go [OF I G L, of sp t] ex by (cases "os_go sp g l") auto
  qed (use ex I in \<open>auto simp: fun_upd_idem\<close>)
  then show ?case by (simp add: e ex sys_step_eq del: fun_upd_apply)
qed

subsection \<open>Properties of every schedule\<close>

text \<open>Whatever the matcher is doing, the prices are those after the orders it has finished.\<close>

lemma os_prices:
  assumes "os_inv g ls"
  shows "best_bid (mg_book (os_match g)) = best_bid (process_all (os_done g))" "best_ask (mg_book (os_match g)) = best_ask (process_all (os_done g))"
  using assms in_match_prices by (cases "snd (ls 0)"; fastforce simp: os_inv_def)+

text \<open>
  C13. With one processing thread and any number of traders, under every schedule: the orders are processed
  in the order in which the queue accepted them, each once; between two orders the five counters are those
  that the sequential code computes from the processed orders; and the book is not crossed at any
  moment, not even in the middle of matching. A trader that asks for the spread while the book changes,
  having read a bid already, gets the exact difference to a later ask, which is at least the spread of that moment.
\<close>

theorem os_service_sequential:
  assumes "os_reach (g, ls)" "rb_bound (os_ring g)"
  defines "bk \<equiv> mg_book (os_match g)"
  shows "uncrossed bk \<and> (\<exists>rest. g_enq (os_ring g) = os_done g @ rest) \<and>
    ((\<exists>ord os cnt m. snd (ls 0) = OsMatch ord os cnt m) \<or> bk = process_all (os_done g)) \<and>
    (\<forall>t bid. snd (ls t) = OsAsk bid \<and> bid \<noteq> 0 \<and> best_ask bk \<noteq> 0 \<and> best_ask bk \<noteq> UINT64_MAX \<longrightarrow>
       bid < best_ask bk \<and> unat (spread_of bid (best_ask bk)) = unat (best_ask bk) - unat bid \<and>
       unat (best_ask bk) - unat (best_bid bk) \<le> unat (spread_of bid (best_ask bk)))"
proof -
  have I: "os_inv g ls" using os_reach_inv [OF assms(1)] assms(2) by simp
  note pr = os_prices [OF I, folded bk_def]
  have "uncrossed (process_all (os_done g))" by (rule uncrossed_fold) (simp add: book_new_def uncrossed_def word_gt_0)
  then have un: "uncrossed bk" using pr by (simp add: uncrossed_def)
  have "g_enq (os_ring g) = os_done g @ os_hand (g_enq (os_ring g)) (snd (ls 0)) @ drop (g_deq (os_ring g)) (g_enq (os_ring g))"
    using I append_take_drop_id [of "g_deq (os_ring g)" "g_enq (os_ring g)"] by (simp add: os_inv_def)
  moreover have "(\<exists>ord os cnt m. snd (ls 0) = OsMatch ord os cnt m) \<or> bk = process_all (os_done g)"
    using I by (cases "snd (ls 0)") (auto simp: os_inv_def bk_def)
  moreover have "bid < best_ask bk \<and> unat (spread_of bid (best_ask bk)) = unat (best_ask bk) - unat bid \<and>
       unat (best_ask bk) - unat (best_bid bk) \<le> unat (spread_of bid (best_ask bk))"
    if "snd (ls t) = OsAsk bid" "bid \<noteq> 0" "best_ask bk \<noteq> 0" "best_ask bk \<noteq> UINT64_MAX" for t bid
  proof -
    have "os_at (fst (ls t)) g (OsAsk bid)" using I that(1) unfolding os_inv_def by metis
    then have le: "bid \<le> best_bid bk" by (simp add: bk_def)
    have "best_bid bk < best_ask bk" using un that(3,4) by (auto simp: uncrossed_def)
    then have lt: "bid < best_ask bk" using le by simp
    then have "unat (spread_of bid (best_ask bk)) = unat (best_ask bk) - unat bid"
      using that by (simp add: spread_of_def Let_def unat_sub order_less_imp_le)
    then show ?thesis using lt le by (simp add: word_le_nat_alt)
  qed
  ultimately show ?thesis using un by blast
qed

subsection \<open>A schedule\<close>

text \<open>
  Trader 1 submits a sell order at 100 and a buy order at 90; the matcher processes both while trader 2
  submits; then trader 1 asks for the spread.
\<close>

definition os_g0 :: os_global where
  "os_g0 = \<lparr>os_ring = rb_start 4 order_default, os_match = match_start, os_done = []\<rparr>"

definition os_sched :: "(tid \<times> os_act) list" where
  "os_sched = (1, OsCallSubmit (ord_sell 100 5)) # replicate 6 (1, OsGo False) @
     (1, OsCallSubmit (ord_buy 90 1)) # replicate 6 (1, OsGo False) @
     (0, OsCallProcess 2) # replicate 12 (0, OsGo False) @ (2, OsCallSubmit (ord_buy 95 1)) # replicate 4 (2, OsGo False) @
     replicate 17 (0, OsGo False) @ [(1, OsCallSpread), (1, OsGo False)]"

abbreviation os_run :: "(os_global, os_role \<times> os_pc) config" where
  "os_run \<equiv> run os_exec (os_g0, os_roles) os_sched"

lemma os_g0_init: "os_init os_g0"
  unfolding os_init_def os_g0_def by (auto simp: is_pow2_def intro: exI [of _ 4])

lemma os_run_ok:
  "snd (snd os_run 1) = OsAsk 90" "best_ask (mg_book (os_match (fst os_run))) = 100"
  "length (g_enq (os_ring (fst os_run))) = 3" "rb_size (g_rb (os_ring (fst os_run))) = 4"
  by code_simp+

theorem os_service_sequential_witness:
  "uncrossed (mg_book (os_match (fst os_run))) \<and> unat (spread_of 90 (best_ask (mg_book (os_match (fst os_run))))) = 10"
proof -
  have "os_reach (fst os_run, snd os_run)" using reach_run_init [of os_init os_g0 os_exec os_roles os_sched, OF os_g0_init] by simp
  moreover have "rb_bound (os_ring (fst os_run))" by (simp add: rb_bound_def os_run_ok(3,4))
  ultimately have p: "uncrossed (mg_book (os_match (fst os_run)))"
    "\<forall>t bid. snd (snd os_run t) = OsAsk bid \<and> bid \<noteq> 0 \<and> best_ask (mg_book (os_match (fst os_run))) \<noteq> 0 \<and>
       best_ask (mg_book (os_match (fst os_run))) \<noteq> UINT64_MAX \<longrightarrow>
       unat (spread_of bid (best_ask (mg_book (os_match (fst os_run))))) = unat (best_ask (mg_book (os_match (fst os_run)))) - unat bid"
    using os_service_sequential [of "fst os_run" "snd os_run"] by blast+
  then show ?thesis using p(2) [rule_format, of 1 90] os_run_ok(1,2) by simp
qed

end
