(* ===== verification/Stack_Contract.thy ===== *)
theory Stack_Contract
  imports Lockless_Prelude
begin

text \<open>
  What the clients of a bounded stack (the object pool) rely on. As in \<open>Queue_Contract\<close>,
  \<open>None\<close> stands for undefined behaviour of the C++ code. \<open>ArrayLockFreeStack\<close> is the instance,
  see \<open>Array_Stack\<close>.
\<close>

locale bounded_stack =
  fixes push :: "'s \<Rightarrow> 'a \<Rightarrow> (bool \<times> 's) option"
    and pop :: "'s \<Rightarrow> ('a option \<times> 's) option"
    and invar :: "'s \<Rightarrow> bool"
    and contents :: "'s \<Rightarrow> 'a list"
    and cap :: "'s \<Rightarrow> nat"
  assumes contents_le: "invar s \<Longrightarrow> length (contents s) \<le> cap s"
    and push_ok: "invar s \<Longrightarrow> length (contents s) < cap s \<Longrightarrow>
          \<exists>s'. push s x = Some (True, s') \<and> invar s' \<and> contents s' = x # contents s \<and> cap s' = cap s"
    and push_full: "invar s \<Longrightarrow> length (contents s) = cap s \<Longrightarrow> push s x = Some (False, s)"
    and pop_ok: "invar s \<Longrightarrow> contents s = x # xs \<Longrightarrow>
          \<exists>s'. pop s = Some (Some x, s') \<and> invar s' \<and> contents s' = xs \<and> cap s' = cap s"
    and pop_empty: "invar s \<Longrightarrow> contents s = [] \<Longrightarrow> pop s = Some (None, s)"
begin

lemma push_total:
  assumes "invar s"
  shows "\<exists>s'. push s x = Some (length (contents s) < cap s, s') \<and> invar s' \<and> cap s' = cap s \<and>
           contents s' = (if length (contents s) < cap s then x # contents s else contents s)"
proof (cases "length (contents s) < cap s")
  case True
  then show ?thesis using push_ok [OF assms True, of x] by auto
next
  case False
  then have "length (contents s) = cap s" using contents_le [OF assms] by simp
  then show ?thesis using push_full [OF assms] assms by auto
qed

lemma pop_total:
  assumes "invar s"
  shows "\<exists>s'. pop s = Some (case contents s of [] \<Rightarrow> None | x # _ \<Rightarrow> Some x, s') \<and> invar s' \<and>
           contents s' = tl (contents s) \<and> cap s' = cap s"
  using pop_ok [OF assms] pop_empty [OF assms] assms by (cases "contents s") fastforce+

text \<open>Last in, first out.\<close>

lemma push_pop:
  assumes "invar s" "length (contents s) < cap s"
  shows "\<exists>s' s''. push s x = Some (True, s') \<and> pop s' = Some (Some x, s'') \<and> invar s'' \<and>
           contents s'' = contents s \<and> cap s'' = cap s"
  using push_ok [OF assms, of x] pop_ok by metis

end

subsection \<open>The atomic bounded stack\<close>

text \<open>As for the queues, both operations may fail; when they do is a separate question.\<close>

datatype 'a stack_op = OpPush 'a | OpPop

datatype 'a stack_res = Failed | Pushed 'a | Popped 'a \<comment> \<open>\<open>Pushed\<close> repeats the value\<close>

inductive stack_spec :: "nat \<times> 'a list \<Rightarrow> 'a stack_op \<Rightarrow> 'a stack_res \<Rightarrow> nat \<times> 'a list \<Rightarrow> bool" where
  push: "length xs < n \<Longrightarrow> stack_spec (n, xs) (OpPush x) (Pushed x) (n, x # xs)"
| pop: "stack_spec (n, x # xs) OpPop (Popped x) (n, xs)"
| fail: "stack_spec (n, xs) op Failed (n, xs)"

end
