(* ===== verification/Array_Stack.thy ===== *)
theory Array_Stack
  imports Stack_Contract
begin

text \<open>
  \<^verbatim>\<open>include/lockless/array_stack.hpp\<close> (and its alias \<^verbatim>\<open>stack.hpp\<close>), run by one thread: packed head
  words, the constructor, the index lists and the two operations. \<^verbatim>\<open>nodes_\<close> is the list \<open>as_nodes\<close>;
  an access outside of it is undefined behaviour and yields \<open>None\<close>. The argument
  \<^verbatim>\<open>target_head\<close> of the private functions is the value of \<open>which\<close>. Without interference the
  compare-exchange of both retry loops succeeds at once, so the sequential definitions contain
  its success; \<open>Array_Stack_Conc\<close> has the loops and all interleavings. The two overloads of
  \<^verbatim>\<open>try_push\<close> are one definition (a move is a copy).
\<close>

record 'a node =
  nd_data :: 'a
  nd_next :: uint32

abbreviation NULL_INDEX :: uint32 where "NULL_INDEX \<equiv> UINT32_MAX"

record head_word =
  hd_index :: uint32
  hd_tag :: uint32

definition pack :: "uint32 \<Rightarrow> uint32 \<Rightarrow> uint64" where
  "pack index tag = push_bit 32 (ucast tag) OR ucast index"

definition unpack :: "uint64 \<Rightarrow> head_word" where
  "unpack val = \<lparr>hd_index = ucast val, hd_tag = ucast (drop_bit 32 val)\<rparr>"

record 'a array_stack =
  as_nodes :: "'a node list"
  as_capacity :: size_t
  as_head :: uint64
  as_free :: uint64

text \<open>\<^verbatim>\<open>stack.hpp\<close>: the same class under its older name.\<close>

type_synonym 'a lock_free_stack = "'a array_stack"

datatype which = DataHead | FreeHead

primrec target :: "which \<Rightarrow> 'a array_stack \<Rightarrow> uint64" where
  "target DataHead st = as_head st"
| "target FreeHead st = as_free st"

primrec set_target :: "which \<Rightarrow> uint64 \<Rightarrow> 'a array_stack \<Rightarrow> 'a array_stack" where
  "set_target DataHead v st = st\<lparr>as_head := v\<rparr>"
| "set_target FreeHead v st = st\<lparr>as_free := v\<rparr>"

definition load_next :: "'a array_stack \<Rightarrow> uint32 \<Rightarrow> uint32 option" where
  "load_next st i = (if unat i < length (as_nodes st) then Some (nd_next (as_nodes st ! unat i)) else None)"

definition store_next :: "'a array_stack \<Rightarrow> uint32 \<Rightarrow> uint32 \<Rightarrow> 'a array_stack option" where
  "store_next st i v = (if unat i < length (as_nodes st)
     then Some (st\<lparr>as_nodes := (as_nodes st)[unat i := (as_nodes st ! unat i)\<lparr>nd_next := v\<rparr>]\<rparr>) else None)"

definition load_data :: "'a array_stack \<Rightarrow> uint32 \<Rightarrow> 'a option" where
  "load_data st i = (if unat i < length (as_nodes st) then Some (nd_data (as_nodes st ! unat i)) else None)"

definition store_data :: "'a array_stack \<Rightarrow> uint32 \<Rightarrow> 'a \<Rightarrow> 'a array_stack option" where
  "store_data st i v = (if unat i < length (as_nodes st)
     then Some (st\<lparr>as_nodes := (as_nodes st)[unat i := (as_nodes st ! unat i)\<lparr>nd_data := v\<rparr>]\<rparr>) else None)"

text \<open>
  The constructor. \<open>chain_free i k\<close> is the loop with \<open>k\<close> iterations left at index \<open>i\<close>; the bound
  \<^verbatim>\<open>capacity - 1\<close> wraps for capacity 0, and the stored index is cut to 32 bits.
\<close>

fun chain_free :: "nat \<Rightarrow> nat \<Rightarrow> 'a node list \<Rightarrow> 'a node list option" where
  "chain_free i 0 nodes = Some nodes"
| "chain_free i (Suc k) nodes =
     (if i < length nodes
      then chain_free (Suc i) k (nodes[i := (nodes ! i)\<lparr>nd_next := word_of_nat (i + 1)\<rparr>]) else None)"

definition as_new :: "size_t \<Rightarrow> 'a \<Rightarrow> 'a array_stack option" where
  "as_new capacity d =
     (case chain_free 0 (unat (capacity - 1)) (replicate (unat capacity) \<lparr>nd_data = d, nd_next = NULL_INDEX\<rparr>) of
        None \<Rightarrow> None
      | Some nodes \<Rightarrow>
          let l = unat (capacity - 1) in
          if l < length nodes then
            Some \<lparr>as_nodes = nodes[l := (nodes ! l)\<lparr>nd_next := NULL_INDEX\<rparr>], as_capacity = capacity,
                  as_head = pack NULL_INDEX 0, as_free = pack 0 0\<rparr>
          else None)"

definition push_index :: "which \<Rightarrow> 'a array_stack \<Rightarrow> uint32 \<Rightarrow> 'a array_stack option" where
  "push_index w st node_idx =
     (let old_head = unpack (target w st) in
      map_option (set_target w (pack node_idx (hd_tag old_head + 1)))
        (store_next st node_idx (hd_index old_head)))"

definition pop_index :: "which \<Rightarrow> 'a array_stack \<Rightarrow> (uint32 \<times> 'a array_stack) option" where
  "pop_index w st =
     (let old_head = unpack (target w st) in
      if hd_index old_head = NULL_INDEX then Some (NULL_INDEX, st)
      else map_option (\<lambda>next_idx. (hd_index old_head, set_target w (pack next_idx (hd_tag old_head + 1)) st))
             (load_next st (hd_index old_head)))"

definition as_try_push :: "'a array_stack \<Rightarrow> 'a \<Rightarrow> (bool \<times> 'a array_stack) option" where
  "as_try_push st v =
     (case pop_index FreeHead st of
        None \<Rightarrow> None
      | Some (node_idx, st1) \<Rightarrow>
          if node_idx = NULL_INDEX then Some (False, st1)
          else case store_data st1 node_idx v of
                 None \<Rightarrow> None
               | Some st2 \<Rightarrow> map_option (Pair True) (push_index DataHead st2 node_idx))"

definition as_try_pop :: "'a array_stack \<Rightarrow> ('a option \<times> 'a array_stack) option" where
  "as_try_pop st =
     (case pop_index DataHead st of
        None \<Rightarrow> None
      | Some (node_idx, st1) \<Rightarrow>
          if node_idx = NULL_INDEX then Some (None, st1)
          else case load_data st1 node_idx of
                 None \<Rightarrow> None
               | Some v \<Rightarrow> map_option (Pair (Some v)) (push_index FreeHead st1 node_idx))"

subsection \<open>Packed words\<close>

lemma unpack_pack [simp]: "unpack (pack i t) = \<lparr>hd_index = i, hd_tag = t\<rparr>"
proof -
  have "ucast (pack i t) = i"
    by (rule bit_word_eqI) (auto simp: pack_def bit_simps)
  moreover have "ucast (drop_bit 32 (pack i t)) = t"
    by (rule bit_word_eqI) (auto simp: pack_def bit_simps dest: bit_imp_le_length)
  ultimately show ?thesis by (simp add: unpack_def)
qed

lemma pack_unpack: "pack (hd_index (unpack v)) (hd_tag (unpack v)) = v"
  by (rule bit_word_eqI) (auto simp: pack_def unpack_def bit_simps)

lemma pack_eq_iff [simp]: "pack i t = pack j u \<longleftrightarrow> i = j \<and> t = u"
  by (metis unpack_pack head_word.ext_inject)

text \<open>
  Packing an index and a tag into one 64-bit word loses nothing, in both directions, so a
  compare-exchange on the word compares exactly the pair.
\<close>

theorem as_pack_roundtrip:
  "unpack (pack i t) = \<lparr>hd_index = i, hd_tag = t\<rparr> \<and> pack (hd_index (unpack v)) (hd_tag (unpack v)) = v \<and>
   (pack i t = pack j u \<longleftrightarrow> i = j \<and> t = u)"
  by (simp add: pack_unpack)

subsection \<open>Index lists\<close>

text \<open>\<open>chain nodes i xs\<close>: following \<^verbatim>\<open>next\<close> from index \<open>i\<close> visits \<open>xs\<close> and ends at \<^verbatim>\<open>NULL_INDEX\<close>.\<close>

fun chain :: "'a node list \<Rightarrow> uint32 \<Rightarrow> nat list \<Rightarrow> bool" where
  "chain nodes i [] = (i = NULL_INDEX)"
| "chain nodes i (x # xs) = (i \<noteq> NULL_INDEX \<and> unat i = x \<and> x < length nodes \<and> chain nodes (nd_next (nodes ! x)) xs)"

fun walk :: "'a node list \<Rightarrow> nat \<Rightarrow> uint32 \<Rightarrow> nat list" where
  "walk nodes 0 i = []"
| "walk nodes (Suc n) i = (if i = NULL_INDEX then [] else unat i # walk nodes n (nd_next (nodes ! unat i)))"

lemma chain_walk: "chain nodes i xs \<Longrightarrow> length xs \<le> n \<Longrightarrow> walk nodes n i = xs"
proof (induction xs arbitrary: i n)
  case Nil
  then show ?case by (cases n) auto
next
  case (Cons x xs)
  then show ?case by (cases n) auto
qed

lemma chain_bound: "chain nodes i xs \<Longrightarrow> x \<in> set xs \<Longrightarrow> x < length nodes"
  by (induction nodes i xs rule: chain.induct) auto

lemma chain_update [simp]: "x \<notin> set xs \<Longrightarrow> chain (nodes[x := nd]) i xs = chain nodes i xs"
  by (induction nodes i xs rule: chain.induct) auto

lemma nd_next_update:
  "nd_next nd = nd_next (nodes ! x) \<Longrightarrow> nd_next (nodes[x := nd] ! j) = nd_next (nodes ! j)"
  by (cases "x < length nodes"; cases "x = j") (auto simp: list_update_beyond)

lemma chain_update_data [simp]:
  "nd_next nd = nd_next (nodes ! x) \<Longrightarrow> chain (nodes[x := nd]) i xs = chain nodes i xs"
  by (induction nodes i xs rule: chain.induct) (auto simp: nd_next_update)

lemma unat_32_not_null: "unat (i :: uint32) < 2 ^ 32 - 1 \<longleftrightarrow> i \<noteq> NULL_INDEX"
proof -
  have "unat NULL_INDEX = 2 ^ 32 - 1" by (simp add: unat_max_word)
  then show ?thesis using unat_less_32 [of i] by (auto simp: word_unat_eq_iff less_le)
qed

lemma chain_push:
  assumes "chain nodes i xs" "unat j < length nodes" "j \<noteq> NULL_INDEX" "unat j \<notin> set xs"
  shows "chain (nodes[unat j := (nodes ! unat j)\<lparr>nd_next := i\<rparr>]) j (unat j # xs)"
  using assms by simp

subsection \<open>Invariant\<close>

text \<open>
  The data list and the free list are disjoint and together hold every usable node. Node
  numbers are 32-bit indices below \<^verbatim>\<open>NULL_INDEX\<close>, so at most \<open>2 ^ 32 - 1\<close> nodes are usable.
\<close>

definition as_usable :: "'a array_stack \<Rightarrow> nat" where
  "as_usable st = min (length (as_nodes st)) (2 ^ 32 - 1)"

definition as_lists :: "'a array_stack \<Rightarrow> nat list \<Rightarrow> nat list \<Rightarrow> bool" where
  "as_lists st ds fs \<longleftrightarrow> chain (as_nodes st) (hd_index (unpack (as_head st))) ds \<and>
     chain (as_nodes st) (hd_index (unpack (as_free st))) fs \<and> distinct (ds @ fs) \<and>
     set (ds @ fs) = {..<as_usable st}"

definition as_invar :: "'a array_stack \<Rightarrow> bool" where
  "as_invar st \<longleftrightarrow> (\<exists>ds fs. as_lists st ds fs)"

definition as_contents :: "'a array_stack \<Rightarrow> 'a list" where
  "as_contents st = map (\<lambda>i. nd_data (as_nodes st ! i))
     (walk (as_nodes st) (length (as_nodes st)) (hd_index (unpack (as_head st))))"

lemma as_lists_length: "as_lists st ds fs \<Longrightarrow> length ds + length fs = as_usable st"
  unfolding as_lists_def by (metis card_lessThan distinct_card length_append)

lemma as_lists_contents:
  assumes "as_lists st ds fs"
  shows "as_contents st = map (\<lambda>i. nd_data (as_nodes st ! i)) ds"
proof -
  have "length ds \<le> length (as_nodes st)"
    using as_lists_length [OF assms] by (simp add: as_usable_def)
  then show ?thesis using assms chain_walk by (fastforce simp: as_contents_def as_lists_def)
qed

lemma as_lists_usable_idx:
  assumes "as_lists st ds fs" "x \<in> set (ds @ fs)"
  shows "x < length (as_nodes st)" "x < 2 ^ 32 - 1" "unat (word_of_nat x :: uint32) = x"
    "(word_of_nat x :: uint32) \<noteq> NULL_INDEX"
proof -
  have x: "x < as_usable st" using assms by (auto simp: as_lists_def)
  then show "x < length (as_nodes st)" "x < 2 ^ 32 - 1" by (auto simp: as_usable_def)
  then show u: "unat (word_of_nat x :: uint32) = x" by (simp add: unat_of_nat)
  show "(word_of_nat x :: uint32) \<noteq> NULL_INDEX"
    using x u unat_32_not_null [of "word_of_nat x"] by (simp add: as_usable_def)
qed

subsection \<open>The operations on the index lists\<close>

lemma as_push_full_lists:
  assumes "as_lists st ds []"
  shows "as_try_push st v = Some (False, st)"
  using assms by (simp add: as_try_push_def pop_index_def as_lists_def)

lemma as_pop_empty_lists:
  assumes "as_lists st [] fs"
  shows "as_try_pop st = Some (None, st)"
  using assms by (simp add: as_try_pop_def pop_index_def as_lists_def)

lemma as_push_lists:
  assumes "as_lists st ds (x # fs)"
  shows "\<exists>st'. as_try_push st v = Some (True, st') \<and> as_lists st' (x # ds) fs \<and>
    length (as_nodes st') = length (as_nodes st) \<and> as_capacity st' = as_capacity st \<and>
    nd_data (as_nodes st' ! x) = v \<and> (\<forall>i. i \<noteq> x \<longrightarrow> as_nodes st' ! i = as_nodes st ! i)"
proof -
  let ?i = "hd_index (unpack (as_free st))"
  have c: "chain (as_nodes st) (hd_index (unpack (as_head st))) ds" "?i \<noteq> NULL_INDEX" "unat ?i = x"
    "x < length (as_nodes st)" "chain (as_nodes st) (nd_next (as_nodes st ! x)) fs"
    "x \<notin> set ds" "x \<notin> set fs" "distinct (ds @ x # fs)" "set (ds @ x # fs) = {..<as_usable st}"
    using assms by (auto simp: as_lists_def)
  let ?h = "hd_index (unpack (as_head st))"
  let ?nodes = "(as_nodes st)[x := (as_nodes st ! x)\<lparr>nd_data := v, nd_next := ?h\<rparr>]"
  let ?st' = "st\<lparr>as_nodes := ?nodes, as_free := pack (nd_next (as_nodes st ! x)) (hd_tag (unpack (as_free st)) + 1),
      as_head := pack ?i (hd_tag (unpack (as_head st)) + 1)\<rparr>"
  have "as_try_push st v = Some (True, ?st')"
    using c by (simp add: as_try_push_def pop_index_def push_index_def load_next_def store_data_def
        store_next_def Let_def)
  moreover have "as_lists ?st' (x # ds) fs"
    using c by (auto simp: as_lists_def as_usable_def)
  ultimately show ?thesis using c(4) by (intro exI [of _ ?st']) auto
qed

lemma as_pop_lists:
  assumes "as_lists st (x # ds) fs"
  shows "\<exists>st'. as_try_pop st = Some (Some (nd_data (as_nodes st ! x)), st') \<and> as_lists st' ds (x # fs) \<and>
    length (as_nodes st') = length (as_nodes st) \<and> as_capacity st' = as_capacity st \<and>
    (\<forall>i. i \<noteq> x \<longrightarrow> as_nodes st' ! i = as_nodes st ! i)"
proof -
  let ?i = "hd_index (unpack (as_head st))"
  have c: "chain (as_nodes st) (hd_index (unpack (as_free st))) fs" "?i \<noteq> NULL_INDEX" "unat ?i = x"
    "x < length (as_nodes st)" "chain (as_nodes st) (nd_next (as_nodes st ! x)) ds"
    "x \<notin> set ds" "x \<notin> set fs" "distinct (x # ds @ fs)" "set (x # ds @ fs) = {..<as_usable st}"
    using assms by (auto simp: as_lists_def)
  let ?nodes = "(as_nodes st)[x := (as_nodes st ! x)\<lparr>nd_next := hd_index (unpack (as_free st))\<rparr>]"
  let ?st' = "st\<lparr>as_nodes := ?nodes, as_head := pack (nd_next (as_nodes st ! x)) (hd_tag (unpack (as_head st)) + 1),
      as_free := pack ?i (hd_tag (unpack (as_free st)) + 1)\<rparr>"
  have "as_try_pop st = Some (Some (nd_data (as_nodes st ! x)), ?st')"
    using c by (simp add: as_try_pop_def pop_index_def push_index_def load_next_def load_data_def
        store_next_def Let_def)
  moreover have "as_lists ?st' ds (x # fs)"
    using c by (auto simp: as_lists_def as_usable_def)
  ultimately show ?thesis using c(4) by (intro exI [of _ ?st']) auto
qed

lemma as_push_ok:
  assumes "as_invar s" "length (as_contents s) < as_usable s"
  shows "\<exists>s'. as_try_push s x = Some (True, s') \<and> as_invar s' \<and> as_contents s' = x # as_contents s \<and>
    as_usable s' = as_usable s"
proof -
  obtain ds fs where l: "as_lists s ds fs" using assms(1) by (auto simp: as_invar_def)
  obtain i fs' where fs: "fs = i # fs'"
    using as_lists_length [OF l] as_lists_contents [OF l] assms(2) by (cases fs) auto
  obtain s' where s': "as_try_push s x = Some (True, s')" "as_lists s' (i # ds) fs'"
    "length (as_nodes s') = length (as_nodes s)" "nd_data (as_nodes s' ! i) = x"
    "\<forall>j. j \<noteq> i \<longrightarrow> as_nodes s' ! j = as_nodes s ! j"
    using as_push_lists [of s ds i fs' x] l fs by auto
  have "i \<notin> set ds" using s'(2) by (auto simp: as_lists_def)
  then have "as_contents s' = x # as_contents s"
    using s' as_lists_contents [OF s'(2)] as_lists_contents [OF l] by (auto intro!: map_cong)
  then show ?thesis using s' by (auto simp: as_invar_def as_usable_def)
qed

lemma as_pop_ok:
  assumes "as_invar s" "as_contents s = x # xs"
  shows "\<exists>s'. as_try_pop s = Some (Some x, s') \<and> as_invar s' \<and> as_contents s' = xs \<and>
    as_usable s' = as_usable s"
proof -
  obtain ds fs where l: "as_lists s ds fs" using assms(1) by (auto simp: as_invar_def)
  obtain i ds' where ds: "ds = i # ds'" "nd_data (as_nodes s ! i) = x"
      "map (\<lambda>j. nd_data (as_nodes s ! j)) ds' = xs"
    using as_lists_contents [OF l] assms(2) by (cases ds) auto
  obtain s' where s': "as_try_pop s = Some (Some x, s')" "as_lists s' ds' (i # fs)"
    "length (as_nodes s') = length (as_nodes s)" "\<forall>j. j \<noteq> i \<longrightarrow> as_nodes s' ! j = as_nodes s ! j"
    using as_pop_lists [of s i ds' fs] l ds by auto
  have "i \<notin> set ds'" using l ds by (auto simp: as_lists_def)
  then have "as_contents s' = xs"
    using s' ds as_lists_contents [OF s'(2)] by (auto intro!: map_cong)
  then show ?thesis using s' by (auto simp: as_invar_def as_usable_def)
qed

interpretation astack: bounded_stack as_try_push as_try_pop as_invar as_contents as_usable
proof
  fix s :: "'a array_stack" and x
  assume "as_invar s"
  then obtain ds fs where l: "as_lists s ds fs" by (auto simp: as_invar_def)
  note len = as_lists_length [OF l] and cont = as_lists_contents [OF l]
  show "length (as_contents s) \<le> as_usable s" using len cont by simp
  show "as_try_push s x = Some (False, s)" if "length (as_contents s) = as_usable s"
    using that len cont as_push_full_lists l by (cases fs) auto
  show "as_try_pop s = Some (None, s)" if "as_contents s = []"
    using that cont as_pop_empty_lists l by (cases ds) auto
qed (rule as_push_ok as_pop_ok; assumption)+

subsection \<open>The constructor\<close>

lemma chain_free_spec:
  assumes "i + k \<le> length nodes"
  shows "\<exists>ns. chain_free i k nodes = Some ns \<and> length ns = length nodes \<and>
    (\<forall>j. nd_next (ns ! j) = (if i \<le> j \<and> j < i + k then word_of_nat (j + 1) else nd_next (nodes ! j)))"
  using assms
proof (induction k arbitrary: i nodes)
  case (Suc k)
  let ?nodes = "nodes[i := (nodes ! i)\<lparr>nd_next := word_of_nat (i + 1)\<rparr>]"
  have i: "i < length nodes" "Suc i + k \<le> length ?nodes" using Suc.prems by auto
  from Suc.IH [OF i(2)] obtain ns where ns: "chain_free (Suc i) k ?nodes = Some ns"
    "length ns = length nodes"
    "\<forall>j. nd_next (ns ! j) = (if Suc i \<le> j \<and> j < Suc i + k then word_of_nat (j + 1) else nd_next (?nodes ! j))"
    by auto
  have "nd_next (ns ! j) = (if i \<le> j \<and> j < i + Suc k then word_of_nat (j + 1) else nd_next (nodes ! j))" for j
    using ns(3) i(1) by (cases "j = i") auto
  then show ?case using ns(1,2) i(1) by auto
qed auto

lemma as_new_nodes:
  assumes "capacity \<noteq> 0"
  shows "\<exists>st. as_new capacity d = Some st \<and> length (as_nodes st) = unat capacity \<and>
    as_capacity st = capacity \<and> as_head st = pack NULL_INDEX 0 \<and> as_free st = pack 0 0 \<and>
    (\<forall>j < unat capacity. nd_next (as_nodes st ! j) =
       (if j + 1 < unat capacity then word_of_nat (j + 1) else NULL_INDEX))"
proof -
  let ?l = "unat capacity - 1"
  have c: "unat (capacity - 1) = ?l" "0 < unat capacity"
    using assms by (simp_all add: unat_minus_1 unat_gt_0)
  from chain_free_spec [of 0 ?l "replicate (unat capacity) \<lparr>nd_data = d, nd_next = NULL_INDEX\<rparr>"]
  obtain ns where ns: "chain_free 0 ?l (replicate (unat capacity) \<lparr>nd_data = d, nd_next = NULL_INDEX\<rparr>) = Some ns"
    "length ns = unat capacity"
    "\<forall>j < ?l. nd_next (ns ! j) = word_of_nat (j + 1)" by auto
  have "nd_next (ns[?l := (ns ! ?l)\<lparr>nd_next := NULL_INDEX\<rparr>] ! j) =
      (if j + 1 < unat capacity then word_of_nat (j + 1) else NULL_INDEX)" if "j < unat capacity" for j
    using that ns(2,3) c(2) by (cases "j = ?l") auto
  then show ?thesis using ns(1,2) c by (simp add: as_new_def Let_def)
qed

lemma chain_upt:
  assumes "\<And>j. j < n \<Longrightarrow> nd_next (nodes ! j) = (if j + 1 < n then word_of_nat (j + 1) else NULL_INDEX)"
    and "n \<le> length nodes" "n \<le> 2 ^ 32 - 1" "i < n"
  shows "chain nodes (word_of_nat i) [i..<n]"
  using assms(4)
proof (induction "n - i" arbitrary: i)
  case (Suc k)
  have u: "unat (word_of_nat i :: uint32) = i" using Suc.prems assms(3) by (simp add: unat_of_nat)
  then have nn: "(word_of_nat i :: uint32) \<noteq> NULL_INDEX"
    using unat_32_not_null [of "word_of_nat i"] Suc.prems assms(3) by simp
  have "chain nodes (nd_next (nodes ! i)) [Suc i..<n]"
  proof (cases "Suc i < n")
    case True
    then have "nd_next (nodes ! i) = word_of_nat (Suc i)" using assms(1) [of i] by simp
    then show ?thesis using Suc.hyps(1) [of "Suc i"] Suc.hyps(2) True by (simp del: of_nat_Suc)
  next
    case False
    then show ?thesis using Suc.prems assms(1) [of i] by simp
  qed
  then show ?case using u nn Suc.prems assms(2) by (simp add: upt_conv_Cons)
qed simp

lemma as_new_lists:
  assumes "capacity \<noteq> 0"
  shows "\<exists>st. as_new capacity d = Some st \<and> length (as_nodes st) = unat capacity \<and>
    as_capacity st = capacity \<and> as_lists st [] [0..<as_usable st]"
proof -
  obtain st where st: "as_new capacity d = Some st" "length (as_nodes st) = unat capacity"
    "as_capacity st = capacity" "as_head st = pack NULL_INDEX 0" "as_free st = pack 0 0"
    "\<forall>j < unat capacity. nd_next (as_nodes st ! j) =
       (if j + 1 < unat capacity then word_of_nat (j + 1) else NULL_INDEX)"
    using as_new_nodes [OF assms, of d] by (elim exE conjE)
  have max: "word_of_nat (2 ^ 32 - 1) = NULL_INDEX"
  proof -
    have "word_of_nat (unat NULL_INDEX) = NULL_INDEX" by simp
    then show ?thesis by (simp only: unat_max_word) simp
  qed
  have u: "0 < as_usable st" using assms st(2) by (simp add: as_usable_def unat_gt_0)
  have "nd_next (as_nodes st ! j) = (if j + 1 < as_usable st then word_of_nat (j + 1) else NULL_INDEX)"
    if "j < as_usable st" for j
  proof (cases "j + 1 < as_usable st")
    case True
    then show ?thesis using st(2,6) by (simp add: as_usable_def)
  next
    case False
    then have "j + 1 = unat capacity \<or> j + 1 = 2 ^ 32 - 1" using that st(2) by (auto simp: as_usable_def)
    then show ?thesis using False that st(2,6) max by (auto simp: as_usable_def)
  qed
  then have "chain (as_nodes st) (word_of_nat 0) [0..<as_usable st]"
    by (rule chain_upt) (use u in \<open>auto simp: as_usable_def\<close>)
  then have "as_lists st [] [0..<as_usable st]"
    using st(4,5) by (simp add: as_lists_def lessThan_atLeast0)
  then show ?thesis using st(1-3) by blast
qed

lemma as_new_zero: "as_new 0 (d :: 'a) = None"
proof -
  have "chain_free 0 k ([] :: 'a node list) = None" if "0 < k" for k using that by (cases k) auto
  moreover have "0 < unat (0 - 1 :: size_t)" by (simp add: unat_max_word)
  ultimately show ?thesis by (simp add: as_new_def)
qed

text \<open>
  The constructor of a stack of nonzero capacity makes an empty stack in which as many pushes
  succeed as there are usable nodes: the capacity, but never more than \<open>2 ^ 32 - 1\<close>, because the
  index \<open>2 ^ 32 - 1\<close> is the end mark; a larger requested capacity is reported by \<^verbatim>\<open>capacity()\<close> and
  not provided. A capacity of 0 makes the chaining loop run out of the array.
\<close>

theorem as_new_correct:
  "as_new 0 (d :: 'a) = None \<and>
   (capacity \<noteq> 0 \<longrightarrow> (\<exists>st. as_new capacity d = Some st \<and> as_invar st \<and> as_contents st = [] \<and>
      as_capacity st = capacity \<and> as_usable st = min (unat capacity) (2 ^ 32 - 1)))"
proof -
  have "as_new 0 d = None" by (rule as_new_zero)
  moreover have "\<exists>st. as_new capacity d = Some st \<and> as_invar st \<and> as_contents st = [] \<and>
      as_capacity st = capacity \<and> as_usable st = min (unat capacity) (2 ^ 32 - 1)" if nz: "capacity \<noteq> 0"
  proof -
    obtain st where st: "as_new capacity d = Some st" "length (as_nodes st) = unat capacity"
      "as_capacity st = capacity" "as_lists st [] [0..<as_usable st]"
      using as_new_lists [OF nz, of d] by blast
    then show ?thesis
      using as_lists_contents [OF st(4)] by (auto simp: as_invar_def as_usable_def)
  qed
  ultimately show ?thesis by blast
qed

theorem as_new_correct_witness:
  "\<exists>st. as_new 4 (0::nat) = Some st \<and> as_contents st = [] \<and> as_usable st = 4"
  using as_new_correct [of 0 4] by auto

text \<open>
  C30. \<^verbatim>\<open>try_push\<close> and \<^verbatim>\<open>try_pop\<close> are a bounded last-in first-out stack: no call touches memory
  outside the node array; a push succeeds exactly below the usable capacity and puts its value
  on top; a pop returns the top value and removes it, or reports empty; a failed call changes
  nothing, and a pop after a push undoes it.
\<close>

theorem as_stack_correct:
  assumes "as_invar st"
  shows "\<exists>b st1 st2. as_try_push st v = Some (b, st1) \<and> as_invar st1 \<and> as_usable st1 = as_usable st \<and>
     (b \<longleftrightarrow> length (as_contents st) < as_usable st) \<and>
     as_contents st1 = (if b then v # as_contents st else as_contents st) \<and>
     as_try_pop st1 = Some (case as_contents st1 of [] \<Rightarrow> None | x # _ \<Rightarrow> Some x, st2) \<and>
     as_invar st2 \<and> as_contents st2 = tl (as_contents st1) \<and> as_usable st2 = as_usable st"
  using astack.push_total [OF assms, of v] astack.pop_total by metis

theorem as_stack_correct_witness:
  "\<exists>st st1 st2. as_new 2 (0::nat) = Some st \<and> as_try_push st 7 = Some (True, st1) \<and>
     as_try_pop st1 = Some (Some 7, st2) \<and> as_contents st2 = []"
proof -
  obtain st where st: "as_new 2 (0::nat) = Some st" "as_lists st [] [0..<as_usable st]"
    "length (as_nodes st) = 2"
    using as_new_lists [of 2 "0::nat"] by auto
  have inv: "as_invar st" "as_contents st = []" "0 < as_usable st"
    using st as_lists_contents [OF st(2)] by (auto simp: as_invar_def as_usable_def)
  show ?thesis using as_stack_correct [OF inv(1), of 7] inv(2,3) st(1) by auto
qed

end
