(* ===== verification/Object_Pool.thy ===== *)
theory Object_Pool
  imports Array_Stack
begin

text \<open>
  \<^verbatim>\<open>include/lockless/object_pool.hpp\<close>: the pool hands out pointers into \<^verbatim>\<open>pool_storage_\<close> and keeps
  the free indices on an \<^verbatim>\<open>ArrayLockFreeStack<uint32_t>\<close>. The pool never reads or writes the
  objects, so they are not modelled; a pointer is null or the element offset from
  \<^verbatim>\<open>pool_storage_.get()\<close>, the only thing about it the code computes with. All proofs go through the
  stack contract (\<open>astack\<close>), not through the representation of the stack. \<open>None\<close> is undefined
  behaviour or a loop that does not end; the thrown \<^verbatim>\<open>std::runtime_error\<close> is \<open>Inl PoolInitFailed\<close>.
\<close>

datatype pool_ptr = Null | At int

datatype pool_error = PoolInitFailed

record object_pool =
  op_capacity :: size_t
  op_free :: "uint32 array_stack"

partial_function (option) pool_fill ::
  "size_t \<Rightarrow> uint32 \<Rightarrow> uint32 array_stack \<Rightarrow> (pool_error + uint32 array_stack) option" where
  "pool_fill capacity i st =
     (if ucast i < capacity then
        case as_try_push st i of
          None \<Rightarrow> None
        | Some (ok, st') \<Rightarrow> if ok then pool_fill capacity (i + 1) st' else Some (Inl PoolInitFailed)
      else Some (Inr st))"

definition pool_new :: "size_t \<Rightarrow> (pool_error + object_pool) option" where
  "pool_new capacity =
     (case as_new capacity 0 of
        None \<Rightarrow> None
      | Some st \<Rightarrow> (case pool_fill capacity 0 st of
            None \<Rightarrow> None
          | Some (Inl e) \<Rightarrow> Some (Inl e)
          | Some (Inr st') \<Rightarrow> Some (Inr \<lparr>op_capacity = capacity, op_free = st'\<rparr>)))"

definition acquire :: "object_pool \<Rightarrow> (pool_ptr \<times> object_pool) option" where
  "acquire p =
     (case as_try_pop (op_free p) of
        None \<Rightarrow> None
      | Some (Some idx, st) \<Rightarrow> Some (At (int (unat idx)), p\<lparr>op_free := st\<rparr>)
      | Some (None, st) \<Rightarrow> Some (Null, p\<lparr>op_free := st\<rparr>))"

definition release :: "object_pool \<Rightarrow> pool_ptr \<Rightarrow> object_pool option" where
  "release p ptr =
     (case ptr of
        Null \<Rightarrow> Some p
      | At offset \<Rightarrow>
          if offset < 0 \<or> int (unat (op_capacity p)) \<le> offset then Some p
          else map_option (\<lambda>(b, st). p\<lparr>op_free := st\<rparr>) (as_try_push (op_free p) (word_of_int offset)))"

definition get_index :: "int \<Rightarrow> uint32" where
  "get_index offset = word_of_int offset"

definition get_by_index :: "object_pool \<Rightarrow> uint32 \<Rightarrow> pool_ptr" where
  "get_by_index p idx = (if op_capacity p \<le> ucast idx then Null else At (int (unat idx)))"

definition pool_capacity :: "object_pool \<Rightarrow> size_t" where
  "pool_capacity p = op_capacity p"

subsection \<open>Invariant\<close>

text \<open>The objects that are in nobody's hands.\<close>

definition pool_available :: "object_pool \<Rightarrow> nat set" where
  "pool_available p = unat ` set (as_contents (op_free p))"

definition pool_invar :: "object_pool \<Rightarrow> bool" where
  "pool_invar p \<longleftrightarrow> as_invar (op_free p) \<and> as_usable (op_free p) = unat (op_capacity p) \<and>
     unat (op_capacity p) < 2 ^ 32 \<and> distinct (as_contents (op_free p)) \<and>
     pool_available p \<subseteq> {..<unat (op_capacity p)}"

lemma pool_fill_loop:
  assumes "as_invar st" "as_usable st = min (unat capacity) (2 ^ 32 - 1)" "k \<le> as_usable st"
    "as_contents st = rev (map word_of_nat [0..<k])"
  shows "\<exists>r. pool_fill capacity (word_of_nat k) st = Some r \<and>
    (case r of Inl e \<Rightarrow> 2 ^ 32 \<le> unat capacity
     | Inr st' \<Rightarrow> unat capacity < 2 ^ 32 \<and> as_invar st' \<and> as_usable st' = unat capacity \<and>
         as_contents st' = rev (map word_of_nat [0..<unat capacity]))"
  using assms
proof (induction "as_usable st - k" arbitrary: k st)
  case 0
  then have k: "k = as_usable st" using "0.hyps" "0.prems"(3) by linarith
  have u: "unat (word_of_nat k :: uint32) = k" using 0 by (simp add: unat_of_nat)
  have "length (as_contents st) = as_usable st" using 0 k by simp
  then have "as_try_push st (word_of_nat k) = Some (False, st)" by (rule astack.push_full [OF "0.prems"(1)])
  moreover have "ucast (word_of_nat k :: uint32) < capacity \<longleftrightarrow> k < unat capacity"
    using u by (simp add: word_less_nat_alt unat_ucast_32_64)
  ultimately show ?case using 0 k by (subst pool_fill.simps) (auto simp: min_def split: if_splits)
next
  case (Suc n)
  have k: "k < as_usable st" using Suc.hyps(2) by linarith
  then have u: "unat (word_of_nat k :: uint32) = k" using Suc.prems(2) by (intro unat_of_nat_32) simp
  have lt: "ucast (word_of_nat k :: uint32) < capacity"
    using k u Suc.prems(2) by (simp add: word_less_nat_alt unat_ucast_32_64)
  have "length (as_contents st) < as_usable st" using Suc.prems(4) k by simp
  from astack.push_ok [OF Suc.prems(1) this, of "word_of_nat k"] obtain st' where st':
    "as_try_push st (word_of_nat k) = Some (True, st')" "as_invar st'"
    "as_contents st' = word_of_nat k # as_contents st" "as_usable st' = as_usable st" by blast
  have "pool_fill capacity (word_of_nat k) st = pool_fill capacity (word_of_nat (Suc k)) st'"
    using st'(1) lt by (subst pool_fill.simps) (simp add: add.commute)
  with Suc.hyps(1) [of st' "Suc k"] Suc.hyps(2) Suc.prems k st' show ?case by (simp del: of_nat_Suc)
qed

lemma word_of_nat_inj_32: "inj_on (word_of_nat :: nat \<Rightarrow> uint32) {..<2 ^ 32}"
  by (rule inj_on_inverseI [of _ unat]) (simp add: unat_of_nat_32)

lemma pool_new_cases:
  assumes "capacity \<noteq> 0"
  shows "\<exists>r. pool_new capacity = Some r \<and>
     (case r of Inl e \<Rightarrow> 2 ^ 32 \<le> unat capacity
      | Inr p \<Rightarrow> unat capacity < 2 ^ 32 \<and> pool_invar p \<and> op_capacity p = capacity \<and>
                 pool_available p = {..<unat capacity} \<and>
                 as_contents (op_free p) = rev (map word_of_nat [0..<unat capacity]))"
proof -
  obtain st where st: "as_new capacity (0 :: uint32) = Some st" "length (as_nodes st) = unat capacity"
    "as_lists st [] [0..<as_usable st]" using as_new_lists [OF assms, of "0 :: uint32"] by blast
  have i: "as_invar st" "as_contents st = []" "as_usable st = min (unat capacity) (2 ^ 32 - 1)"
    using st(2,3) as_lists_contents [OF st(3)] by (auto simp: as_invar_def as_usable_def)
  obtain r where r: "pool_fill capacity (word_of_nat 0) st = Some r"
    "case r of Inl e \<Rightarrow> 2 ^ 32 \<le> unat capacity
     | Inr st' \<Rightarrow> unat capacity < 2 ^ 32 \<and> as_invar st' \<and> as_usable st' = unat capacity \<and>
         as_contents st' = rev (map word_of_nat [0..<unat capacity])"
    using pool_fill_loop [of st capacity 0] i by auto
  have f: "pool_fill capacity 0 st = Some r" using r(1) by simp
  show ?thesis
  proof (cases r)
    case (Inl e)
    then show ?thesis using st(1) f r(2) by (simp add: pool_new_def)
  next
    case (Inr st')
    then have c: "unat capacity < 2 ^ 32" "as_invar st'" "as_usable st' = unat capacity"
      "as_contents st' = rev (map word_of_nat [0..<unat capacity])" using r(2) by auto
    have av: "unat ` set (as_contents st') = {..<unat capacity}"
      using c(1,4) by (force simp: image_iff unat_of_nat)
    have "inj_on (word_of_nat :: nat \<Rightarrow> uint32) {0..<unat capacity}"
      using c(1) by (intro inj_on_subset [OF word_of_nat_inj_32]) auto
    then have "distinct (as_contents st')" using c(4) by (simp add: distinct_map)
    then show ?thesis using Inr st(1) f c av by (simp add: pool_new_def pool_invar_def pool_available_def)
  qed
qed

lemma pool_new_ok:
  assumes "capacity \<noteq> 0" "unat capacity < 2 ^ 32"
  shows "\<exists>p. pool_new capacity = Some (Inr p) \<and> pool_invar p \<and> op_capacity p = capacity \<and>
    pool_available p = {..<unat capacity} \<and> as_contents (op_free p) = rev (map word_of_nat [0..<unat capacity])"
proof -
  obtain r where "pool_new capacity = Some r" "case r of Inl e \<Rightarrow> 2 ^ 32 \<le> unat capacity
      | Inr p \<Rightarrow> unat capacity < 2 ^ 32 \<and> pool_invar p \<and> op_capacity p = capacity \<and>
                 pool_available p = {..<unat capacity} \<and>
                 as_contents (op_free p) = rev (map word_of_nat [0..<unat capacity])"
    using pool_new_cases [OF assms(1)] by blast
  then show ?thesis using assms(2) by (cases r) auto
qed

lemma pool_new_too_large:
  assumes "2 ^ 32 \<le> unat capacity"
  shows "pool_new capacity = Some (Inl PoolInitFailed)"
proof -
  have "capacity \<noteq> 0" using assms by auto
  from pool_new_cases [OF this] have "\<exists>e. pool_new capacity = Some (Inl e)"
    apply (elim exE conjE)
    subgoal for r using assms by (cases r) auto
    done
  then show ?thesis by (metis pool_error.exhaust)
qed

lemma pool_new_zero: "pool_new 0 = None"
  using as_new_zero [of "0 :: uint32"] by (simp add: pool_new_def)

text \<open>
  Construction: a pool of 1 to \<open>2 ^ 32 - 1\<close> objects has all of them available; from \<open>2 ^ 32\<close> on
  the constructor throws, after the index stack runs full; a pool of capacity 0 is undefined
  behaviour. The loop over the 32-bit counter always ends.
\<close>

theorem pool_new_correct:
  "pool_new 0 = None \<and> (2 ^ 32 \<le> unat capacity \<longrightarrow> pool_new capacity = Some (Inl PoolInitFailed)) \<and>
   (capacity \<noteq> 0 \<and> unat capacity < 2 ^ 32 \<longrightarrow>
     (\<exists>p. pool_new capacity = Some (Inr p) \<and> pool_invar p \<and> op_capacity p = capacity \<and>
          pool_available p = {..<unat capacity}))"
  using pool_new_zero pool_new_too_large pool_new_ok by blast

theorem pool_new_correct_witness:
  "(\<exists>p. pool_new 3 = Some (Inr p) \<and> pool_available p = {..<3}) \<and> pool_new 0x100000000 = Some (Inl PoolInitFailed)"
  using pool_new_correct [of 3] pool_new_correct [of "0x100000000"] by auto

subsection \<open>Acquiring and releasing\<close>

text \<open>
  \<^verbatim>\<open>acquire\<close> returns null exactly if no object is available, and otherwise a pointer to an object
  that was available and is so no longer; \<^verbatim>\<open>get_index\<close> and \<^verbatim>\<open>get_by_index\<close> name that object.
\<close>

lemma pool_acquire_correct:
  assumes "pool_invar p"
  shows "\<exists>ptr p'. acquire p = Some (ptr, p') \<and> pool_invar p' \<and> op_capacity p' = op_capacity p \<and>
     (case ptr of Null \<Rightarrow> pool_available p = {} \<and> p' = p
      | At offset \<Rightarrow> \<exists>k. offset = int k \<and> k \<in> pool_available p \<and> k < unat (op_capacity p) \<and>
          pool_available p' = pool_available p - {k} \<and> get_by_index p' (get_index offset) = ptr)"
proof (cases "as_contents (op_free p)")
  case Nil
  then have "acquire p = Some (Null, p)"
    using astack.pop_empty [of "op_free p"] assms by (simp add: acquire_def pool_invar_def)
  then show ?thesis using assms Nil by (simp add: pool_available_def)
next
  case (Cons i js)
  have inv: "as_invar (op_free p)" "distinct (as_contents (op_free p))"
    "pool_available p \<subseteq> {..<unat (op_capacity p)}" using assms by (auto simp: pool_invar_def)
  obtain st where st: "as_try_pop (op_free p) = Some (Some i, st)" "as_invar st" "as_contents st = js"
    "as_usable st = as_usable (op_free p)" using astack.pop_ok [OF inv(1) Cons] by blast
  let ?p' = "p\<lparr>op_free := st\<rparr>"
  obtain k where u: "unat i = k" by simp
  have k: "k \<in> pool_available p" "k < unat (op_capacity p)"
    using Cons inv(3) u by (auto simp: pool_available_def)
  have av: "pool_available ?p' = pool_available p - {k}"
    using Cons inv(2) st(3) u by (auto simp: pool_available_def simp flip: word_unat_eq_iff)
  have "word_of_nat k = i" using u by (metis word_unat_eq_iff unat_of_nat_32 unat_less_32)
  then have "get_by_index ?p' (get_index (int k)) = At (int k)"
    using k(2) u by (simp add: get_by_index_def get_index_def word_le_nat_alt unat_ucast_32_64 del: of_nat_unat)
  moreover have "pool_invar ?p'" using assms st Cons av inv(3) by (auto simp: pool_invar_def)
  moreover have "acquire p = Some (At (int k), ?p')" using st(1) u by (simp add: acquire_def del: of_nat_unat)
  ultimately show ?thesis using k av by auto
qed

text \<open>
  Releasing an object that is not available makes it available again, and nothing else changes;
  null pointers and pointers outside the pool are ignored. \<^verbatim>\<open>acquire\<close> after \<^verbatim>\<open>release\<close> hands out
  the object released last.
\<close>

lemma pool_release_correct:
  assumes "pool_invar p"
  shows "release p Null = Some p"
    "offset < 0 \<or> int (unat (op_capacity p)) \<le> offset \<Longrightarrow> release p (At offset) = Some p"
    "k < unat (op_capacity p) \<Longrightarrow> k \<notin> pool_available p \<Longrightarrow>
       \<exists>p'. release p (At (int k)) = Some p' \<and> pool_invar p' \<and> op_capacity p' = op_capacity p \<and>
         pool_available p' = insert k (pool_available p) \<and> (\<exists>p''. acquire p' = Some (At (int k), p''))"
proof -
  show "release p Null = Some p" by (simp add: release_def)
  show "offset < 0 \<or> int (unat (op_capacity p)) \<le> offset \<Longrightarrow> release p (At offset) = Some p"
    by (simp only: release_def pool_ptr.case if_True)
  assume k: "k < unat (op_capacity p)" "k \<notin> pool_available p"
  have inv: "as_invar (op_free p)" "as_usable (op_free p) = unat (op_capacity p)" "unat (op_capacity p) < 2 ^ 32"
    "distinct (as_contents (op_free p))" "pool_available p \<subseteq> {..<unat (op_capacity p)}"
    using assms by (auto simp: pool_invar_def)
  have u: "unat (word_of_nat k :: uint32) = k" using k(1) inv(3) by (intro unat_of_nat_32) simp
  have card: "length (as_contents (op_free p)) = card (pool_available p)"
    using inv(4) by (simp add: pool_available_def card_image inj_on_def word_unat_eq_iff distinct_card)
  also have "\<dots> < card {..<unat (op_capacity p)}"
    by (rule psubset_card_mono) (use inv(5) k in auto)
  finally have "length (as_contents (op_free p)) < as_usable (op_free p)" using inv(2) by simp
  from astack.push_pop [OF inv(1) this, of "word_of_nat k"] astack.push_ok [OF inv(1) this, of "word_of_nat k"]
  obtain st st2 where st: "as_try_push (op_free p) (word_of_nat k) = Some (True, st)" "as_invar st"
    "as_contents st = word_of_nat k # as_contents (op_free p)" "as_usable st = as_usable (op_free p)"
    "as_try_pop st = Some (Some (word_of_nat k), st2)" by auto
  let ?p' = "p\<lparr>op_free := st\<rparr>"
  have "\<not> (int k < 0 \<or> int (unat (op_capacity p)) \<le> int k)" using k(1) by linarith
  then have "release p (At (int k)) = Some ?p'"
    using st(1) by (simp del: of_nat_unat add: release_def)
  moreover have av: "pool_available ?p' = insert k (pool_available p)"
    using st(3) u by (simp add: pool_available_def)
  moreover have "word_of_nat k \<notin> set (as_contents (op_free p))"
    using k(2) u by (auto simp: pool_available_def image_iff)
  then have "pool_invar ?p'" using inv st av k(1) by (auto simp: pool_invar_def)
  moreover have "acquire ?p' = Some (At (int k), ?p'\<lparr>op_free := st2\<rparr>)"
    using st(5) u by (simp del: of_nat_unat add: acquire_def)
  ultimately show "\<exists>p'. release p (At (int k)) = Some p' \<and> pool_invar p' \<and> op_capacity p' = op_capacity p \<and>
         pool_available p' = insert k (pool_available p) \<and> (\<exists>p''. acquire p' = Some (At (int k), p''))"
    by auto
qed

text \<open>
  Clients that keep to the rules: they release only what they hold. \<open>pool_reach capacity p held\<close>
  is a pool in use by such clients, \<open>held\<close> the objects in their hands.
\<close>

inductive pool_reach :: "size_t \<Rightarrow> object_pool \<Rightarrow> nat set \<Rightarrow> bool" for capacity where
  start: "pool_new capacity = Some (Inr p) \<Longrightarrow> pool_reach capacity p {}"
| got: "pool_reach capacity p held \<Longrightarrow> acquire p = Some (At (int k), p') \<Longrightarrow> pool_reach capacity p' (insert k held)"
| none: "pool_reach capacity p held \<Longrightarrow> acquire p = Some (Null, p') \<Longrightarrow> pool_reach capacity p' held"
| gave: "pool_reach capacity p held \<Longrightarrow> k \<in> held \<Longrightarrow> release p (At (int k)) = Some p' \<Longrightarrow>
    pool_reach capacity p' (held - {k})"

lemma pool_reach_inv:
  "pool_reach capacity p held \<Longrightarrow> pool_invar p \<and> op_capacity p = capacity \<and>
     held \<union> pool_available p = {..<unat capacity} \<and> held \<inter> pool_available p = {}"
proof (induction rule: pool_reach.induct)
  case (start p)
  then have "capacity \<noteq> 0" "unat capacity < 2 ^ 32"
    using pool_new_zero pool_new_too_large [of capacity] by (auto simp: not_less [symmetric])
  then show ?case using pool_new_ok [of capacity] start by auto
next
  case (got p held k p')
  then show ?case using pool_acquire_correct [of p] by auto
next
  case (none p held p')
  then show ?case using pool_acquire_correct [of p] by auto
next
  case (gave p held k p')
  then have "k < unat (op_capacity p)" "k \<notin> pool_available p" by auto
  then show ?case using pool_release_correct(3) [of p k] gave by auto
qed

text \<open>
  C37. No object is ever in two hands: as long as clients release only what they hold, every object
  is either held or available, \<^verbatim>\<open>acquire\<close> returns a valid object that nobody holds, and it
  returns null exactly when all objects are held.
\<close>

theorem pool_no_double_use:
  assumes "pool_reach capacity p held"
  shows "\<exists>ptr p'. acquire p = Some (ptr, p') \<and>
    (case ptr of Null \<Rightarrow> held = {..<unat capacity}
     | At offset \<Rightarrow> \<exists>k. offset = int k \<and> k < unat capacity \<and> k \<notin> held \<and> get_by_index p (get_index offset) = ptr)"
proof -
  note inv = pool_reach_inv [OF assms]
  obtain ptr p' where a: "acquire p = Some (ptr, p')" "op_capacity p' = op_capacity p"
    "case ptr of Null \<Rightarrow> pool_available p = {} \<and> p' = p
      | At offset \<Rightarrow> \<exists>k. offset = int k \<and> k \<in> pool_available p \<and> k < unat (op_capacity p) \<and>
          pool_available p' = pool_available p - {k} \<and> get_by_index p' (get_index offset) = ptr"
    using pool_acquire_correct [of p] inv by blast
  show ?thesis
  proof (cases ptr)
    case Null
    then show ?thesis using a inv by auto
  next
    case (At offset)
    then obtain k where "offset = int k" "k \<in> pool_available p" "k < unat capacity"
      "get_by_index p (get_index offset) = ptr"
      using a inv by (auto simp: get_by_index_def)
    then show ?thesis using a(1) At inv by (intro exI [of _ ptr] exI [of _ p']) auto
  qed
qed

lemma pool_two:
  obtains p where "pool_new 2 = Some (Inr p)" "as_invar (op_free p)" "op_capacity p = 2"
    "as_contents (op_free p) = [1, 0]" "as_usable (op_free p) = 2"
proof -
  have "[0..<2] = [0, Suc 0]" by (simp add: upt_rec)
  then show ?thesis using pool_new_ok [of 2] that by (auto simp: pool_invar_def)
qed

theorem pool_no_double_use_witness:
  "\<exists>p p1 ptr p2. pool_new 2 = Some (Inr p) \<and> acquire p = Some (At 1, p1) \<and> acquire p1 = Some (ptr, p2) \<and> ptr \<noteq> At 1"
proof -
  obtain p where p: "pool_new 2 = Some (Inr p)" "as_invar (op_free p)" "op_capacity p = 2"
    "as_contents (op_free p) = [1, 0]" by (rule pool_two)
  obtain st where "as_try_pop (op_free p) = Some (Some 1, st)" using astack.pop_ok [OF p(2,4)] by blast
  then have a: "acquire p = Some (At (int 1), p\<lparr>op_free := st\<rparr>)" by (simp add: acquire_def)
  have "pool_reach 2 (p\<lparr>op_free := st\<rparr>) {1}"
    using pool_reach.got [OF pool_reach.start [OF p(1)] a] by simp
  from pool_no_double_use [OF this] have
    "\<exists>ptr p2. acquire (p\<lparr>op_free := st\<rparr>) = Some (ptr, p2) \<and> ptr \<noteq> At 1"
    apply (elim exE conjE)
    subgoal for ptr p2 by (cases ptr) auto
    done
  then show ?thesis using p(1) a by auto
qed

text \<open>
  The rule matters: \<^verbatim>\<open>release\<close> does not notice an object that is already available. After a
  double release the pool hands the same object to two clients.
\<close>

theorem pool_double_release:
  "\<exists>p p1 p2 p3 p4 p5 p6. pool_new 2 = Some (Inr p) \<and> acquire p = Some (At 1, p1) \<and>
     acquire p1 = Some (At 0, p2) \<and> release p2 (At 1) = Some p3 \<and> release p3 (At 1) = Some p4 \<and>
     acquire p4 = Some (At 1, p5) \<and> acquire p5 = Some (At 1, p6)"
proof -
  obtain p where p: "pool_new 2 = Some (Inr p)" "as_invar (op_free p)" "op_capacity p = 2"
    "as_contents (op_free p) = [1, 0]" "as_usable (op_free p) = 2" by (rule pool_two)
  obtain s1 where s1: "as_try_pop (op_free p) = Some (Some 1, s1)" "as_invar s1" "as_contents s1 = [0]"
    "as_usable s1 = 2" using astack.pop_ok [OF p(2,4)] p(5) by auto
  obtain s2 where s2: "as_try_pop s1 = Some (Some 0, s2)" "as_invar s2" "as_contents s2 = []"
    "as_usable s2 = 2" using astack.pop_ok [OF s1(2,3)] s1(4) by auto
  obtain s3 where s3: "as_try_push s2 1 = Some (True, s3)" "as_invar s3" "as_contents s3 = [1]"
    "as_usable s3 = 2" using astack.push_ok [OF s2(2), of 1] s2 by auto
  obtain s4 where s4: "as_try_push s3 1 = Some (True, s4)" "as_invar s4" "as_contents s4 = [1, 1]"
    "as_usable s4 = 2" using astack.push_ok [OF s3(2), of 1] s3 by auto
  obtain s5 where s5: "as_try_pop s4 = Some (Some 1, s5)" "as_invar s5" "as_contents s5 = [1]"
    using astack.pop_ok [OF s4(2,3)] by auto
  obtain s6 where s6: "as_try_pop s5 = Some (Some 1, s6)" using astack.pop_ok [OF s5(2,3)] by auto
  let ?q = "\<lambda>s. p\<lparr>op_free := s\<rparr>"
  have "acquire p = Some (At 1, ?q s1)" "acquire (?q s1) = Some (At 0, ?q s2)"
    "release (?q s2) (At 1) = Some (?q s3)" "release (?q s3) (At 1) = Some (?q s4)"
    "acquire (?q s4) = Some (At 1, ?q s5)" "acquire (?q s5) = Some (At 1, ?q s6)"
    using s1(1) s2(1) s3(1) s4(1) s5(1) s6 p(3) by (simp_all add: acquire_def release_def)
  then show ?thesis using p(1) by blast
qed

end
