(* ===== verification/Array_Stack_Conc.thy ===== *)
theory Array_Stack_Conc
  imports Array_Stack Linearizability
begin

text \<open>
  \<^verbatim>\<open>ArrayLockFreeStack\<close> under any number of threads. An operation takes an index off one list
  (\<^verbatim>\<open>pop_index\<close>), accesses the node's data, and puts the index on the other list
  (\<^verbatim>\<open>push_index\<close>); every step below is one access of shared memory, and the weak
  compare-exchanges may fail spuriously. The ghost fields are the two index lists, the numbers of
  successful compare-exchanges on each head word, and, per node, the value that the last
  successful pop removed with it. No operation reads them.

  The tags are 32-bit counters. The theorems hold as long as each head word has been exchanged
  fewer than \<open>2 ^ 32\<close> times, which is when the tag still identifies the version of the list and
  rules out the ABA problem; this is the assumption the algorithm itself makes.
\<close>

record 'a as_global =
  ag_st :: "'a array_stack"
  ag_ds :: "nat list"
  ag_fs :: "nat list"
  ag_nd :: nat
  ag_nf :: nat
  ag_taken :: "nat \<Rightarrow> 'a"

datatype 'a as_pc =
    AsIdle
  | TakeLoad "'a stack_op"               \<comment> \<open>\<^verbatim>\<open>pop_index\<close>: about to load the head word\<close>
  | TakeNext "'a stack_op" uint64        \<comment> \<open>about to load \<^verbatim>\<open>next\<close> of the old head\<close>
  | TakeCas "'a stack_op" uint64 uint32
  | Access "'a stack_op" uint32          \<comment> \<open>owns the node, about to write or read its data\<close>
  | PutLoad "'a stack_res" uint32        \<comment> \<open>\<^verbatim>\<open>push_index\<close>: about to load the head word\<close>
  | PutStore "'a stack_res" uint32 uint64
  | PutCas "'a stack_res" uint32 uint64
  | AsRet "'a stack_res"
  | AsUndefined                       \<comment> \<open>an access outside the node array\<close>

datatype 'a as_act = AsCall "'a stack_op" | AsGo bool

primrec take_from :: "'a stack_op \<Rightarrow> which" where
  "take_from (OpPush v) = FreeHead"
| "take_from OpPop = DataHead"

primrec put_to :: "'a stack_res \<Rightarrow> which" where
  "put_to (Pushed v) = DataHead"
| "put_to (Popped v) = FreeHead"
| "put_to Failed = FreeHead"

definition take_check :: "'a stack_op \<Rightarrow> uint64 \<Rightarrow> 'a as_pc" where
  "take_check op raw = (if hd_index (unpack raw) = NULL_INDEX then AsRet Failed else TakeNext op raw)"

text \<open>Ghost updates of the successful compare-exchanges.\<close>

definition ghost_take :: "which \<Rightarrow> nat \<Rightarrow> 'a as_global \<Rightarrow> 'a as_global" where
  "ghost_take w x g = (case w of
     DataHead \<Rightarrow> g\<lparr>ag_ds := tl (ag_ds g), ag_nd := ag_nd g + 1,
                   ag_taken := (ag_taken g)(x := nd_data (as_nodes (ag_st g) ! x))\<rparr>
   | FreeHead \<Rightarrow> g\<lparr>ag_fs := tl (ag_fs g), ag_nf := ag_nf g + 1\<rparr>)"

definition ghost_put :: "which \<Rightarrow> nat \<Rightarrow> 'a as_global \<Rightarrow> 'a as_global" where
  "ghost_put w x g = (case w of
     DataHead \<Rightarrow> g\<lparr>ag_ds := x # ag_ds g, ag_nd := ag_nd g + 1\<rparr>
   | FreeHead \<Rightarrow> g\<lparr>ag_fs := x # ag_fs g, ag_nf := ag_nf g + 1\<rparr>)"

fun as_go :: "bool \<Rightarrow> 'a as_global \<Rightarrow> 'a as_pc \<Rightarrow> 'a as_global \<times> 'a as_pc" where
  "as_go sp g AsIdle = (g, AsIdle)"
| "as_go sp g (TakeLoad op) = (g, take_check op (target (take_from op) (ag_st g)))"
| "as_go sp g (TakeNext op raw) =
     (case load_next (ag_st g) (hd_index (unpack raw)) of
        None \<Rightarrow> (g, AsUndefined)
      | Some next_idx \<Rightarrow> (g, TakeCas op raw next_idx))"
| "as_go sp g (TakeCas op raw next_idx) =
     (let w = take_from op; old_head = unpack raw in
      if target w (ag_st g) = raw \<and> \<not> sp then
        (ghost_take w (unat (hd_index old_head))
           (g\<lparr>ag_st := set_target w (pack next_idx (hd_tag old_head + 1)) (ag_st g)\<rparr>),
         Access op (hd_index old_head))
      else (g, take_check op (target w (ag_st g))))"
| "as_go sp g (Access (OpPush v) i) =
     (case store_data (ag_st g) i v of
        None \<Rightarrow> (g, AsUndefined)
      | Some st \<Rightarrow> (g\<lparr>ag_st := st\<rparr>, PutLoad (Pushed v) i))"
| "as_go sp g (Access OpPop i) =
     (case load_data (ag_st g) i of
        None \<Rightarrow> (g, AsUndefined)
      | Some v \<Rightarrow> (g, PutLoad (Popped v) i))"
| "as_go sp g (PutLoad r i) = (g, PutStore r i (target (put_to r) (ag_st g)))"
| "as_go sp g (PutStore r i raw) =
     (case store_next (ag_st g) i (hd_index (unpack raw)) of
        None \<Rightarrow> (g, AsUndefined)
      | Some st \<Rightarrow> (g\<lparr>ag_st := st\<rparr>, PutCas r i raw))"
| "as_go sp g (PutCas r i raw) =
     (let w = put_to r in
      if target w (ag_st g) = raw \<and> \<not> sp then
        (ghost_put w (unat i) (g\<lparr>ag_st := set_target w (pack i (hd_tag (unpack raw) + 1)) (ag_st g)\<rparr>), AsRet r)
      else (g, PutStore r i (target w (ag_st g))))"
| "as_go sp g (AsRet r) = (g, AsIdle)"
| "as_go sp g AsUndefined = (g, AsUndefined)"

fun as_exec :: "'a as_act \<Rightarrow> 'a as_global \<Rightarrow> 'a as_pc \<Rightarrow> 'a as_global \<times> 'a as_pc" where
  "as_exec (AsCall op) g l = (case l of AsIdle \<Rightarrow> (g, TakeLoad op) | _ \<Rightarrow> (g, l))"
| "as_exec (AsGo sp) g l = as_go sp g l"

text \<open>
  Threads start on a stack that is between calls: a new one, or one that a single thread has already
  used. The exchanges are counted from the construction on, as the tags do.
\<close>

definition as_ginit :: "'a as_global \<Rightarrow> bool" where
  "as_ginit g \<longleftrightarrow> as_lists (ag_st g) (ag_ds g) (ag_fs g) \<and>
     ag_nd g = unat (hd_tag (unpack (as_head (ag_st g)))) \<and> ag_nf g = unat (hd_tag (unpack (as_free (ag_st g))))"

abbreviation as_reach :: "('a as_global, 'a as_pc) config \<Rightarrow> bool" where
  "as_reach \<equiv> reach as_exec as_ginit (\<lambda>_. AsIdle)"

definition as_bound :: "'a as_global \<Rightarrow> bool" where
  "as_bound g \<longleftrightarrow> ag_nd g < 2 ^ 32 \<and> ag_nf g < 2 ^ 32"

subsection \<open>Invariant\<close>

primrec g_list :: "which \<Rightarrow> 'a as_global \<Rightarrow> nat list" where
  "g_list DataHead g = ag_ds g"
| "g_list FreeHead g = ag_fs g"

primrec g_ver :: "which \<Rightarrow> 'a as_global \<Rightarrow> nat" where
  "g_ver DataHead g = ag_nd g"
| "g_ver FreeHead g = ag_nf g"

definition head_ok :: "which \<Rightarrow> 'a as_global \<Rightarrow> bool" where
  "head_ok w g \<longleftrightarrow> chain (as_nodes (ag_st g)) (hd_index (unpack (target w (ag_st g)))) (g_list w g) \<and>
     unat (hd_tag (unpack (target w (ag_st g)))) = g_ver w g"

definition as_G :: "'a as_global \<Rightarrow> bool" where
  "as_G g \<longleftrightarrow> head_ok DataHead g \<and> head_ok FreeHead g \<and> distinct (ag_ds g @ ag_fs g) \<and>
     (\<forall>x \<in> set (ag_ds g @ ag_fs g). x < as_usable (ag_st g))"

text \<open>
  A head word read earlier carries a tag not above the current version, and if it carries the
  current version it is the current head word.
\<close>

definition raw_ok :: "which \<Rightarrow> 'a as_global \<Rightarrow> uint64 \<Rightarrow> bool" where
  "raw_ok w g raw \<longleftrightarrow> unat (hd_tag (unpack raw)) \<le> g_ver w g \<and>
     (unat (hd_tag (unpack raw)) = g_ver w g \<longrightarrow> raw = target w (ag_st g))"

definition idx_ok :: "'a as_global \<Rightarrow> uint32 \<Rightarrow> bool" where
  "idx_ok g i \<longleftrightarrow> i \<noteq> NULL_INDEX \<and> unat i < length (as_nodes (ag_st g))"

definition owned_ok :: "'a as_global \<Rightarrow> uint32 \<Rightarrow> bool" where
  "owned_ok g i \<longleftrightarrow> idx_ok g i \<and> unat i \<notin> set (ag_ds g) \<and> unat i \<notin> set (ag_fs g)"

primrec res_ok :: "'a as_global \<Rightarrow> uint32 \<Rightarrow> 'a stack_res \<Rightarrow> bool" where
  "res_ok g i (Pushed v) = (nd_data (as_nodes (ag_st g) ! unat i) = v)"
| "res_ok g i (Popped v) = (ag_taken g (unat i) = v)"
| "res_ok g i Failed = False"

fun as_L :: "'a as_global \<Rightarrow> 'a as_pc \<Rightarrow> bool" where
  "as_L g (TakeNext op raw) = (raw_ok (take_from op) g raw \<and> idx_ok g (hd_index (unpack raw)))"
| "as_L g (TakeCas op raw next_idx) =
     (raw_ok (take_from op) g raw \<and> idx_ok g (hd_index (unpack raw)) \<and>
      (raw = target (take_from op) (ag_st g) \<longrightarrow> nd_next (as_nodes (ag_st g) ! unat (hd_index (unpack raw))) = next_idx))"
| "as_L g (Access op i) = (owned_ok g i \<and>
     (op = OpPop \<longrightarrow> ag_taken g (unat i) = nd_data (as_nodes (ag_st g) ! unat i)))"
| "as_L g (PutLoad r i) = (owned_ok g i \<and> res_ok g i r)"
| "as_L g (PutStore r i raw) = (owned_ok g i \<and> res_ok g i r)"
| "as_L g (PutCas r i raw) = (owned_ok g i \<and> res_ok g i r \<and> nd_next (as_nodes (ag_st g) ! unat i) = hd_index (unpack raw))"
| "as_L g AsUndefined = False"
| "as_L g _ = True"

fun owns :: "'a as_pc \<Rightarrow> uint32 option" where
  "owns (Access op i) = Some i"
| "owns (PutLoad r i) = Some i"
| "owns (PutStore r i raw) = Some i"
| "owns (PutCas r i raw) = Some i"
| "owns _ = None"

definition as_X :: "'a as_pc \<Rightarrow> 'a as_pc \<Rightarrow> bool" where
  "as_X l m \<longleftrightarrow> (owns l = None \<or> owns m = None \<or> owns l \<noteq> owns m)"

subsection \<open>The four kinds of steps\<close>

text \<open>A node changed by its owner.\<close>

definition set_node :: "'a as_global \<Rightarrow> uint32 \<Rightarrow> 'a node \<Rightarrow> 'a as_global" where
  "set_node g i nd = g\<lparr>ag_st := (ag_st g)\<lparr>as_nodes := (as_nodes (ag_st g))[unat i := nd]\<rparr>\<rparr>"

lemma set_node_sel [simp]:
  "ag_ds (set_node g i nd) = ag_ds g" "ag_fs (set_node g i nd) = ag_fs g"
  "ag_nd (set_node g i nd) = ag_nd g" "ag_nf (set_node g i nd) = ag_nf g"
  "ag_taken (set_node g i nd) = ag_taken g"
  "as_nodes (ag_st (set_node g i nd)) = (as_nodes (ag_st g))[unat i := nd]"
  "g_list w (set_node g i nd) = g_list w g" "g_ver w (set_node g i nd) = g_ver w g"
  "target w (ag_st (set_node g i nd)) = target w (ag_st g)"
  "as_usable (ag_st (set_node g i nd)) = as_usable (ag_st g)"
  by (cases w; simp add: set_node_def as_usable_def)+

lemma store_next_node:
  "idx_ok g i \<Longrightarrow> store_next (ag_st g) i v = Some (ag_st (set_node g i ((as_nodes (ag_st g) ! unat i)\<lparr>nd_next := v\<rparr>)))"
  by (simp add: store_next_def idx_ok_def set_node_def)

lemma store_data_node:
  "idx_ok g i \<Longrightarrow> store_data (ag_st g) i v = Some (ag_st (set_node g i ((as_nodes (ag_st g) ! unat i)\<lparr>nd_data := v\<rparr>)))"
  by (simp add: store_data_def idx_ok_def set_node_def)

lemma set_node_ag_st: "g\<lparr>ag_st := ag_st (set_node g i nd)\<rparr> = set_node g i nd"
  by (simp add: set_node_def)

lemma as_G_head: "as_G g \<Longrightarrow> head_ok w g"
  by (cases w) (auto simp: as_G_def)

lemma head_in_list:
  assumes "as_G g" "hd_index (unpack (target w (ag_st g))) \<noteq> NULL_INDEX"
  shows "\<exists>xs. g_list w g = unat (hd_index (unpack (target w (ag_st g)))) # xs"
  using as_G_head [OF assms(1), of w] assms(2) by (cases "g_list w g") (auto simp: head_ok_def)

lemma g_list_disjoint:
  assumes "as_G g" "x \<in> set (g_list w g)"
  shows "x \<in> set (ag_ds g) \<or> x \<in> set (ag_fs g)"
  using assms by (cases w) auto

lemma head_not_owned:
  assumes "as_G g" "owned_ok g i" "hd_index (unpack (target w (ag_st g))) \<noteq> NULL_INDEX"
  shows "unat (hd_index (unpack (target w (ag_st g)))) \<noteq> unat i"
  using head_in_list [OF assms(1,3)] g_list_disjoint [OF assms(1)] assms(2)
  by (metis list.set_intros(1) owned_ok_def)

lemma set_node_G:
  assumes "as_G g" "owned_ok g i"
  shows "as_G (set_node g i nd)"
  using assms by (simp add: as_G_def head_ok_def owned_ok_def)

lemma set_node_other:
  assumes "as_G g" "owned_ok g i" "as_L g m" "owns m \<noteq> Some i"
  shows "as_L (set_node g i nd) m"
proof -
  have same: "(as_nodes (ag_st g))[unat i := nd] ! unat j = as_nodes (ag_st g) ! unat j"
    if "unat j \<noteq> unat i" for j :: uint32
    using that by simp
  have oth: "unat j \<noteq> unat i" if "owns m = Some j" for j
    using that assms(4) by (auto simp: word_unat_eq_iff)
  show ?thesis
  proof (cases m)
    case (TakeCas op raw nx)
    have "unat (hd_index (unpack raw)) \<noteq> unat i" if "raw = target (take_from op) (ag_st g)"
      using head_not_owned [OF assms(1,2), of "take_from op"] assms(3) that TakeCas
      by (auto simp: idx_ok_def)
    then show ?thesis using TakeCas assms(3) by (auto simp: raw_ok_def idx_ok_def same)
  next
    case (PutLoad r j)
    then show ?thesis using assms(3) oth [of j] by (cases r) (auto simp: owned_ok_def idx_ok_def same)
  next
    case (PutStore r j raw)
    then show ?thesis using assms(3) oth [of j] by (cases r) (auto simp: owned_ok_def idx_ok_def same)
  next
    case (PutCas r j raw)
    then show ?thesis using assms(3) oth [of j] by (cases r) (auto simp: owned_ok_def idx_ok_def same)
  qed (use assms(3) oth in \<open>auto simp: raw_ok_def idx_ok_def owned_ok_def same\<close>)
qed

text \<open>A successful compare-exchange of a head word to \<open>v\<close> that makes \<open>xs\<close> the list of \<open>w\<close>.\<close>

definition set_list :: "which \<Rightarrow> nat list \<Rightarrow> uint64 \<Rightarrow> 'a as_global \<Rightarrow> 'a as_global" where
  "set_list w xs v g = (case w of
     DataHead \<Rightarrow> g\<lparr>ag_st := (ag_st g)\<lparr>as_head := v\<rparr>, ag_ds := xs, ag_nd := ag_nd g + 1\<rparr>
   | FreeHead \<Rightarrow> g\<lparr>ag_st := (ag_st g)\<lparr>as_free := v\<rparr>, ag_fs := xs, ag_nf := ag_nf g + 1\<rparr>)"

lemma set_list_sel [simp]:
  "as_nodes (ag_st (set_list w xs v g)) = as_nodes (ag_st g)"
  "ag_taken (set_list w xs v g) = ag_taken g"
  "as_usable (ag_st (set_list w xs v g)) = as_usable (ag_st g)"
  "target u (ag_st (set_list w xs v g)) = (if u = w then v else target u (ag_st g))"
  "g_list u (set_list w xs v g) = (if u = w then xs else g_list u g)"
  "g_ver u (set_list w xs v g) = (if u = w then g_ver w g + 1 else g_ver u g)"
  by (cases w; cases u; simp add: set_list_def as_usable_def)+

lemma set_list_lists:
  "ag_ds (set_list w xs v g) = (if w = DataHead then xs else ag_ds g)"
  "ag_fs (set_list w xs v g) = (if w = FreeHead then xs else ag_fs g)"
  by (cases w; simp add: set_list_def)+

definition set_taken :: "which \<Rightarrow> nat \<Rightarrow> 'a as_global \<Rightarrow> 'a as_global" where
  "set_taken w x g = (if w = DataHead then g\<lparr>ag_taken := (ag_taken g)(x := nd_data (as_nodes (ag_st g) ! x))\<rparr> else g)"

lemma set_taken_sel [simp]:
  "ag_st (set_taken w x g) = ag_st g" "ag_ds (set_taken w x g) = ag_ds g" "ag_fs (set_taken w x g) = ag_fs g"
  "g_list u (set_taken w x g) = g_list u g" "g_ver u (set_taken w x g) = g_ver u g"
  "ag_nd (set_taken w x g) = ag_nd g" "ag_nf (set_taken w x g) = ag_nf g"
  by (cases u; simp add: set_taken_def)+

lemma ghost_take_eq:
  "ghost_take w x (g\<lparr>ag_st := set_target w v (ag_st g)\<rparr>) = set_taken w x (set_list w (tl (g_list w g)) v g)"
  by (cases w) (simp_all add: ghost_take_def set_list_def set_taken_def)

lemma ghost_put_eq:
  "ghost_put w x (g\<lparr>ag_st := set_target w v (ag_st g)\<rparr>) = set_list w (x # g_list w g) v g"
  by (cases w) (simp_all add: ghost_put_def set_list_def)

lemma as_G_iff:
  "as_G g \<longleftrightarrow> (\<forall>w. head_ok w g) \<and> distinct (g_list DataHead g @ g_list FreeHead g) \<and>
     (\<forall>w. \<forall>x \<in> set (g_list w g). x < as_usable (ag_st g))"
  unfolding as_G_def by (metis (full_types) Un_iff g_list.simps set_append which.exhaust)

lemma set_list_G:
  assumes "as_G g" "chain (as_nodes (ag_st g)) i xs" "unat tag = g_ver w g + 1"
    "distinct xs" "\<forall>x \<in> set xs. x < as_usable (ag_st g)"
    "\<forall>x \<in> set xs. x \<in> set (g_list w g) \<or> x \<notin> set (ag_ds g) \<and> x \<notin> set (ag_fs g)"
  shows "as_G (set_list w xs (pack i tag) g)"
proof -
  have "head_ok u (set_list w xs (pack i tag) g)" for u
    using assms(1-3) by (auto simp: head_ok_def as_G_iff)
  moreover have "distinct (g_list DataHead (set_list w xs (pack i tag) g) @ g_list FreeHead (set_list w xs (pack i tag) g))"
    using assms(1,4,6) by (cases w) (auto simp: as_G_def)
  moreover have "\<forall>u. \<forall>x \<in> set (g_list u (set_list w xs (pack i tag) g)). x < as_usable (ag_st g)"
    using assms(1,5) by (auto simp: as_G_iff)
  ultimately show ?thesis by (simp add: as_G_iff)
qed

lemma raw_ok_set_list:
  assumes "raw_ok u g raw" "unat (hd_tag (unpack v)) = g_ver w g + 1"
  shows "raw_ok u (set_list w xs v g) raw" "u = w \<Longrightarrow> raw \<noteq> v"
  using assms by (auto simp: raw_ok_def)

lemma set_list_other:
  assumes "as_L g m" "unat (hd_tag (unpack v)) = g_ver w g + 1"
    and "\<And>i. owns m = Some i \<Longrightarrow> unat i \<notin> set xs"
  shows "as_L (set_list w xs v g) m"
proof (cases m)
  case (TakeCas op raw nx)
  then show ?thesis
    using assms(1) raw_ok_set_list(1) [OF _ assms(2), of "take_from op" raw xs]
      raw_ok_set_list(2) [OF _ assms(2), of "take_from op" raw]
    by (auto simp: idx_ok_def split: if_splits)
next
  case (PutLoad r j)
  then show ?thesis using assms by (cases r) (auto simp: owned_ok_def idx_ok_def set_list_lists)
next
  case (PutStore r j raw)
  then show ?thesis using assms by (cases r) (auto simp: owned_ok_def idx_ok_def set_list_lists)
next
  case (PutCas r j raw)
  then show ?thesis using assms by (cases r) (auto simp: owned_ok_def idx_ok_def set_list_lists)
qed (use assms raw_ok_set_list(1) [OF _ assms(2)] in \<open>auto simp: idx_ok_def owned_ok_def set_list_lists\<close>)

lemma set_taken_other:
  assumes "as_L g m" "\<And>i. owns m = Some i \<Longrightarrow> unat i \<noteq> x"
  shows "as_L (set_taken w x g) m"
proof -
  have "res_ok (set_taken w x g) i r = res_ok g i r" if "owns m = Some i" for i r
    using assms(2) [OF that] by (cases r) (auto simp: set_taken_def)
  moreover have "owned_ok (set_taken w x g) i = owned_ok g i" "raw_ok u (set_taken w x g) raw = raw_ok u g raw"
    "idx_ok (set_taken w x g) i = idx_ok g i" for i u raw
    by (simp_all add: owned_ok_def idx_ok_def raw_ok_def)
  moreover have "ag_taken (set_taken w x g) (unat i) = ag_taken g (unat i)" if "owns m = Some i" for i
    using assms(2) [OF that] by (auto simp: set_taken_def)
  ultimately show ?thesis using assms(1) by (cases m) auto
qed

lemma owns_owned: "as_L g m \<Longrightarrow> owns m = Some i \<Longrightarrow> owned_ok g i"
  by (cases m) auto

lemma as_bound_tag:
  assumes "as_G g" "g_ver w g + 1 < 2 ^ 32"
  shows "unat (hd_tag (unpack (target w (ag_st g))) + 1) = g_ver w g + 1"
  using as_G_head [OF assms(1), of w] assms(2) by (simp add: head_ok_def unat_plus_1)

lemma as_bound_ver: "as_bound g \<Longrightarrow> g_ver w g < 2 ^ 32"
  by (cases w) (auto simp: as_bound_def)

lemma as_take_step:
  fixes g :: "'a as_global"
  assumes G: "as_G g" and L: "as_L g (TakeCas op (target (take_from op) (ag_st g)) nx)"
    and w: "w = take_from op" and h: "h = unpack (target w (ag_st g))"
    and g': "g' = ghost_take w (unat (hd_index h)) (g\<lparr>ag_st := set_target w (pack nx (hd_tag h + 1)) (ag_st g)\<rparr>)"
    and B: "as_bound g'"
  shows "as_G g'" "as_L g' (Access op (hd_index h))"
    "as_L g m \<Longrightarrow> as_L g' m" "as_L g m \<Longrightarrow> owns m \<noteq> Some (hd_index h)"
proof -
  let ?i = "hd_index h" and ?v = "pack nx (hd_tag h + 1)"
  have idx: "idx_ok g ?i" and nx: "nd_next (as_nodes (ag_st g) ! unat ?i) = nx"
    using L w h by auto
  then obtain xs where xs: "g_list w g = unat ?i # xs" using head_in_list [OF G, of w] h by (auto simp: idx_ok_def)
  have eq: "g' = set_taken w (unat ?i) (set_list w xs ?v g)" using xs by (simp add: g' ghost_take_eq)
  have ch: "chain (as_nodes (ag_st g)) nx xs" using as_G_head [OF G, of w] xs nx h by (simp add: head_ok_def)
  have d: "distinct (unat ?i # xs)" "\<forall>x \<in> set xs. x < as_usable (ag_st g)"
    "\<forall>x \<in> set xs. x \<in> set (g_list w g)" using G xs by (cases w; auto simp: as_G_def)+
  have iin: "unat ?i \<in> set (ag_ds g) \<or> unat ?i \<in> set (ag_fs g)" using g_list_disjoint [OF G, of _ w] xs by auto
  have tag: "unat (hd_tag h + 1) = g_ver w g + 1"
    using as_bound_tag [OF G, of w] as_bound_ver [OF B, of w] by (simp add: eq h)
  have G1: "as_G (set_list w xs ?v g)" by (rule set_list_G [OF G ch tag]) (use d in auto)
  then show "as_G g'" by (simp add: eq as_G_def head_ok_def)
  have "unat ?i \<notin> set (ag_ds (set_list w xs ?v g)) \<and> unat ?i \<notin> set (ag_fs (set_list w xs ?v g))"
    using G d(1) xs by (cases w) (auto simp: set_list_lists as_G_def)
  then show "as_L g' (Access op ?i)"
    using idx w by (cases op) (auto simp: eq owned_ok_def idx_ok_def set_taken_def)
  have own: "unat j \<noteq> unat ?i \<and> unat j \<notin> set xs" if "as_L g m" "owns m = Some j" for m j
    using owns_owned [OF that] iin d(3) g_list_disjoint [OF G, of _ w] by (auto simp: owned_ok_def)
  show "as_L g' m" if "as_L g m"
    unfolding eq by (rule set_taken_other, rule set_list_other [OF that]) (use own [OF that] tag in auto)
  show "owns m \<noteq> Some ?i" if "as_L g m" using own [OF that] by auto
qed

lemma as_put_step:
  fixes g :: "'a as_global"
  assumes G: "as_G g" and L: "as_L g (PutCas r i (target (put_to r) (ag_st g)))"
    and w: "w = put_to r" and h: "h = unpack (target w (ag_st g))"
    and g': "g' = ghost_put w (unat i) (g\<lparr>ag_st := set_target w (pack i (hd_tag h + 1)) (ag_st g)\<rparr>)"
    and B: "as_bound g'"
  shows "as_G g'" "as_L g m \<Longrightarrow> owns m \<noteq> Some i \<Longrightarrow> as_L g' m"
proof -
  let ?xs = "unat i # g_list w g" and ?v = "pack i (hd_tag h + 1)"
  have own: "idx_ok g i" "unat i \<notin> set (ag_ds g)" "unat i \<notin> set (ag_fs g)"
    and nx: "nd_next (as_nodes (ag_st g) ! unat i) = hd_index h" using L w h by (auto simp: owned_ok_def)
  have eq: "g' = set_list w ?xs ?v g" by (simp add: g' ghost_put_eq)
  have ch: "chain (as_nodes (ag_st g)) i ?xs"
    using as_G_head [OF G, of w] own(1) nx h by (auto simp: head_ok_def idx_ok_def)
  have us: "unat i < as_usable (ag_st g)"
    using own(1) unat_32_not_null [of i] by (simp add: idx_ok_def as_usable_def)
  have tag: "unat (hd_tag h + 1) = g_ver w g + 1"
    using as_bound_tag [OF G, of w] as_bound_ver [OF B, of w] by (simp add: eq h)
  have nin: "unat i \<notin> set (g_list w g)" using own(2,3) by (cases w) auto
  have d: "distinct ?xs" "\<forall>x \<in> set ?xs. x < as_usable (ag_st g)"
    using G nin us by (cases w; auto simp: as_G_def)+
  show "as_G g'" unfolding eq by (rule set_list_G [OF G ch tag d]) (use own in auto)
  show "as_L g' m" if "as_L g m" "owns m \<noteq> Some i"
  proof -
    have "unat j \<notin> set ?xs" if "owns m = Some j" for j
      using owns_owned [OF \<open>as_L g m\<close> that] that \<open>owns m \<noteq> Some i\<close> g_list_disjoint [OF G, of "unat j" w]
      by (auto simp: owned_ok_def word_unat_eq_iff)
    then show ?thesis unfolding eq by (intro set_list_other [OF that(1)]) (use tag in auto)
  qed
qed

lemma owns_take_check [simp]: "owns (take_check op raw) = None"
  by (simp add: take_check_def)

lemma take_check_L:
  assumes "as_G g"
  shows "as_L g (take_check op (target (take_from op) (ag_st g)))"
proof -
  let ?w = "take_from op"
  have "idx_ok g (hd_index (unpack (target ?w (ag_st g))))"
    if "hd_index (unpack (target ?w (ag_st g))) \<noteq> NULL_INDEX"
    using head_in_list [OF assms that] as_G_head [OF assms, of ?w] that by (auto simp: head_ok_def idx_ok_def)
  then show ?thesis using as_G_head [OF assms, of ?w] by (auto simp: take_check_def raw_ok_def head_ok_def)
qed

lemma access_node:
  assumes "owned_ok g i"
  shows "as_go sp g (Access (OpPush v) i) =
      (set_node g i ((as_nodes (ag_st g) ! unat i)\<lparr>nd_data := v\<rparr>), PutLoad (Pushed v) i)"
    "as_go sp g (Access OpPop i) = (g, PutLoad (Popped (nd_data (as_nodes (ag_st g) ! unat i))) i)"
    "as_go sp g (PutStore r i raw) =
      (set_node g i ((as_nodes (ag_st g) ! unat i)\<lparr>nd_next := hd_index (unpack raw)\<rparr>), PutCas r i raw)"
  using assms by (simp_all add: owned_ok_def store_data_node store_next_node set_node_ag_st load_data_def idx_ok_def)

text \<open>What one step of a thread does to the invariant, to its own assertion and to another thread's.\<close>

lemma as_take_cas_step:
  assumes ex: "as_go sp g (TakeCas op raw nx) = (g', l')" and B: "as_bound g'" and G: "as_G g" and L: "as_L g (TakeCas op raw nx)"
  shows "as_G g' \<and> as_L g' l' \<and> (as_L g m \<and> as_X (TakeCas op raw nx) m \<longrightarrow> as_L g' m \<and> as_X l' m)"
proof (cases "target (take_from op) (ag_st g) = raw \<and> \<not> sp")
  case True
  note st = as_take_step [OF G _ refl refl, of op nx g']
  from True ex have e: "g' = ghost_take (take_from op) (unat (hd_index (unpack raw)))
      (g\<lparr>ag_st := set_target (take_from op) (pack nx (hd_tag (unpack raw) + 1)) (ag_st g)\<rparr>)"
    "l' = Access op (hd_index (unpack raw))" by (auto simp: Let_def)
  show ?thesis using st(1,2) st(3,4) [of m] e True L B by (auto simp: as_X_def)
next
  case False
  then have "g' = g" "l' = take_check op (target (take_from op) (ag_st g))"
    using ex by (auto simp: Let_def)
  then show ?thesis using G take_check_L [OF G, of op] by (auto simp: as_X_def)
qed

lemma as_put_cas_step:
  assumes ex: "as_go sp g (PutCas r i raw) = (g', l')" and B: "as_bound g'" and G: "as_G g" and L: "as_L g (PutCas r i raw)"
  shows "as_G g' \<and> as_L g' l' \<and> (as_L g m \<and> as_X (PutCas r i raw) m \<longrightarrow> as_L g' m \<and> as_X l' m)"
proof (cases "target (put_to r) (ag_st g) = raw \<and> \<not> sp")
  case True
  note st = as_put_step [OF G _ refl refl, of r i g']
  from True ex have e: "g' = ghost_put (put_to r) (unat i)
      (g\<lparr>ag_st := set_target (put_to r) (pack i (hd_tag (unpack raw) + 1)) (ag_st g)\<rparr>)"
    "l' = AsRet r" by (auto simp: Let_def)
  show ?thesis using st(1) st(2) [of m] e True L B by (auto simp: as_X_def)
next
  case False
  then have "g' = g" "l' = PutStore r i (target (put_to r) (ag_st g))"
    using ex by (auto simp: Let_def)
  then show ?thesis using G L by (auto simp: as_X_def)
qed

lemma as_go_step:
  assumes ex: "as_go sp g l = (g', l')" and B: "as_bound g'" and G: "as_G g" and L: "as_L g l"
  shows "as_G g' \<and> as_L g' l' \<and> (as_L g m \<and> as_X l m \<longrightarrow> as_L g' m \<and> as_X l' m)"
proof (cases l)
  case (TakeLoad op)
  then show ?thesis using ex G take_check_L [OF G, of op] by (auto simp: as_X_def)
next
  case (TakeNext op raw)
  then have "g' = g" "l' = TakeCas op raw (nd_next (as_nodes (ag_st g) ! unat (hd_index (unpack raw))))"
    using ex L by (auto simp: load_next_def idx_ok_def)
  then show ?thesis using TakeNext G L by (auto simp: as_X_def)
next
  case (TakeCas op raw nx)
  then show ?thesis using as_take_cas_step [OF _ B G, of sp op raw nx l' m] ex L by simp
next
  case (Access op i)
  then have own: "owned_ok g i" using L by simp
  then have i: "unat i < length (as_nodes (ag_st g))" by (simp add: owned_ok_def idx_ok_def)
  show ?thesis
  proof (cases op)
    case (OpPush v)
    then show ?thesis
      using ex own i Access access_node(1) [OF own] set_node_G [OF G own] set_node_other [OF G own, of m]
      by (auto simp: as_X_def owned_ok_def idx_ok_def)
  next
    case OpPop
    then show ?thesis using ex own Access access_node(2) [OF own] G L by (auto simp: as_X_def)
  qed
next
  case (PutLoad r i)
  then show ?thesis using ex G L by (auto simp: as_X_def)
next
  case (PutStore r i raw)
  then have own: "owned_ok g i" and r: "res_ok g i r" using L by auto
  then have i: "unat i < length (as_nodes (ag_st g))" by (simp add: owned_ok_def idx_ok_def)
  have e: "g' = set_node g i ((as_nodes (ag_st g) ! unat i)\<lparr>nd_next := hd_index (unpack raw)\<rparr>)"
    "l' = PutCas r i raw" using ex PutStore access_node(3) [OF own, of sp r raw] by auto
  have "res_ok g' i r" using r i by (cases r) (auto simp: e)
  then show ?thesis
    using own i PutStore set_node_G [OF G own] set_node_other [OF G own, of m]
    by (auto simp: e as_X_def owned_ok_def idx_ok_def)
next
  case (PutCas r i raw)
  then show ?thesis using as_put_cas_step [OF _ B G, of sp r i raw l' m] ex L by simp
qed (use ex G L in \<open>auto simp: as_X_def\<close>)

definition as_abs :: "'a as_global \<Rightarrow> nat \<times> 'a list" where
  "as_abs g = (as_usable (ag_st g), map (\<lambda>i. nd_data (as_nodes (ag_st g) ! i)) (ag_ds g))"

lemma as_bound_down: "as_go sp g l = (g', l') \<Longrightarrow> as_bound g' \<Longrightarrow> as_bound g"
  by (cases "(sp, g, l)" rule: as_go.cases)
     (auto simp: as_bound_def ghost_take_def ghost_put_def Let_def split: if_splits option.splits which.splits)

lemma as_abs_set_node: "unat i \<notin> set (ag_ds g) \<Longrightarrow> as_abs (set_node g i nd) = as_abs g"
  unfolding as_abs_def set_node_sel by (auto intro!: map_cong) (metis nth_list_update_neq)

text \<open>
  A push takes effect when it exchanges the head of the data list, a pop when it takes the node off that list; the value
  that it will return is then the one the node had. An operation fails when it finds its list empty.
\<close>

fun put_status :: "'a stack_res \<Rightarrow> ('a stack_op, 'a stack_res) status" where
  "put_status (Pushed x) = Called (OpPush x)"
| "put_status r = Answered r"

fun as_status :: "'a as_global \<Rightarrow> 'a as_pc \<Rightarrow> ('a stack_op, 'a stack_res) status" where
  "as_status g (TakeLoad op) = Called op"
| "as_status g (TakeNext op raw) = Called op"
| "as_status g (TakeCas op raw next_idx) = Called op"
| "as_status g (Access (OpPush x) i) = Called (OpPush x)"
| "as_status g (Access OpPop i) = Answered (Popped (ag_taken g (unat i)))"
| "as_status g (PutLoad r i) = put_status r"
| "as_status g (PutStore r i raw) = put_status r"
| "as_status g (PutCas r i raw) = put_status r"
| "as_status g (AsRet r) = Answered r"
| "as_status g _ = Ready"

fun as_obs :: "'a as_pc \<Rightarrow> 'a as_pc \<Rightarrow> ('a stack_op, 'a stack_res) label option" where
  "as_obs AsIdle (TakeLoad op) = Some (Invoke op)"
| "as_obs (AsRet r) AsIdle = Some (Respond r)"
| "as_obs _ _ = None"

lemma as_give_up: "lin_move stack_spec (s, Called op) None (s, Answered Failed)"
  using lin_move.effect [of stack_spec, OF stack_spec.fail] by (cases s) blast

lemmas as_move_simps = lin_move.stutter lin_move.call lin_move.return as_give_up

lemma take_check_move:
  "as_obs (TakeLoad op) (take_check op raw) = None" "as_obs (TakeCas op raw' nx) (take_check op raw) = None"
  "lin_move stack_spec (s, Called op) None (s, as_status g (take_check op raw))"
  by (auto simp: take_check_def as_move_simps)

lemma as_take_move:
  assumes ex: "as_go sp g (TakeCas op raw nx) = (g', l')" and G: "as_G g" and L: "as_L g (TakeCas op raw nx)"
  shows "lin_move stack_spec (as_abs g, Called op) (as_obs (TakeCas op raw nx) l') (as_abs g', as_status g' l')"
proof (cases "target (take_from op) (ag_st g) = raw \<and> \<not> sp")
  case True
  show ?thesis
  proof (cases op)
    case (OpPush x)
    have "as_abs g' = as_abs g" "l' = Access (OpPush x) (hd_index (unpack raw))" using ex True OpPush by (auto simp: Let_def ghost_take_def as_abs_def as_usable_def)
    then show ?thesis using OpPush by (simp add: lin_move.stutter)
  next
    case OpPop
    let ?i = "unat (hd_index (unpack raw))" and ?n = "as_usable (ag_st g)"
    obtain xs where xs: "ag_ds g = ?i # xs" using head_in_list [OF G, of DataHead] L True OpPop by (auto simp: idx_ok_def)
    let ?d = "\<lambda>i. nd_data (as_nodes (ag_st g) ! i)"
    have "as_abs g' = (?n, map ?d xs)" "as_status g' l' = Answered (Popped (?d ?i))" "as_obs (TakeCas op raw nx) l' = None"
      using ex True OpPop xs by (auto simp: Let_def ghost_take_def as_abs_def as_usable_def)
    moreover have "as_abs g = (?n, ?d ?i # map ?d xs)" using xs by (simp add: as_abs_def)
    ultimately show ?thesis using lin_move.effect [of stack_spec, OF stack_spec.pop] OpPop by metis
  qed
next
  case False
  then show ?thesis using ex by (auto simp: Let_def take_check_move)
qed

lemma as_put_move:
  assumes ex: "as_go sp g (PutCas r i raw) = (g', l')" and G: "as_G g" and L: "as_L g (PutCas r i raw)"
  shows "lin_move stack_spec (as_abs g, put_status r) (as_obs (PutCas r i raw) l') (as_abs g', as_status g' l')"
proof (cases "target (put_to r) (ag_st g) = raw \<and> \<not> sp")
  case True
  show ?thesis
  proof (cases r)
    case (Pushed x)
    let ?n = "as_usable (ag_st g)" and ?d = "\<lambda>i. nd_data (as_nodes (ag_st g) ! i)"
    have "unat i < ?n" "unat i \<notin> set (ag_ds g)"
      using L unat_32_not_null [of i] by (auto simp: owned_ok_def idx_ok_def as_usable_def)
    moreover have "set (ag_ds g) \<subseteq> {..<?n}" "distinct (ag_ds g)" using G by (auto simp: as_G_def)
    ultimately have len: "length (ag_ds g) < ?n"
      by (metis card_lessThan distinct_card finite_lessThan lessThan_iff psubsetI psubset_card_mono)
    have "as_abs g' = (?n, x # map ?d (ag_ds g))" "l' = AsRet (Pushed x)"
      using ex True Pushed L by (auto simp: Let_def ghost_put_def as_abs_def as_usable_def)
    then show ?thesis using stack_spec.push [of "map ?d (ag_ds g)" ?n x] len Pushed by (auto simp: as_abs_def intro: lin_move.effect)
  qed (use ex True L in \<open>auto simp: Let_def ghost_put_def as_abs_def as_usable_def as_move_simps\<close>)
next
  case False
  then show ?thesis using ex by (auto simp: Let_def as_move_simps)
qed

lemma as_go_move:
  assumes ex: "as_go sp g l = (g', l')" and G: "as_G g" and L: "as_L g l"
  shows "lin_move stack_spec (as_abs g, as_status g l) (as_obs l l') (as_abs g', as_status g' l')"
proof (cases l)
  case (TakeLoad op)
  then show ?thesis using ex by (auto simp: take_check_move)
next
  case (TakeCas op raw nx)
  then show ?thesis using as_take_move [OF ex [unfolded TakeCas] G L [unfolded TakeCas]] by simp
next
  case (Access op i)
  then have own: "owned_ok g i" using L by simp
  then have "unat i \<notin> set (ag_ds g)" by (simp add: owned_ok_def)
  then show ?thesis
    using ex L Access access_node [OF own] by (cases op) (auto simp: as_abs_set_node as_move_simps)
next
  case (PutStore r i raw)
  then have own: "owned_ok g i" using L by simp
  then have "unat i \<notin> set (ag_ds g)" by (simp add: owned_ok_def)
  then show ?thesis
    using ex PutStore access_node(3) [OF own] by (auto simp: as_abs_set_node as_move_simps)
next
  case (PutCas r i raw)
  then show ?thesis using as_put_move [OF ex [unfolded PutCas] G L [unfolded PutCas]] by simp
next
  case (TakeNext op raw)
  then show ?thesis using ex L by (auto simp: load_next_def idx_ok_def as_move_simps)
qed (use ex L in \<open>auto simp: as_move_simps\<close>)

lemma as_status_move:
  assumes "as_exec a g l = (g', l')" "as_G g" "as_L g l"
  shows "lin_move stack_spec (as_abs g, as_status g l) (as_obs l l') (as_abs g', as_status g' l')"
proof (cases a)
  case (AsCall op)
  then show ?thesis using assms(1) by (cases l) (auto simp: as_move_simps)
qed (use assms as_go_move in simp)

lemma as_status_stable:
  assumes ex: "as_go sp g l = (g', l')" and G: "as_G g" and L: "as_L g l" "as_L g m"
  shows "as_status g' m = as_status g m"
proof -
  have "ag_taken g' (unat i) = ag_taken g (unat i)" if "owned_ok g i" for i
  proof (cases "\<exists>raw nx. l = TakeCas OpPop raw nx \<and> as_head (ag_st g) = raw")
    case True
    then obtain raw nx where l: "l = TakeCas OpPop raw nx" "as_head (ag_st g) = raw" by blast
    then have "unat (hd_index (unpack raw)) \<in> set (ag_ds g)" using head_in_list [OF G, of DataHead] L(1) by (auto simp: idx_ok_def)
    then have "unat (hd_index (unpack raw)) \<noteq> unat i" using that by (auto simp: owned_ok_def)
    then show ?thesis using ex l by (auto simp: Let_def ghost_take_def split: if_splits)
  next
    case False
    show ?thesis
    proof (cases l)
      case (TakeCas op raw nx)
      then show ?thesis using ex False by (cases op) (auto simp: Let_def ghost_take_def split: if_splits)
    next
      case (Access op i)
      then show ?thesis using ex by (cases op) (auto split: option.splits)
    qed (use ex in \<open>auto simp: Let_def ghost_put_def split: if_splits option.splits which.splits\<close>)
  qed
  then show ?thesis using L(2) by (cases "(g, m)" rule: as_status.cases) auto
qed

interpretation as_og: og_linearizable as_exec as_ginit "\<lambda>_. AsIdle" as_bound as_G as_L as_X as_abs stack_spec as_status as_obs
proof
  fix a :: "'a as_act" and g l g' l'
  assume ex: "as_exec a g l = (g', l')" and B: "as_bound g'"
  show "as_bound g" using ex B as_bound_down by (cases a) (auto split: as_pc.splits)
  assume G: "as_G g" and L: "as_L g l"
  show "as_G g' \<and> as_L g' l'" using ex G L as_go_step [OF _ B G L] by (cases a) (auto split: as_pc.splits)
  show "as_L g' m \<and> as_X l' m" if "as_L g m" "as_X l m" for m
    using that ex as_go_step [OF _ B G L, of _ _ m] by (cases a) (auto split: as_pc.splits simp: as_X_def)
  show "lin_move stack_spec (as_abs g, as_status g l) (as_obs l l') (as_abs g', as_status g' l')" by (rule as_status_move [OF ex G L])
  show "as_status g' m = as_status g m" if "as_L g m" for m
    using that ex as_status_stable [OF _ G L] by (cases a) (auto split: as_pc.splits)
next
  show "as_G g" if "as_ginit g" for g :: "'a as_global"
    using that by (auto simp: as_ginit_def as_G_def head_ok_def as_lists_def)
qed (auto simp: as_X_def)

text \<open>A new stack is such a start.\<close>

lemma as_ginit_new:
  assumes "capacity \<noteq> 0" "as_new capacity d = Some (ag_st g)" "ag_ds g = []" "ag_fs g = [0..<as_usable (ag_st g)]" "ag_nd g = 0" "ag_nf g = 0"
  shows "as_ginit g"
proof -
  have "as_lists (ag_st g) [] [0..<as_usable (ag_st g)]" using as_new_lists [OF assms(1), of d] assms(2) by auto
  moreover have "as_head (ag_st g) = pack NULL_INDEX 0" "as_free (ag_st g) = pack 0 0"
    using as_new_nodes [OF assms(1), of d] assms(2) by auto
  ultimately show ?thesis using assms by (simp add: as_ginit_def)
qed

text \<open>No node gets lost: each is on a list or in the hands of a thread.\<close>

lemma as_exec_sizes:
  "as_exec a g l = (g', l') \<Longrightarrow> length (as_nodes (ag_st g')) = length (as_nodes (ag_st g)) \<and> as_capacity (ag_st g') = as_capacity (ag_st g)"
proof (cases a)
  case (AsGo sp)
  have st: "length (as_nodes (set_target w v st)) = length (as_nodes st)" "as_capacity (set_target w v st) = as_capacity st"
    for w v and st :: "'a array_stack" by (cases w; simp)+
  have gt: "ag_st (ghost_take w x h) = ag_st h" "ag_st (ghost_put w x h) = ag_st h" for w x and h :: "'a as_global"
    by (cases w; simp add: ghost_take_def ghost_put_def)+
  assume "as_exec a g l = (g', l')"
  then show ?thesis unfolding AsGo as_exec.simps
    by (cases "(sp, g, l)" rule: as_go.cases)
       (auto simp: Let_def st gt store_data_def store_next_def split: option.splits if_splits)
qed (auto split: as_pc.splits)

lemma as_owner_step:
  assumes ex: "as_go sp g l = (g', l')" and G: "as_G g" and L: "as_L g l"
  shows "set (ag_ds g) \<union> set (ag_fs g) \<union> {unat i |i. owns l = Some i} = set (ag_ds g') \<union> set (ag_fs g') \<union> {unat i |i. owns l' = Some i}"
proof (cases l)
  case (TakeCas op raw nx)
  show ?thesis
  proof (cases "target (take_from op) (ag_st g) = raw \<and> \<not> sp")
    case True
    then obtain xs where "g_list (take_from op) g = unat (hd_index (unpack raw)) # xs"
      using head_in_list [OF G, of "take_from op"] L TakeCas by (auto simp: idx_ok_def)
    then show ?thesis using True ex TakeCas by (cases op) (auto simp: Let_def ghost_take_def)
  qed (use ex TakeCas in \<open>auto simp: Let_def\<close>)
next
  case (Access op i)
  then show ?thesis using ex L access_node [of g i] by (cases op) auto
next
  case (PutStore r i raw)
  then show ?thesis using ex L access_node(3) [of g i] by auto
next
  case (PutCas r i raw)
  then show ?thesis using ex by (cases "put_to r") (auto simp: Let_def ghost_put_def split: if_splits)
qed (use ex in \<open>auto split: option.splits\<close>)

lemma owned_update:
  assumes "A \<union> {unat i |i. owns (ls t) = Some i} = A' \<union> {unat i |i. owns l' = Some i}"
    and "x \<in> A \<or> (\<exists>u i. owns (ls u) = Some i \<and> unat i = x)"
  shows "x \<in> A' \<or> (\<exists>u i. owns ((ls(t := l')) u) = Some i \<and> unat i = x)"
proof (cases "\<exists>u i. u \<noteq> t \<and> owns (ls u) = Some i \<and> unat i = x")
  case True
  then obtain u i where "u \<noteq> t" "owns (ls u) = Some i" "unat i = x" by blast
  then show ?thesis by (intro disjI2 exI [of _ u] exI [of _ i]) simp
next
  case False
  then have "x \<in> A \<union> {unat i |i. owns (ls t) = Some i}" using assms(2) by auto
  then have "x \<in> A' \<union> {unat i |i. owns l' = Some i}" using assms(1) by simp
  then show ?thesis by (auto intro: exI [of _ t])
qed

lemma as_nodes_owned:
  assumes "as_reach c"
  shows "as_bound (fst c) \<Longrightarrow> x < as_usable (ag_st (fst c)) \<Longrightarrow>
     x \<in> set (ag_ds (fst c)) \<union> set (ag_fs (fst c)) \<or> (\<exists>t i. owns (snd c t) = Some i \<and> unat i = x)"
  using assms
proof (induction rule: reach.induct)
  case (start g)
  then show ?case by (auto simp: as_ginit_def as_lists_def)
next
  case (step c e)
  obtain t a g ls where e: "e = (t, a)" "c = (g, ls)" by (metis surj_pair)
  obtain g' l' where ex: "as_exec a g (ls t) = (g', l')" by (cases "as_exec a g (ls t)")
  have B': "as_bound g'" using step.prems by (simp add: e ex sys_step_eq)
  have B: "as_bound g" by (rule as_og.bound_down [OF ex B'])
  have "as_reach (g, ls)" using step.hyps e by simp
  note inv = as_og.reach_G [OF this B] as_og.reach_L [OF this B, of t]
  have IH: "x \<in> set (ag_ds g) \<union> set (ag_fs g) \<or> (\<exists>u i. owns (ls u) = Some i \<and> unat i = x)"
    using step.IH B step.prems(2) as_exec_sizes [OF ex] by (simp add: e ex sys_step_eq as_usable_def)
  have "set (ag_ds g) \<union> set (ag_fs g) \<union> {unat i |i. owns (ls t) = Some i} = set (ag_ds g') \<union> set (ag_fs g') \<union> {unat i |i. owns l' = Some i}"
  proof (cases a)
    case (AsCall op)
    then show ?thesis using ex by (auto split: as_pc.splits)
  next
    case (AsGo sp)
    then show ?thesis using as_owner_step [OF _ inv] ex by simp
  qed
  from owned_update [OF this IH] show ?case by (simp add: e ex sys_step_eq)
qed

subsection \<open>Properties of every schedule\<close>

text \<open>
  Whatever the schedule, the calls with their results are those of an atomic bounded stack, beginning with the
  content the threads found.
\<close>

theorem as_linearizable:
  assumes "as_ginit g0" "run as_exec (g0, \<lambda>_. AsIdle) es = (g, ls)" "as_bound g"
  shows "linearizable stack_spec (as_usable (ag_st g0), as_contents (ag_st g0)) (history as_obs as_exec (g0, \<lambda>_. AsIdle) es) (as_abs g)"
proof -
  have "as_abs g0 = (as_usable (ag_st g0), as_contents (ag_st g0))"
    using assms(1) as_lists_contents by (fastforce simp: as_ginit_def as_abs_def)
  then show ?thesis using as_og.run_linearizable [OF assms] by simp
qed

text \<open>
  A pop returns the value that it removed from the top of the stack at its compare-exchange, a
  push has its own value in the node it links in, the node a thread works on belongs to no list
  and to no other thread, and no access leaves the node array.
\<close>

theorem as_node_exclusive:
  assumes "as_reach (g, ls)" "as_bound g"
  shows "ls t \<noteq> AsUndefined \<and>
    (\<forall>i. owns (ls t) = Some i \<longrightarrow> unat i < length (as_nodes (ag_st g)) \<and>
       unat i \<notin> set (ag_ds g) \<and> unat i \<notin> set (ag_fs g) \<and> (\<forall>u. u \<noteq> t \<longrightarrow> owns (ls u) \<noteq> Some i)) \<and>
    (\<forall>v i raw. ls t = PutCas (Popped v) i raw \<longrightarrow> v = ag_taken g (unat i)) \<and>
    (\<forall>v i raw. ls t = PutCas (Pushed v) i raw \<longrightarrow> nd_data (as_nodes (ag_st g) ! unat i) = v)"
proof -
  have L: "as_L g (ls t)" by (rule as_og.reach_L [OF assms])
  have "owns (ls u) \<noteq> Some i" if "owns (ls t) = Some i" "u \<noteq> t" for u i
    using as_og.reach_X [OF assms, of u t] that by (auto simp: as_X_def)
  moreover have "unat i < length (as_nodes (ag_st g))" "unat i \<notin> set (ag_ds g)" "unat i \<notin> set (ag_fs g)"
    if "owns (ls t) = Some i" for i
    using owns_owned [OF L that] by (auto simp: owned_ok_def idx_ok_def)
  ultimately show ?thesis using L by auto
qed

lemma as_head_idx:
  assumes "as_G g" "hd_index (unpack (target w (ag_st g))) \<noteq> NULL_INDEX"
  shows "unat (hd_index (unpack (target w (ag_st g)))) < length (as_nodes (ag_st g))"
  using head_in_list [OF assms] as_G_head [OF assms(1), of w] by (auto simp: head_ok_def)

lemma as_solo_push:
  assumes "as_G g"
  shows "\<exists>k \<le> 7. \<exists>g' b. solo as_exec (AsGo False) k g (TakeLoad (OpPush v)) =
      (g', AsRet (if b then Pushed v else Failed)) \<and> as_try_push (ag_st g) v = Some (b, ag_st g')"
proof (cases "hd_index (unpack (as_free (ag_st g))) = NULL_INDEX")
  case True
  then show ?thesis
    by (intro exI [of _ 1]) (auto simp: take_check_def as_try_push_def pop_index_def)
next
  case False
  then have i: "unat (hd_index (unpack (as_free (ag_st g)))) < length (as_nodes (ag_st g))"
    using as_head_idx [OF assms, of FreeHead] by simp
  have "\<exists>g'. solo as_exec (AsGo False) 7 g (TakeLoad (OpPush v)) = (g', AsRet (Pushed v)) \<and>
      as_try_push (ag_st g) v = Some (True, ag_st g')"
    using False i by (simp add: eval_nat_numeral take_check_def load_next_def store_data_def store_next_def
        ghost_take_def ghost_put_def as_try_push_def pop_index_def push_index_def Let_def)
  then show ?thesis by (intro exI [of _ 7]) auto
qed

lemma as_solo_pop:
  assumes "as_G g"
  shows "\<exists>k \<le> 7. \<exists>g' r. solo as_exec (AsGo False) k g (TakeLoad OpPop) =
      (g', AsRet (case r of None \<Rightarrow> Failed | Some v \<Rightarrow> Popped v)) \<and> as_try_pop (ag_st g) = Some (r, ag_st g')"
proof (cases "hd_index (unpack (as_head (ag_st g))) = NULL_INDEX")
  case True
  then show ?thesis
    by (intro exI [of _ 1]) (auto simp: take_check_def as_try_pop_def pop_index_def)
next
  case False
  then have i: "unat (hd_index (unpack (as_head (ag_st g)))) < length (as_nodes (ag_st g))"
    using as_head_idx [OF assms, of DataHead] by simp
  have "\<exists>g' v. solo as_exec (AsGo False) 7 g (TakeLoad OpPop) = (g', AsRet (Popped v)) \<and>
      as_try_pop (ag_st g) = Some (Some v, ag_st g')"
    using False i by (simp add: eval_nat_numeral take_check_def load_next_def load_data_def store_next_def
        ghost_take_def ghost_put_def as_try_pop_def pop_index_def push_index_def Let_def)
  then obtain g' v where "solo as_exec (AsGo False) 7 g (TakeLoad OpPop) = (g', AsRet (Popped v))"
    "as_try_pop (ag_st g) = Some (Some v, ag_st g')" by blast
  then show ?thesis by (intro exI [of _ 7] conjI exI [of _ g'] exI [of _ "Some v"]) auto
qed

text \<open>
  A thread that runs alone, from any program point: the number of accesses left. A head word that was read before
  it was last exchanged costs one failed compare-exchange.
\<close>

fun as_rank :: "'a as_global \<Rightarrow> 'a as_pc \<Rightarrow> nat" where
  "as_rank g (TakeLoad op) = 8"
| "as_rank g (TakeNext op raw) = (if raw = target (take_from op) (ag_st g) then 7 else 9)"
| "as_rank g (TakeCas op raw next_idx) = (if raw = target (take_from op) (ag_st g) then 6 else 8)"
| "as_rank g (Access op i) = 5"
| "as_rank g (PutLoad r i) = 4"
| "as_rank g (PutStore r i raw) = (if raw = target (put_to r) (ag_st g) then 3 else 5)"
| "as_rank g (PutCas r i raw) = (if raw = target (put_to r) (ag_st g) then 2 else 4)"
| "as_rank g (AsRet r) = 1"
| "as_rank g _ = 0"

fun as_alone :: "'a as_global \<Rightarrow> 'a as_pc \<Rightarrow> bool" where
  "as_alone g AsUndefined = False"
| "as_alone g AsIdle = True"
| "as_alone g (AsRet r) = True"
| "as_alone g l = (case owns l of None \<Rightarrow> as_G g \<and> as_L g l | Some i \<Rightarrow> unat i < length (as_nodes (ag_st g)))"

lemma as_rank_take_check:
  assumes "as_G g"
  shows "as_rank g (take_check op (target (take_from op) (ag_st g))) \<le> 7" "as_alone g (take_check op (target (take_from op) (ag_st g)))"
  using as_head_idx [OF assms, of "take_from op"] as_G_head [OF assms, of "take_from op"] assms
  by (auto simp: take_check_def raw_ok_def idx_ok_def head_ok_def)

lemma as_alone_step:
  assumes ex: "as_go False g l = (g', l')" and al: "as_alone g l"
  shows "as_alone g' l' \<and> as_rank g' l' \<le> as_rank g l - 1"
proof -
  have gt: "ag_st (ghost_take w x h) = ag_st h" "ag_st (ghost_put w x h) = ag_st h" for w x and h :: "'a as_global"
    by (cases w; simp add: ghost_take_def ghost_put_def)+
  have st: "as_nodes (set_target w v s) = as_nodes s" for w v and s :: "'a array_stack" by (cases w; simp)
  show ?thesis
  proof (cases l)
    case (TakeLoad op)
    then show ?thesis using ex al as_rank_take_check [of g op] by auto
  next
    case (TakeNext op raw)
    then show ?thesis using ex al by (auto simp: load_next_def idx_ok_def)
  next
    case (TakeCas op raw nx)
    then show ?thesis using ex al as_rank_take_check [of g op] by (auto simp: Let_def gt st idx_ok_def split: if_splits)
  next
    case (Access op i)
    then show ?thesis using ex al by (cases op) (auto simp: store_data_def load_data_def)
  next
    case (PutStore r i raw)
    have "target w (st\<lparr>as_nodes := ns\<rparr>) = target w st" for w ns and st :: "'a array_stack" by (cases w) simp_all
    then show ?thesis using ex al PutStore by (auto simp: store_next_def)
  qed (use ex al in \<open>auto simp: Let_def gt st split: if_splits\<close>)
qed

lemma as_alone_finishes:
  "as_alone g l \<Longrightarrow> as_rank g l \<le> n \<Longrightarrow> snd (solo as_exec (AsGo False) n g l) = AsIdle"
proof (induction n arbitrary: g l)
  case 0
  then show ?case by (cases l) (auto split: if_splits)
next
  case (Suc n)
  obtain g' l' where ex: "as_go False g l = (g', l')" by fastforce
  have "as_alone g' l'" "as_rank g' l' \<le> n" using as_alone_step [OF ex Suc.prems(1)] Suc.prems(2) by auto
  then show ?case using Suc.IH ex by simp
qed

text \<open>
  C27. Obstruction freedom of the stack: from every reachable state, wherever it and the other threads have stopped, a thread that then
  runs alone (and whose compare-exchanges do not fail spuriously) has returned from its operation within nine accesses. A call
  that it begins then gives its result within seven accesses, and result and stack are
  exactly those of the sequential \<^verbatim>\<open>try_push\<close> or \<^verbatim>\<open>try_pop\<close>. The bound on the tags is that of the invariant.
\<close>

theorem as_obstruction_free:
  assumes "as_reach (g, ls)" "as_bound g"
  shows "snd (solo as_exec (AsGo False) 9 g (ls t)) = AsIdle \<and>
    (\<exists>k \<le> 7. \<exists>g' b. solo as_exec (AsGo False) k g (TakeLoad (OpPush v)) =
      (g', AsRet (if b then Pushed v else Failed)) \<and> as_try_push (ag_st g) v = Some (b, ag_st g')) \<and>
    (\<exists>k \<le> 7. \<exists>g' r. solo as_exec (AsGo False) k g (TakeLoad OpPop) =
      (g', AsRet (case r of None \<Rightarrow> Failed | Some v \<Rightarrow> Popped v)) \<and> as_try_pop (ag_st g) = Some (r, ag_st g'))"
proof -
  have G: "as_G g" and L: "as_L g (ls t)" using as_og.reach_G [OF assms] as_og.reach_L [OF assms] by auto
  have "as_alone g (ls t)"
    using G L owns_owned [OF L] by (cases "ls t") (auto simp: owned_ok_def idx_ok_def)
  moreover have "as_rank g (ls t) \<le> 9" by (cases "ls t") auto
  ultimately show ?thesis using as_alone_finishes as_solo_push [OF G] as_solo_pop [OF G] by blast
qed

subsection \<open>A schedule\<close>

text \<open>Two pushes and a pop: thread 1 is overtaken by thread 0 and has to repeat its compare-exchange.\<close>

definition as_g0 :: "nat as_global" where
  "as_g0 = \<lparr>ag_st = the (as_new 2 0), ag_ds = [], ag_fs = [0, 1], ag_nd = 0, ag_nf = 0, ag_taken = (\<lambda>_. 0)\<rparr>"

lemma as_new_2: "as_new 2 (0::nat) = Some \<lparr>as_nodes = [\<lparr>nd_data = 0, nd_next = 1\<rparr>, \<lparr>nd_data = 0, nd_next = NULL_INDEX\<rparr>],
    as_capacity = 2, as_head = pack NULL_INDEX 0, as_free = pack 0 0\<rparr>"
proof -
  have "replicate 2 x = [x, x]" for x :: "nat node" by (simp add: numeral_2_eq_2)
  then show ?thesis by (simp add: as_new_def)
qed

lemma as_g0_init: "as_ginit as_g0"
  by (rule as_ginit_new [of 2 0]) (simp_all add: as_g0_def as_new_2 as_usable_def upt_rec)

abbreviation as_run :: "(tid \<times> nat as_act) list \<Rightarrow> (nat as_global, nat as_pc) config" where
  "as_run es \<equiv> run as_exec (as_g0, \<lambda>_. AsIdle) es"

definition as_sched :: "(tid \<times> nat as_act) list" where
  "as_sched = [(0, AsCall (OpPush 7)), (1, AsCall (OpPush 8)),
     (1, AsGo False), (0, AsGo False), (0, AsGo False), (0, AsGo False),
     (1, AsGo False), (1, AsGo False), (1, AsGo False), (1, AsGo False),
     (0, AsGo False), (0, AsGo False), (0, AsGo False), (0, AsGo False)]"

lemmas as_eval = as_sched_def as_g0_def as_new_2 sys_step_def take_check_def load_next_def store_data_def
  store_next_def load_data_def ghost_take_def ghost_put_def Let_def

lemma as_run_ok:
  "ag_ds (fst (as_run as_sched)) = [0]" "ag_fs (fst (as_run as_sched)) = []"
  "ag_nd (fst (as_run as_sched)) = 1" "ag_nf (fst (as_run as_sched)) = 2"
  "snd (as_run as_sched) (Suc 0) = Access (OpPush 8) 1"
  "as_abs (fst (as_run as_sched)) = (2, [7])"
  by (simp_all add: as_eval as_abs_def as_usable_def)

lemma as_run_reach: "as_reach (fst (as_run es), snd (as_run es))"
  using reach_run_init [of as_ginit as_g0 as_exec "\<lambda>_. AsIdle" es, OF as_g0_init] by simp

theorem as_node_exclusive_witness:
  "owns (snd (as_run as_sched) (Suc 0)) = Some 1 \<and> unat (1 :: uint32) \<notin> set (ag_ds (fst (as_run as_sched)))"
proof -
  have "as_bound (fst (as_run as_sched))" by (simp add: as_bound_def as_run_ok)
  from as_node_exclusive [OF as_run_reach this, of "Suc 0"] show ?thesis by (simp add: as_run_ok(5))
qed

theorem as_obstruction_free_witness:
  "snd (as_run as_sched) 1 = Access (OpPush 8) 1 \<and> snd (solo as_exec (AsGo False) 9 (fst (as_run as_sched)) (Access (OpPush 8) 1)) = AsIdle"
proof -
  have "as_bound (fst (as_run as_sched))" by (simp add: as_bound_def as_run_ok)
  from as_obstruction_free [OF as_run_reach this, of 1] show ?thesis using as_run_ok(5) by simp
qed

end
