(* ===== verification/Object_Pool_Conc.thy ===== *)
theory Object_Pool_Conc
  imports Object_Pool Array_Stack_Conc "HOL-Library.Multiset"
begin

text \<open>
  \<^verbatim>\<open>LockFreeObjectPool\<close> under any number of threads: \<^verbatim>\<open>acquire\<close> and \<^verbatim>\<open>release\<close> are one call each of the
  interleaved stack of free indices, so the machine is a client of \<open>Array_Stack_Conc\<close>. The pool is
  constructed by one thread and then shared. The ghost field \<open>pl_held\<close> holds the objects in the hands of
  clients: an object enters it when \<^verbatim>\<open>acquire\<close> returns it and leaves it when \<^verbatim>\<open>release\<close> is called with it.
  As in the code, \<^verbatim>\<open>release\<close> does not check that its argument is held; a call with an object that nobody holds sets
  \<open>pl_misuse\<close> and is carried out like any other. The theorem is about executions without such a call (any
  thread may release, so objects may be handed over); \<open>pool_double_release\<close> of \<open>Object_Pool\<close> shows what a misuse leads to.

  \<^verbatim>\<open>release\<close> ignores the result of \<^verbatim>\<open>try_push\<close>. The accounting below shows that it never fails: every
  object is, at every moment, in exactly one place.
\<close>

record pl_global =
  pl_as :: "uint32 as_global"
  pl_capacity :: size_t
  pl_held :: "nat set"
  pl_misuse :: bool

datatype pl_act = PlAcquire | PlRelease int | PlGo bool

fun pl_exec :: "pl_act \<Rightarrow> pl_global \<Rightarrow> uint32 as_pc \<Rightarrow> pl_global \<times> uint32 as_pc" where
  "pl_exec PlAcquire g l = (g, case l of AsIdle \<Rightarrow> TakeLoad OpPop | _ \<Rightarrow> l)"
| "pl_exec (PlRelease offset) g l =
     (case l of
        AsIdle \<Rightarrow>
          if offset < 0 \<or> int (unat (pl_capacity g)) \<le> offset then (g, AsIdle)
          else (g\<lparr>pl_held := pl_held g - {nat offset}, pl_misuse := pl_misuse g \<or> nat offset \<notin> pl_held g\<rparr>,
                TakeLoad (OpPush (word_of_int offset)))
      | _ \<Rightarrow> (g, l))"
| "pl_exec (PlGo spurious) g (AsRet (Popped idx)) = (g\<lparr>pl_held := insert (unat idx) (pl_held g)\<rparr>, AsIdle)"
| "pl_exec (PlGo spurious) g l = (case as_go spurious (pl_as g) l of (g', l') \<Rightarrow> (g\<lparr>pl_as := g'\<rparr>, l'))"

definition pl_ginit :: "pl_global \<Rightarrow> bool" where
  "pl_ginit g \<longleftrightarrow> (\<exists>p. pool_new (pl_capacity g) = Some (Inr p) \<and> op_free p = ag_st (pl_as g)) \<and>
     as_ginit (pl_as g) \<and> pl_held g = {} \<and> \<not> pl_misuse g"

abbreviation pl_reach :: "(pl_global, uint32 as_pc) config \<Rightarrow> bool" where
  "pl_reach \<equiv> reach pl_exec pl_ginit (\<lambda>_. AsIdle)"

subsection \<open>Projection to the stack\<close>

lemma pl_exec_go:
  assumes "\<forall>idx. l \<noteq> AsRet (Popped idx)"
  shows "pl_exec (PlGo sp) g l = (g\<lparr>pl_as := fst (as_go sp (pl_as g) l)\<rparr>, snd (as_go sp (pl_as g) l))"
  using assms by (cases "(PlGo sp, g, l)" rule: pl_exec.cases) (auto split: prod.splits)

lemma pl_exec_proj:
  assumes "pl_exec a g l = (g', l')"
  shows "pl_as g' = pl_as g \<and> l' = l \<or> (\<exists>b. as_exec b (pl_as g) l = (pl_as g', l'))"
proof (cases a)
  case PlAcquire
  then show ?thesis using assms by (cases l) (auto intro: exI [of _ "AsCall OpPop"])
next
  case (PlRelease offset)
  then show ?thesis using assms
    by (cases l) (auto intro: exI [of _ "AsCall (OpPush (word_of_int offset))"] split: if_splits)
next
  case (PlGo sp)
  show ?thesis
  proof (cases "\<exists>idx. l = AsRet (Popped idx)")
    case True
    then show ?thesis using assms PlGo by (auto intro!: exI [of _ "AsGo sp"])
  next
    case False
    then show ?thesis using assms PlGo pl_exec_go [of l sp g] by (auto intro!: exI [of _ "AsGo sp"])
  qed
qed

interpretation pool_client: client_system as_exec as_ginit "\<lambda>_. AsIdle" pl_exec pl_ginit "\<lambda>_. AsIdle" pl_as "\<lambda>l. l"
  by unfold_locales (auto simp: pl_ginit_def dest: pl_exec_proj)

lemmas pl_reach_as = pool_client.reach_proj [of "(_, _)", simplified]

subsection \<open>Where an object is\<close>

definition pl_avail :: "uint32 as_global \<Rightarrow> nat list" where
  "pl_avail g = map unat (snd (as_abs g))"

primrec op_val :: "uint32 stack_op \<Rightarrow> nat option" where
  "op_val (OpPush v) = Some (unat v)"
| "op_val OpPop = None"

primrec res_val :: "uint32 stack_res \<Rightarrow> nat option" where
  "res_val (Pushed v) = Some (unat v)"
| "res_val (Popped v) = Some (unat v)"
| "res_val Failed = None"

text \<open>The object a running call has with it: on its way to the stack, or off it.\<close>

fun pl_val :: "uint32 as_global \<Rightarrow> uint32 as_pc \<Rightarrow> nat option" where
  "pl_val g (TakeLoad op) = op_val op"
| "pl_val g (TakeNext op raw) = op_val op"
| "pl_val g (TakeCas op raw nx) = op_val op"
| "pl_val g (Access op i) = (case op of OpPush v \<Rightarrow> Some (unat v) | OpPop \<Rightarrow> Some (unat (nd_data (as_nodes (ag_st g) ! unat i))))"
| "pl_val g (PutLoad r i) = res_val r"
| "pl_val g (PutStore r i raw) = res_val r"
| "pl_val g (PutCas r i raw) = res_val r"
| "pl_val g (AsRet r) = (case r of Popped v \<Rightarrow> Some (unat v) | _ \<Rightarrow> None)"
| "pl_val g _ = None"

primrec mset_option :: "'a option \<Rightarrow> 'a multiset" where
  "mset_option None = {#}"
| "mset_option (Some x) = {#x#}"

text \<open>A call that is about to look at the free list of the stack with an object in its hands.\<close>

definition push_refused :: "uint32 as_pc \<Rightarrow> uint32 as_pc \<Rightarrow> bool" where
  "push_refused l l' \<longleftrightarrow> l' = AsRet Failed \<and> ((\<exists>v. l = TakeLoad (OpPush v)) \<or> (\<exists>v raw nx. l = TakeCas (OpPush v) raw nx))"

lemma pl_val_take_check: "pl_val g (take_check op raw) = op_val op \<or> take_check op raw = AsRet Failed"
  by (auto simp: take_check_def)

lemma pl_take_cas_val:
  assumes ex: "as_go sp g (TakeCas op raw nx) = (g', l')" and G: "as_G g" and L: "as_L g (TakeCas op raw nx)"
    and ok: "\<not> push_refused (TakeCas op raw nx) l'"
  shows "mset (pl_avail g') + mset_option (pl_val g' l') = mset (pl_avail g) + mset_option (op_val op)"
proof (cases "target (take_from op) (ag_st g) = raw \<and> \<not> sp")
  case True
  show ?thesis
  proof (cases op)
    case OpPop
    then obtain xs where "ag_ds g = unat (hd_index (unpack raw)) # xs"
      using head_in_list [OF G, of DataHead] L True by (auto simp: idx_ok_def)
    then show ?thesis using True ex OpPop by (auto simp: Let_def ghost_take_def pl_avail_def as_abs_def)
  next
    case (OpPush v)
    then show ?thesis using True ex by (auto simp: Let_def ghost_take_def pl_avail_def as_abs_def)
  qed
next
  case False
  then have "g' = g" "l' = take_check op (target (take_from op) (ag_st g))" using ex by (auto simp: Let_def)
  then show ?thesis using pl_val_take_check [of g op "target (take_from op) (ag_st g)"] ok
    by (cases op) (auto simp: push_refused_def)
qed

lemma pl_put_cas_val:
  assumes ex: "as_go sp g (PutCas r i raw) = (g', l')" and L: "as_L g (PutCas r i raw)"
  shows "mset (pl_avail g') + mset_option (pl_val g' l') = mset (pl_avail g) + mset_option (res_val r)"
proof (cases "target (put_to r) (ag_st g) = raw \<and> \<not> sp")
  case True
  then show ?thesis using ex L by (cases r) (auto simp: Let_def ghost_put_def pl_avail_def as_abs_def)
qed (use ex in \<open>auto simp: Let_def\<close>)

text \<open>One step of the stack moves the object between the call and the stack, and nothing else.\<close>

lemma pl_go_val:
  assumes ex: "as_go sp g l = (g', l')" and G: "as_G g" and L: "as_L g l"
    and ok: "\<not> push_refused l l'" "\<forall>idx. l \<noteq> AsRet (Popped idx)"
  shows "mset (pl_avail g') + mset_option (pl_val g' l') = mset (pl_avail g) + mset_option (pl_val g l)"
proof (cases l)
  case (TakeLoad op)
  then show ?thesis using ex ok pl_val_take_check [of g op "target (take_from op) (ag_st g)"]
    by (cases op) (auto simp: push_refused_def)
next
  case (TakeCas op raw nx)
  then show ?thesis using pl_take_cas_val [OF _ G] ex L ok by auto
next
  case (Access op i)
  then have own: "owned_ok g i" using L by simp
  then have "unat i \<notin> set (ag_ds g)" by (simp add: owned_ok_def)
  then show ?thesis using ex Access access_node [OF own] by (cases op) (auto simp: pl_avail_def as_abs_set_node)
next
  case (PutStore r i raw)
  then have own: "owned_ok g i" using L by simp
  then have "unat i \<notin> set (ag_ds g)" by (simp add: owned_ok_def)
  then show ?thesis using ex PutStore access_node(3) [OF own] by (auto simp: pl_avail_def as_abs_set_node)
next
  case (PutCas r i raw)
  then show ?thesis using pl_put_cas_val ex L by auto
next
  case (AsRet r)
  then show ?thesis using ex ok by (cases r) auto
qed (use ex L in \<open>auto simp: load_next_def idx_ok_def\<close>)

lemma pl_val_stable:
  assumes ex: "as_go sp g l = (g', l')" and L: "as_L g l" and m: "as_L g m" and X: "as_X l m"
  shows "pl_val g' m = pl_val g m"
proof -
  have nodes: "nd_data (as_nodes (ag_st g') ! unat j) = nd_data (as_nodes (ag_st g) ! unat j)" if "owns m = Some j" for j
  proof (cases l)
    case (Access op i)
    then have own: "owned_ok g i" and "i \<noteq> j" using L X that by (auto simp: as_X_def)
    then have "unat i \<noteq> unat j" by (simp add: word_unat_eq_iff)
    then show ?thesis using ex Access access_node [OF own] by (cases op) auto
  next
    case (PutStore r i raw)
    then have own: "owned_ok g i" and "i \<noteq> j" using L X that by (auto simp: as_X_def)
    then have "unat i \<noteq> unat j" by (simp add: word_unat_eq_iff)
    then show ?thesis using ex PutStore access_node(3) [OF own] by auto
  next
    case (TakeCas op raw nx)
    then show ?thesis using ex by (cases op) (auto simp: Let_def ghost_take_def split: if_splits)
  next
    case (PutCas r i raw)
    then show ?thesis using ex by (cases r) (auto simp: Let_def ghost_put_def split: if_splits)
  qed (use ex in \<open>auto split: option.splits\<close>)
  then show ?thesis by (cases m) (auto split: stack_op.splits)
qed

subsection \<open>Accounting\<close>

text \<open>
  \<open>placed n A V\<close>: of the objects below \<open>n\<close> each is in exactly one place, the places being the
  multiset \<open>A\<close> (the shared places) and the at most one object \<open>V t\<close> that each thread has.
\<close>

definition placed :: "nat \<Rightarrow> nat multiset \<Rightarrow> (tid \<Rightarrow> nat option) \<Rightarrow> bool" where
  "placed n A V \<longleftrightarrow> (\<forall>x. count A x \<le> 1) \<and> (\<forall>t x. V t = Some x \<longrightarrow> x \<notin># A) \<and>
     (\<forall>t u x. V t = Some x \<and> V u = Some x \<longrightarrow> t = u) \<and>
     (\<forall>x. x < n \<longleftrightarrow> x \<in># A \<or> (\<exists>t. V t = Some x))"

lemma placed_step:
  assumes P: "placed n A V" and eq: "A' + mset_option v' = A + mset_option (V t)"
  shows "placed n A' (V(t := v'))"
proof -
  have c: "count A' x + of_bool (v' = Some x) = count A x + of_bool (V t = Some x)" for x
    using arg_cong [OF eq, of "\<lambda>M. count M x"] by (cases v'; cases "V t") auto
  have le: "count A x \<le> 1" "V u = Some x \<Longrightarrow> count A x = 0" "V u = Some x \<Longrightarrow> V w = Some x \<Longrightarrow> u = w" for x u w
    using P by (auto simp: placed_def not_in_iff)
  have t: "count A' x + of_bool (v' = Some x) \<le> 1" for x
    using c [of x] le(1) [of x] le(2) [of t x] by (cases "V t = Some x") auto
  have u: "count A' x = 0 \<and> v' \<noteq> Some x" if "V u = Some x" "u \<noteq> t" for u x
    using c [of x] le(2) [OF that(1)] le(3) [OF that(1), of t] that(2) by (cases "V t = Some x"; cases "v' = Some x") auto
  have "x \<in># A' \<or> v' = Some x \<longleftrightarrow> x \<in># A \<or> V t = Some x" for x
    using c [of x] by (auto simp flip: count_greater_zero_iff simp: of_bool_def split: if_splits)
  moreover have "(\<exists>w. (V(t := v')) w = Some x) \<longleftrightarrow> v' = Some x \<or> (\<exists>w. w \<noteq> t \<and> V w = Some x)"
    "(\<exists>w. V w = Some x) \<longleftrightarrow> V t = Some x \<or> (\<exists>w. w \<noteq> t \<and> V w = Some x)" for x by auto
  ultimately have "x < n \<longleftrightarrow> x \<in># A' \<or> (\<exists>w. (V(t := v')) w = Some x)" for x
    using P unfolding placed_def by metis
  moreover have "count A' x \<le> 1" "v' = Some x \<Longrightarrow> count A' x = 0" for x
    using t [of x] by (auto simp: of_bool_def split: if_splits)
  moreover have "(V(t := v')) w = Some x \<Longrightarrow> (V(t := v')) z = Some x \<Longrightarrow> w = z" for w z x
    using le(3) [of w x z] u [of w x] u [of z x] by (cases "w = t"; cases "z = t") auto
  moreover have "(V(t := v')) w = Some x \<Longrightarrow> count A' x = 0" for w x
    using u [of w x] calculation(3) [of x] by (cases "w = t") auto
  ultimately show ?thesis unfolding placed_def not_in_iff by blast
qed

text \<open>If every node carries an object of its own, then no further object is on its way.\<close>

lemma placed_pigeonhole:
  assumes P: "placed n A V" and t: "V t = Some x"
    and f: "\<And>k. k < n \<Longrightarrow> f k \<noteq> x \<and> f k < n" "inj_on f {..<n}"
  shows False
proof -
  have "x < n" using P t by (auto simp: placed_def)
  moreover have "f ` {..<n} \<subseteq> {..<n}" "x \<notin> f ` {..<n}" using f(1) by force+
  ultimately have "f ` {..<n} \<subset> {..<n}" by blast
  then have "card (f ` {..<n}) < card {..<n}" by (intro psubset_card_mono) auto
  then show False using f(2) by (simp add: card_image)
qed

definition pl_shared :: "pl_global \<Rightarrow> nat multiset" where
  "pl_shared g = mset (pl_avail (pl_as g)) + mset_set (pl_held g)"

definition pl_inv :: "pl_global \<Rightarrow> (tid \<Rightarrow> uint32 as_pc) \<Rightarrow> bool" where
  "pl_inv g ls \<longleftrightarrow> finite (pl_held g) \<and> unat (pl_capacity g) < 2 ^ 32 \<and>
     as_usable (ag_st (pl_as g)) = unat (pl_capacity g) \<and>
     placed (unat (pl_capacity g)) (pl_shared g) (\<lambda>t. pl_val (pl_as g) (ls t))"

lemma pl_init:
  assumes "pl_ginit g"
  shows "pl_inv g (\<lambda>_. AsIdle)"
proof -
  obtain p where p: "pool_new (pl_capacity g) = Some (Inr p)" "op_free p = ag_st (pl_as g)" "as_ginit (pl_as g)" "pl_held g = {}"
    using assms by (auto simp: pl_ginit_def)
  have r: "pool_reach (pl_capacity g) p {}" by (rule pool_reach.start [OF p(1)])
  have inv: "pool_invar p" "op_capacity p = pl_capacity g" "pool_available p = {..<unat (pl_capacity g)}"
    using pool_reach_inv [OF r] by auto
  have av: "pl_avail (pl_as g) = map unat (as_contents (op_free p))"
    using p(2,3) as_lists_contents by (fastforce simp: as_ginit_def as_abs_def pl_avail_def)
  have "distinct (pl_avail (pl_as g))"
    using inv(1) by (simp add: av pool_invar_def distinct_map inj_on_def word_unat_eq_iff)
  then have "count (mset (pl_avail (pl_as g))) x \<le> 1" for x
    by (simp add: distinct_count_atmost_1)
  moreover have "set (pl_avail (pl_as g)) = {..<unat (pl_capacity g)}" using inv(3) by (simp add: av pool_available_def)
  ultimately show ?thesis using inv(1,2) p(2,4) by (auto simp: pl_inv_def placed_def pl_shared_def pool_invar_def)
qed

text \<open>The object that a node carries: as its data on the stack, or with the call that owns it.\<close>

definition carries :: "uint32 as_global \<Rightarrow> (tid \<Rightarrow> uint32 as_pc) \<Rightarrow> nat \<Rightarrow> nat \<Rightarrow> bool" where
  "carries g ls k y \<longleftrightarrow> k \<in> set (ag_ds g) \<and> y = unat (nd_data (as_nodes (ag_st g) ! k)) \<or>
     (\<exists>u i. owns (ls u) = Some i \<and> unat i = k \<and> pl_val g (ls u) = Some y)"

lemma owner_carries:
  assumes "as_L g l" "owns l = Some i"
  shows "\<exists>y. pl_val g l = Some y"
proof -
  have "\<exists>y. res_val r = Some y" if "res_ok g i r" for r using that by (cases r) auto
  then show ?thesis using assms by (cases "(g, l)" rule: as_L.cases) (auto split: stack_op.splits)
qed

lemma carries_inj:
  assumes I: "pl_inv g ls" and c: "carries (pl_as g) ls k y" "carries (pl_as g) ls l y"
  shows "k = l"
proof -
  have P: "count (pl_shared g) x \<le> 1" "pl_val (pl_as g) (ls u) = Some x \<Longrightarrow> x \<notin># pl_shared g"
    "pl_val (pl_as g) (ls u) = Some x \<Longrightarrow> pl_val (pl_as g) (ls w) = Some x \<Longrightarrow> u = w" for x u w
    using I by (auto simp: pl_inv_def placed_def)
  have "count (mset (pl_avail (pl_as g))) x \<le> 1" for x using P(1) [of x] by (simp add: pl_shared_def)
  then have "distinct (pl_avail (pl_as g))" by (auto simp: distinct_count_atmost_1 le_Suc_eq)
  then have inj: "inj_on (\<lambda>k. unat (nd_data (as_nodes (ag_st (pl_as g)) ! k))) (set (ag_ds (pl_as g)))"
    by (simp add: pl_avail_def as_abs_def distinct_map comp_def)
  have "y \<in># pl_shared g" if "k \<in> set (ag_ds (pl_as g))" "y = unat (nd_data (as_nodes (ag_st (pl_as g)) ! k))" for k y
    using that by (auto simp: pl_shared_def pl_avail_def as_abs_def)
  with P(2) c consider (nodes) "k \<in> set (ag_ds (pl_as g))" "l \<in> set (ag_ds (pl_as g))"
      "unat (nd_data (as_nodes (ag_st (pl_as g)) ! k)) = unat (nd_data (as_nodes (ag_st (pl_as g)) ! l))"
    | (calls) u w i j where "owns (ls u) = Some i" "unat i = k" "owns (ls w) = Some j" "unat j = l"
      "pl_val (pl_as g) (ls u) = Some y" "pl_val (pl_as g) (ls w) = Some y" unfolding carries_def by blast
  then show ?thesis
  proof cases
    case nodes
    then show ?thesis using inj by (simp add: inj_on_def)
  next
    case calls
    then show ?thesis using P(3) [of u y w] by auto
  qed
qed

lemma pl_free_node:
  assumes I: "pl_inv g ls" and r: "as_reach (pl_as g, ls)" and B: "as_bound (pl_as g)"
    and t: "pl_val (pl_as g) (ls t) = Some x" "owns (ls t) = None"
  shows "ag_fs (pl_as g) \<noteq> []"
proof
  assume fs: "ag_fs (pl_as g) = []"
  have P: "placed (unat (pl_capacity g)) (pl_shared g) (\<lambda>t. pl_val (pl_as g) (ls t))"
    "as_usable (ag_st (pl_as g)) = unat (pl_capacity g)" using I by (auto simp: pl_inv_def)
  have "\<exists>y. carries (pl_as g) ls k y" if "k < unat (pl_capacity g)" for k
    using as_nodes_owned [OF r, of k] B that P(2) fs owner_carries [OF as_og.reach_L [OF r B]]
    by (fastforce simp: carries_def)
  then obtain f where f: "\<And>k. k < unat (pl_capacity g) \<Longrightarrow> carries (pl_as g) ls k (f k)" by metis
  show False
  proof (rule placed_pigeonhole [OF P(1) t(1)])
    show "f k \<noteq> x \<and> f k < unat (pl_capacity g)" if "k < unat (pl_capacity g)" for k
      using f [OF that] P(1) t by (fastforce simp: carries_def placed_def pl_shared_def pl_avail_def as_abs_def)
    show "inj_on f {..<unat (pl_capacity g)}" using f carries_inj [OF I] by (metis inj_onI lessThan_iff)
  qed
qed

lemma pl_not_refused:
  assumes I: "pl_inv g ls" and r: "as_reach (pl_as g, ls)" and B: "as_bound (pl_as g)"
    and ex: "as_go sp (pl_as g) (ls t) = (g', l')"
  shows "\<not> push_refused (ls t) l'"
proof
  assume ref: "push_refused (ls t) l'"
  then have "hd_index (unpack (target FreeHead (ag_st (pl_as g)))) = NULL_INDEX"
    using ex by (auto simp: push_refused_def take_check_def Let_def split: if_splits)
  then have "ag_fs (pl_as g) = []"
    using as_G_head [OF as_og.reach_G [OF r B], of FreeHead] by (cases "ag_fs (pl_as g)") (auto simp: head_ok_def)
  moreover have "owns (ls t) = None" "\<exists>x. pl_val (pl_as g) (ls t) = Some x" using ref by (auto simp: push_refused_def)
  ultimately show False using pl_free_node [OF I r B] by blast
qed

lemma pl_shared_go:
  assumes "mset (pl_avail a) + m = mset (pl_avail (pl_as g)) + n"
  shows "pl_shared (g\<lparr>pl_as := a\<rparr>) + m = pl_shared g + n"
  using assms by (simp add: pl_shared_def)

lemma pl_own_step:
  assumes ex: "pl_exec a g (ls t) = (g', l')" and I: "pl_inv g ls" and r: "as_reach (pl_as g, ls)"
    and B: "as_bound (pl_as g)" and M: "\<not> pl_misuse g'"
  shows "pl_shared g' + mset_option (pl_val (pl_as g') l') = pl_shared g + mset_option (pl_val (pl_as g) (ls t))"
proof -
  have fin: "finite (pl_held g)" "unat (pl_capacity g) < 2 ^ 32" using I by (auto simp: pl_inv_def)
  note inv = as_og.reach_G [OF r B] as_og.reach_L [OF r B, of t]
  show ?thesis
  proof (cases a)
    case PlAcquire
    then show ?thesis using ex by (auto split: as_pc.splits)
  next
    case (PlRelease off)
    show ?thesis
    proof (cases "ls t = AsIdle \<and> 0 \<le> off \<and> off < int (unat (pl_capacity g))")
      case True
      then have held: "nat off \<in> pl_held g" using ex PlRelease M by auto
      have "int (unat (pl_capacity g)) < int (2 ^ 32)" using fin(2) by (simp only: of_nat_less_iff)
      then have "0 \<le> off" "off < 2 ^ 32" using True by simp_all
      then have "unat (word_of_int off :: uint32) = nat off" by (simp add: unsigned_of_int take_bit_int_eq_self)
      then show ?thesis using True held ex PlRelease mset_set.remove [OF fin(1), of "nat off"] by (auto simp: pl_shared_def)
    qed (use ex PlRelease in \<open>auto split: as_pc.splits if_splits\<close>)
  next
    case (PlGo sp)
    show ?thesis
    proof (cases "\<exists>idx. ls t = AsRet (Popped idx)")
      case True
      then obtain idx where idx: "ls t = AsRet (Popped idx)" by blast
      then have "pl_val (pl_as g) (ls t) = Some (unat idx)" by simp
      then have "unat idx \<notin># pl_shared g" using I unfolding pl_inv_def placed_def by blast
      then have "unat idx \<notin> pl_held g" using fin(1) by (simp add: pl_shared_def)
      then show ?thesis using idx ex PlGo fin(1) by (auto simp: pl_shared_def)
    next
      case False
      obtain a' where a': "as_go sp (pl_as g) (ls t) = (a', l')" "g' = g\<lparr>pl_as := a'\<rparr>"
        using ex PlGo pl_exec_go [of "ls t" sp g] False by (cases "as_go sp (pl_as g) (ls t)") auto
      show ?thesis unfolding a'(2)
        using pl_shared_go [OF pl_go_val [OF a'(1) inv pl_not_refused [OF I r B a'(1)]]] False by simp
    qed
  qed
qed

lemma pl_exec_same:
  assumes "pl_exec a g l = (g', l')" "finite (pl_held g)"
  shows "pl_capacity g' = pl_capacity g" "finite (pl_held g')" "as_usable (ag_st (pl_as g')) = as_usable (ag_st (pl_as g))"
proof -
  show "pl_capacity g' = pl_capacity g" "finite (pl_held g')"
    using assms by (cases "(a, g, l)" rule: pl_exec.cases; auto split: as_pc.splits if_splits prod.splits)+
  show "as_usable (ag_st (pl_as g')) = as_usable (ag_st (pl_as g))"
    using pl_exec_proj [OF assms(1)] as_exec_sizes by (fastforce simp: as_usable_def)
qed

lemma pl_misuse_mono: "pl_exec a g l = (g', l') \<Longrightarrow> pl_misuse g \<Longrightarrow> pl_misuse g'"
  by (cases "(a, g, l)" rule: pl_exec.cases) (auto split: as_pc.splits if_splits prod.splits)

lemma pl_other_step:
  assumes ex: "pl_exec a g (ls t) = (g', l')" and r: "as_reach (pl_as g, ls)" and B: "as_bound (pl_as g)" and u: "u \<noteq> t"
  shows "pl_val (pl_as g') (ls u) = pl_val (pl_as g) (ls u)"
  using pl_exec_proj [OF ex]
proof (elim disjE exE conjE)
  fix b assume b: "as_exec b (pl_as g) (ls t) = (pl_as g', l')"
  show ?thesis
  proof (cases b)
    case (AsCall op)
    then show ?thesis using b by (auto split: as_pc.splits)
  next
    case (AsGo sp)
    then show ?thesis using b
      pl_val_stable [OF _ as_og.reach_L [OF r B, of t] as_og.reach_L [OF r B, of u] as_og.reach_X [OF r B, of t u]] u by auto
  qed
qed simp

lemma pl_reach_inv:
  assumes "pl_reach c"
  shows "as_bound (pl_as (fst c)) \<Longrightarrow> \<not> pl_misuse (fst c) \<Longrightarrow> pl_inv (fst c) (snd c)"
  using assms
proof (induction rule: reach.induct)
  case (start g)
  then show ?case using pl_init by simp
next
  case (step c e)
  obtain t a g ls where e: "e = (t, a)" "c = (g, ls)" by (metis surj_pair)
  obtain g' l' where ex: "pl_exec a g (ls t) = (g', l')" by (cases "pl_exec a g (ls t)")
  have B': "as_bound (pl_as g')" and M: "\<not> pl_misuse g'" using step.prems by (simp_all add: e ex sys_step_eq)
  then have B: "as_bound (pl_as g)" using pl_exec_proj [OF ex] as_og.bound_down by metis
  then have I: "pl_inv g ls" using step.IH e pl_misuse_mono [OF ex] M by auto
  have r: "as_reach (pl_as g, ls)" using pl_reach_as step.hyps e by simp
  have "placed (unat (pl_capacity g)) (pl_shared g') ((\<lambda>u. pl_val (pl_as g) (ls u))(t := pl_val (pl_as g') l'))"
    using placed_step [where V = "\<lambda>u. pl_val (pl_as g) (ls u)", OF _ pl_own_step [OF ex I r B M]] I by (simp add: pl_inv_def)
  moreover have "(\<lambda>u. pl_val (pl_as g) (ls u))(t := pl_val (pl_as g') l') = (\<lambda>u. pl_val (pl_as g') ((ls(t := l')) u))"
    using pl_other_step [OF ex r B] by auto
  ultimately have "pl_inv g' (ls(t := l'))" using I pl_exec_same [OF ex] by (simp add: pl_inv_def)
  then show ?case by (simp add: e ex sys_step_eq del: fun_upd_apply)
qed

subsection \<open>Properties of every schedule\<close>

text \<open>
  C7. No object is ever in two hands and none gets lost, whatever the schedule, as long as no call of \<^verbatim>\<open>release\<close> was given an object that no client
  held (the code does not check this) and the tags of the stack have not wrapped (fewer than \<open>2 ^ 32\<close> exchanges of each head word):
  every object of the pool is in exactly one place, which is the stack of free indices, the hands of a client, or one running call.
  In particular the object that \<^verbatim>\<open>acquire\<close> is about to return is a valid one that nobody holds, and the
  \<^verbatim>\<open>try_push\<close> whose result \<^verbatim>\<open>release\<close> ignores never finds the stack full.
\<close>

theorem pool_conc_one_place:
  assumes "pl_reach (g, ls)" "as_bound (pl_as g)" "\<not> pl_misuse g"
  shows "distinct (pl_avail (pl_as g)) \<and> set (pl_avail (pl_as g)) \<inter> pl_held g = {} \<and>
    (\<forall>t x. pl_val (pl_as g) (ls t) = Some x \<longrightarrow> x \<notin> set (pl_avail (pl_as g)) \<and> x \<notin> pl_held g \<and>
       (\<forall>u. u \<noteq> t \<longrightarrow> pl_val (pl_as g) (ls u) \<noteq> Some x)) \<and>
    (\<forall>x. x < unat (pl_capacity g) \<longleftrightarrow>
       x \<in> set (pl_avail (pl_as g)) \<or> x \<in> pl_held g \<or> (\<exists>t. pl_val (pl_as g) (ls t) = Some x)) \<and>
    (\<forall>t idx. ls t = AsRet (Popped idx) \<longrightarrow> unat idx < unat (pl_capacity g) \<and> unat idx \<notin> pl_held g) \<and>
    (\<forall>t sp. \<not> push_refused (ls t) (snd (as_go sp (pl_as g) (ls t))))"
proof -
  have I: "pl_inv g ls" using pl_reach_inv [OF assms(1)] assms(2,3) by simp
  have fin: "finite (pl_held g)" and P: "placed (unat (pl_capacity g)) (pl_shared g) (\<lambda>t. pl_val (pl_as g) (ls t))"
    using I by (auto simp: pl_inv_def)
  have in_shared: "x \<in># pl_shared g \<longleftrightarrow> x \<in> set (pl_avail (pl_as g)) \<or> x \<in> pl_held g" for x
    using fin by (simp add: pl_shared_def)
  have one: "count (mset (pl_avail (pl_as g))) x + count (mset_set (pl_held g)) x \<le> 1" for x
    using P by (simp add: placed_def pl_shared_def)
  have "count (mset (pl_avail (pl_as g))) x \<le> 1" for x using one [of x] by linarith
  then have "distinct (pl_avail (pl_as g))" by (auto simp: distinct_count_atmost_1 le_Suc_eq)
  moreover have False if "x \<in> set (pl_avail (pl_as g))" "x \<in> pl_held g" for x
  proof -
    have "0 < count (mset (pl_avail (pl_as g))) x" using that(1) by simp
    then show False using one [of x] that(2) fin by simp
  qed
  moreover have "\<not> push_refused (ls t) (snd (as_go sp (pl_as g) (ls t)))" for t sp
    by (rule pl_not_refused [OF I _ assms(2), where sp = sp and g' = "fst (as_go sp (pl_as g) (ls t))"])
       (simp_all add: pl_reach_as assms(1))
  moreover have "pl_val (pl_as g) (ls t) = Some (unat idx)" if "ls t = AsRet (Popped idx)" for t idx using that by simp
  ultimately show ?thesis using P unfolding placed_def in_shared by blast
qed

subsection \<open>A schedule\<close>

text \<open>
  A pool of two objects: thread 0 acquires one, thread 1 acquires the other, and before it
  returns, thread 0 gives its object back.
\<close>

definition pl_g0 :: pl_global where
  "pl_g0 = \<lparr>pl_as = \<lparr>ag_st = (case pool_new 2 of Some (Inr p) \<Rightarrow> op_free p), ag_ds = [1, 0], ag_fs = [], ag_nd = 2, ag_nf = 2,
     ag_taken = (\<lambda>_. 0)\<rparr>, pl_capacity = 2, pl_held = {}, pl_misuse = False\<rparr>"

lemma pool_new_2: "pool_new 2 = Some (Inr \<lparr>op_capacity = 2, op_free = \<lparr>as_nodes = [\<lparr>nd_data = 0, nd_next = NULL_INDEX\<rparr>, \<lparr>nd_data = 1, nd_next = 0\<rparr>],
    as_capacity = 2, as_head = pack 1 2, as_free = pack NULL_INDEX 2\<rparr>\<rparr>)"
proof -
  have "replicate 2 x = [x, x]" for x :: "uint32 node" by (simp add: numeral_2_eq_2)
  then show ?thesis
    by (simp add: pool_new_def as_new_def pool_fill.simps as_try_push_def pop_index_def push_index_def load_next_def store_data_def store_next_def Let_def)
qed

lemma pl_g0_init: "pl_ginit pl_g0"
proof -
  have "{0, Suc 0} = {..<2}" by auto
  then show ?thesis by (simp add: pl_ginit_def as_ginit_def as_lists_def pl_g0_def pool_new_2 as_usable_def insert_commute)
qed

definition pl_sched :: "(tid \<times> pl_act) list" where
  "pl_sched = 
     [(0, PlAcquire), (0, PlGo False), (0, PlGo False), (0, PlGo False), (0, PlGo False), (0, PlGo False), (0, PlGo False), (0, PlGo False), (0, PlGo False),
      (1, PlAcquire), (1, PlGo False), (1, PlGo False), (1, PlGo False), (1, PlGo False), (1, PlGo False), (1, PlGo False), (1, PlGo False),
      (0, PlRelease 1)]"

abbreviation pl_run :: "(pl_global, uint32 as_pc) config" where
  "pl_run \<equiv> run pl_exec (pl_g0, \<lambda>_. AsIdle) pl_sched"

lemma pl_run_ok:
  "snd pl_run 1 = AsRet (Popped 0)" "snd pl_run 0 = TakeLoad (OpPush 1)" "as_bound (pl_as (fst pl_run))"
  "pl_capacity (fst pl_run) = 2" "\<not> pl_misuse (fst pl_run)"
  by (simp_all add: pl_sched_def pl_g0_def pool_new_2 sys_step_def take_check_def load_next_def load_data_def store_next_def
      ghost_take_def ghost_put_def Let_def as_bound_def)

theorem pool_conc_one_place_witness:
  "snd pl_run 1 = AsRet (Popped 0) \<and> 0 \<notin> pl_held (fst pl_run) \<and> 1 \<notin> pl_held (fst pl_run) \<and>
   \<not> push_refused (snd pl_run 0) (snd (as_go False (pl_as (fst pl_run)) (snd pl_run 0)))"
proof -
  have "pl_reach (fst pl_run, snd pl_run)" using reach_run_init [of pl_ginit pl_g0 pl_exec "\<lambda>_. AsIdle" pl_sched, OF pl_g0_init] by simp
  from pool_conc_one_place [OF this pl_run_ok(3,5)]
  have "pl_val (pl_as (fst pl_run)) (snd pl_run 0) = Some 1 \<longrightarrow> 1 \<notin> pl_held (fst pl_run)"
    "snd pl_run 1 = AsRet (Popped 0) \<longrightarrow> unat (0 :: uint32) \<notin> pl_held (fst pl_run)"
    "\<not> push_refused (snd pl_run 0) (snd (as_go False (pl_as (fst pl_run)) (snd pl_run 0)))" by blast+
  then show ?thesis using pl_run_ok(1,2) by simp
qed

end
