(* ===== verification/Epoch_Reclaimer.thy ===== *)
theory Epoch_Reclaimer
  imports Interleaving
begin

text \<open>
  \<^verbatim>\<open>include/lockless/epoch_reclaimer.hpp\<close>. Objects are numbered; a retired node is its object, and
  calling its deleter is the appearance of the object in the list of freed objects that the
  operations return (the deleter itself is the client's code). This theory runs the operations
  one after the other, in any order, and shows that a reader's objects are not freed under it and
  that every retired object is freed exactly once. \<^verbatim>\<open>Epoch_Conc\<close> splits the operations into their
  accesses: there the promise fails, in two ways.

  The epoch is a 64-bit counter that also uses \<^verbatim>\<open>UINT64_MAX\<close> for "not active"; the theorems are about
  the first \<open>2 ^ 64 - 2\<close> epochs.
\<close>

abbreviation MAX_THREADS :: nat where "MAX_THREADS \<equiv> 64"
abbreviation NUM_EPOCHS :: nat where "NUM_EPOCHS \<equiv> 3"

type_synonym obj = nat

record thread_slot =
  local_epoch :: uint64
  in_use :: bool

record reclaimer =
  global_epoch :: uint64
  er_slots :: "thread_slot list"
  retire_lists :: "obj list list"

definition er_new :: reclaimer where
  "er_new = \<lparr>global_epoch = 0, er_slots = replicate MAX_THREADS \<lparr>local_epoch = UINT64_MAX, in_use = False\<rparr>,
     retire_lists = replicate NUM_EPOCHS []\<rparr>"

definition er_destroy :: "reclaimer \<Rightarrow> obj list" where
  "er_destroy er = concat (retire_lists er)"

fun register_loop :: "nat \<Rightarrow> thread_slot list \<Rightarrow> (nat \<times> thread_slot list) option" where
  "register_loop i [] = None"
| "register_loop i (s # ss) =
     (if \<not> in_use s then Some (i, s\<lparr>in_use := True, local_epoch := UINT64_MAX\<rparr> # ss)
      else map_option (\<lambda>(j, ss'). (j, s # ss')) (register_loop (Suc i) ss))"

definition register_thread :: "reclaimer \<Rightarrow> int \<times> reclaimer" where
  "register_thread er =
     (case register_loop 0 (er_slots er) of
        None \<Rightarrow> (-1, er)
      | Some (i, ss) \<Rightarrow> (int i, er\<lparr>er_slots := ss\<rparr>))"

definition unregister_thread :: "reclaimer \<Rightarrow> int \<Rightarrow> reclaimer" where
  "unregister_thread er tid =
     (if tid < 0 \<or> int MAX_THREADS \<le> tid then er
      else er\<lparr>er_slots := (er_slots er)[nat tid :=
             (er_slots er ! nat tid)\<lparr>local_epoch := UINT64_MAX, in_use := False\<rparr>]\<rparr>)"

text \<open>\<^verbatim>\<open>enter_critical\<close> and \<^verbatim>\<open>leave_critical\<close> do not check the slot number; outside the array the access is undefined.\<close>

definition set_local :: "reclaimer \<Rightarrow> int \<Rightarrow> uint64 \<Rightarrow> reclaimer option" where
  "set_local er tid e =
     (if 0 \<le> tid \<and> nat tid < length (er_slots er)
      then Some (er\<lparr>er_slots := (er_slots er)[nat tid := (er_slots er ! nat tid)\<lparr>local_epoch := e\<rparr>]\<rparr>) else None)"

definition enter_critical :: "reclaimer \<Rightarrow> int \<Rightarrow> reclaimer option" where
  "enter_critical er tid = set_local er tid (global_epoch er)"

definition leave_critical :: "reclaimer \<Rightarrow> int \<Rightarrow> reclaimer option" where
  "leave_critical er tid = set_local er tid UINT64_MAX"

text \<open>\<^verbatim>\<open>EpochGuard\<close>: the constructor enters, the destructor leaves; \<open>body\<close> is what runs in the scope.\<close>

definition with_epoch_guard :: "reclaimer \<Rightarrow> int \<Rightarrow> (reclaimer \<Rightarrow> 'r \<times> reclaimer) \<Rightarrow> ('r \<times> reclaimer) option" where
  "with_epoch_guard er tid body =
     (case enter_critical er tid of
        None \<Rightarrow> None
      | Some er1 \<Rightarrow> (case body er1 of (r, er2) \<Rightarrow> map_option (\<lambda>er3. (r, er3)) (leave_critical er2 tid)))"

definition epoch_idx :: "uint64 \<Rightarrow> nat" where
  "epoch_idx e = unat (e mod 3)"

text \<open>The loop over the slots: it returns early at the first active slot in another epoch.\<close>

fun all_observed :: "uint64 \<Rightarrow> thread_slot list \<Rightarrow> bool" where
  "all_observed current [] = True"
| "all_observed current (s # ss) =
     (if \<not> in_use s then all_observed current ss
      else if local_epoch s \<noteq> UINT64_MAX \<and> local_epoch s \<noteq> current then False
      else all_observed current ss)"

definition try_advance :: "reclaimer \<Rightarrow> obj list \<times> reclaimer" where
  "try_advance er =
     (let current = global_epoch er in
      if \<not> all_observed current (er_slots er) then ([], er)
      else
        let new_epoch = current + 1; old_idx = epoch_idx new_epoch in
        (retire_lists er ! old_idx,
         er\<lparr>global_epoch := new_epoch, retire_lists := (retire_lists er)[old_idx := []]\<rparr>))"

definition retire :: "reclaimer \<Rightarrow> obj \<Rightarrow> obj list \<times> reclaimer" where
  "retire er p =
     (let idx = epoch_idx (global_epoch er) in
      try_advance (er\<lparr>retire_lists := (retire_lists er)[idx := retire_lists er ! idx @ [p]]\<rparr>))"

subsection \<open>Operations in sequence\<close>

text \<open>
  The state of a run: the reclaimer, the objects freed so far, and two ghosts: the epoch in which
  an object was retired, and the pairs of a slot and an object such that the object was retired
  while the slot was inside its current critical section. These are the objects the slot's
  thread may still be reading. Threads enter with a slot they have registered and are not already
  inside; an object is retired once.
\<close>

record ep_run =
  er :: reclaimer
  freed :: "obj list"
  retired_at :: "obj \<rightharpoonup> nat"
  reading :: "(nat \<times> obj) set"

definition active :: "reclaimer \<Rightarrow> nat \<Rightarrow> bool" where
  "active r t \<longleftrightarrow> t < length (er_slots r) \<and> in_use (er_slots r ! t) \<and> local_epoch (er_slots r ! t) \<noteq> UINT64_MAX"

definition leave_reading :: "int \<Rightarrow> (nat \<times> obj) set \<Rightarrow> (nat \<times> obj) set" where
  "leave_reading tid rs = {(u, p) \<in> rs. int u \<noteq> tid}"

inductive ep_step :: "ep_run \<Rightarrow> ep_run \<Rightarrow> bool" where
  register: "register_thread (er s) = (tid, r) \<Longrightarrow> ep_step s (s\<lparr>er := r\<rparr>)"
| unregister: "unregister_thread (er s) tid = r \<Longrightarrow>
    ep_step s (s\<lparr>er := r, reading := leave_reading tid (reading s)\<rparr>)"
| enter: "t < length (er_slots (er s)) \<Longrightarrow> in_use (er_slots (er s) ! t) \<Longrightarrow> \<not> active (er s) t \<Longrightarrow>
    enter_critical (er s) (int t) = Some r \<Longrightarrow> ep_step s (s\<lparr>er := r\<rparr>)"
| leave: "leave_critical (er s) (int t) = Some r \<Longrightarrow> ep_step s (s\<lparr>er := r, reading := leave_reading (int t) (reading s)\<rparr>)"
| retire: "retired_at s p = None \<Longrightarrow> unat (global_epoch (er s)) < 2 ^ 64 - 2 \<Longrightarrow> retire (er s) p = (fs, r) \<Longrightarrow>
    ep_step s (s\<lparr>retired_at := (retired_at s)(p \<mapsto> unat (global_epoch (er s))),
      reading := reading s \<union> {t. active (er s) t} \<times> {p}, er := r, freed := freed s @ fs\<rparr>)"

definition ep_init :: ep_run where
  "ep_init = \<lparr>er = er_new, freed = [], retired_at = Map.empty, reading = {}\<rparr>"

abbreviation ep_reach :: "ep_run \<Rightarrow> bool" where
  "ep_reach \<equiv> ep_step\<^sup>*\<^sup>* ep_init"

inductive_cases ep_stepE [consumes 1, case_names register unregister enter leave retire]: "ep_step s s'"

subsection \<open>Invariant\<close>

abbreviation ep_E :: "ep_run \<Rightarrow> nat" where "ep_E s \<equiv> unat (global_epoch (er s))"

definition ep_shape :: "ep_run \<Rightarrow> bool" where
  "ep_shape s \<longleftrightarrow> length (er_slots (er s)) = MAX_THREADS \<and> length (retire_lists (er s)) = NUM_EPOCHS \<and>
     ep_E s \<le> 2 ^ 64 - 2 \<and> (\<forall>t. active (er s) t \<longrightarrow> unat (local_epoch (er_slots (er s) ! t)) \<le> ep_E s)"

definition ep_lists :: "ep_run \<Rightarrow> bool" where
  "ep_lists s \<longleftrightarrow> (\<forall>i < NUM_EPOCHS. \<forall>p \<in> set (retire_lists (er s) ! i).
     \<exists>e. retired_at s p = Some e \<and> e mod NUM_EPOCHS = i \<and> e \<le> ep_E s \<and> ep_E s \<le> e + 2)"

definition ep_reading :: "ep_run \<Rightarrow> bool" where
  "ep_reading s \<longleftrightarrow> (\<forall>(t, p) \<in> reading s. p \<notin> set (freed s) \<and> active (er s) t \<and>
     (\<exists>e. retired_at s p = Some e \<and> unat (local_epoch (er_slots (er s) ! t)) \<le> e))"

definition ep_once :: "ep_run \<Rightarrow> bool" where
  "ep_once s \<longleftrightarrow> distinct (freed s @ concat (retire_lists (er s))) \<and>
     set (freed s @ concat (retire_lists (er s))) = dom (retired_at s)"

definition ep_inv :: "ep_run \<Rightarrow> bool" where
  "ep_inv s \<longleftrightarrow> ep_shape s \<and> ep_lists s \<and> ep_reading s \<and> ep_once s"

lemma epoch_idx_mod: "epoch_idx e = unat e mod NUM_EPOCHS"
  by (simp add: epoch_idx_def unat_mod_distrib)

lemma all_observed_iff:
  "all_observed e ss \<longleftrightarrow> (\<forall>s \<in> set ss. in_use s \<longrightarrow> local_epoch s = UINT64_MAX \<or> local_epoch s = e)"
  by (induction e ss rule: all_observed.induct) auto

lemma all_observed_active: "all_observed e (er_slots r) \<Longrightarrow> active r t \<Longrightarrow> local_epoch (er_slots r ! t) = e"
  by (auto simp: all_observed_iff active_def)

text \<open>
  A guard of a valid slot hands its body a reclaimer in which the slot is active, if registered and
  below the last epoch, and leaves the slot inactive, whatever the body retired.
\<close>

lemma with_epoch_guard_scope:
  assumes "t < length (er_slots r)" "global_epoch r \<noteq> UINT64_MAX" "in_use (er_slots r ! t)"
    and "\<And>r1. length (er_slots (snd (body r1))) = length (er_slots r1)"
  shows "\<exists>r1 r3. active r1 t \<and> with_epoch_guard r (int t) body = Some (fst (body r1), r3) \<and> \<not> active r3 t"
proof -
  let ?r1 = "r\<lparr>er_slots := (er_slots r)[t := (er_slots r ! t)\<lparr>local_epoch := global_epoch r\<rparr>]\<rparr>"
  obtain res r2 where b: "body ?r1 = (res, r2)" by (cases "body ?r1")
  then have l: "length (er_slots r2) = length (er_slots r)" using assms(4) [of ?r1] by simp
  let ?r3 = "r2\<lparr>er_slots := (er_slots r2)[t := (er_slots r2 ! t)\<lparr>local_epoch := UINT64_MAX\<rparr>]\<rparr>"
  have "with_epoch_guard r (int t) body = Some (fst (body ?r1), ?r3)"
    using assms(1) b l by (simp add: with_epoch_guard_def enter_critical_def leave_critical_def set_local_def)
  moreover have "active ?r1 t" "\<not> active ?r3 t" using assms(1-3) l by (simp_all add: active_def)
  ultimately show ?thesis by blast
qed

lemma ep_listsD:
  assumes "ep_lists s" "i < NUM_EPOCHS" "p \<in> set (retire_lists (er s) ! i)"
  obtains e where "retired_at s p = Some e" "e mod NUM_EPOCHS = i" "e \<le> ep_E s" "ep_E s \<le> e + 2"
  using assms unfolding ep_lists_def by blast

lemma ep_readingD:
  assumes "ep_reading s" "(t, p) \<in> reading s"
  shows "p \<notin> set (freed s)" "active (er s) t"
    "\<exists>e. retired_at s p = Some e \<and> unat (local_epoch (er_slots (er s) ! t)) \<le> e"
  using assms by (auto simp: ep_reading_def)

text \<open>Three consecutive epochs use three different lists.\<close>

lemma mod3_oldest: "(e::nat) mod 3 = Suc k mod 3 \<Longrightarrow> e \<le> k \<Longrightarrow> k \<le> e + 2 \<Longrightarrow> k = e + 2"
  by presburger

lemma mod3_newer: "(e::nat) mod 3 \<noteq> Suc k mod 3 \<Longrightarrow> e \<le> k \<Longrightarrow> k \<le> e + 2 \<Longrightarrow> Suc k \<le> e + 2"
  by presburger

lemma length_3E:
  assumes "length xs = 3"
  obtains a b c where "xs = [a, b, c]"
  using assms by (auto simp: length_Suc_conv numeral_3_eq_3)

text \<open>Changing slots only: registering, entering, leaving.\<close>

lemma ep_inv_slots:
  assumes "ep_inv s" "length ss = MAX_THREADS" "rs \<subseteq> reading s"
    and act: "\<And>t. active ((er s)\<lparr>er_slots := ss\<rparr>) t \<Longrightarrow> unat (local_epoch (ss ! t)) \<le> ep_E s"
    and rd: "\<And>t p. (t, p) \<in> rs \<Longrightarrow> ss ! t = er_slots (er s) ! t"
  shows "ep_inv (s\<lparr>er := (er s)\<lparr>er_slots := ss\<rparr>, reading := rs\<rparr>)"
proof -
  have inv: "ep_shape s" "ep_lists s" "ep_reading s" "ep_once s" using assms(1) by (auto simp: ep_inv_def)
  let ?s = "s\<lparr>er := (er s)\<lparr>er_slots := ss\<rparr>, reading := rs\<rparr>"
  have "ep_shape ?s" using inv(1) assms(2) act by (auto simp: ep_shape_def)
  moreover have "ep_lists ?s" using inv(2) by (simp add: ep_lists_def)
  moreover have "ep_once ?s" using inv(4) by (simp add: ep_once_def)
  moreover have "ep_reading ?s"
    using inv(1,3) assms(2,3) rd by (fastforce simp: ep_reading_def active_def ep_shape_def)
  ultimately show ?thesis by (simp add: ep_inv_def)
qed

lemma register_loop_spec:
  "register_loop i ss = Some (j, ss') \<Longrightarrow> i \<le> j \<and> j - i < length ss \<and> \<not> in_use (ss ! (j - i)) \<and>
     ss' = ss[j - i := (ss ! (j - i))\<lparr>in_use := True, local_epoch := UINT64_MAX\<rparr>]"
proof (induction i ss arbitrary: j ss' rule: register_loop.induct)
  case (2 i s ss)
  then show ?case
  proof (cases "in_use s")
    case True
    then obtain ss1 where "register_loop (Suc i) ss = Some (j, ss1)" "ss' = s # ss1" using 2 by auto
    moreover from this have "Suc i \<le> j" using 2(1) [OF _ calculation(1)] True by simp
    then have "j - i = Suc (j - Suc i)" by simp
    ultimately show ?thesis using 2(1) [of j ss1] True by simp
  qed auto
qed simp

lemma ep_inv_register:
  assumes "ep_inv s" "register_thread (er s) = (tid, r)"
  shows "ep_inv (s\<lparr>er := r\<rparr>)"
proof (cases "register_loop 0 (er_slots (er s))")
  case None
  then have "r = er s" using assms(2) by (simp add: register_thread_def)
  then show ?thesis using assms(1) by simp
next
  case (Some a)
  then obtain j ss where j: "register_loop 0 (er_slots (er s)) = Some (j, ss)" by (cases a) auto
  let ?sl = "er_slots (er s)"
  have sp: "j < length ?sl" "\<not> in_use (?sl ! j)" "ss = ?sl[j := (?sl ! j)\<lparr>in_use := True, local_epoch := UINT64_MAX\<rparr>]"
    using register_loop_spec [OF j] by auto
  have inv: "ep_shape s" "ep_reading s" using assms(1) by (auto simp: ep_inv_def)
  have r: "r = (er s)\<lparr>er_slots := ss\<rparr>" using assms(2) j by (simp add: register_thread_def)
  have "ep_inv (s\<lparr>er := (er s)\<lparr>er_slots := ss\<rparr>, reading := reading s\<rparr>)"
  proof (rule ep_inv_slots [OF assms(1)])
    show "length ss = MAX_THREADS" using inv(1) sp by (simp add: ep_shape_def)
    show "unat (local_epoch (ss ! t)) \<le> ep_E s" if "active ((er s)\<lparr>er_slots := ss\<rparr>) t" for t
      using that inv(1) sp by (cases "t = j") (auto simp: active_def ep_shape_def)
    show "ss ! t = ?sl ! t" if "(t, p) \<in> reading s" for t p
      using ep_readingD [OF inv(2) that] sp by (cases "t = j") (auto simp: active_def)
  qed simp
  then show ?thesis by (simp add: r)
qed

lemma ep_inv_local:
  assumes "ep_inv s" "t < length (er_slots (er s))" "in_use nd \<longrightarrow> local_epoch nd = UINT64_MAX \<or> local_epoch nd = global_epoch (er s)"
    "rs \<subseteq> reading s" "\<And>p. (t, p) \<notin> rs"
  shows "ep_inv (s\<lparr>er := (er s)\<lparr>er_slots := (er_slots (er s))[t := nd]\<rparr>, reading := rs\<rparr>)"
proof (rule ep_inv_slots [OF assms(1)])
  have inv: "ep_shape s" using assms(1) by (simp add: ep_inv_def)
  show "length ((er_slots (er s))[t := nd]) = MAX_THREADS" using inv by (simp add: ep_shape_def)
  show "unat (local_epoch ((er_slots (er s))[t := nd] ! u)) \<le> ep_E s"
    if "active ((er s)\<lparr>er_slots := (er_slots (er s))[t := nd]\<rparr>) u" for u
    using that inv assms(2,3) by (cases "u = t") (auto simp: active_def ep_shape_def)
  show "(er_slots (er s))[t := nd] ! u = er_slots (er s) ! u" if "(u, p) \<in> rs" for u p
    using that assms(5) [of p] by (cases "u = t") auto
qed (rule assms(4))

lemma ep_freed_old:
  assumes "ep_lists s" "p \<in> set (retire_lists (er s) ! (Suc (ep_E s) mod NUM_EPOCHS))"
  shows "\<exists>e. retired_at s p = Some e \<and> e + 2 = ep_E s"
proof -
  have "Suc (ep_E s) mod NUM_EPOCHS < NUM_EPOCHS" by simp
  then obtain e where e: "retired_at s p = Some e" "e mod NUM_EPOCHS = Suc (ep_E s) mod NUM_EPOCHS"
      "e \<le> ep_E s" "ep_E s \<le> e + 2"
    by (rule ep_listsD [OF assms(1) _ assms(2)])
  then have "e + 2 = ep_E s" using mod3_oldest [of e "ep_E s"] by simp
  then show ?thesis using e(1) by blast
qed

lemma ep_kept_recent:
  assumes "ep_lists s" "i < NUM_EPOCHS" "i \<noteq> Suc (ep_E s) mod NUM_EPOCHS" "p \<in> set (retire_lists (er s) ! i)"
  shows "\<exists>e. retired_at s p = Some e \<and> e mod NUM_EPOCHS = i \<and> e \<le> ep_E s \<and> Suc (ep_E s) \<le> e + 2"
proof -
  obtain e where e: "retired_at s p = Some e" "e mod NUM_EPOCHS = i" "e \<le> ep_E s" "ep_E s \<le> e + 2"
    using ep_listsD [OF assms(1,2,4)] by blast
  then have "Suc (ep_E s) \<le> e + 2" using mod3_newer [of e "ep_E s"] assms(3) by simp
  then show ?thesis using e by blast
qed

lemma ep_once_empty_list:
  assumes "ep_shape s" "ep_once s" "j < NUM_EPOCHS"
  shows "ep_once (s\<lparr>er := (er s)\<lparr>global_epoch := E, retire_lists := (retire_lists (er s))[j := []]\<rparr>,
    freed := freed s @ retire_lists (er s) ! j\<rparr>)"
proof -
  have "length (retire_lists (er s)) = 3" using assms(1) by (simp add: ep_shape_def)
  then obtain a b c where abc: "retire_lists (er s) = [a, b, c]" by (rule length_3E)
  have "j = 0 \<or> j = 1 \<or> j = 2" using assms(3) by auto
  then show ?thesis using assms(2) abc by (elim disjE) (auto simp: ep_once_def numeral_2_eq_2)
qed

lemma ep_inv_try_advance:
  assumes "ep_inv s" "ep_E s < 2 ^ 64 - 2" "try_advance (er s) = (fs, r)"
  shows "ep_inv (s\<lparr>er := r, freed := freed s @ fs\<rparr>)"
proof (cases "all_observed (global_epoch (er s)) (er_slots (er s))")
  case False
  then have "fs = [] \<and> r = er s" using assms(3) by (simp add: try_advance_def Let_def)
  then show ?thesis using assms(1) by simp
next
  case True
  have inv: "ep_shape s" "ep_lists s" "ep_reading s" "ep_once s" using assms(1) by (auto simp: ep_inv_def)
  let ?E = "ep_E s" and ?ls = "retire_lists (er s)"
  have E1: "unat (global_epoch (er s) + 1) = ?E + 1" using assms(2) by (simp add: unat_plus_1)
  let ?j = "Suc ?E mod NUM_EPOCHS"
  have fs: "fs = ?ls ! ?j" and r: "r = (er s)\<lparr>global_epoch := global_epoch (er s) + 1, retire_lists := ?ls[?j := []]\<rparr>"
    using assms(3) True E1 by (auto simp: try_advance_def Let_def epoch_idx_mod)
  let ?s = "s\<lparr>er := r, freed := freed s @ fs\<rparr>"
  have j: "?j < length ?ls" using inv(1) by (simp add: ep_shape_def)
  have act: "active r t \<longleftrightarrow> active (er s) t" for t by (simp add: r active_def)
  note old = ep_freed_old [OF inv(2), folded fs]
  have "ep_shape ?s" using inv(1) assms(2) E1 by (auto simp: ep_shape_def act) (auto simp: r)
  moreover have "ep_lists ?s"
    unfolding ep_lists_def
  proof (intro allI impI ballI)
    fix i p assume i: "i < NUM_EPOCHS" and "p \<in> set (retire_lists (er ?s) ! i)"
    then have "i \<noteq> ?j" "p \<in> set (?ls ! i)" using j by (auto simp: r nth_list_update split: if_splits)
    then show "\<exists>e. retired_at ?s p = Some e \<and> e mod NUM_EPOCHS = i \<and> e \<le> ep_E ?s \<and> ep_E ?s \<le> e + 2"
      using ep_kept_recent [OF inv(2) i, of p] E1 by (fastforce simp: r)
  qed
  moreover have "ep_reading ?s"
    unfolding ep_reading_def
  proof (clarify, intro conjI)
    fix t p assume "(t, p) \<in> reading ?s"
    then have tp: "(t, p) \<in> reading s" by simp
    note d = ep_readingD [OF inv(3) tp]
    show "active (er ?s) t" using d(2) act by simp
    show "\<exists>e. retired_at ?s p = Some e \<and> unat (local_epoch (er_slots (er ?s) ! t)) \<le> e" using d(3) by (simp add: r)
    have "p \<notin> set fs" using old [of p] d(3) all_observed_active [OF True d(2)] by auto
    then show "p \<notin> set (freed ?s)" using d(1) by simp
  qed
  moreover have "ep_once ?s" using ep_once_empty_list [OF inv(1,4), of ?j] by (simp add: r fs)
  ultimately show ?thesis by (simp add: ep_inv_def)
qed

text \<open>The first half of \<^verbatim>\<open>retire\<close>: the object goes into the list of the current epoch.\<close>

lemma ep_inv_push:
  assumes "ep_inv s" "retired_at s p = None"
  defines "i \<equiv> epoch_idx (global_epoch (er s))"
  shows "ep_inv (s\<lparr>er := (er s)\<lparr>retire_lists := (retire_lists (er s))[i := retire_lists (er s) ! i @ [p]]\<rparr>,
    retired_at := (retired_at s)(p \<mapsto> ep_E s), reading := reading s \<union> {t. active (er s) t} \<times> {p}\<rparr>)"
    (is "ep_inv ?s")
proof -
  have inv: "ep_shape s" "ep_lists s" "ep_reading s" "ep_once s" using assms(1) by (auto simp: ep_inv_def)
  let ?ls = "retire_lists (er s)"
  have i: "i = ep_E s mod NUM_EPOCHS" "i < NUM_EPOCHS" "length ?ls = 3"
    using inv(1) by (simp_all add: i_def epoch_idx_mod ep_shape_def)
  have new: "p \<notin> set (freed s @ concat ?ls)" using inv(4) assms(2) by (auto simp: ep_once_def)
  have act: "active ((er s)\<lparr>retire_lists := x\<rparr>) t \<longleftrightarrow> active (er s) t" for t x by (simp add: active_def)
  have "ep_shape ?s" using inv(1) by (simp add: ep_shape_def act)
  moreover have "ep_lists ?s"
    unfolding ep_lists_def
  proof (intro allI impI ballI)
    fix k q assume k: "k < NUM_EPOCHS" and q: "q \<in> set (retire_lists (er ?s) ! k)"
    show "\<exists>e. retired_at ?s q = Some e \<and> e mod NUM_EPOCHS = k \<and> e \<le> ep_E ?s \<and> ep_E ?s \<le> e + 2"
    proof (cases "q = p")
      case True
      have "k = i" using q True new k i(3) nth_mem [of k ?ls] by (cases "k = i") auto
      then show ?thesis using True i(1) by simp
    next
      case False
      then have "q \<in> set (?ls ! k)" using q i(2,3) by (auto simp: nth_list_update split: if_splits)
      then obtain e where "retired_at s q = Some e" "e mod NUM_EPOCHS = k" "e \<le> ep_E s" "ep_E s \<le> e + 2"
        by (rule ep_listsD [OF inv(2) k])
      then show ?thesis using False by (intro exI [of _ e]) simp
    qed
  qed
  moreover have "ep_reading ?s"
    unfolding ep_reading_def
  proof (clarify, intro conjI)
    fix t q assume "(t, q) \<in> reading ?s"
    then consider "q = p" "active (er s) t" | "(t, q) \<in> reading s" by auto
    then show "q \<notin> set (freed ?s)" "active (er ?s) t"
        "\<exists>e. retired_at ?s q = Some e \<and> unat (local_epoch (er_slots (er ?s) ! t)) \<le> e"
      using new inv(1) ep_readingD [OF inv(3), of t q] assms(2) by (cases; auto simp: act ep_shape_def)+
  qed
  moreover have "ep_once ?s"
  proof -
    obtain a b c where abc: "?ls = [a, b, c]" using i(3) by (rule length_3E)
    have "i = 0 \<or> i = 1 \<or> i = 2" using i(2) by auto
    then show ?thesis using inv(4) abc new by (elim disjE) (auto simp: ep_once_def numeral_2_eq_2)
  qed
  ultimately show ?thesis by (simp add: ep_inv_def)
qed

lemma ep_inv_step: "ep_step s s' \<Longrightarrow> ep_inv s \<Longrightarrow> ep_inv s'"
proof (induction rule: ep_step.induct)
  case (register s tid r)
  then show ?case by (rule ep_inv_register [rotated])
next
  case (unregister s tid r)
  have len: "length (er_slots (er s)) = MAX_THREADS" using unregister by (simp add: ep_inv_def ep_shape_def)
  show ?case
  proof (cases "tid < 0 \<or> int MAX_THREADS \<le> tid")
    case True
    then have "r = (er s)\<lparr>er_slots := er_slots (er s)\<rparr>" using unregister by (simp add: unregister_thread_def)
    moreover have "ep_inv (s\<lparr>er := (er s)\<lparr>er_slots := er_slots (er s)\<rparr>, reading := leave_reading tid (reading s)\<rparr>)"
      using unregister.prems len
      by (intro ep_inv_slots) (auto simp: leave_reading_def ep_inv_def ep_shape_def active_def)
    ultimately show ?thesis by simp
  next
    case False
    then have "r = (er s)\<lparr>er_slots := (er_slots (er s))[nat tid := (er_slots (er s) ! nat tid)\<lparr>local_epoch := UINT64_MAX, in_use := False\<rparr>]\<rparr>"
      using unregister by (simp add: unregister_thread_def)
    moreover have "nat tid < length (er_slots (er s))" using False len by (simp add: nat_less_iff)
    ultimately show ?thesis using False unregister.prems
      by (simp only:) (rule ep_inv_local, auto simp: leave_reading_def)
  qed
next
  case (enter t s r)
  then have "r = (er s)\<lparr>er_slots := (er_slots (er s))[t := (er_slots (er s) ! t)\<lparr>local_epoch := global_epoch (er s)\<rparr>]\<rparr>"
    by (simp add: enter_critical_def set_local_def)
  moreover have "(t, p) \<notin> reading s" for p
    using enter ep_readingD(2) [of s t p] by (auto simp: ep_inv_def)
  ultimately have "ep_inv (s\<lparr>er := r, reading := reading s\<rparr>)"
    using enter by (simp only:) (rule ep_inv_local, auto)
  then show ?case by simp
next
  case (leave s t r)
  then have "r = (er s)\<lparr>er_slots := (er_slots (er s))[t := (er_slots (er s) ! t)\<lparr>local_epoch := UINT64_MAX\<rparr>]\<rparr>"
    "t < length (er_slots (er s))" by (auto simp: leave_critical_def set_local_def split: if_splits)
  then show ?case using leave by (simp only:) (rule ep_inv_local, auto simp: leave_reading_def)
next
  case (retire s p fs r)
  let ?i = "epoch_idx (global_epoch (er s))"
  let ?s1 = "s\<lparr>er := (er s)\<lparr>retire_lists := (retire_lists (er s))[?i := retire_lists (er s) ! ?i @ [p]]\<rparr>,
    retired_at := (retired_at s)(p \<mapsto> ep_E s), reading := reading s \<union> {t. active (er s) t} \<times> {p}\<rparr>"
  have "ep_inv ?s1" using retire by (intro ep_inv_push)
  moreover have "try_advance (er ?s1) = (fs, r)" using retire by (simp add: retire_def Let_def)
  ultimately have "ep_inv (?s1\<lparr>er := r, freed := freed ?s1 @ fs\<rparr>)"
    using retire by (intro ep_inv_try_advance) auto
  then show ?case by simp
qed

lemma ep_inv_reach: "ep_reach s \<Longrightarrow> ep_inv s"
proof (induction rule: rtranclp_induct)
  case base
  have "concat (replicate NUM_EPOCHS ([] :: obj list)) = []" by simp
  then show ?case
    by (auto simp: ep_init_def er_new_def ep_inv_def ep_shape_def ep_lists_def ep_reading_def ep_once_def active_def)
qed (rule ep_inv_step)

subsection \<open>Properties of sequences of operations\<close>

text \<open>
  C4. Safe reclamation: in every sequence of operations by registered threads, no object that was
  retired while a reader was inside its critical section is freed before that reader leaves it.
\<close>

theorem ep_safe:
  assumes "ep_reach s" "(t, p) \<in> reading s"
  shows "p \<notin> set (freed s) \<and> active (er s) t"
  using ep_inv_reach [OF assms(1)] ep_readingD [OF _ assms(2)] by (simp add: ep_inv_def)

text \<open>
  C22. No leak and no double free: at every moment, the objects freed so far followed by those the
  destructor would free are exactly the retired objects, each once.
\<close>

theorem ep_exactly_once:
  assumes "ep_reach s"
  shows "distinct (freed s @ er_destroy (er s)) \<and> set (freed s @ er_destroy (er s)) = dom (retired_at s)"
  using ep_inv_reach [OF assms] by (simp add: ep_inv_def ep_once_def er_destroy_def)

lemma retire_quiet:
  assumes "\<forall>t. \<not> active r t" "length (retire_lists r) = 3" "unat (global_epoch r) + 1 < 2 ^ 64"
  defines "E \<equiv> unat (global_epoch r)"
  shows "\<exists>f r'. retire r p = (f, r') \<and> (\<forall>t. \<not> active r' t) \<and> length (retire_lists r') = 3 \<and>
    unat (global_epoch r') = E + 1 \<and> f = retire_lists r ! ((E + 1) mod 3) \<and>
    p \<in> set (retire_lists r' ! (E mod 3)) \<and>
    (\<forall>k < 3. k \<noteq> (E + 1) mod 3 \<longrightarrow> set (retire_lists r ! k) \<subseteq> set (retire_lists r' ! k))"
proof -
  let ?ls = "(retire_lists r)[E mod 3 := retire_lists r ! (E mod 3) @ [p]]"
  have "all_observed (global_epoch r) (er_slots r)"
    using assms(1) by (auto simp: all_observed_iff active_def in_set_conv_nth)
  moreover have e1: "unat (global_epoch r + 1) = E + 1" using assms(3) by (simp add: unat_plus_1 E_def)
  ultimately have "retire r p = (?ls ! ((E + 1) mod 3), r\<lparr>global_epoch := global_epoch r + 1,
      retire_lists := ?ls[(E + 1) mod 3 := []]\<rparr>)"
    by (simp add: retire_def try_advance_def Let_def epoch_idx_mod E_def)
  moreover have "E mod 3 \<noteq> (E + 1) mod 3" "E mod 3 < 3" "(E + 1) mod 3 < 3" by presburger+
  ultimately show ?thesis using assms(1,2) e1 by (auto simp: active_def nth_list_update)
qed

text \<open>
  C33. Progress: while no registered thread is inside a critical section, every \<^verbatim>\<open>retire\<close> advances the
  epoch, and an object is freed at the latest by the second \<^verbatim>\<open>retire\<close> after its own. One reader that
  stays behind in an older epoch, on the other hand, stops all reclamation.
\<close>

theorem ep_progress:
  assumes "ep_reach s"
  shows "((\<forall>t. \<not> active (er s) t) \<and> ep_E s + 3 < 2 ^ 64 \<longrightarrow>
      (let (f1, r1) = retire (er s) p; (f2, r2) = retire r1 q; (f3, r3) = retire r2 x in
       unat (global_epoch r3) = ep_E s + 3 \<and> p \<in> set f3)) \<and>
    ((\<exists>t. active (er s) t \<and> local_epoch (er_slots (er s) ! t) \<noteq> global_epoch (er s)) \<longrightarrow>
      fst (retire (er s) p) = [] \<and> global_epoch (snd (retire (er s) p)) = global_epoch (er s))"
proof (intro conjI impI)
  have sh: "ep_shape s" using ep_inv_reach [OF assms] by (simp add: ep_inv_def)
  assume a: "(\<forall>t. \<not> active (er s) t) \<and> ep_E s + 3 < 2 ^ 64"
  let ?E = "ep_E s"
  have "length (retire_lists (er s)) = 3" using sh by (simp add: ep_shape_def)
  then obtain f1 r1 where 1: "retire (er s) p = (f1, r1)" "\<forall>t. \<not> active r1 t" "length (retire_lists r1) = 3"
    "unat (global_epoch r1) = ?E + 1" "p \<in> set (retire_lists r1 ! (?E mod 3))"
    using retire_quiet [of "er s" p] a by auto
  obtain f2 r2 where 2: "retire r1 q = (f2, r2)" "\<forall>t. \<not> active r2 t" "length (retire_lists r2) = 3"
    "unat (global_epoch r2) = ?E + 2"
    "\<forall>k < 3. k \<noteq> (?E + 2) mod 3 \<longrightarrow> set (retire_lists r1 ! k) \<subseteq> set (retire_lists r2 ! k)"
    using retire_quiet [OF 1(2,3), of q] 1(4) a by auto
  obtain f3 r3 where 3: "retire r2 x = (f3, r3)" "unat (global_epoch r3) = ?E + 3"
    "f3 = retire_lists r2 ! ((?E + 3) mod 3)"
    using retire_quiet [OF 2(2,3), of x] 2(4) a by auto
  have "?E mod 3 \<noteq> (?E + 2) mod 3" "?E mod 3 < 3" "(?E + 3) mod 3 = ?E mod 3" by presburger+
  moreover from this have "set (retire_lists r1 ! (?E mod 3)) \<subseteq> set (retire_lists r2 ! (?E mod 3))"
    using 2(5) by blast
  ultimately have "p \<in> set f3" using 1(5) 3(3) by auto
  then show "let (f1, r1) = retire (er s) p; (f2, r2) = retire r1 q; (f3, r3) = retire r2 x in
       unat (global_epoch r3) = ep_E s + 3 \<and> p \<in> set f3"
    using 1(1) 2(1) 3(1,2) by simp
next
  assume "\<exists>t. active (er s) t \<and> local_epoch (er_slots (er s) ! t) \<noteq> global_epoch (er s)"
  then have "\<not> all_observed (global_epoch (er s)) (er_slots (er s))" using all_observed_active by blast
  then show "fst (retire (er s) p) = []" "global_epoch (snd (retire (er s) p)) = global_epoch (er s)"
    by (simp_all add: retire_def try_advance_def Let_def)
qed

text \<open>A reader registers and enters; another thread retires object 7.\<close>

abbreviation idle_slot :: thread_slot where "idle_slot \<equiv> \<lparr>local_epoch = UINT64_MAX, in_use = False\<rparr>"

definition demo_slots :: "uint64 \<Rightarrow> thread_slot list" where
  "demo_slots e = \<lparr>local_epoch = e, in_use = True\<rparr> # replicate 63 idle_slot"

definition ep_demo :: ep_run where
  "ep_demo = \<lparr>er = \<lparr>global_epoch = 1, er_slots = demo_slots 0, retire_lists = [[7], [], []]\<rparr>,
     freed = [], retired_at = [7 \<mapsto> 0], reading = {(0, 7)}\<rparr>"

lemma replicate_64: "replicate MAX_THREADS x = x # replicate 63 x"
proof -
  have "MAX_THREADS = Suc 63" by simp
  then show ?thesis by (simp only: replicate_Suc)
qed

lemma replicate_3: "replicate NUM_EPOCHS x = [x, x, x]"
  by (simp add: numeral_3_eq_3)

lemma demo_active: "active \<lparr>global_epoch = g, er_slots = demo_slots e, retire_lists = ls\<rparr> t \<longleftrightarrow> t = 0 \<and> e \<noteq> UINT64_MAX"
  by (cases t) (auto simp: active_def demo_slots_def)

lemma ep_demo_reach: "ep_reach ep_demo"
proof -
  let ?r = "\<lambda>e. \<lparr>global_epoch = 0, er_slots = demo_slots e, retire_lists = [[], [], []]\<rparr>"
  let ?s = "\<lambda>e. \<lparr>er = ?r e, freed = [], retired_at = Map.empty, reading = {}\<rparr>"
  have "ep_step ep_init (?s UINT64_MAX)"
    using ep_step.register [of ep_init 0 "?r UINT64_MAX"]
    by (simp add: ep_init_def er_new_def register_thread_def replicate_64 replicate_3 demo_slots_def)
  moreover have "ep_step (?s UINT64_MAX) (?s 0)"
    using ep_step.enter [of 0 "?s UINT64_MAX" "?r 0"]
    by (simp add: demo_active enter_critical_def set_local_def) (simp add: demo_slots_def)
  moreover have "ep_step (?s 0) ep_demo"
  proof -
    have "all_observed 0 (demo_slots 0)" by (auto simp: all_observed_iff demo_slots_def)
    then have "retire (?r 0) 7 = ([], er ep_demo)"
      by (simp add: retire_def try_advance_def Let_def epoch_idx_def ep_demo_def)
    then show ?thesis using ep_step.retire [of "?s 0" 7 "[]" "er ep_demo"] by (simp add: demo_active) (simp add: ep_demo_def)
  qed
  ultimately show ?thesis by (meson rtranclp.rtrancl_into_rtrancl rtranclp.rtrancl_refl)
qed

theorem ep_safe_witness: "(0, 7) \<in> reading ep_demo \<and> 7 \<notin> set (freed ep_demo)"
proof -
  have "(0, 7) \<in> reading ep_demo" by (simp add: ep_demo_def)
  then show ?thesis using ep_safe [OF ep_demo_reach] by simp
qed

theorem ep_exactly_once_witness: "set (freed ep_demo @ er_destroy (er ep_demo)) = {7}"
  using ep_exactly_once [OF ep_demo_reach] by (simp add: ep_demo_def)

theorem ep_progress_witness: "fst (retire (er ep_demo) 8) = []"
proof -
  have "active (er ep_demo) 0 \<and> local_epoch (er_slots (er ep_demo) ! 0) \<noteq> global_epoch (er ep_demo)"
    by (simp add: ep_demo_def demo_active) (simp add: demo_slots_def)
  then show ?thesis using ep_progress [OF ep_demo_reach, of 8] by blast
qed

end
