(* ===== verification/Epoch_Conc.thy ===== *)
theory Epoch_Conc
  imports Epoch_Reclaimer
begin

text \<open>
  \<^verbatim>\<open>EpochReclaimer\<close> access by access. The mutex-protected sections (the \<^verbatim>\<open>push_back\<close> and the
  \<^verbatim>\<open>swap\<close>) are one step each; the check of a slot reads \<^verbatim>\<open>in_use\<close> and then \<^verbatim>\<open>local_epoch\<close>. The ghosts
  are those of \<open>ep_run\<close>: an object counts as read by the slots that are active when \<^verbatim>\<open>retire\<close> is
  called on it. Run without interference, the steps are the sequential operations; interleaved, they
  free an object under a reader, they give two threads the same slot, and they read and clear \<^verbatim>\<open>in_use\<close> at once.
\<close>

datatype ep_pc =
    EIdle
  | RegCheck nat | RegSet nat | RegStore nat | RegRet int
  | EnterLoad nat | EnterStore nat uint64 | LeaveStore nat
  | RetLoad obj | RetPush obj nat
  | AdvLoad | AdvInUse uint64 nat | AdvEpoch uint64 nat | AdvCas uint64 | AdvSwap uint64 | AdvFree "obj list"
  | UnregStore nat | UnregClear nat

datatype ep_act = ERegister | EUnregister int | EEnter nat | ELeave nat | ERetire obj | EGo

abbreviation slot_at :: "ep_run \<Rightarrow> nat \<Rightarrow> thread_slot" where
  "slot_at s i \<equiv> er_slots (er s) ! i"

definition set_slot :: "ep_run \<Rightarrow> nat \<Rightarrow> thread_slot \<Rightarrow> ep_run" where
  "set_slot s i x = s\<lparr>er := (er s)\<lparr>er_slots := (er_slots (er s))[i := x]\<rparr>\<rparr>"

definition reg_next :: "nat \<Rightarrow> ep_pc" where
  "reg_next i = (if i < MAX_THREADS then RegCheck i else RegRet (-1))"

definition adv_next :: "uint64 \<Rightarrow> nat \<Rightarrow> ep_pc" where
  "adv_next current i = (if i < MAX_THREADS then AdvInUse current i else AdvCas current)"

fun ep_go :: "ep_run \<Rightarrow> ep_pc \<Rightarrow> ep_run \<times> ep_pc" where
  "ep_go s EIdle = (s, EIdle)"
| "ep_go s (RegCheck i) = (s, if \<not> in_use (slot_at s i) then RegSet i else reg_next (Suc i))"
| "ep_go s (RegSet i) = (set_slot s i ((slot_at s i)\<lparr>in_use := True\<rparr>), RegStore i)"
| "ep_go s (RegStore i) = (set_slot s i ((slot_at s i)\<lparr>local_epoch := UINT64_MAX\<rparr>), RegRet (int i))"
| "ep_go s (RegRet tid) = (s, EIdle)"
| "ep_go s (EnterLoad t) = (s, EnterStore t (global_epoch (er s)))"
| "ep_go s (EnterStore t e) = (set_slot s t ((slot_at s t)\<lparr>local_epoch := e\<rparr>), EIdle)"
| "ep_go s (LeaveStore t) =
     ((set_slot s t ((slot_at s t)\<lparr>local_epoch := UINT64_MAX\<rparr>))\<lparr>reading := leave_reading (int t) (reading s)\<rparr>, EIdle)"
| "ep_go s (RetLoad p) = (s, RetPush p (epoch_idx (global_epoch (er s))))"
| "ep_go s (RetPush p idx) =
     (s\<lparr>er := (er s)\<lparr>retire_lists := (retire_lists (er s))[idx := retire_lists (er s) ! idx @ [p]]\<rparr>\<rparr>, AdvLoad)"
| "ep_go s AdvLoad = (s, adv_next (global_epoch (er s)) 0)"
| "ep_go s (AdvInUse current i) =
     (s, if \<not> in_use (slot_at s i) then adv_next current (Suc i) else AdvEpoch current i)"
| "ep_go s (AdvEpoch current i) =
     (s, if local_epoch (slot_at s i) \<noteq> UINT64_MAX \<and> local_epoch (slot_at s i) \<noteq> current then EIdle
         else adv_next current (Suc i))"
| "ep_go s (AdvCas current) =
     (if global_epoch (er s) = current then (s\<lparr>er := (er s)\<lparr>global_epoch := current + 1\<rparr>\<rparr>, AdvSwap (current + 1))
      else (s, EIdle))"
| "ep_go s (AdvSwap new_epoch) =
     (let old_idx = epoch_idx new_epoch in
      (s\<lparr>er := (er s)\<lparr>retire_lists := (retire_lists (er s))[old_idx := []]\<rparr>\<rparr>, AdvFree (retire_lists (er s) ! old_idx)))"
| "ep_go s (AdvFree ps) = (case ps of [] \<Rightarrow> (s, EIdle) | p # ps' \<Rightarrow> (s\<lparr>freed := freed s @ [p]\<rparr>, AdvFree ps'))"
| "ep_go s (UnregStore t) =
     ((set_slot s t ((slot_at s t)\<lparr>local_epoch := UINT64_MAX\<rparr>))\<lparr>reading := leave_reading (int t) (reading s)\<rparr>, UnregClear t)"
| "ep_go s (UnregClear t) = (set_slot s t ((slot_at s t)\<lparr>in_use := False\<rparr>), EIdle)"

fun ep_exec :: "ep_act \<Rightarrow> ep_run \<Rightarrow> ep_pc \<Rightarrow> ep_run \<times> ep_pc" where
  "ep_exec ERegister s l = (if l = EIdle then (s, RegCheck 0) else (s, l))"
| "ep_exec (EUnregister tid) s l = (if l = EIdle \<and> 0 \<le> tid \<and> tid < int MAX_THREADS then (s, UnregStore (nat tid)) else (s, l))"
| "ep_exec (EEnter t) s l = (if l = EIdle then (s, EnterLoad t) else (s, l))"
| "ep_exec (ELeave t) s l = (if l = EIdle then (s, LeaveStore t) else (s, l))"
| "ep_exec (ERetire p) s l =
     (if l = EIdle then
        (s\<lparr>retired_at := (retired_at s)(p \<mapsto> unat (global_epoch (er s))),
           reading := reading s \<union> {t. active (er s) t} \<times> {p}\<rparr>, RetLoad p)
      else (s, l))"
| "ep_exec EGo s l = ep_go s l"

abbreviation ep_conc_reach :: "(ep_run, ep_pc) config \<Rightarrow> bool" where
  "ep_conc_reach \<equiv> reach ep_exec (\<lambda>s. s = ep_init) (\<lambda>_. EIdle)"

abbreviation ep_conc_run :: "(tid \<times> ep_act) list \<Rightarrow> (ep_run, ep_pc) config" where
  "ep_conc_run es \<equiv> run ep_exec (ep_init, \<lambda>_. EIdle) es"

lemma ep_conc_run_reach: "ep_conc_reach (ep_conc_run es)"
  using reach_run_init [of "\<lambda>s. s = ep_init" ep_init ep_exec "\<lambda>_. EIdle" es] by simp

subsection \<open>The scan of the slots\<close>

text \<open>The scan over slots that are not in use takes one step per slot.\<close>

lemma scan_idle:
  assumes "\<forall>j. i \<le> j \<and> j < MAX_THREADS \<longrightarrow> \<not> in_use (slot_at s j)" "i + n = MAX_THREADS"
  shows "solo ep_exec EGo n s (adv_next cur i) = (s, AdvCas cur)"
  using assms
proof (induction n arbitrary: i)
  case 0
  then show ?case by (simp add: adv_next_def)
next
  case (Suc n)
  have "ep_go s (adv_next cur i) = (s, adv_next cur (Suc i))" using Suc.prems by (simp add: adv_next_def)
  then show ?case using Suc.IH [of "Suc i"] Suc.prems by simp
qed

subsection \<open>An object freed under its reader\<close>

text \<open>
  Thread 2 registers slot 0 and stays inside a critical section. Thread 0 retires object 6 and gets
  as far as the compare-exchange of the epoch from 0 to 1. Then thread 1 retires object 7 in epoch 1.
  Then thread 0 continues: it empties the list of epoch 1.
\<close>

definition uaf_before :: "(tid \<times> ep_act) list" where
  "uaf_before = [(2, ERegister), (2, EGo), (2, EGo), (2, EGo), (2, EGo), (2, EEnter 0), (2, EGo), (2, EGo),
     (0, ERetire 6), (0, EGo), (0, EGo), (0, EGo), (0, EGo), (0, EGo)]"

definition uaf_after :: "(tid \<times> ep_act) list" where
  "uaf_after = [(0, EGo), (1, ERetire 7), (1, EGo), (1, EGo), (0, EGo), (0, EGo)]"

definition uaf_mid :: ep_run where
  "uaf_mid = \<lparr>er = \<lparr>global_epoch = 0, er_slots = demo_slots 0, retire_lists = [[6], [], []]\<rparr>,
     freed = [], retired_at = [6 \<mapsto> 0], reading = {(0, 6)}\<rparr>"

lemmas ep_eval = sys_step_def set_slot_def reg_next_def epoch_idx_def Let_def

lemma uaf_before_run: "ep_conc_run uaf_before = (uaf_mid, (\<lambda>_. EIdle)(0 := adv_next 0 1))"
proof -
  let ?r = "\<lambda>e. \<lparr>er = \<lparr>global_epoch = 0, er_slots = demo_slots e, retire_lists = [[], [], []]\<rparr>,
    freed = [], retired_at = Map.empty, reading = {}\<rparr>"
  have 1: "ep_conc_run (take 5 uaf_before) = (?r UINT64_MAX, \<lambda>_. EIdle)"
    by (auto simp: uaf_before_def ep_eval ep_init_def er_new_def replicate_64 replicate_3 demo_slots_def fun_eq_iff)
  have 2: "run ep_exec (?r UINT64_MAX, \<lambda>_. EIdle) (take 3 (drop 5 uaf_before)) = (?r 0, \<lambda>_. EIdle)"
    by (auto simp: uaf_before_def ep_eval demo_slots_def fun_eq_iff)
  have 3: "run ep_exec (?r 0, \<lambda>_. EIdle) (drop 8 uaf_before) = (uaf_mid, (\<lambda>_. EIdle)(0 := adv_next 0 1))"
    by (auto simp: uaf_before_def ep_eval demo_active adv_next_def uaf_mid_def fun_eq_iff) (auto simp: demo_slots_def)
  have "uaf_before = take 5 uaf_before @ take 3 (drop 5 uaf_before) @ drop 8 uaf_before" by (simp add: uaf_before_def)
  then show ?thesis using 1 2 3 by (metis run_append)
qed

lemma uaf_scan_run:
  "run ep_exec (uaf_mid, (\<lambda>_. EIdle)(0 := adv_next 0 1)) (replicate 63 (0, EGo)) = (uaf_mid, (\<lambda>_. EIdle)(0 := AdvCas 0))"
proof -
  have "\<not> in_use (slot_at uaf_mid j)" if "1 \<le> j" "j < MAX_THREADS" for j
    using that by (cases j) (auto simp: uaf_mid_def demo_slots_def)
  then have "solo ep_exec EGo 63 uaf_mid (adv_next 0 1) = (uaf_mid, AdvCas 0)" by (intro scan_idle) auto
  then show ?thesis by (simp add: run_replicate)
qed

lemma uaf_after_run:
  "run ep_exec (uaf_mid, (\<lambda>_. EIdle)(0 := AdvCas 0)) uaf_after =
     (\<lparr>er = \<lparr>global_epoch = 1, er_slots = demo_slots 0, retire_lists = [[6], [], []]\<rparr>,
       freed = [7], retired_at = [6 \<mapsto> 0, 7 \<mapsto> 1], reading = {(0, 6), (0, 7)}\<rparr>,
      (\<lambda>_. EIdle)(0 := AdvFree [], 1 := AdvLoad))"
  by (auto simp: uaf_after_def uaf_mid_def ep_eval demo_active fun_eq_iff)

text \<open>
  C38. The promise of safe reclamation does not survive interleaving. Between the compare-exchange
  that moves the epoch to 1 and the emptying of list 1, another thread may retire an object into
  list 1; it is then freed at once, while a reader that was inside its critical section all the
  time, and may hold a pointer to it, is still there.
\<close>

theorem ep_conc_use_after_free:
  "\<exists>s ls. ep_conc_reach (s, ls) \<and> (0, 7) \<in> reading s \<and> active (er s) 0 \<and> 7 \<in> set (freed s)"
proof -
  let ?es = "uaf_before @ replicate 63 (0, EGo) @ uaf_after"
  have "(0, 7) \<in> reading (fst (ep_conc_run ?es)) \<and> active (er (fst (ep_conc_run ?es))) 0 \<and> 7 \<in> set (freed (fst (ep_conc_run ?es)))"
    unfolding run_append uaf_before_run uaf_scan_run uaf_after_run by (simp add: demo_active)
  then show ?thesis using ep_conc_run_reach [of ?es] by (metis prod.collapse)
qed

text \<open>
  \<^verbatim>\<open>register_thread\<close> tests and sets the plain flag \<^verbatim>\<open>in_use\<close> in two steps: two threads that register
  at the same time both get slot 0, and then share one epoch.
\<close>

theorem ep_conc_same_slot:
  "\<exists>s ls. ep_conc_reach (s, ls) \<and> ls 0 = RegRet 0 \<and> ls 1 = RegRet 0"
proof -
  let ?es = "[(0, ERegister), (1, ERegister), (0, EGo), (1, EGo), (0, EGo), (1, EGo), (0, EGo), (1, EGo)]"
  have "snd (ep_conc_run ?es) 0 = RegRet 0 \<and> snd (ep_conc_run ?es) 1 = RegRet 0"
    by (simp add: ep_eval ep_init_def er_new_def replicate_64)
  then show ?thesis using ep_conc_run_reach [of ?es] by (metis prod.collapse)
qed

text \<open>
  \<^verbatim>\<open>in_use\<close> is not atomic, and \<^verbatim>\<open>unregister_thread\<close> clears it without any lock: the write can be concurrent with the read in
  the scan of \<^verbatim>\<open>try_advance\<close>, which is a data race.
\<close>

theorem ep_conc_in_use_race:
  "\<exists>s ls cur. ep_conc_reach (s, ls) \<and> ls 0 = AdvInUse cur 0 \<and> ls 1 = UnregClear 0"
proof -
  let ?es = "[(1, ERegister), (1, EGo), (1, EGo), (1, EGo), (1, EGo), (1, EUnregister 0), (1, EGo),
    (0, ERetire 7), (0, EGo), (0, EGo), (0, EGo)]"
  have "snd (ep_conc_run ?es) 0 = AdvInUse 0 0 \<and> snd (ep_conc_run ?es) 1 = UnregClear 0"
    by (simp add: ep_eval ep_init_def er_new_def replicate_64 adv_next_def)
  then show ?thesis using ep_conc_run_reach [of ?es] by (metis prod.collapse)
qed

end
