(* ===== verification/Epoch_Single.thy ===== *)
theory Epoch_Single
  imports Epoch_Conc
begin

text \<open>
  The interleaved reclaimer under the discipline for which its promise holds: one thread retires, any
  number of threads read, each with a slot of its own that was registered before the threads were
  started. Readers enter and leave at any moment, also in the middle of \<^verbatim>\<open>try_advance\<close>, and outside their
  sections they may give up their slot (\<^verbatim>\<open>unregister_thread\<close>); every access
  is a step of \<open>ep_go\<close> of \<open>Epoch_Conc\<close>. Two retiring threads, or two threads registering at once, are
  the schedules of \<open>Epoch_Conc\<close> that break the promise.
\<close>

datatype sr_kind = Retirer | Outside nat | Inside nat | Unregistered nat | Bystander

datatype sr_act = SrEnter | SrLeave | SrRetire obj | SrGo | SrUnregister

fun sr_exec :: "sr_act \<Rightarrow> ep_run \<Rightarrow> sr_kind \<times> ep_pc \<Rightarrow> ep_run \<times> sr_kind \<times> ep_pc" where
  "sr_exec SrGo s (k, l) = (case ep_exec EGo s l of (s', l') \<Rightarrow> (s', k, l'))"
| "sr_exec SrEnter s (Outside t, EIdle) = (case ep_exec (EEnter t) s EIdle of (s', l') \<Rightarrow> (s', Inside t, l'))"
| "sr_exec SrLeave s (Inside t, EIdle) = (case ep_exec (ELeave t) s EIdle of (s', l') \<Rightarrow> (s', Outside t, l'))"
| "sr_exec (SrRetire p) s (Retirer, EIdle) =
     (if retired_at s p = None \<and> unat (global_epoch (er s)) < 2 ^ 64 - 2
      then case ep_exec (ERetire p) s EIdle of (s', l') \<Rightarrow> (s', Retirer, l') else (s, Retirer, EIdle))"
| "sr_exec SrUnregister s (Outside t, EIdle) = (case ep_exec (EUnregister (int t)) s EIdle of (s', l') \<Rightarrow> (s', Unregistered t, l'))"
| "sr_exec _ s kl = (s, kl)"

text \<open>The main thread registers \<open>n\<close> readers one after the other; thread 0 then retires.\<close>

definition sr_init :: "nat \<Rightarrow> ep_run \<Rightarrow> bool" where
  "sr_init n s \<longleftrightarrow> n \<le> MAX_THREADS \<and> s = ep_init\<lparr>er := ((\<lambda>r. snd (register_thread r)) ^^ n) er_new\<rparr>"

definition sr_roles :: "nat \<Rightarrow> tid \<Rightarrow> sr_kind \<times> ep_pc" where
  "sr_roles n u = (if u = 0 then Retirer else if u \<le> n then Outside (u - 1) else Bystander, EIdle)"

abbreviation sr_reach :: "nat \<Rightarrow> (ep_run, sr_kind \<times> ep_pc) config \<Rightarrow> bool" where
  "sr_reach n \<equiv> reach sr_exec (sr_init n) (sr_roles n)"

subsection \<open>Invariant\<close>

text \<open>Objects that the retiring thread has in its hands: not yet on a list, or about to be freed.\<close>

fun transit :: "ep_pc \<Rightarrow> obj list" where
  "transit (RetLoad p) = [p]"
| "transit (RetPush p idx) = [p]"
| "transit (AdvFree ps) = ps"
| "transit _ = []"

text \<open>The epoch by which the lists are sorted: between the exchange and the swap, the previous one.\<close>

fun list_epoch :: "ep_run \<Rightarrow> ep_pc \<Rightarrow> nat" where
  "list_epoch s (AdvSwap new_epoch) = ep_E s - 1"
| "list_epoch s _ = ep_E s"

definition sr_lists :: "ep_run \<Rightarrow> nat \<Rightarrow> bool" where
  "sr_lists s c \<longleftrightarrow> (\<forall>i < NUM_EPOCHS. \<forall>p \<in> set (retire_lists (er s) ! i).
     \<exists>e. retired_at s p = Some e \<and> e mod NUM_EPOCHS = i \<and> e \<le> c \<and> c \<le> e + 2)"

definition sr_once :: "ep_run \<Rightarrow> obj list \<Rightarrow> bool" where
  "sr_once s ps \<longleftrightarrow> distinct (freed s @ concat (retire_lists (er s)) @ ps) \<and>
     set (freed s @ concat (retire_lists (er s)) @ ps) = dom (retired_at s)"

text \<open>The readers of the slots below \<open>i\<close> may only have objects that are younger than two epochs.\<close>

definition scanned :: "ep_run \<Rightarrow> nat \<Rightarrow> nat \<Rightarrow> bool" where
  "scanned s c i \<longleftrightarrow> (\<forall>t p. (t, p) \<in> reading s \<longrightarrow> t < i \<longrightarrow> (\<exists>e. retired_at s p = Some e \<and> c < e + 2))"

fun sr_pc :: "ep_run \<Rightarrow> ep_pc \<Rightarrow> bool" where
  "sr_pc s EIdle = True"
| "sr_pc s (RetLoad p) = (retired_at s p = Some (ep_E s) \<and> ep_E s < 2 ^ 64 - 2)"
| "sr_pc s (RetPush p idx) = (retired_at s p = Some (ep_E s) \<and> ep_E s < 2 ^ 64 - 2 \<and> idx = ep_E s mod NUM_EPOCHS)"
| "sr_pc s AdvLoad = (ep_E s < 2 ^ 64 - 2)"
| "sr_pc s (AdvInUse current i) = (current = global_epoch (er s) \<and> ep_E s < 2 ^ 64 - 2 \<and> i < MAX_THREADS \<and> scanned s (ep_E s) i)"
| "sr_pc s (AdvEpoch current i) = (current = global_epoch (er s) \<and> ep_E s < 2 ^ 64 - 2 \<and> i < MAX_THREADS \<and> scanned s (ep_E s) i)"
| "sr_pc s (AdvCas current) = (current = global_epoch (er s) \<and> ep_E s < 2 ^ 64 - 2 \<and> scanned s (ep_E s) MAX_THREADS)"
| "sr_pc s (AdvSwap new_epoch) = (new_epoch = global_epoch (er s) \<and> 0 < ep_E s \<and> scanned s (ep_E s - 1) MAX_THREADS)"
| "sr_pc s (AdvFree ps) = (\<forall>p \<in> set ps. \<forall>t. (t, p) \<notin> reading s)"
| "sr_pc s _ = False"

definition sr_R :: "ep_run \<Rightarrow> ep_pc \<Rightarrow> bool" where
  "sr_R s l \<longleftrightarrow> sr_lists s (list_epoch s l) \<and> sr_once s (transit l) \<and> sr_pc s l"

fun sr_L :: "ep_run \<Rightarrow> sr_kind \<times> ep_pc \<Rightarrow> bool" where
  "sr_L s (Retirer, l) = sr_R s l"
| "sr_L s (Outside t, l) = (t < MAX_THREADS \<and> (l = EIdle \<and> \<not> active (er s) t \<or> l = LeaveStore t))"
| "sr_L s (Inside t, l) = (t < MAX_THREADS \<and>
     (l = EIdle \<or> (l = EnterLoad t \<or> (\<exists>e. l = EnterStore t e \<and> unat e \<le> ep_E s)) \<and> \<not> active (er s) t))"
| "sr_L s (Unregistered t, l) = (t < MAX_THREADS \<and> \<not> active (er s) t \<and> l \<in> {UnregStore t, UnregClear t, EIdle})"
| "sr_L s (Bystander, l) = (l = EIdle)"

definition sr_G :: "ep_run \<Rightarrow> bool" where
  "sr_G s \<longleftrightarrow> ep_shape s \<and> ep_reading s"

fun slot_of :: "sr_kind \<Rightarrow> nat option" where
  "slot_of (Outside t) = Some t"
| "slot_of (Inside t) = Some t"
| "slot_of (Unregistered t) = Some t"
| "slot_of _ = None"

definition sr_X :: "sr_kind \<times> ep_pc \<Rightarrow> sr_kind \<times> ep_pc \<Rightarrow> bool" where
  "sr_X l m \<longleftrightarrow> \<not> (fst l = Retirer \<and> fst m = Retirer) \<and> (slot_of (fst l) = None \<or> slot_of (fst l) \<noteq> slot_of (fst m))"

subsection \<open>Steps of a reader\<close>

text \<open>A reader changes its own slot, and may take itself off the readers.\<close>

definition reader_step :: "nat \<Rightarrow> ep_run \<Rightarrow> ep_run \<Rightarrow> bool" where
  "reader_step t s s' \<longleftrightarrow> (\<exists>x rs. s' = s\<lparr>er := (er s)\<lparr>er_slots := (er_slots (er s))[t := x]\<rparr>, reading := rs\<rparr> \<and> rs \<subseteq> reading s)"

lemma reader_step_same:
  assumes "reader_step t s s'"
  shows "global_epoch (er s') = global_epoch (er s)" "retire_lists (er s') = retire_lists (er s)"
    "retired_at s' = retired_at s" "freed s' = freed s" "reading s' \<subseteq> reading s"
    "u \<noteq> t \<Longrightarrow> active (er s') u = active (er s) u"
  using assms by (auto simp: reader_step_def active_def)

lemma sr_R_slots:
  assumes "sr_R s l" "rs \<subseteq> reading s"
  shows "sr_R (s\<lparr>er := (er s)\<lparr>er_slots := ss\<rparr>, reading := rs\<rparr>) l" (is "sr_R ?s l")
proof -
  have "scanned ?s c i" if "scanned s c i" for c i using that assms(2) by (fastforce simp: scanned_def)
  then have "sr_pc ?s l" using assms by (cases "(s, l)" rule: sr_pc.cases) (auto simp: sr_R_def)
  moreover have "list_epoch ?s l = list_epoch s l" by (cases "(s, l)" rule: list_epoch.cases) auto
  ultimately show ?thesis using assms(1) by (simp add: sr_R_def sr_lists_def sr_once_def)
qed

lemma sr_R_reader: "reader_step t s s' \<Longrightarrow> sr_R s l \<Longrightarrow> sr_R s' l"
  using sr_R_slots by (auto simp: reader_step_def)

lemma sr_other_reader:
  assumes "reader_step t s s'" "sr_L s m" "slot_of (fst m) \<noteq> Some t"
  shows "sr_L s' m"
  using assms sr_R_reader [OF assms(1)] reader_step_same(1) [OF assms(1)] reader_step_same(6) [OF assms(1)]
  by (cases "(s, m)" rule: sr_L.cases) auto

lemma sr_G_reader:
  assumes "sr_G s" "t < MAX_THREADS" "rs \<subseteq> reading s" "\<And>p. (t, p) \<notin> rs"
    and "in_use x \<Longrightarrow> local_epoch x \<noteq> UINT64_MAX \<Longrightarrow> unat (local_epoch x) \<le> ep_E s"
  shows "sr_G (s\<lparr>er := (er s)\<lparr>er_slots := (er_slots (er s))[t := x]\<rparr>, reading := rs\<rparr>)"
proof -
  have inv: "ep_shape s" "ep_reading s" using assms(1) by (auto simp: sr_G_def)
  let ?s = "s\<lparr>er := (er s)\<lparr>er_slots := (er_slots (er s))[t := x]\<rparr>, reading := rs\<rparr>"
  have act: "active (er ?s) u \<longleftrightarrow> (if u = t then in_use x \<and> local_epoch x \<noteq> UINT64_MAX else active (er s) u)" for u
    using inv(1) assms(2) by (auto simp: active_def ep_shape_def)
  have "ep_shape ?s" using inv(1) assms(2,5) act by (auto simp: ep_shape_def nth_list_update)
  moreover have "ep_reading ?s" unfolding ep_reading_def
  proof clarify
    fix u p assume up: "(u, p) \<in> reading ?s"
    then have "u \<noteq> t" "(u, p) \<in> reading s" using assms(3,4) by auto
    then show "p \<notin> set (freed ?s) \<and> active (er ?s) u \<and>
      (\<exists>e. retired_at ?s p = Some e \<and> unat (local_epoch (er_slots (er ?s) ! u)) \<le> e)"
      using ep_readingD [OF inv(2), of u p] act [of u] by simp
  qed
  ultimately show ?thesis by (simp add: sr_G_def)
qed

lemma sr_reader_step:
  assumes G: "sr_G s" and L: "sr_L s (k, l)" and k: "slot_of k = Some t" and ex: "sr_exec a s (k, l) = (s', k', l')"
  shows "sr_G s' \<and> sr_L s' (k', l') \<and> slot_of k' = Some t \<and> reader_step t s s'"
proof -
  have inv: "ep_shape s" "ep_reading s" using G by (auto simp: sr_G_def)
  have t: "t < MAX_THREADS" "length (er_slots (er s)) = MAX_THREADS" using L k inv(1) by (cases k; auto simp: ep_shape_def)+
  have none: "(t, p) \<notin> reading s" if "\<not> active (er s) t" for p using ep_readingD(2) [OF inv(2)] that by blast
  have refl: "reader_step t s s"
    unfolding reader_step_def by (intro exI [of _ "er_slots (er s) ! t"] exI [of _ "reading s"]) simp
  have slot: "reader_step t s (s\<lparr>er := (er s)\<lparr>er_slots := (er_slots (er s))[t := x]\<rparr>, reading := rs\<rparr>)" if "rs \<subseteq> reading s" for x rs
    using that unfolding reader_step_def by blast
  consider (stay) "s' = s" "sr_L s (k', l')" "slot_of k' = Some t"
    | (enter) e where "k = Inside t" "l = EnterStore t e" "a = SrGo" | (leave) "k = Outside t" "l = LeaveStore t" "a = SrGo"
    | (unreg) "k = Unregistered t" "l = UnregStore t \<or> l = UnregClear t" "a = SrGo"
    using L k ex by (cases k; cases a) (auto simp: epoch_idx_def split: if_splits)
  then show ?thesis
  proof cases
    case stay
    then show ?thesis using G refl by simp
  next
    case enter
    let ?x = "(er_slots (er s) ! t)\<lparr>local_epoch := e\<rparr>"
    have s': "s' = s\<lparr>er := (er s)\<lparr>er_slots := (er_slots (er s))[t := ?x]\<rparr>, reading := reading s\<rparr>" "k' = Inside t" "l' = EIdle"
      using ex enter by (auto simp: set_slot_def)
    have "unat e \<le> ep_E s" "\<not> active (er s) t" using L enter by auto
    then have "sr_G s'" unfolding s' using none by (intro sr_G_reader [OF G t(1)]) auto
    then show ?thesis using slot [of "reading s"] t(1) s' by simp
  next
    case leave
    let ?x = "(er_slots (er s) ! t)\<lparr>local_epoch := UINT64_MAX\<rparr>"
    have s': "s' = s\<lparr>er := (er s)\<lparr>er_slots := (er_slots (er s))[t := ?x]\<rparr>, reading := leave_reading (int t) (reading s)\<rparr>"
        "k' = Outside t" "l' = EIdle"
      using ex leave by (auto simp: set_slot_def)
    have rs: "leave_reading (int t) (reading s) \<subseteq> reading s" by (auto simp: leave_reading_def)
    have "sr_G s'" unfolding s' by (intro sr_G_reader [OF G t(1) rs]) (auto simp: leave_reading_def)
    then show ?thesis using slot [OF rs] t by (simp add: s' active_def)
  next
    case unreg
    have na: "\<not> active (er s) t" using L unreg(1) by simp
    obtain x rs where s': "s' = s\<lparr>er := (er s)\<lparr>er_slots := (er_slots (er s))[t := x]\<rparr>, reading := rs\<rparr>" "rs \<subseteq> reading s"
        "\<not> in_use x \<or> local_epoch x = UINT64_MAX" "k' = Unregistered t" "l' \<in> {UnregClear t, EIdle}"
    proof (cases "l = UnregStore t")
      case True
      then show thesis
        using that [of "leave_reading (int t) (reading s)" "(er_slots (er s) ! t)\<lparr>local_epoch := UINT64_MAX\<rparr>"] unreg ex
        by (auto simp: set_slot_def leave_reading_def)
    next
      case False
      then show thesis
        using that [of "reading s" "(er_slots (er s) ! t)\<lparr>in_use := False\<rparr>"] unreg ex by (auto simp: set_slot_def)
    qed
    have "sr_G s'" unfolding s' using s'(3) none [OF na] s'(2) by (intro sr_G_reader [OF G t(1)]) auto
    then show ?thesis using slot [OF s'(2)] s' t by (auto simp: active_def)
  qed
qed

subsection \<open>Steps of the retiring thread\<close>

lemma sr_GD:
  assumes "sr_G s"
  shows "ep_shape s" "ep_reading s" "length (er_slots (er s)) = MAX_THREADS" "length (retire_lists (er s)) = NUM_EPOCHS" "ep_E s \<le> 2 ^ 64 - 2"
  using assms by (auto simp: sr_G_def ep_shape_def)

lemma sr_RD:
  assumes "sr_R s l"
  shows "sr_lists s (list_epoch s l)" "sr_once s (transit l)" "sr_pc s l"
  using assms by (auto simp: sr_R_def)

lemma sr_listsD:
  assumes "sr_lists s c" "i < NUM_EPOCHS" "p \<in> set (retire_lists (er s) ! i)"
  obtains e where "retired_at s p = Some e" "e mod NUM_EPOCHS = i" "e \<le> c" "c \<le> e + 2"
  using assms unfolding sr_lists_def by blast

lemma list_epoch_adv [simp]: "list_epoch s (adv_next c i) = ep_E s"
  by (simp add: adv_next_def)

lemma transit_adv [simp]: "transit (adv_next c i) = []"
  by (simp add: adv_next_def)

lemma sr_scan:
  assumes "scanned s (ep_E s) (Suc i)" "i < MAX_THREADS" "ep_E s < 2 ^ 64 - 2"
  shows "sr_pc s (adv_next (global_epoch (er s)) (Suc i))"
proof (cases "Suc i < MAX_THREADS")
  case False
  then have "Suc i = MAX_THREADS" using assms(2) by linarith
  then show ?thesis using assms by (simp add: adv_next_def)
qed (use assms in \<open>simp add: adv_next_def\<close>)

lemma scanned_Suc:
  assumes "scanned s c i" "\<And>p. (i, p) \<in> reading s \<Longrightarrow> \<exists>e. retired_at s p = Some e \<and> c < e + 2"
  shows "scanned s c (Suc i)"
  using assms by (auto simp: scanned_def less_Suc_eq)

lemma sr_push:
  assumes G: "sr_G s" and R: "sr_R s (RetPush p idx)"
  shows "sr_R (s\<lparr>er := (er s)\<lparr>retire_lists := (retire_lists (er s))[idx := retire_lists (er s) ! idx @ [p]]\<rparr>\<rparr>) AdvLoad" (is "sr_R ?s _")
proof -
  note inv = sr_GD [OF G] and r = sr_RD [OF R]
  let ?ls = "retire_lists (er s)"
  have i: "idx = ep_E s mod NUM_EPOCHS" "idx < NUM_EPOCHS" "retired_at s p = Some (ep_E s)" using r(3) by auto
  obtain a b c where abc: "?ls = [a, b, c]" using inv(4) by (rule length_3E)
  have cases3: "idx = 0 \<or> idx = 1 \<or> idx = 2" using i(2) by auto
  have "sr_once ?s []" using r(2) abc cases3 by (elim disjE) (auto simp: sr_once_def numeral_2_eq_2)
  moreover have "sr_lists ?s (ep_E s)"
    unfolding sr_lists_def
  proof (intro allI impI ballI)
    fix k q assume k: "k < NUM_EPOCHS" and "q \<in> set (retire_lists (er ?s) ! k)"
    then have "q = p \<and> k = idx \<or> q \<in> set (?ls ! k)" using inv(4) i(2) by (auto simp: nth_list_update split: if_splits)
    then show "\<exists>e. retired_at ?s q = Some e \<and> e mod NUM_EPOCHS = k \<and> e \<le> ep_E s \<and> ep_E s \<le> e + 2"
    proof
      assume "q \<in> set (?ls ! k)"
      then show ?thesis by (rule sr_listsD [OF r(1) k]) auto
    qed (use i in auto)
  qed
  ultimately show ?thesis using r(3) by (simp add: sr_R_def)
qed

lemma sr_swap:
  assumes G: "sr_G s" and R: "sr_R s (AdvSwap new)"
  defines "j \<equiv> epoch_idx new"
  shows "sr_R (s\<lparr>er := (er s)\<lparr>retire_lists := (retire_lists (er s))[j := []]\<rparr>\<rparr>) (AdvFree (retire_lists (er s) ! j))" (is "sr_R ?s _")
proof -
  note inv = sr_GD [OF G] and r = sr_RD [OF R]
  let ?ls = "retire_lists (er s)"
  define c where "c = ep_E s - 1"
  have E: "ep_E s = Suc c" using r(3) by (simp add: c_def)
  have j: "j = Suc c mod NUM_EPOCHS" "j < NUM_EPOCHS" using r(3) E by (simp_all add: j_def epoch_idx_mod)
  have ls: "sr_lists s c" "scanned s c MAX_THREADS" using r E by auto
  obtain x y z where abc: "?ls = [x, y, z]" using inv(4) by (rule length_3E)
  have cases3: "j = 0 \<or> j = 1 \<or> j = 2" using j(2) by auto
  have "sr_once ?s (?ls ! j)" using r(2) abc cases3 by (elim disjE) (auto simp: sr_once_def numeral_2_eq_2)
  moreover have "sr_lists ?s (Suc c)"
    unfolding sr_lists_def
  proof (intro allI impI ballI)
    fix k q assume k: "k < NUM_EPOCHS" and q: "q \<in> set (retire_lists (er ?s) ! k)"
    then have kj: "k \<noteq> j" "q \<in> set (?ls ! k)" using inv(4) j(2) by (cases "k = j"; auto)+
    obtain e where e: "retired_at s q = Some e" "e mod NUM_EPOCHS = k" "e \<le> c" "c \<le> e + 2" by (rule sr_listsD [OF ls(1) k kj(2)])
    then have "Suc c \<le> e + 2" using mod3_newer [of e c] kj(1) j(1) by simp
    then show "\<exists>e. retired_at ?s q = Some e \<and> e mod NUM_EPOCHS = k \<and> e \<le> Suc c \<and> Suc c \<le> e + 2" using e by auto
  qed
  moreover have "(t, q) \<notin> reading s" if qj: "q \<in> set (?ls ! j)" for t q
  proof
    assume tq: "(t, q) \<in> reading s"
    obtain e where e: "retired_at s q = Some e" "e mod NUM_EPOCHS = j" "e \<le> c" "c \<le> e + 2" by (rule sr_listsD [OF ls(1) j(2) qj])
    have "t < MAX_THREADS" using ep_readingD(2) [OF inv(2) tq] inv(3) by (simp add: active_def)
    then have "c < e + 2" using ls(2) tq e(1) unfolding scanned_def by fastforce
    then show False using mod3_oldest [of e c] e j(1) by simp
  qed
  ultimately show ?thesis using E by (simp add: sr_R_def)
qed

lemma sr_advance:
  assumes G: "sr_G s" and R: "sr_R s (AdvCas cur)"
  shows "sr_G (s\<lparr>er := (er s)\<lparr>global_epoch := cur + 1\<rparr>\<rparr>)" "sr_R (s\<lparr>er := (er s)\<lparr>global_epoch := cur + 1\<rparr>\<rparr>) (AdvSwap (cur + 1))"
    "unat (cur + 1) = ep_E s + 1"
proof -
  note inv = sr_GD [OF G] and r = sr_RD [OF R]
  have cur: "cur = global_epoch (er s)" "ep_E s < 2 ^ 64 - 2" using r(3) by auto
  then show E: "unat (cur + 1) = ep_E s + 1" by (simp add: unat_plus_1)
  have act: "active ((er s)\<lparr>global_epoch := x\<rparr>) t = active (er s) t" for x t by (simp add: active_def)
  show "sr_G (s\<lparr>er := (er s)\<lparr>global_epoch := cur + 1\<rparr>\<rparr>)"
    using G E cur(2) unfolding sr_G_def ep_shape_def ep_reading_def by (auto simp: act le_SucI)
  show "sr_R (s\<lparr>er := (er s)\<lparr>global_epoch := cur + 1\<rparr>\<rparr>) (AdvSwap (cur + 1))"
    using r E by (simp add: sr_R_def sr_lists_def sr_once_def scanned_def)
qed

lemma sr_free:
  assumes G: "sr_G s" and R: "sr_R s (AdvFree (p # ps))"
  shows "sr_G (s\<lparr>freed := freed s @ [p]\<rparr>)" "sr_R (s\<lparr>freed := freed s @ [p]\<rparr>) (AdvFree ps)"
proof -
  note r = sr_RD [OF R]
  have "(t, p) \<notin> reading s" for t using r(3) by simp
  then show "sr_G (s\<lparr>freed := freed s @ [p]\<rparr>)"
    using G unfolding sr_G_def ep_shape_def ep_reading_def by fastforce
  show "sr_R (s\<lparr>freed := freed s @ [p]\<rparr>) (AdvFree ps)"
    using r by (auto simp: sr_R_def sr_lists_def sr_once_def)
qed

lemma sr_call_retire:
  assumes G: "sr_G s" and R: "sr_R s EIdle" and p: "retired_at s p = None" "ep_E s < 2 ^ 64 - 2"
  shows "sr_G (s\<lparr>retired_at := (retired_at s)(p \<mapsto> ep_E s), reading := reading s \<union> {t. active (er s) t} \<times> {p}\<rparr>)" (is "sr_G ?s")
    "sr_R (s\<lparr>retired_at := (retired_at s)(p \<mapsto> ep_E s), reading := reading s \<union> {t. active (er s) t} \<times> {p}\<rparr>) (RetLoad p)"
proof -
  note inv = sr_GD [OF G] and r = sr_RD [OF R]
  have new: "p \<notin> set (freed s @ concat (retire_lists (er s)))" using r(2) p(1) by (auto simp: sr_once_def)
  have old: "q \<noteq> p" if "(t, q) \<in> reading s" for t q using ep_readingD(3) [OF inv(2) that] p(1) by auto
  have "ep_shape ?s" using inv(1) by (simp add: ep_shape_def)
  moreover have "ep_reading ?s" unfolding ep_reading_def
  proof clarify
    fix t q assume "(t, q) \<in> reading ?s"
    then consider "q = p" "active (er s) t" | "(t, q) \<in> reading s" by auto
    then show "q \<notin> set (freed ?s) \<and> active (er ?s) t \<and> (\<exists>e. retired_at ?s q = Some e \<and> unat (local_epoch (er_slots (er ?s) ! t)) \<le> e)"
      using new inv(1) ep_readingD [OF inv(2), of t q] old [of t q] by (cases; auto simp: ep_shape_def)
  qed
  ultimately show "sr_G ?s" by (simp add: sr_G_def)
  have "sr_lists ?s (ep_E s)"
    unfolding sr_lists_def
  proof (intro allI impI ballI)
    fix k q assume k: "k < NUM_EPOCHS" and "q \<in> set (retire_lists (er ?s) ! k)"
    then have q: "q \<in> set (retire_lists (er s) ! k)" "q \<noteq> p" using new inv(4) nth_mem [of k "retire_lists (er s)"] by auto
    from q(1) show "\<exists>e. retired_at ?s q = Some e \<and> e mod NUM_EPOCHS = k \<and> e \<le> ep_E s \<and> ep_E s \<le> e + 2"
      by (rule sr_listsD [OF r(1) k]) (use q(2) in auto)
  qed
  then show "sr_R ?s (RetLoad p)" using r(2) new p by (auto simp: sr_R_def sr_once_def)
qed

lemma sr_retirer_go:
  assumes G: "sr_G s" and R: "sr_R s l" and ex: "ep_go s l = (s', l')"
  shows "sr_G s' \<and> sr_R s' l' \<and> er_slots (er s') = er_slots (er s) \<and> ep_E s \<le> ep_E s'"
proof -
  note inv = sr_GD [OF G] and r = sr_RD [OF R]
  have stay: ?thesis if "s' = s" "sr_lists s (list_epoch s l')" "sr_once s (transit l')" "sr_pc s l'"
    using that G by (simp add: sr_R_def)
  show ?thesis
  proof (cases "(s, l)" rule: ep_go.cases)
    case (9 s0 p)
    then show ?thesis using stay r ex by (auto simp: epoch_idx_mod)
  next
    case (10 s0 p idx)
    have "sr_G s'" using ex 10 G unfolding sr_G_def ep_shape_def ep_reading_def by (auto simp: active_def)
    then show ?thesis using ex 10 sr_push [OF G] R by auto
  next
    case (11 s0)
    then show ?thesis using stay r ex by (auto simp: adv_next_def scanned_def)
  next
    case (12 s0 cur i)
    have "scanned s (ep_E s) (Suc i)" if "\<not> in_use (slot_at s i)"
      using 12 r(3) that ep_readingD(2) [OF inv(2), of i] by (intro scanned_Suc) (auto simp: active_def)
    then show ?thesis using stay r ex 12 sr_scan [of s i] by (auto split: if_splits)
  next
    case (13 s0 cur i)
    have "scanned s (ep_E s) (Suc i)" if "local_epoch (slot_at s i) = UINT64_MAX \<or> local_epoch (slot_at s i) = cur"
      using 13 r(3) that ep_readingD(2,3) [OF inv(2), of i] by (intro scanned_Suc) (fastforce simp: active_def)+
    then show ?thesis using stay r ex 13 sr_scan [of s i] by (auto split: if_splits)
  next
    case (14 s0 cur)
    then have "cur = global_epoch (er s)" using r(3) by simp
    then show ?thesis using ex 14 sr_advance [OF G, of cur] R by auto
  next
    case (15 s0 new)
    have "sr_G s'" using ex 15 G unfolding sr_G_def ep_shape_def ep_reading_def by (auto simp: active_def Let_def)
    then show ?thesis using ex 15 sr_swap [OF G] R by (auto simp: Let_def)
  next
    case (16 s0 ps)
    then show ?thesis using stay r ex sr_free [OF G] R by (cases ps) auto
  qed (use stay r ex in auto)
qed

lemma sr_other_retirer:
  assumes "sr_L s m" "fst m \<noteq> Retirer" "er_slots (er s') = er_slots (er s)" "ep_E s \<le> ep_E s'"
  shows "sr_L s' m"
  using assms by (cases "(s, m)" rule: sr_L.cases) (auto simp: active_def)

lemma sr_retirer_step:
  assumes G: "sr_G s" and L: "sr_L s (Retirer, l)" and ex: "sr_exec a s (Retirer, l) = (s', k', l')"
  shows "sr_G s' \<and> sr_L s' (k', l') \<and> k' = Retirer \<and> er_slots (er s') = er_slots (er s) \<and> ep_E s \<le> ep_E s'"
proof (cases "(a, s, Retirer, l)" rule: sr_exec.cases)
  case (1 s0 k l0)
  then show ?thesis using ex sr_retirer_go [OF G] L by (auto split: prod.splits)
next
  case (4 p s0)
  show ?thesis
  proof (cases "retired_at s p = None \<and> ep_E s < 2 ^ 64 - 2")
    case True
    then show ?thesis using ex 4 sr_call_retire [OF G, of p] L by auto
  qed (use ex 4 G L in auto)
qed (use ex G L in auto)

lemma sr_idle_step:
  assumes "sr_L s (Bystander, l)" "sr_exec a s (Bystander, l) = (s', k', l')"
  shows "s' = s \<and> k' = Bystander \<and> l' = EIdle"
  using assms by (cases a) auto

lemma register_loop_first:
  "(\<forall>t < length ss. in_use (ss ! t) \<longleftrightarrow> t < k) \<Longrightarrow> k < length ss \<Longrightarrow>
   register_loop i ss = Some (i + k, ss[k := (ss ! k)\<lparr>in_use := True, local_epoch := UINT64_MAX\<rparr>])"
proof (induction i ss arbitrary: k rule: register_loop.induct)
  case (2 i s ss)
  have hd: "in_use s \<longleftrightarrow> 0 < k" using spec [OF 2(2), of 0] by simp
  show ?case
  proof (cases k)
    case 0
    then show ?thesis using hd by simp
  next
    case (Suc k')
    have "\<forall>t < length ss. in_use (ss ! t) \<longleftrightarrow> t < k'"
    proof (intro allI impI)
      fix t assume "t < length ss"
      then show "in_use (ss ! t) \<longleftrightarrow> t < k'" using spec [OF 2(2), of "Suc t"] Suc by simp
    qed
    then show ?thesis using 2(1) [of k'] 2(3) hd Suc by simp
  qed
qed simp

text \<open>The first \<open>n\<close> slots are registered.\<close>

lemma registered:
  assumes "n \<le> MAX_THREADS"
  shows "((\<lambda>r. snd (register_thread r)) ^^ n) er_new =
    er_new\<lparr>er_slots := map (\<lambda>t. \<lparr>local_epoch = UINT64_MAX, in_use = t < n\<rparr>) [0..<length (er_slots er_new)]\<rparr>"
  using assms
proof (induction n)
  case 0
  show ?case by (simp add: er_new_def map_replicate_const)
next
  case (Suc n)
  let ?ss = "\<lambda>n. map (\<lambda>t. \<lparr>local_epoch = UINT64_MAX, in_use = t < n\<rparr>) [0..<length (er_slots er_new)]"
  have len: "length (er_slots er_new) = MAX_THREADS" by (simp add: er_new_def)
  have "register_loop 0 (?ss n) = Some (0 + n, (?ss n)[n := (?ss n ! n)\<lparr>in_use := True, local_epoch := UINT64_MAX\<rparr>])"
    using Suc.prems by (intro register_loop_first) (auto simp: len)
  moreover have "(?ss n)[n := (?ss n ! n)\<lparr>in_use := True, local_epoch := UINT64_MAX\<rparr>] = ?ss (Suc n)"
    using Suc.prems len by (intro nth_equalityI) (auto simp: nth_list_update)
  ultimately show ?case using Suc by (simp add: register_thread_def del: upt_Suc)
qed

lemma sr_init_ok:
  assumes "sr_init n s"
  shows "sr_G s" "sr_L s (sr_roles n u)"
proof -
  have s: "er s = ((\<lambda>r. snd (register_thread r)) ^^ n) er_new" "freed s = []" "retired_at s = Map.empty" "reading s = {}" "n \<le> MAX_THREADS"
    using assms by (auto simp: sr_init_def ep_init_def)
  have r: "length (er_slots (er s)) = MAX_THREADS" "\<not> active (er s) t" "global_epoch (er s) = 0" "retire_lists (er s) = replicate NUM_EPOCHS []" for t
    unfolding s(1) registered [OF s(5)] by (auto simp: active_def er_new_def)
  have "concat (replicate NUM_EPOCHS ([] :: obj list)) = []" by simp
  then show "sr_G s" "sr_L s (sr_roles n u)"
    using r s by (auto simp: sr_G_def ep_shape_def ep_reading_def sr_roles_def sr_R_def sr_lists_def sr_once_def)
qed

text \<open>A step keeps the roles apart, its own assertion and those of the others.\<close>

lemma sr_step:
  assumes ex: "sr_exec a s (k, pc) = (s', k', pc')" and G: "sr_G s" and L: "sr_L s (k, pc)"
  shows "sr_G s' \<and> sr_L s' (k', pc') \<and> slot_of k' = slot_of k \<and> (k' = Retirer \<longleftrightarrow> k = Retirer) \<and>
    (\<forall>m. sr_L s m \<and> sr_X (k, pc) m \<longrightarrow> sr_L s' m)"
proof -
  consider "k = Retirer" | "k = Bystander" | t where "slot_of k = Some t" by (cases k) auto
  then show ?thesis
  proof cases
    case 1
    then have st: "sr_G s' \<and> sr_L s' (k', pc') \<and> k' = Retirer \<and> er_slots (er s') = er_slots (er s) \<and> ep_E s \<le> ep_E s'"
      using sr_retirer_step [OF G, of pc a s' k' pc'] ex L by blast
    then have "sr_L s' m" if "sr_L s m" "sr_X (k, pc) m" for m using sr_other_retirer [OF that(1), of s'] that(2) 1 by (auto simp: sr_X_def)
    with st 1 show ?thesis by auto
  next
    case 2
    then show ?thesis using sr_idle_step [of s pc a s' k' pc'] ex L G by auto
  next
    case 3
    have st: "sr_G s' \<and> sr_L s' (k', pc') \<and> slot_of k' = Some t \<and> reader_step t s s'" by (rule sr_reader_step [OF G L 3 ex])
    then have "sr_L s' m" if "sr_L s m" "sr_X (k, pc) m" for m using sr_other_reader [OF _ that(1), of t s'] that(2) 3 by (auto simp: sr_X_def)
    with st 3 show ?thesis by auto
  qed
qed

interpretation sr: og_proof sr_exec "sr_init n" "sr_roles n" "\<lambda>_. True" sr_G sr_L sr_X for n
proof
  fix a s l s' l'
  assume ex: "sr_exec a s l = (s', l')" and G: "sr_G s" and L: "sr_L s l"
  have st: "sr_G s' \<and> sr_L s' l' \<and> slot_of (fst l') = slot_of (fst l) \<and> (fst l' = Retirer \<longleftrightarrow> fst l = Retirer) \<and>
      (\<forall>m. sr_L s m \<and> sr_X l m \<longrightarrow> sr_L s' m)"
    using sr_step [of a s "fst l" "snd l" s' "fst l'" "snd l'"] ex G L by simp
  then show "sr_G s' \<and> sr_L s' l'" by blast
  show "sr_L s' m \<and> sr_X l' m" if "sr_L s m" "sr_X l m" for m
  proof
    show "sr_L s' m" using st that by blast
    show "sr_X l' m" using st that(2) unfolding sr_X_def by metis
  qed
next
  show "sr_X (sr_roles n t) (sr_roles n u)" if "t \<noteq> u" for t u using that by (auto simp: sr_X_def sr_roles_def)
  show "sr_X m l" if "sr_X l m" for l m using that unfolding sr_X_def by metis
qed (auto simp: sr_init_ok)

lemma sr_reach_kind: "sr_reach n c \<Longrightarrow> fst (snd c 0) = Retirer"
proof (induction rule: reach.induct)
  case (step c e)
  obtain t a s ls where e: "e = (t, a)" "c = (s, ls)" by (metis surj_pair)
  obtain s' k' l' where ex: "sr_exec a s (fst (ls t), snd (ls t)) = (s', k', l')" by (metis surj_pair)
  have r: "sr_reach n (s, ls)" using step.hyps e by simp
  have "k' = Retirer \<longleftrightarrow> fst (ls t) = Retirer"
    using sr_step [OF ex sr.reach_G [OF r]] sr.reach_L [OF r, of t] by simp
  then show ?case using step.IH ex by (simp add: e sys_step_eq)
qed (simp add: sr_roles_def)

subsection \<open>Properties of every schedule\<close>

text \<open>
  C5. Safe reclamation under interleaving, for one retiring thread and readers with slots of their own:
  whatever the schedule, no object that was retired while a reader was inside its critical section is
  freed before that reader leaves, and the objects freed, on the lists and in the hands of the
  retiring thread are exactly the retired ones, each once. Accesses are sequentially consistent, and that of the plain flag
  \<^verbatim>\<open>in_use\<close> by a reader that gives up its slot counts as one of them.
\<close>

theorem ep_conc_safe:
  assumes "sr_reach n (s, ls)"
  shows "(\<forall>t p. (t, p) \<in> reading s \<longrightarrow> p \<notin> set (freed s) \<and> active (er s) t) \<and>
    distinct (freed s @ er_destroy (er s) @ transit (snd (ls 0))) \<and>
    set (freed s @ er_destroy (er s) @ transit (snd (ls 0))) = dom (retired_at s)"
proof -
  have "sr_G s" using sr.reach_G [OF assms] by simp
  moreover have "sr_L s (Retirer, snd (ls 0))"
    using sr.reach_L [OF assms, of 0] sr_reach_kind [OF assms] by (metis prod.collapse snd_conv)
  ultimately show ?thesis using ep_readingD(1,2) by (auto simp: sr_G_def sr_R_def sr_once_def er_destroy_def)
qed

subsection \<open>A schedule\<close>

text \<open>One reader is registered; it enters, and object 7 is retired while it is inside.\<close>

definition sr_sched :: "(tid \<times> sr_act) list" where
  "sr_sched = [(1, SrEnter), (1, SrGo), (1, SrGo), (0, SrRetire 7), (0, SrGo), (0, SrGo)]"

definition sr_s0 :: ep_run where
  "sr_s0 = ep_init\<lparr>er := \<lparr>global_epoch = 0, er_slots = demo_slots UINT64_MAX, retire_lists = [[], [], []]\<rparr>\<rparr>"

lemma sr_s0_init: "sr_init 1 sr_s0"
  by (simp add: sr_init_def sr_s0_def register_thread_def er_new_def replicate_64 replicate_3 demo_slots_def)

abbreviation sr_run :: "(ep_run, sr_kind \<times> ep_pc) config" where
  "sr_run \<equiv> run sr_exec (sr_s0, sr_roles 1) sr_sched"

lemma sr_run_ok: "reading (fst sr_run) = {(0, 7)}" "retire_lists (er (fst sr_run)) = [[7], [], []]"
  by (simp_all add: sr_sched_def sr_s0_def sr_roles_def ep_init_def ep_eval demo_active) (auto simp: demo_slots_def active_def nth_Cons split: nat.splits)

theorem ep_conc_safe_witness: "(0, 7) \<in> reading (fst sr_run) \<and> 7 \<notin> set (freed (fst sr_run)) \<and> active (er (fst sr_run)) 0"
proof -
  have "sr_reach 1 (fst sr_run, snd sr_run)" using reach_run_init [of "sr_init 1" sr_s0 sr_exec "sr_roles 1" sr_sched, OF sr_s0_init] by simp
  from ep_conc_safe [OF this] have "(0, 7) \<in> reading (fst sr_run) \<longrightarrow> 7 \<notin> set (freed (fst sr_run)) \<and> active (er (fst sr_run)) 0" by blast
  then show ?thesis using sr_run_ok(1) by simp
qed

end
