(* ===== verification/Release_Acquire.thy ===== *)
theory Release_Acquire
  imports Interleaving
begin

text \<open>
  The operations of \<^verbatim>\<open>std::atomic\<close> with the memory orders relaxed, acquire and release, as an
  operational model with views. An atomic object has a history: the list of its messages in
  modification order. A thread has a view: for every atomic the newest message it has observed,
  and the set of the plain accesses that happen before its next step. A load returns any message
  that is not older than the view allows, so it may be stale; an acquire load joins the view
  stored in the message. A release store puts the view of the thread into its message. A
  read-modify-write reads the newest message, and its own message inherits the view of the message
  read, so that release sequences are respected.

  A store is given its place at the end of the history only if the thread has observed the
  newest message, which forces that place; otherwise the result is \<open>None\<close>. A plain access is
  a data race unless the conflicting accesses performed before are among those the thread knows to happen
  before. Both are shown not to occur, so that no behaviour is left out. Cycles of relaxed
  accesses that justify one another (out-of-thin-air values) are excluded.
\<close>

subsection \<open>Views\<close>

datatype ('l, 'p) view = View (seen: "'l \<Rightarrow> nat") (known: "('p \<times> nat) set")

instantiation view :: (type, type) semilattice_sup
begin

definition less_eq_view :: "('a, 'b) view \<Rightarrow> ('a, 'b) view \<Rightarrow> bool" where
  "v \<le> w \<longleftrightarrow> (\<forall>l. seen v l \<le> seen w l) \<and> known v \<subseteq> known w"

definition less_view :: "('a, 'b) view \<Rightarrow> ('a, 'b) view \<Rightarrow> bool" where
  "less_view v w \<longleftrightarrow> v \<le> w \<and> \<not> w \<le> v"

definition sup_view :: "('a, 'b) view \<Rightarrow> ('a, 'b) view \<Rightarrow> ('a, 'b) view" where
  "sup v w = View (\<lambda>l. max (seen v l) (seen w l)) (known v \<union> known w)"

instance
proof
  fix v w :: "('a, 'b) view"
  assume "v \<le> w" "w \<le> v"
  then show "v = w" by (cases v; cases w) (auto simp: less_eq_view_def fun_eq_iff intro: le_antisym)
qed (auto simp: less_eq_view_def less_view_def sup_view_def intro: le_trans)

end

instantiation view :: (type, type) order_bot
begin

definition bot_view :: "('a, 'b) view" where
  "bot = View (\<lambda>l. 0) {}"

instance
  by intro_classes (simp add: less_eq_view_def bot_view_def)

end

definition see :: "'l \<Rightarrow> nat \<Rightarrow> ('l, 'p) view \<Rightarrow> ('l, 'p) view" where
  "see l i v = View ((seen v)(l := i)) (known v)"

definition know :: "'p \<Rightarrow> nat \<Rightarrow> ('l, 'p) view \<Rightarrow> ('l, 'p) view" where
  "know p n v = View (seen v) (insert (p, n) (known v))"

lemma seen_simps [simp]:
  "seen (sup v w) l = max (seen v l) (seen w l)" "seen bot l = 0"
  "seen (see k i v) l = (if l = k then i else seen v l)" "seen (know p n v) = seen v"
  by (simp_all add: sup_view_def bot_view_def see_def know_def)

lemma known_simps [simp]:
  "known (sup v w) = known v \<union> known w" "known bot = {}" "known (see k i v) = known v"
  "known (know p n v) = insert (p, n) (known v)"
  by (simp_all add: sup_view_def bot_view_def see_def know_def)

lemma view_leD: "v \<le> w \<Longrightarrow> seen v l \<le> seen w l" "v \<le> w \<Longrightarrow> known v \<subseteq> known w"
  by (auto simp: less_eq_view_def)

lemma see_ge: "seen v l \<le> i \<Longrightarrow> v \<le> see l i v"
  by (simp add: less_eq_view_def)

lemma know_ge: "v \<le> know p n v"
  by (auto simp: less_eq_view_def)

subsection \<open>Atomic accesses\<close>

datatype ('v, 'l, 'p) msg = Msg (mval: 'v) (mview: "('l, 'p) view")

type_synonym ('v, 'l, 'p) mem = "'l \<Rightarrow> ('v, 'l, 'p) msg list"

abbreviation newest :: "('v, 'l, 'p) mem \<Rightarrow> 'l \<Rightarrow> 'v" where
  "newest m l \<equiv> mval (last (m l))"

text \<open>The message a load returns: the one asked for, within what exists and what the view allows.\<close>

definition pick :: "nat \<Rightarrow> 'l \<Rightarrow> ('v, 'l, 'p) mem \<Rightarrow> ('l, 'p) view \<Rightarrow> nat" where
  "pick j l m v = max (seen v l) (min j (length (m l) - 1))"

definition load_rlx :: "nat \<Rightarrow> 'l \<Rightarrow> ('v, 'l, 'p) mem \<Rightarrow> ('l, 'p) view \<Rightarrow> 'v \<times> ('l, 'p) view" where
  "load_rlx j l m v = (let i = pick j l m v in (mval (m l ! i), see l i v))"

definition load_acq :: "nat \<Rightarrow> 'l \<Rightarrow> ('v, 'l, 'p) mem \<Rightarrow> ('l, 'p) view \<Rightarrow> 'v \<times> ('l, 'p) view" where
  "load_acq j l m v = (let i = pick j l m v in (mval (m l ! i), sup (see l i v) (mview (m l ! i))))"

definition latest :: "'l \<Rightarrow> ('v, 'l, 'p) mem \<Rightarrow> ('l, 'p) view \<Rightarrow> bool" where
  "latest l m v \<longleftrightarrow> Suc (seen v l) = length (m l)"

definition store_rlx ::
  "'l \<Rightarrow> 'v \<Rightarrow> ('v, 'l, 'p) mem \<Rightarrow> ('l, 'p) view \<Rightarrow> (('v, 'l, 'p) mem \<times> ('l, 'p) view) option" where
  "store_rlx l w m v = (if latest l m v
     then Some (m(l := m l @ [Msg w (see l (length (m l)) bot)]), see l (length (m l)) v) else None)"

definition store_rel ::
  "'l \<Rightarrow> 'v \<Rightarrow> ('v, 'l, 'p) mem \<Rightarrow> ('l, 'p) view \<Rightarrow> (('v, 'l, 'p) mem \<times> ('l, 'p) view) option" where
  "store_rel l w m v = (let v' = see l (length (m l)) v in
     if latest l m v then Some (m(l := m l @ [Msg w v']), v') else None)"

text \<open>A read-modify-write that succeeds, with or without acquire and release.\<close>

definition rmw ::
  "bool \<Rightarrow> bool \<Rightarrow> 'l \<Rightarrow> 'v \<Rightarrow> ('v, 'l, 'p) mem \<Rightarrow> ('l, 'p) view \<Rightarrow> ('v, 'l, 'p) mem \<times> ('l, 'p) view" where
  "rmw acq rel l w m v =
     (let old = mview (last (m l)); v' = see l (length (m l)) (if acq then sup v old else v)
      in (m(l := m l @ [Msg w (see l (length (m l)) (if rel then sup old v' else old))]), v'))"

text \<open>
  \<^verbatim>\<open>compare_exchange_weak\<close>: it succeeds if it reads the newest message, which holds the expected
  value, and does not fail spuriously; otherwise it is a load, and the value read is returned.
\<close>

definition cas_weak ::
  "bool \<Rightarrow> bool \<Rightarrow> bool \<Rightarrow> nat \<Rightarrow> bool \<Rightarrow> 'l \<Rightarrow> 'v \<Rightarrow> 'v \<Rightarrow> ('v, 'l, 'p) mem \<Rightarrow> ('l, 'p) view \<Rightarrow>
     'v option \<times> ('v, 'l, 'p) mem \<times> ('l, 'p) view" where
  "cas_weak acq rel fail_acq j spurious l expected desired m v =
     (if Suc (pick j l m v) = length (m l) \<and> newest m l = expected \<and> \<not> spurious
      then (None, rmw acq rel l desired m v)
      else (case (if fail_acq then load_acq else load_rlx) j l m v of (w, v') \<Rightarrow> (Some w, m, v')))"

text \<open>
  \<^verbatim>\<open>compare_exchange_strong\<close> fails only on a value other than the expected one: when the message
  asked for holds the expected value, the newest message decides.
\<close>

definition cas_strong ::
  "bool \<Rightarrow> bool \<Rightarrow> bool \<Rightarrow> nat \<Rightarrow> 'l \<Rightarrow> 'v \<Rightarrow> 'v \<Rightarrow> ('v, 'l, 'p) mem \<Rightarrow> ('l, 'p) view \<Rightarrow>
     'v option \<times> ('v, 'l, 'p) mem \<times> ('l, 'p) view" where
  "cas_strong acq rel fail_acq j l expected desired m v =
     cas_weak acq rel fail_acq (if mval (m l ! pick j l m v) = expected then length (m l) - 1 else j)
       False l expected desired m v"

subsection \<open>Plain accesses\<close>

text \<open>
  The accesses of a plain object, in the order performed; \<open>True\<close> is a write. Two accesses conflict
  unless both are reads.
\<close>

type_synonym 'p trail = "'p \<Rightarrow> bool list"

definition write_ordered :: "'p \<Rightarrow> 'p trail \<Rightarrow> ('l, 'p) view \<Rightarrow> bool" where
  "write_ordered p h v \<longleftrightarrow> (\<forall>i<length (h p). (p, i) \<in> known v)"

definition read_ordered :: "'p \<Rightarrow> 'p trail \<Rightarrow> ('l, 'p) view \<Rightarrow> bool" where
  "read_ordered p h v \<longleftrightarrow> (\<forall>i<length (h p). h p ! i \<longrightarrow> (p, i) \<in> known v)"

definition leave_trail :: "'p \<Rightarrow> bool \<Rightarrow> 'p trail \<Rightarrow> ('l, 'p) view \<Rightarrow> 'p trail \<times> ('l, 'p) view" where
  "leave_trail p b h v = (h(p := h p @ [b]), know p (length (h p)) v)"

lemma write_ordered_leave:
  "write_ordered p h v \<Longrightarrow> leave_trail p b h v = (h', v') \<Longrightarrow> write_ordered p h' v'"
  by (auto simp: write_ordered_def leave_trail_def less_Suc_eq)

subsection \<open>Well-formed memories\<close>

definition view_ok :: "('v, 'l, 'p) mem \<Rightarrow> ('l, 'p) view \<Rightarrow> bool" where
  "view_ok m v \<longleftrightarrow> (\<forall>l. seen v l < length (m l))"

definition mem_ok :: "('v, 'l, 'p) mem \<Rightarrow> bool" where
  "mem_ok m \<longleftrightarrow> (\<forall>l. m l \<noteq> [] \<and> (\<forall>i<length (m l). view_ok m (mview (m l ! i))))"

definition mem_le :: "('v, 'l, 'p) mem \<Rightarrow> ('v, 'l, 'p) mem \<Rightarrow> bool" where
  "mem_le m m' \<longleftrightarrow> (\<forall>l. length (m l) \<le> length (m' l) \<and> (\<forall>i<length (m l). m' l ! i = m l ! i))"

lemma mem_le_refl [simp, intro]: "mem_le m m"
  by (simp add: mem_le_def)

lemma mem_leD: "mem_le m m' \<Longrightarrow> length (m l) \<le> length (m' l)"
  "mem_le m m' \<Longrightarrow> i < length (m l) \<Longrightarrow> m' l ! i = m l ! i"
  by (auto simp: mem_le_def)

lemma mem_le_app [simp]: "mem_le m (m(l := m l @ ms))"
  by (auto simp: mem_le_def nth_append)

lemma view_ok_mono: "view_ok m v \<Longrightarrow> mem_le m m' \<Longrightarrow> view_ok m' v"
  unfolding view_ok_def mem_le_def by (meson less_le_trans)

lemma view_ok_sup [simp]: "view_ok m (sup v w) \<longleftrightarrow> view_ok m v \<and> view_ok m w"
  by (auto simp: view_ok_def)

lemma view_ok_know [simp]: "view_ok m (know p n v) \<longleftrightarrow> view_ok m v"
  by (simp add: view_ok_def)

lemma view_ok_see: "view_ok m v \<Longrightarrow> i < length (m l) \<Longrightarrow> view_ok m (see l i v)"
  by (simp add: view_ok_def)

lemma mem_okD: "mem_ok m \<Longrightarrow> m l \<noteq> []" "mem_ok m \<Longrightarrow> i < length (m l) \<Longrightarrow> view_ok m (mview (m l ! i))"
  by (auto simp: mem_ok_def)

lemma mem_ok_bot: "mem_ok m \<Longrightarrow> view_ok m bot"
  by (simp add: mem_ok_def view_ok_def)

lemma mem_ok_app:
  assumes "mem_ok m" "view_ok (m(l := m l @ [Msg w u])) u"
  shows "mem_ok (m(l := m l @ [Msg w u]))"
proof -
  have "view_ok (m(l := m l @ [Msg w u])) (mview (m k ! i))" if "i < length (m k)" for k i
    using view_ok_mono [OF mem_okD(2) [OF assms(1) that] mem_le_app] .
  then show ?thesis using assms mem_okD(1) [OF assms(1)] by (auto simp: mem_ok_def nth_append less_Suc_eq)
qed

lemma view_ok_app_see: "view_ok m v \<Longrightarrow> view_ok (m(l := m l @ [x])) (see l (length (m l)) v)"
  by (auto simp: view_ok_def less_Suc_eq)

lemma pick_bounds:
  assumes "view_ok m v"
  shows "seen v l \<le> pick j l m v" "pick j l m v < length (m l)"
proof -
  have "seen v l < length (m l)" using assms by (simp add: view_ok_def)
  then show "seen v l \<le> pick j l m v" "pick j l m v < length (m l)" by (auto simp: pick_def)
qed

lemma pick_latest: "view_ok m v \<Longrightarrow> latest l m v \<Longrightarrow> pick j l m v = length (m l) - 1"
  using pick_bounds(1) [of m v l j] pick_bounds(2) [of m v j l] by (simp add: latest_def)

lemma latest_grow:
  assumes "latest l m v" "v \<le> v'" "view_ok m v'"
  shows "latest l m v'"
proof -
  have "seen v l \<le> seen v' l" "seen v' l < length (m l)" using view_leD(1) [OF assms(2)] assms(3) by (auto simp: view_ok_def)
  then show ?thesis using assms(1) by (simp add: latest_def)
qed

lemma load_rlxE:
  assumes "load_rlx j l m v = (w, v')" "view_ok m v"
  obtains i where "i < length (m l)" "seen v l \<le> i" "w = mval (m l ! i)" "v' = see l i v" "v \<le> v'" "view_ok m v'"
proof
  show "pick j l m v < length (m l)" "seen v l \<le> pick j l m v" using pick_bounds [OF assms(2)] by auto
  then show "v \<le> v'" "view_ok m v'" using assms by (auto simp: load_rlx_def Let_def intro: see_ge view_ok_see)
qed (use assms(1) in \<open>auto simp: load_rlx_def Let_def\<close>)

lemma load_acqE:
  assumes "load_acq j l m v = (w, v')" "view_ok m v" "mem_ok m"
  obtains i where "i < length (m l)" "seen v l \<le> i" "w = mval (m l ! i)" "v \<le> v'" "mview (m l ! i) \<le> v'"
    "i \<le> seen v' l" "view_ok m v'"
proof
  show p: "pick j l m v < length (m l)" "seen v l \<le> pick j l m v" using pick_bounds [OF assms(2)] by auto
  have v': "v' = sup (see l (pick j l m v) v) (mview (m l ! pick j l m v))"
    using assms(1) by (auto simp: load_acq_def Let_def)
  show "v \<le> v'" unfolding v' using see_ge [OF p(2)] by (rule le_supI1)
  show "view_ok m v'" using p assms(2) mem_okD(2) [OF assms(3) p(1)] by (simp add: v' view_ok_see)
  show "mview (m l ! pick j l m v) \<le> v'" "pick j l m v \<le> seen v' l" by (auto simp: v')
qed (use assms(1) in \<open>auto simp: load_acq_def Let_def\<close>)

lemma cas_weakE:
  assumes "cas_weak acq rel fail_acq j sp l x y m v = (r, m', v')"
  obtains (success) "r = None" "newest m l = x" "rmw acq rel l y m v = (m', v')"
    | (failure) z where "r = Some z" "m' = m" "(if fail_acq then load_acq else load_rlx) j l m v = (z, v')"
  using assms by (auto simp: cas_weak_def split: if_splits prod.splits)

lemma rmw_ok:
  assumes "rmw acq rel l w m v = (m', v')" "view_ok m v" "mem_ok m"
  shows "mem_ok m'" "view_ok m' v'" "v \<le> v'" "mem_le m m'"
proof -
  let ?old = "mview (last (m l))" and ?n = "length (m l)"
  have old: "view_ok m ?old" using mem_okD(1) [OF assms(3), of l] by (simp add: last_conv_nth mem_okD(2) [OF assms(3)])
  let ?u = "see l ?n (if rel then sup ?old v' else ?old)"
  have m': "m' = m(l := m l @ [Msg w ?u])" and v': "v' = see l ?n (if acq then sup v ?old else v)"
    using assms(1) by (auto simp: rmw_def Let_def)
  show le: "mem_le m m'" by (simp add: m')
  show ok: "view_ok m' v'" using assms(2) old by (auto simp: m' v' intro: view_ok_app_see)
  have "view_ok m' ?old" by (rule view_ok_mono [OF old le])
  then have "view_ok m' ?u" using ok by (auto simp: m' intro: view_ok_see)
  then show "mem_ok m'" using assms(3) unfolding m' by (rule mem_ok_app [rotated])
  have "seen v l \<le> ?n" using assms(2) by (simp add: view_ok_def less_imp_le)
  then show "v \<le> v'" by (auto simp: v' less_eq_view_def)
qed

lemma store_relD:
  assumes "store_rel l w m v = Some (m', v')" "view_ok m v" "mem_ok m"
  shows "m' = m(l := m l @ [Msg w v'])" "v' = see l (length (m l)) v" "v \<le> v'" "view_ok m' v'" "mem_ok m'" "mem_le m m'"
proof -
  show m': "m' = m(l := m l @ [Msg w v'])" and v': "v' = see l (length (m l)) v"
    using assms(1) by (auto simp: store_rel_def Let_def split: if_splits)
  show ok: "view_ok m' v'" using assms(2) unfolding m' by (simp add: v' view_ok_app_see)
  then show "mem_ok m'" using assms(3) unfolding m' by (rule mem_ok_app [rotated])
  show "v \<le> v'" using assms(2) unfolding v' by (intro see_ge) (simp add: view_ok_def less_imp_le)
  show "mem_le m m'" by (subst m') simp
qed

lemma store_rlxD:
  assumes "store_rlx l w m v = Some (m', v')" "view_ok m v" "mem_ok m"
  shows "m' = m(l := m l @ [Msg w (see l (length (m l)) bot)])" "v' = see l (length (m l)) v" "v \<le> v'" "view_ok m' v'"
    "mem_ok m'" "mem_le m m'" "latest l m' v'"
proof -
  show m': "m' = m(l := m l @ [Msg w (see l (length (m l)) bot)])" and v': "v' = see l (length (m l)) v"
    using assms(1) by (auto simp: store_rlx_def split: if_splits)
  show "view_ok m' v'" using assms(2) unfolding m' by (simp add: v' view_ok_app_see)
  show "mem_ok m'" unfolding m' using assms(3) by (intro mem_ok_app view_ok_app_see mem_ok_bot)
  show "v \<le> v'" using assms(2) unfolding v' by (intro see_ge) (simp add: view_ok_def less_imp_le)
  show "mem_le m m'" "latest l m' v'" by (simp_all add: m' v' latest_def)
qed

lemma store_rel_latest: "latest l m v \<Longrightarrow> \<exists>m' v'. store_rel l w m v = Some (m', v')"
  by (simp add: store_rel_def Let_def)

end
