(* ===== verification/Epoch_RA.thy ===== *)
theory Epoch_RA
  imports Epoch_Single Release_Acquire
begin

text \<open>
  \<^verbatim>\<open>EpochReclaimer\<close> with the memory orders of the code, for one retiring thread and readers with registered slots of their
  own (as in \<open>Epoch_Single\<close>): relaxed loads of the global epoch, which is exchanged with release; release stores and acquire
  loads of the slots; a sequentially consistent fence at the end of \<^verbatim>\<open>enter_critical\<close> and nowhere else. The lists are only
  used by the retiring thread here, and \<^verbatim>\<open>in_use\<close> is written before the threads start. The objects are
  plain memory: a reader's access is a read, the call of the deleter is a write, and two such accesses
  that are not ordered by happens-before are a data race (which a use after the free always is).

  A slot can be read stale, so what counts is what the retiring thread has observed. \<open>ea_covered\<close> records, when an
  object is retired, the critical sections whose entry the retiring thread has observed and whose end it
  has not: a slot and the message by which it was entered. Clients are held to the discipline under
  which the code is sound: a section that uses an object has been entered before its retirement, in the
  sense of happens-before. The end of the theory shows a client that does not follow it, as the
  interleaved model (and the comment in the code) would allow, and a use after the free.
\<close>

datatype ea_loc = LGlobal | LSlot nat | LCell \<comment> \<open>\<open>LCell\<close> is a shared pointer of a client\<close>

datatype ea_val = VEpoch (epoch_of: uint64) | VObj (obj_of: obj)

type_synonym ea_view = "(ea_loc, obj) view"

record ea_global =
  ea_mem :: "(ea_val, ea_loc, obj) mem"
  ea_in_use :: "bool list"
  ea_lists :: "obj list list"
  ea_fences :: ea_view
  ea_trail :: "obj trail"
  ea_race :: bool
  ea_freed :: "obj list"
  ea_retired_at :: "obj \<rightharpoonup> nat"
  ea_covered :: "(nat \<times> nat \<times> obj) set"
  ea_by :: "obj \<Rightarrow> nat \<Rightarrow> (nat \<times> nat) option"

datatype ea_pc = At ep_pc | Fence nat

text \<open>A thread has a view and, for its next fence, the views of the messages that it has read relaxed.\<close>

type_synonym ea_local = "sr_kind \<times> ea_pc \<times> ea_view \<times> ea_view"

datatype ea_act = EaEnter | EaLeave | EaAccess obj | EaRetire obj | EaGo nat \<comment> \<open>the message a load returns\<close>

definition msg_view :: "nat \<Rightarrow> 'l \<Rightarrow> ('v, 'l, 'p) mem \<Rightarrow> ('l, 'p) view \<Rightarrow> ('l, 'p) view" where
  "msg_view j l m v = mview (m l ! pick j l m v)"

text \<open>A fence: the views of all fences before are joined, and the relaxed loads become acquire loads.\<close>

definition fence_sc :: "ea_global \<Rightarrow> ea_view \<Rightarrow> ea_view \<Rightarrow> ea_global \<times> ea_view" where
  "fence_sc g v q = (let v' = sup v (sup q (ea_fences g)) in (g\<lparr>ea_fences := v'\<rparr>, v'))"

text \<open>A plain access of an object by a reader, and its destruction.\<close>

definition ea_read :: "obj \<Rightarrow> nat \<Rightarrow> ea_global \<Rightarrow> ea_view \<Rightarrow> ea_global \<times> ea_view" where
  "ea_read p t g v = (case leave_trail p False (ea_trail g) v of (h, v') \<Rightarrow>
     (g\<lparr>ea_trail := h, ea_race := ea_race g \<or> \<not> read_ordered p (ea_trail g) v,
        ea_by := (ea_by g)(p := (ea_by g p)(length (ea_trail g p) := Some (t, seen v (LSlot t))))\<rparr>, v'))"

definition ea_delete :: "obj \<Rightarrow> ea_global \<Rightarrow> ea_view \<Rightarrow> ea_global \<times> ea_view" where
  "ea_delete p g v = (case leave_trail p True (ea_trail g) v of (h, v') \<Rightarrow>
     (g\<lparr>ea_trail := h, ea_race := ea_race g \<or> \<not> write_ordered p (ea_trail g) v, ea_freed := ea_freed g @ [p]\<rparr>, v'))"

fun ea_go :: "nat \<Rightarrow> ea_global \<Rightarrow> ea_pc \<times> ea_view \<times> ea_view \<Rightarrow> ea_global \<times> ea_pc \<times> ea_view \<times> ea_view" where
  "ea_go j g (At (EnterLoad t), v, q) =
     (case load_rlx j LGlobal (ea_mem g) v of (x, v') \<Rightarrow>
      (g, At (EnterStore t (epoch_of x)), v', sup q (msg_view j LGlobal (ea_mem g) v)))"
| "ea_go j g (At (EnterStore t e), v, q) =
     (case store_rel (LSlot t) (VEpoch e) (ea_mem g) v of
        None \<Rightarrow> (g\<lparr>ea_race := True\<rparr>, At EIdle, v, q)
      | Some (m, v') \<Rightarrow> (g\<lparr>ea_mem := m\<rparr>, Fence t, v', q))"
| "ea_go j g (Fence t, v, q) = (case fence_sc g v q of (g', v') \<Rightarrow> (g', At EIdle, v', q))"
| "ea_go j g (At (LeaveStore t), v, q) =
     (case store_rel (LSlot t) (VEpoch UINT64_MAX) (ea_mem g) v of
        None \<Rightarrow> (g\<lparr>ea_race := True\<rparr>, At EIdle, v, q)
      | Some (m, v') \<Rightarrow> (g\<lparr>ea_mem := m\<rparr>, At EIdle, v', q))"
| "ea_go j g (At (RetLoad p), v, q) =
     (case load_rlx j LGlobal (ea_mem g) v of (x, v') \<Rightarrow>
      (g, At (RetPush p (epoch_idx (epoch_of x))), v', sup q (msg_view j LGlobal (ea_mem g) v)))"
| "ea_go j g (At (RetPush p idx), v, q) =
     (g\<lparr>ea_lists := (ea_lists g)[idx := ea_lists g ! idx @ [p]]\<rparr>, At AdvLoad, v, q)"
| "ea_go j g (At AdvLoad, v, q) =
     (case load_rlx j LGlobal (ea_mem g) v of (x, v') \<Rightarrow>
      (g, At (adv_next (epoch_of x) 0), v', sup q (msg_view j LGlobal (ea_mem g) v)))"
| "ea_go j g (At (AdvInUse current i), v, q) =
     (g, At (if \<not> ea_in_use g ! i then adv_next current (Suc i) else AdvEpoch current i), v, q)"
| "ea_go j g (At (AdvEpoch current i), v, q) =
     (case load_acq j (LSlot i) (ea_mem g) v of (x, v') \<Rightarrow>
      (g, At (if epoch_of x \<noteq> UINT64_MAX \<and> epoch_of x \<noteq> current then EIdle else adv_next current (Suc i)), v', q))"
| "ea_go j g (At (AdvCas current), v, q) =
     (case cas_strong False True False j LGlobal (VEpoch current) (VEpoch (current + 1)) (ea_mem g) v of
        (None, m, v') \<Rightarrow> (g\<lparr>ea_mem := m\<rparr>, At (AdvSwap (current + 1)), v', q)
      | (Some _, m, v') \<Rightarrow> (g, At EIdle, v', q))"
| "ea_go j g (At (AdvSwap new_epoch), v, q) =
     (let old_idx = epoch_idx new_epoch in
      (g\<lparr>ea_lists := (ea_lists g)[old_idx := []]\<rparr>, At (AdvFree (ea_lists g ! old_idx)), v, q))"
| "ea_go j g (At (AdvFree ps), v, q) =
     (case ps of [] \<Rightarrow> (g, At EIdle, v, q)
      | p # ps' \<Rightarrow> (case ea_delete p g v of (g', v') \<Rightarrow> (g', At (AdvFree ps'), v', q)))"
| "ea_go j g l = (g, l)"

text \<open>The slots that a view shows as inside a critical section.\<close>

definition ea_local_epoch :: "ea_global \<Rightarrow> ea_view \<Rightarrow> nat \<Rightarrow> uint64" where
  "ea_local_epoch g v t = epoch_of (mval (ea_mem g (LSlot t) ! seen v (LSlot t)))"

definition ea_inside :: "ea_global \<Rightarrow> ea_view \<Rightarrow> nat list" where
  "ea_inside g v = filter (\<lambda>t. ea_in_use g ! t \<and> ea_local_epoch g v t \<noteq> UINT64_MAX) [0..<length (ea_in_use g)]"

text \<open>The discipline of a client that retires: every use so far was in a section whose entry it has observed.\<close>

definition ea_disciplined :: "obj \<Rightarrow> ea_global \<Rightarrow> ea_view \<Rightarrow> bool" where
  "ea_disciplined p g v \<longleftrightarrow> (\<forall>i<length (ea_trail g p).
     case ea_by g p i of None \<Rightarrow> True | Some (t, n) \<Rightarrow> n \<le> seen v (LSlot t))"

definition ea_call_retire :: "obj \<Rightarrow> ea_global \<Rightarrow> ea_view \<Rightarrow> ea_global" where
  "ea_call_retire p g v =
     g\<lparr>ea_retired_at := (ea_retired_at g)(p \<mapsto> unat (epoch_of (newest (ea_mem g) LGlobal))),
       ea_covered := ea_covered g \<union> set (map (\<lambda>t. (t, seen v (LSlot t), p)) (ea_inside g v))\<rparr>"

fun ea_exec :: "ea_act \<Rightarrow> ea_global \<Rightarrow> ea_local \<Rightarrow> ea_global \<times> ea_local" where
  "ea_exec (EaGo j) g (k, l) = (case ea_go j g l of (g', l') \<Rightarrow> (g', k, l'))"
| "ea_exec EaEnter g (k, pc, v, q) =
     (case k of Outside t \<Rightarrow> (g, if pc = At EIdle then (Inside t, At (EnterLoad t), v, q) else (k, pc, v, q)) | _ \<Rightarrow> (g, k, pc, v, q))"
| "ea_exec EaLeave g (k, pc, v, q) =
     (case k of Inside t \<Rightarrow> (g, if pc = At EIdle then (Outside t, At (LeaveStore t), v, q) else (k, pc, v, q)) | _ \<Rightarrow> (g, k, pc, v, q))"
| "ea_exec (EaAccess p) g (k, pc, v, q) =
     (case k of
        Inside t \<Rightarrow> (if pc = At EIdle \<and> (ea_retired_at g p = None \<or> (t, seen v (LSlot t), p) \<in> ea_covered g)
                    then (case ea_read p t g v of (g', v') \<Rightarrow> (g', k, pc, v', q)) else (g, k, pc, v, q))
      | _ \<Rightarrow> (g, k, pc, v, q))"
| "ea_exec (EaRetire p) g (k, pc, v, q) =
     (if k = Retirer \<and> pc = At EIdle \<and> ea_retired_at g p = None \<and> unat (epoch_of (newest (ea_mem g) LGlobal)) < 2 ^ 64 - 2 \<and>
         ea_disciplined p g v
      then (ea_call_retire p g v, Retirer, At (RetLoad p), v, q) else (g, k, pc, v, q))"

text \<open>The start: slots registered by the main thread, as in \<open>Epoch_Single\<close>.\<close>

fun ea_first :: "ep_run \<Rightarrow> ea_loc \<Rightarrow> ea_val" where
  "ea_first s LGlobal = VEpoch (global_epoch (er s))"
| "ea_first s (LSlot t) = VEpoch UINT64_MAX"
| "ea_first s LCell = VObj 0"

definition ea_of :: "ep_run \<Rightarrow> ea_global" where
  "ea_of s = \<lparr>ea_mem = (\<lambda>l. [Msg (ea_first s l) bot]), ea_in_use = map in_use (er_slots (er s)),
     ea_lists = retire_lists (er s), ea_fences = bot, ea_trail = (\<lambda>_. []), ea_race = False, ea_freed = [],
     ea_retired_at = Map.empty, ea_covered = {}, ea_by = (\<lambda>_ _. None)\<rparr>"

definition ea_init :: "nat \<Rightarrow> ea_global \<Rightarrow> bool" where
  "ea_init n g \<longleftrightarrow> (\<exists>s. sr_init n s \<and> g = ea_of s)"

definition ea_roles :: "nat \<Rightarrow> tid \<Rightarrow> ea_local" where
  "ea_roles n u = (fst (sr_roles n u), At EIdle, bot, bot)"

abbreviation ea_reach :: "nat \<Rightarrow> (ea_global, ea_local) config \<Rightarrow> bool" where
  "ea_reach n \<equiv> reach ea_exec (ea_init n) (ea_roles n)"

subsection \<open>Assertions\<close>

text \<open>The reclaimer as the retiring thread sees it.\<close>

definition ea_sees :: "ea_global \<Rightarrow> ea_view \<Rightarrow> ep_run" where
  "ea_sees g v = \<lparr>er = \<lparr>global_epoch = epoch_of (newest (ea_mem g) LGlobal),
       er_slots = map (\<lambda>t. \<lparr>local_epoch = ea_local_epoch g v t, in_use = ea_in_use g ! t\<rparr>) [0..<length (ea_in_use g)],
       retire_lists = ea_lists g\<rparr>, freed = ea_freed g, retired_at = ea_retired_at g,
     reading = {(t, p). (t, seen v (LSlot t), p) \<in> ea_covered g}\<rparr>"

abbreviation ea_E :: "ea_global \<Rightarrow> nat" where "ea_E g \<equiv> unat (epoch_of (newest (ea_mem g) LGlobal))"

text \<open>
  The messages of a slot alternate between "outside" and an epoch that the global epoch has reached;
  each carries its writer's view, so whoever reads a newer one knows the accesses of the section that ended.
\<close>

definition slot_msg_ok :: "nat \<Rightarrow> nat \<Rightarrow> nat \<Rightarrow> (ea_val, ea_loc, obj) msg \<Rightarrow> bool" where
  "slot_msg_ok E t k x \<longleftrightarrow> (\<exists>e. mval x = VEpoch e \<and> (if even k then e = UINT64_MAX else unat e \<le> E)) \<and> seen (mview x) (LSlot t) \<le> k"

definition ea_epochs :: "ea_global \<Rightarrow> bool" where
  "ea_epochs g \<longleftrightarrow> ea_E g \<le> 2 ^ 64 - 2 \<and>
     (\<forall>k<length (ea_mem g LGlobal). \<exists>e. mval (ea_mem g LGlobal ! k) = VEpoch e \<and> unat e \<le> ea_E g) \<and>
     (\<forall>t. \<forall>k<length (ea_mem g (LSlot t)). slot_msg_ok (ea_E g) t k (ea_mem g (LSlot t) ! k))"

lemma slot_msg_ok_mono: "slot_msg_ok E t k x \<Longrightarrow> E \<le> E' \<Longrightarrow> slot_msg_ok E' t k x"
  by (auto simp: slot_msg_ok_def)

text \<open>A view that has observed a message of a slot includes the view of the message.\<close>

definition ea_closed :: "ea_global \<Rightarrow> ea_view \<Rightarrow> bool" where
  "ea_closed g v \<longleftrightarrow> view_ok (ea_mem g) v \<and> (\<forall>t. mview (ea_mem g (LSlot t) ! seen v (LSlot t)) \<le> v)"

definition ea_views :: "ea_global \<Rightarrow> bool" where
  "ea_views g \<longleftrightarrow> ea_closed g (ea_fences g) \<and> (\<forall>l. ea_mem g l \<noteq> [] \<and> (\<forall>k<length (ea_mem g l). ea_closed g (mview (ea_mem g l ! k))))"

definition ea_sections :: "ea_global \<Rightarrow> bool" where
  "ea_sections g \<longleftrightarrow> (\<forall>p i t n k. i < length (ea_trail g p) \<and> ea_by g p i = Some (t, n) \<and> n < k \<and> k < length (ea_mem g (LSlot t)) \<longrightarrow>
     (p, i) \<in> known (mview (ea_mem g (LSlot t) ! k)))"

text \<open>Only the deleter writes; the uses are made in critical sections of registered slots.\<close>

definition ea_uses :: "ea_global \<Rightarrow> bool" where
  "ea_uses g \<longleftrightarrow> (\<forall>p. p \<notin> set (ea_freed g) \<longrightarrow> True \<notin> set (ea_trail g p)) \<and>
     (\<forall>p i t n. ea_by g p i = Some (t, n) \<longrightarrow> i < length (ea_trail g p) \<and> t < MAX_THREADS \<and> ea_in_use g ! t \<and> odd n)"

text \<open>What is freed has been retired, and no section that was entered before its retirement still goes on.\<close>

definition ea_safe :: "ea_global \<Rightarrow> bool" where
  "ea_safe g \<longleftrightarrow> set (ea_freed g) \<subseteq> dom (ea_retired_at g) \<and>
     (\<forall>t n p. (t, n, p) \<in> ea_covered g \<and> p \<in> set (ea_freed g) \<longrightarrow> Suc n < length (ea_mem g (LSlot t)))"

definition ea_G :: "ea_global \<Rightarrow> bool" where
  "ea_G g \<longleftrightarrow> ea_views g \<and> length (ea_in_use g) = MAX_THREADS \<and> ea_epochs g \<and> ea_sections g \<and> ea_uses g \<and> ea_safe g \<and> \<not> ea_race g"

text \<open>An access is known to the retiring thread, or was made in a section it has not seen the end of.\<close>

definition ea_pending :: "ea_global \<Rightarrow> ea_view \<Rightarrow> obj \<Rightarrow> nat \<Rightarrow> bool" where
  "ea_pending g v p i \<longleftrightarrow> (case ea_by g p i of None \<Rightarrow> False | Some (t, n) \<Rightarrow>
     if ea_retired_at g p = None then seen v (LSlot t) \<le> n else (t, n, p) \<in> ea_covered g \<and> seen v (LSlot t) = n)"

definition ea_ordered :: "ea_global \<Rightarrow> ea_view \<Rightarrow> bool" where
  "ea_ordered g v \<longleftrightarrow> (\<forall>p. p \<notin> set (ea_freed g) \<longrightarrow> (\<forall>i<length (ea_trail g p). (p, i) \<in> known v \<or> ea_pending g v p i)) \<and>
     (\<forall>t n p. (t, n, p) \<in> ea_covered g \<longrightarrow> n \<le> seen v (LSlot t))"

definition ea_R :: "ea_global \<Rightarrow> ep_pc \<Rightarrow> ea_view \<Rightarrow> bool" where
  "ea_R g l v \<longleftrightarrow> latest LGlobal (ea_mem g) v \<and> sr_G (ea_sees g v) \<and> sr_R (ea_sees g v) l \<and> ea_ordered g v"

text \<open>A reader has written the newest message of its slot and knows its own accesses.\<close>

definition ea_reader :: "ea_global \<Rightarrow> nat \<Rightarrow> ea_view \<Rightarrow> bool" where
  "ea_reader g t v \<longleftrightarrow> t < MAX_THREADS \<and> ea_in_use g ! t \<and> latest (LSlot t) (ea_mem g) v \<and>
     (\<forall>p i n. i < length (ea_trail g p) \<and> ea_by g p i = Some (t, n) \<longrightarrow> (p, i) \<in> known v \<and> n \<le> seen v (LSlot t))"

fun ea_section :: "sr_kind \<Rightarrow> ea_pc \<Rightarrow> ea_global \<Rightarrow> nat \<Rightarrow> bool" where
  "ea_section (Inside t) (At EIdle) g n = odd n"
| "ea_section (Inside t) (Fence u) g n = odd n"
| "ea_section (Inside t) (At (EnterLoad u)) g n = (u = t \<and> even n)"
| "ea_section (Inside t) (At (EnterStore u e)) g n = (u = t \<and> even n \<and> unat e \<le> ea_E g)"
| "ea_section (Outside t) (At EIdle) g n = even n"
| "ea_section (Outside t) (At (LeaveStore u)) g n = (u = t \<and> odd n)"
| "ea_section _ _ _ _ = False"

fun ea_L :: "ea_global \<Rightarrow> ea_local \<Rightarrow> bool" where
  "ea_L g (k, pc, v, q) = (ea_closed g v \<and> ea_closed g q \<and>
     (case slot_of k of
        Some t \<Rightarrow> ea_reader g t v \<and> ea_section k pc g (seen v (LSlot t))
      | None \<Rightarrow> if k = Retirer then \<exists>l. pc = At l \<and> ea_R g l v else pc = At EIdle))"

definition ea_X :: "ea_local \<Rightarrow> ea_local \<Rightarrow> bool" where
  "ea_X l m \<longleftrightarrow> sr_X (fst l, EIdle) (fst m, EIdle)"

lemma ea_GD:
  assumes "ea_G g"
  shows "ea_views g" "length (ea_in_use g) = MAX_THREADS" "ea_epochs g" "ea_sections g" "ea_uses g" "\<not> ea_race g" "mem_ok (ea_mem g)"
    "ea_safe g" "ea_mem g l \<noteq> []" "k < length (ea_mem g l) \<Longrightarrow> ea_closed g (mview (ea_mem g l ! k))"
  using assms by (auto simp: ea_G_def ea_views_def mem_ok_def ea_closed_def)

lemma ea_closedD:
  assumes "ea_closed g v"
  shows "view_ok (ea_mem g) v" "mview (ea_mem g (LSlot t) ! seen v (LSlot t)) \<le> v" "seen v l < length (ea_mem g l)"
  using assms by (auto simp: ea_closed_def view_ok_def)

lemma ea_closed_sup:
  assumes "ea_closed g v" "ea_closed g w"
  shows "ea_closed g (sup v w)"
proof -
  have "mview (ea_mem g (LSlot t) ! seen (sup v w) (LSlot t)) \<le> sup v w" for t
    using ea_closedD(2) [OF assms(1), of t] ea_closedD(2) [OF assms(2), of t] by (auto simp: max_def intro: le_supI1 le_supI2)
  then show ?thesis using assms by (simp add: ea_closed_def)
qed

lemma ea_closed_mono:
  assumes "ea_closed g v" "mem_le (ea_mem g) (ea_mem g')"
  shows "ea_closed g' v"
  using assms view_ok_mono [of "ea_mem g" v "ea_mem g'"] mem_leD(2) [OF assms(2)] by (auto simp: ea_closed_def view_ok_def)

lemma ea_sees_sel [simp]:
  "global_epoch (er (ea_sees g v)) = epoch_of (newest (ea_mem g) LGlobal)"
  "retire_lists (er (ea_sees g v)) = ea_lists g" "freed (ea_sees g v) = ea_freed g" "retired_at (ea_sees g v) = ea_retired_at g"
  "(t, p) \<in> reading (ea_sees g v) \<longleftrightarrow> (t, seen v (LSlot t), p) \<in> ea_covered g"
  "length (er_slots (er (ea_sees g v))) = length (ea_in_use g)"
  "t < length (ea_in_use g) \<Longrightarrow> slot_at (ea_sees g v) t = \<lparr>local_epoch = ea_local_epoch g v t, in_use = ea_in_use g ! t\<rparr>"
  by (simp_all add: ea_sees_def)

lemma ea_epoch_reached:
  assumes "ea_G g" "k < length (ea_mem g (LSlot t))"
  shows "if even k then epoch_of (mval (ea_mem g (LSlot t) ! k)) = UINT64_MAX
    else unat (epoch_of (mval (ea_mem g (LSlot t) ! k))) \<le> ea_E g \<and> epoch_of (mval (ea_mem g (LSlot t) ! k)) \<noteq> UINT64_MAX"
proof -
  obtain e where e: "mval (ea_mem g (LSlot t) ! k) = VEpoch e" "if even k then e = UINT64_MAX else unat e \<le> ea_E g" "ea_E g \<le> 2 ^ 64 - 2"
    using ea_GD(3) [OF assms(1)] assms(2) unfolding ea_epochs_def slot_msg_ok_def by meson
  then show ?thesis by (auto simp: unat_max_word)
qed

text \<open>The retiring thread observes more.\<close>

lemma ea_known:
  assumes "ea_G g" "ea_closed g v" "i < length (ea_trail g p)" "ea_by g p i = Some (t, n)" "n < seen v (LSlot t)"
  shows "(p, i) \<in> known v"
proof -
  have "(p, i) \<in> known (mview (ea_mem g (LSlot t) ! seen v (LSlot t)))"
    using ea_GD(4) [OF assms(1)] assms(3-5) ea_closedD(3) [OF assms(2)] unfolding ea_sections_def by blast
  then show ?thesis using view_leD(2) [OF ea_closedD(2) [OF assms(2), of t]] by blast
qed

lemma ea_ordered_grow:
  assumes G: "ea_G g" and o: "ea_ordered g v" and le: "v \<le> v'" and c: "ea_closed g v'"
  shows "ea_ordered g v'"
  unfolding ea_ordered_def
proof (intro conjI allI impI)
  fix p i assume p: "p \<notin> set (ea_freed g)" and i: "i < length (ea_trail g p)"
  then have "(p, i) \<in> known v \<or> ea_pending g v p i" using o by (simp add: ea_ordered_def)
  then show "(p, i) \<in> known v' \<or> ea_pending g v' p i"
  proof
    assume pend: "ea_pending g v p i"
    then obtain t n where b: "ea_by g p i = Some (t, n)" by (auto simp: ea_pending_def split: option.splits)
    show ?thesis
    proof (cases "n < seen v' (LSlot t)")
      case True
      then show ?thesis using ea_known [OF G c i b] by simp
    next
      case False
      then show ?thesis using pend b view_leD(1) [OF le, of "LSlot t"] by (auto simp: ea_pending_def split: if_splits)
    qed
  qed (use view_leD(2) [OF le] in blast)
next
  fix t n p assume "(t, n, p) \<in> ea_covered g"
  then show "n \<le> seen v' (LSlot t)" using o view_leD(1) [OF le, of "LSlot t"] unfolding ea_ordered_def by (meson le_trans)
qed

lemma ea_R_grow:
  assumes G: "ea_G g" and R: "ea_R g l v" and le: "v \<le> v'" and c: "ea_closed g v'"
  shows "ea_R g l v'"
proof -
  let ?s = "ea_sees g v" and ?s' = "ea_sees g v'"
  have r: "latest LGlobal (ea_mem g) v" "sr_G ?s" "sr_R ?s l" "ea_ordered g v" using R by (auto simp: ea_R_def)
  have o': "ea_ordered g v'" by (rule ea_ordered_grow [OF G r(4) le c])
  have same: "seen v' (LSlot t) = seen v (LSlot t)" if "(t, p) \<in> reading ?s'" for t p
    using that r(4) view_leD(1) [OF le, of "LSlot t"] unfolding ea_ordered_def by (metis ea_sees_sel(5) le_antisym)
  then have rs: "reading ?s' \<subseteq> reading ?s" by (metis ea_sees_sel(5) subrelI)
  have eq: "?s' = ?s\<lparr>er := (er ?s)\<lparr>er_slots := er_slots (er ?s')\<rparr>, reading := reading ?s'\<rparr>" by (simp add: ea_sees_def)
  then have "sr_R ?s' l" using sr_R_slots [OF r(3) rs] by metis
  moreover have "sr_G ?s'"
  proof -
    have act: "active (er ?s') t \<Longrightarrow> unat (ea_local_epoch g v' t) \<le> ea_E g" for t
      using ea_epoch_reached [OF G ea_closedD(3) [OF c], of t] by (auto simp: active_def ea_local_epoch_def split: if_splits)
    have "ep_shape ?s'" using r(2) act by (auto simp: sr_G_def ep_shape_def active_def)
    moreover have "ep_reading ?s'"
      unfolding ep_reading_def
    proof clarify
      fix t p assume tp: "(t, p) \<in> reading ?s'"
      then have "(t, p) \<in> reading ?s" using rs by blast
      note rd = ep_readingD [OF sr_GD(2) [OF r(2)] this]
      have ep: "ea_local_epoch g v' t = ea_local_epoch g v t" using same [OF tp] by (simp add: ea_local_epoch_def)
      then have "active (er ?s') t" "slot_at ?s' t = slot_at ?s t" using rd(2) by (auto simp: active_def)
      then show "p \<notin> set (freed ?s') \<and> active (er ?s') t \<and>
          (\<exists>e. retired_at ?s' p = Some e \<and> unat (local_epoch (slot_at ?s' t)) \<le> e)" using rd by simp
    qed
    ultimately show ?thesis by (simp add: sr_G_def)
  qed
  moreover have "latest LGlobal (ea_mem g) v'"
    using r(1) view_leD(1) [OF le, of LGlobal] ea_closedD(3) [OF c, of LGlobal] by (simp add: latest_def)
  ultimately show ?thesis using o' by (simp add: ea_R_def)
qed

subsection \<open>Steps of a reader\<close>

lemma ea_reader_grow:
  assumes "ea_reader g t v" "v \<le> v'" "ea_closed g v'"
  shows "ea_reader g t v'" "seen v' (LSlot t) = seen v (LSlot t)"
proof -
  have l: "latest (LSlot t) (ea_mem g) v" "latest (LSlot t) (ea_mem g) v'"
    using assms(1) latest_grow [OF _ assms(2) ea_closedD(1) [OF assms(3)]] by (simp_all add: ea_reader_def)
  then show eq: "seen v' (LSlot t) = seen v (LSlot t)" by (simp add: latest_def)
  show "ea_reader g t v'" using assms(1) l(2) view_leD(2) [OF assms(2)] unfolding ea_reader_def eq by blast
qed

lemma ea_safe_mono:
  assumes "ea_safe g" "mem_le (ea_mem g) (ea_mem g')" "ea_freed g' = ea_freed g" "ea_retired_at g' = ea_retired_at g" "ea_covered g' = ea_covered g"
  shows "ea_safe g'"
  using assms(1) mem_leD(1) [OF assms(2)] unfolding ea_safe_def assms(3-5) by (meson less_le_trans)

lemma ea_store:
  assumes G: "ea_G g" and c: "ea_closed g v" and r: "ea_reader g t v" and st: "store_rel (LSlot t) (VEpoch e) (ea_mem g) v = Some (m, v')"
    and e: "if odd (seen v (LSlot t)) then e = UINT64_MAX else unat e \<le> ea_E g" and g': "g' = g\<lparr>ea_mem := m\<rparr>"
  shows "ea_G g'" "ea_closed g' v'" "ea_reader g' t v'" "seen v' (LSlot t) = Suc (seen v (LSlot t))" "mem_le (ea_mem g) (ea_mem g')"
    "\<And>l. l \<noteq> LSlot t \<Longrightarrow> ea_mem g' l = ea_mem g l"
proof -
  note s = store_relD [OF st ea_closedD(1) [OF c] ea_GD(7) [OF G]]
  let ?k = "length (ea_mem g (LSlot t))"
  have k: "?k = Suc (seen v (LSlot t))" using r by (simp add: ea_reader_def latest_def)
  have m: "ea_mem g' = (ea_mem g)(LSlot t := ea_mem g (LSlot t) @ [Msg (VEpoch e) v'])" using s(1) by (simp add: g')
  have sel: "ea_trail g' = ea_trail g" "ea_by g' = ea_by g" "ea_in_use g' = ea_in_use g" "ea_freed g' = ea_freed g"
    "ea_retired_at g' = ea_retired_at g" "ea_covered g' = ea_covered g" "ea_race g' = ea_race g" "ea_fences g' = ea_fences g"
    by (simp_all add: g')
  show le: "mem_le (ea_mem g) (ea_mem g')" and sn: "seen v' (LSlot t) = Suc (seen v (LSlot t))" using s(2,6) k by (simp_all add: g')
  show oth: "\<And>l. l \<noteq> LSlot t \<Longrightarrow> ea_mem g' l = ea_mem g l" by (simp add: m)
  have "mview (ea_mem g' (LSlot u) ! seen v' (LSlot u)) \<le> v'" for u
  proof (cases "u = t")
    case True
    then have "ea_mem g' (LSlot u) ! seen v' (LSlot u) = Msg (VEpoch e) v'" using sn k by (simp add: m nth_append)
    then show ?thesis by simp
  next
    case False
    then show ?thesis using s(2) order_trans [OF ea_closedD(2) [OF c, of u] s(3)] by (simp add: m)
  qed
  then show c': "ea_closed g' v'" using s(4) by (simp add: ea_closed_def g')
  show "ea_reader g' t v'"
    using r sn s(3) view_leD(2) [OF s(3)] k by (auto simp: ea_reader_def latest_def m sel le_Suc_eq) 
  have "ea_closed g' (mview (ea_mem g' l ! i))" if "i < length (ea_mem g' l)" for l i
    using that ea_closed_mono [OF ea_GD(10) [OF G] le] c' by (cases "l = LSlot t \<and> i = ?k") (auto simp: m nth_append less_Suc_eq split: if_splits)
  moreover have "ea_closed g' (ea_fences g')" using ea_GD(1) [OF G] ea_closed_mono [OF _ le] by (auto simp: ea_views_def sel)
  ultimately have "ea_views g'" using ea_GD(9) [OF G] by (simp add: ea_views_def m)
  moreover have "slot_msg_ok (ea_E g) t ?k (Msg (VEpoch e) v')" using e k sn by (simp add: slot_msg_ok_def)
  then have "ea_epochs g'" using ea_GD(3) [OF G] unfolding ea_epochs_def by (auto simp: m nth_append less_Suc_eq)
  moreover have "ea_sections g'"
    using ea_GD(4) [OF G] r s(3) view_leD(2) [OF s(3)] k unfolding ea_sections_def ea_reader_def
    by (auto simp: m nth_append less_Suc_eq sel split: if_splits)
  moreover have "ea_safe g'" using ea_safe_mono [OF ea_GD(8) [OF G] le] sel by simp
  ultimately show "ea_G g'" using ea_GD [OF G] by (simp add: ea_G_def ea_uses_def sel)
qed

lemma ea_access:
  assumes G: "ea_G g" and c: "ea_closed g v" and r: "ea_reader g t v" and n: "odd (seen v (LSlot t))"
    and guard: "ea_retired_at g p = None \<or> (t, seen v (LSlot t), p) \<in> ea_covered g" and rd: "ea_read p t g v = (g', v')"
  shows "ea_G g'" "ea_closed g' v'" "ea_reader g' t v'" "seen v' = seen v"
proof -
  let ?i = "length (ea_trail g p)"
  have e: "ea_trail g' = (ea_trail g)(p := ea_trail g p @ [False])" "v' = know p ?i v"
    "ea_by g' = (ea_by g)(p := (ea_by g p)(?i := Some (t, seen v (LSlot t))))" "ea_race g' \<longleftrightarrow> ea_race g \<or> \<not> read_ordered p (ea_trail g) v"
    and sel: "ea_mem g' = ea_mem g" "ea_in_use g' = ea_in_use g" "ea_freed g' = ea_freed g" "ea_retired_at g' = ea_retired_at g"
    "ea_covered g' = ea_covered g" "ea_fences g' = ea_fences g"
    using rd by (auto simp: ea_read_def leave_trail_def)
  have cl: "ea_closed g' = ea_closed g" by (simp add: ea_closed_def fun_eq_iff sel)
  show "seen v' = seen v" by (simp add: e)
  have "v \<le> v'" by (simp add: e know_ge)
  then show "ea_closed g' v'" using c unfolding cl by (auto simp: ea_closed_def e intro: order_trans)
  have lt: "Suc (seen v (LSlot t)) = length (ea_mem g (LSlot t))" using r by (simp add: ea_reader_def latest_def)
  show "ea_reader g' t v'" using r by (auto simp: ea_reader_def sel e latest_def less_Suc_eq)
  have "p \<notin> set (ea_freed g)" using guard ea_GD(8) [OF G] lt unfolding ea_safe_def by (metis domIff in_mono less_irrefl)
  then have tr: "True \<notin> set (ea_trail g p)" using ea_GD(5) [OF G] by (simp add: ea_uses_def)
  then have "read_ordered p (ea_trail g) v" by (auto simp: read_ordered_def in_set_conv_nth)
  moreover have "ea_uses g'" using ea_GD(5) [OF G] tr r n unfolding ea_uses_def ea_reader_def by (auto simp: sel e less_Suc_eq split: if_splits)
  moreover have "ea_sections g'"
    using ea_GD(4) [OF G] lt unfolding ea_sections_def by (auto simp: sel e less_Suc_eq split: if_splits)
  moreover have "ea_views g'" "ea_epochs g'" "ea_safe g'" using ea_GD(1,3,8) [OF G]
    by (simp_all add: ea_views_def ea_epochs_def ea_safe_def cl sel)
  ultimately show "ea_G g'" using ea_GD(2,6) [OF G] by (simp add: ea_G_def sel e(4))
qed

lemma ea_enter_load:
  assumes G: "ea_G g" and c: "ea_closed g v" "ea_closed g q" and ld: "load_rlx j LGlobal (ea_mem g) v = (x, v')"
  shows "ea_closed g v'" "v \<le> v'" "unat (epoch_of x) \<le> ea_E g" "ea_closed g (sup q (msg_view j LGlobal (ea_mem g) v))"
proof -
  obtain i where i: "i < length (ea_mem g LGlobal)" "x = mval (ea_mem g LGlobal ! i)" "v' = see LGlobal i v" "v \<le> v'" "view_ok (ea_mem g) v'"
    by (rule load_rlxE [OF ld ea_closedD(1) [OF c(1)]])
  show "v \<le> v'" by (rule i(4))
  have "mview (ea_mem g (LSlot t) ! seen v' (LSlot t)) \<le> v'" for t
    using order_trans [OF ea_closedD(2) [OF c(1), of t] i(4)] by (simp add: i(3))
  then show "ea_closed g v'" using i(5) by (simp add: ea_closed_def)
  show "unat (epoch_of x) \<le> ea_E g" using ea_GD(3) [OF G] i(1,2) unfolding ea_epochs_def by force
  show "ea_closed g (sup q (msg_view j LGlobal (ea_mem g) v))"
    unfolding msg_view_def by (intro ea_closed_sup c(2) ea_GD(10) [OF G] pick_bounds(2) ea_closedD(1) [OF c(1)])
qed

text \<open>What a reader does leaves the assertions of the other threads alone.\<close>

lemma ea_sees_slot:
  assumes "mem_le (ea_mem g) (ea_mem g')" "ea_closed g w" "ea_mem g' LGlobal = ea_mem g LGlobal" "ea_in_use g' = ea_in_use g"
    "ea_lists g' = ea_lists g" "ea_freed g' = ea_freed g" "ea_retired_at g' = ea_retired_at g" "ea_covered g' = ea_covered g"
  shows "ea_sees g' w = ea_sees g w"
proof -
  have "ea_local_epoch g' w t = ea_local_epoch g w t" for t
    using mem_leD(2) [OF assms(1) ea_closedD(3) [OF assms(2)]] by (simp add: ea_local_epoch_def)
  then show ?thesis by (simp add: ea_sees_def assms(3-))
qed

lemma ea_pending_cong:
  "ea_by g' p i = ea_by g p i \<Longrightarrow> ea_retired_at g' p = ea_retired_at g p \<Longrightarrow> ea_covered g' = ea_covered g \<Longrightarrow>
   ea_pending g' w p i = ea_pending g w p i"
  by (simp add: ea_pending_def split: option.split)

lemma ea_section_mono: "ea_section k pc g n \<Longrightarrow> ea_E g \<le> ea_E g' \<Longrightarrow> ea_section k pc g' n"
  by (cases "(k, pc, g, n)" rule: ea_section.cases) auto

lemma ea_other_store:
  assumes le: "mem_le (ea_mem g) (ea_mem g')" and g': "g' = g\<lparr>ea_mem := m\<rparr>" and oth: "\<And>l. l \<noteq> LSlot t \<Longrightarrow> m l = ea_mem g l"
    and L: "ea_L g (k, pc, w, q)" and k: "slot_of k \<noteq> Some t"
  shows "ea_L g' (k, pc, w, q)"
proof -
  have c: "ea_closed g w" "ea_closed g q" using L by auto
  have c': "ea_closed g' w" "ea_closed g' q" using c ea_closed_mono le by auto
  have s: "ea_sees g' w = ea_sees g w" by (rule ea_sees_slot [OF le c(1)]) (simp_all add: g' oth)
  have "ea_pending g' w x i = ea_pending g w x i" for x i by (rule ea_pending_cong) (simp_all add: g')
  then have "ea_R g' l w" if "ea_R g l w" for l
    using that unfolding ea_R_def s ea_ordered_def by (simp add: g' latest_def oth)
  moreover have "ea_reader g' u w" if "ea_reader g u w" "u \<noteq> t" for u
    using that by (simp add: ea_reader_def g' latest_def oth)
  ultimately show ?thesis using L k c' ea_section_mono [of k pc g _ g'] by (auto simp: g' oth split: option.splits if_splits)
qed

lemma ea_other_access:
  assumes G: "ea_G g" and r: "ea_reader g t v" and guard: "ea_retired_at g p = None \<or> (t, seen v (LSlot t), p) \<in> ea_covered g"
    and rd: "ea_read p t g v = (g', v')" and L: "ea_L g (k, pc, w, q)" and k: "slot_of k \<noteq> Some t"
  shows "ea_L g' (k, pc, w, q)"
proof -
  let ?i = "length (ea_trail g p)"
  have e: "ea_trail g' = (ea_trail g)(p := ea_trail g p @ [False])"
    "ea_by g' = (ea_by g)(p := (ea_by g p)(?i := Some (t, seen v (LSlot t))))"
    and sel: "ea_mem g' = ea_mem g" "ea_in_use g' = ea_in_use g" "ea_freed g' = ea_freed g" "ea_retired_at g' = ea_retired_at g"
    "ea_covered g' = ea_covered g" "ea_lists g' = ea_lists g"
    using rd by (auto simp: ea_read_def leave_trail_def)
  have cl: "ea_closed g' = ea_closed g" by (simp add: ea_closed_def fun_eq_iff sel)
  have c: "ea_closed g w" using L by auto
  have s: "ea_sees g' w = ea_sees g w" by (rule ea_sees_slot [OF _ c]) (simp_all add: sel)
  have nw: "seen w (LSlot t) \<le> seen v (LSlot t)" using ea_closedD(3) [OF c, of "LSlot t"] r by (simp add: ea_reader_def latest_def)
  have "ea_ordered g' w" if o: "ea_ordered g w"
  proof -
    have "ea_pending g' w p ?i" using guard o nw unfolding ea_pending_def ea_ordered_def by (fastforce simp: e sel)
    moreover have "ea_pending g' w x i = ea_pending g w x i" if "i < length (ea_trail g x)" for x i
      using that by (intro ea_pending_cong) (auto simp: e sel)
    ultimately show ?thesis using o unfolding ea_ordered_def by (auto simp: e(1) sel less_Suc_eq)
  qed
  then have "ea_R g' l w" if "ea_R g l w" for l using that unfolding ea_R_def s by (simp add: sel)
  moreover have "ea_reader g' u w" if "ea_reader g u w" "u \<noteq> t" for u
    using that by (auto simp: ea_reader_def sel e less_Suc_eq split: if_splits)
  ultimately show ?thesis using L k ea_section_mono [of k pc g _ g'] by (auto simp: sel cl split: option.splits if_splits)
qed

lemma ea_L_fences: "ea_L (g\<lparr>ea_fences := x\<rparr>) (k, pc, w, q) = ea_L g (k, pc, w, q)"
proof -
  let ?g = "g\<lparr>ea_fences := x\<rparr>"
  have c: "ea_closed ?g u = ea_closed g u" for u by (simp add: ea_closed_def)
  have s: "ea_sees ?g w = ea_sees g w" by (simp add: ea_sees_def ea_local_epoch_def)
  have "ea_pending ?g w y i = ea_pending g w y i" for y i by (rule ea_pending_cong) simp_all
  then have "ea_R ?g l w = ea_R g l w" for l unfolding ea_R_def s by (simp add: ea_ordered_def)
  moreover have "ea_section k pc ?g n = ea_section k pc g n" for n by (cases "(k, pc, g, n)" rule: ea_section.cases) auto
  ultimately show ?thesis by (simp add: c ea_reader_def split: option.split)
qed

lemma ea_fence:
  assumes G: "ea_G g" and c: "ea_closed g v" "ea_closed g q" and f: "fence_sc g v q = (g', v')"
  shows "ea_G g'" "ea_closed g' v'" "g' = g\<lparr>ea_fences := v'\<rparr>" "v \<le> v'"
proof -
  have e: "v' = sup v (sup q (ea_fences g))" "g' = g\<lparr>ea_fences := v'\<rparr>" using f by (auto simp: fence_sc_def Let_def)
  have "ea_closed g v'" using ea_GD(1) [OF G] c by (simp add: e ea_views_def ea_closed_sup)
  then show c': "ea_closed g' v'" by (simp add: e(2) ea_closed_def)
  have "ea_closed g' = ea_closed g" by (simp add: e(2) ea_closed_def fun_eq_iff)
  then have "ea_views g'" using ea_GD(1) [OF G] c' by (simp add: ea_views_def) (simp add: e(2))
  moreover have "ea_epochs g'" using ea_GD(3) [OF G] by (simp add: ea_epochs_def e(2))
  moreover have "ea_sections g'" using ea_GD(4) [OF G] by (simp add: ea_sections_def e(2))
  moreover have "ea_uses g'" "ea_safe g'" using ea_GD(5,8) [OF G] by (simp_all add: ea_uses_def ea_safe_def e(2))
  ultimately show "ea_G g'" using ea_GD(2,6) [OF G] by (simp add: ea_G_def) (simp add: e(2))
  show "g' = g\<lparr>ea_fences := v'\<rparr>" "v \<le> v'" by (simp_all add: e)
qed

lemma ea_reader_store:
  assumes G: "ea_G g" and L: "ea_closed g v" "ea_closed g q" "ea_reader g t v"
    and e: "if odd (seen v (LSlot t)) then e = UINT64_MAX else unat e \<le> ea_E g"
  obtains m v' where "store_rel (LSlot t) (VEpoch e) (ea_mem g) v = Some (m, v')" "ea_G (g\<lparr>ea_mem := m\<rparr>)"
    "ea_closed (g\<lparr>ea_mem := m\<rparr>) v'" "ea_closed (g\<lparr>ea_mem := m\<rparr>) q" "ea_reader (g\<lparr>ea_mem := m\<rparr>) t v'"
    "seen v' (LSlot t) = Suc (seen v (LSlot t))" "\<And>x. ea_L g x \<Longrightarrow> slot_of (fst x) \<noteq> Some t \<Longrightarrow> ea_L (g\<lparr>ea_mem := m\<rparr>) x"
proof -
  obtain m v' where st: "store_rel (LSlot t) (VEpoch e) (ea_mem g) v = Some (m, v')"
    using L(3) by (auto simp: store_rel_def Let_def ea_reader_def)
  note s = ea_store [OF G L(1,3) st e refl]
  have "ea_L (g\<lparr>ea_mem := m\<rparr>) x" if x: "ea_L g x" "slot_of (fst x) \<noteq> Some t" for x
  proof -
    obtain k pc w u where e: "x = (k, pc, w, u)" by (cases x)
    show ?thesis unfolding e by (rule ea_other_store [OF s(5) refl, of t]) (use s(6) x e in auto)
  qed
  then show ?thesis using that [OF st s(1,2) ea_closed_mono [OF L(2) s(5)] s(3,4)] by blast
qed

text \<open>A step of a reader, and what it leaves alone.\<close>

lemma ea_reader_step:
  assumes G: "ea_G g" and L: "ea_L g (k, pc, v, q)" and k: "slot_of k = Some t" and ex: "ea_exec a g (k, pc, v, q) = (g', k', pc', v', q')"
  shows "ea_G g' \<and> ea_L g' (k', pc', v', q') \<and> slot_of k' = Some t \<and> (\<forall>x. ea_L g x \<and> slot_of (fst x) \<noteq> Some t \<longrightarrow> ea_L g' x)"
proof -
  have c: "ea_closed g v" "ea_closed g q" and r: "ea_reader g t v" and se: "ea_section k pc g (seen v (LSlot t))" using L k by auto
  consider (same) "g' = g" "v' = v" "q' = q" "slot_of k' = Some t" "ea_section k' pc' g (seen v (LSlot t))"
    | (load) j where "a = EaGo j" "k = Inside t" "pc = At (EnterLoad t)" "even (seen v (LSlot t))"
    | (store) j e where "a = EaGo j" "k = Inside t" "pc = At (EnterStore t e)" "even (seen v (LSlot t))" "unat e \<le> ea_E g"
    | (fence) j u where "a = EaGo j" "k = Inside t" "pc = Fence u" "odd (seen v (LSlot t))"
    | (leave) j where "a = EaGo j" "k = Outside t" "pc = At (LeaveStore t)" "odd (seen v (LSlot t))"
    | (access) p where "a = EaAccess p" "k = Inside t" "pc = At EIdle" "odd (seen v (LSlot t))"
        "ea_retired_at g p = None \<or> (t, seen v (LSlot t), p) \<in> ea_covered g"
    using se k ex by (cases "(k, pc, g, seen v (LSlot t))" rule: ea_section.cases; cases a) (auto split: if_splits)
  then show ?thesis
  proof cases
    case same
    then show ?thesis using G c r by auto
  next
    case load
    obtain x w where ld: "load_rlx j LGlobal (ea_mem g) v = (x, w)" by fastforce
    note l = ea_enter_load [OF G c ld]
    have "g' = g" "k' = k" "pc' = At (EnterStore t (epoch_of x))" "v' = w" "q' = sup q (msg_view j LGlobal (ea_mem g) v)"
      using ex load ld by auto
    then show ?thesis using G l load ea_reader_grow [OF r l(2,1)] by simp
  next
    case store
    obtain m w where s: "store_rel (LSlot t) (VEpoch e) (ea_mem g) v = Some (m, w)" "ea_G (g\<lparr>ea_mem := m\<rparr>)"
      "ea_closed (g\<lparr>ea_mem := m\<rparr>) w" "ea_closed (g\<lparr>ea_mem := m\<rparr>) q" "ea_reader (g\<lparr>ea_mem := m\<rparr>) t w"
      "seen w (LSlot t) = Suc (seen v (LSlot t))" "\<And>x. ea_L g x \<Longrightarrow> slot_of (fst x) \<noteq> Some t \<Longrightarrow> ea_L (g\<lparr>ea_mem := m\<rparr>) x"
      by (rule ea_reader_store [OF G c r, of e]) (use store in auto)
    have "g' = g\<lparr>ea_mem := m\<rparr>" "k' = k" "pc' = Fence t" "v' = w" "q' = q" using ex store s(1) by auto
    then show ?thesis using s store by simp
  next
    case fence
    obtain g1 w where f: "fence_sc g v q = (g1, w)" by fastforce
    note f' = ea_fence [OF G c f]
    have e: "g' = g1" "k' = k" "pc' = At EIdle" "v' = w" "q' = q" using ex fence f by auto
    have "ea_closed g w" "ea_closed g1 q" using f'(2) c(2) by (simp_all add: f'(3) ea_closed_def)
    then have "ea_reader g1 t w" "seen w (LSlot t) = seen v (LSlot t)" using ea_reader_grow [OF r f'(4)] by (simp_all add: f'(3) ea_reader_def)
    moreover have "ea_L g1 x = ea_L g x" for x by (cases x) (simp only: f'(3) ea_L_fences)
    ultimately show ?thesis using f'(1,2) fence e \<open>ea_closed g1 q\<close> by simp
  next
    case leave
    obtain m w where s: "store_rel (LSlot t) (VEpoch UINT64_MAX) (ea_mem g) v = Some (m, w)" "ea_G (g\<lparr>ea_mem := m\<rparr>)"
      "ea_closed (g\<lparr>ea_mem := m\<rparr>) w" "ea_closed (g\<lparr>ea_mem := m\<rparr>) q" "ea_reader (g\<lparr>ea_mem := m\<rparr>) t w"
      "seen w (LSlot t) = Suc (seen v (LSlot t))" "\<And>x. ea_L g x \<Longrightarrow> slot_of (fst x) \<noteq> Some t \<Longrightarrow> ea_L (g\<lparr>ea_mem := m\<rparr>) x"
      by (rule ea_reader_store [OF G c r, of UINT64_MAX]) (use leave in auto)
    have "g' = g\<lparr>ea_mem := m\<rparr>" "k' = k" "pc' = At EIdle" "v' = w" "q' = q" using ex leave s(1) by auto
    then show ?thesis using s leave by simp
  next
    case access
    obtain g1 w where rd: "ea_read p t g v = (g1, w)" by fastforce
    note ac = ea_access [OF G c(1) r access(4,5) rd]
    have e: "g' = g1" "k' = k" "pc' = At EIdle" "v' = w" "q' = q" using ex access rd by auto
    have "ea_closed g1 q" using c(2) rd by (auto simp: ea_closed_def ea_read_def leave_trail_def)
    moreover have "ea_L g1 x" if "ea_L g x" "slot_of (fst x) \<noteq> Some t" for x
      using that ea_other_access [OF G r access(5) rd] by (cases x) (auto simp del: ea_L.simps)
    ultimately show ?thesis using ac access e by simp
  qed
qed

subsection \<open>Steps of the retiring thread\<close>

lemma ea_RD:
  assumes "ea_R g l v"
  shows "latest LGlobal (ea_mem g) v" "sr_G (ea_sees g v)" "sr_R (ea_sees g v) l" "ea_ordered g v"
  using assms by (auto simp: ea_R_def)

lemma ea_R_step:
  assumes "ea_R g l v" "ep_go (ea_sees g v) l = (ea_sees g' v', l')" "latest LGlobal (ea_mem g') v'" "ea_ordered g' v'"
  shows "ea_R g' l' v'"
  using sr_retirer_go [OF ea_RD(2,3) [OF assms(1)] assms(2)] assms(3,4) by (simp add: ea_R_def)

lemma ea_other_retirer:
  assumes G: "ea_G g" and le: "mem_le (ea_mem g) (ea_mem g')" and sl: "\<And>t. ea_mem g' (LSlot t) = ea_mem g (LSlot t)"
    and same: "ea_by g' = ea_by g" "ea_in_use g' = ea_in_use g" "ea_E g \<le> ea_E g'"
    and L: "ea_L g (k, pc, w, q)" and k: "k \<noteq> Retirer"
  shows "ea_L g' (k, pc, w, q)"
proof -
  have "ea_reader g' u w" if "ea_reader g u w" for u
    using that ea_GD(5) [OF G] unfolding ea_reader_def ea_uses_def latest_def sl same by blast
  then show ?thesis using L k ea_closed_mono [OF _ le] ea_section_mono [OF _ same(3), of k pc] by (auto split: option.splits)
qed

lemma ea_load_global:
  assumes "latest LGlobal (ea_mem g) v" "ea_closed g v" "ea_G g"
  shows "load_rlx j LGlobal (ea_mem g) v = (newest (ea_mem g) LGlobal, v)"
proof -
  have "seen v LGlobal = length (ea_mem g LGlobal) - 1" using assms(1) by (simp add: latest_def)
  then have "see LGlobal (length (ea_mem g LGlobal) - 1) v = v" by (cases v) (auto simp: see_def)
  then show ?thesis using pick_latest [OF ea_closedD(1) [OF assms(2)] assms(1), of j] ea_GD(9) [OF assms(3), of LGlobal]
    by (simp add: load_rlx_def last_conv_nth)
qed

lemma ea_scan_slot:
  assumes G: "ea_G g" and c: "ea_closed g v" and R: "ea_R g (AdvEpoch cur i) v" and ld: "load_acq j (LSlot i) (ea_mem g) v = (x, v')"
  shows "ea_closed g v'" "ea_R g (if epoch_of x \<noteq> UINT64_MAX \<and> epoch_of x \<noteq> cur then EIdle else adv_next cur (Suc i)) v'"
proof -
  let ?n = "pick j (LSlot i) (ea_mem g) v"
  have n: "seen v (LSlot i) \<le> ?n" "?n < length (ea_mem g (LSlot i))" using pick_bounds [OF ea_closedD(1) [OF c]] by auto
  have x: "x = mval (ea_mem g (LSlot i) ! ?n)" and v': "v' = sup (see (LSlot i) ?n v) (mview (ea_mem g (LSlot i) ! ?n))"
    using ld by (auto simp: load_acq_def Let_def)
  have "seen (mview (ea_mem g (LSlot i) ! ?n)) (LSlot i) \<le> ?n"
    using ea_GD(3) [OF G] n(2) by (auto simp: ea_epochs_def slot_msg_ok_def)
  then have sn: "seen v' (LSlot i) = ?n" by (simp add: v')
  have le: "v \<le> v'" unfolding v' by (rule le_supI1 [OF see_ge [OF n(1)]])
  note mc = ea_GD(10) [OF G n(2)]
  have "mview (ea_mem g (LSlot t) ! seen v' (LSlot t)) \<le> v'" for t
  proof (cases "t = i")
    case True
    then show ?thesis using sn by (simp add: v')
  next
    case False
    then have "seen v' (LSlot t) = max (seen v (LSlot t)) (seen (mview (ea_mem g (LSlot i) ! ?n)) (LSlot t))" by (simp add: v')
    then show ?thesis using ea_closedD(2) [OF ea_closed_sup [OF c mc], of t] le
      by (auto simp: v' intro: order_trans)
  qed
  moreover have "view_ok (ea_mem g) v'" using ea_closedD(1) [OF c] ea_closedD(1) [OF mc] n(2) by (simp add: v' view_ok_see)
  ultimately show c': "ea_closed g v'" by (simp add: ea_closed_def)
  have R': "ea_R g (AdvEpoch cur i) v'" by (rule ea_R_grow [OF G R le c'])
  have i: "i < length (ea_in_use g)" using ea_RD(3) [OF R] ea_GD(2) [OF G] by (simp add: sr_R_def)
  have "local_epoch (slot_at (ea_sees g v') i) = epoch_of x" using i by (simp add: ea_local_epoch_def sn x)
  then have "ep_go (ea_sees g v') (AdvEpoch cur i) = (ea_sees g v', if epoch_of x \<noteq> UINT64_MAX \<and> epoch_of x \<noteq> cur then EIdle else adv_next cur (Suc i))"
    by simp
  then show "ea_R g (if epoch_of x \<noteq> UINT64_MAX \<and> epoch_of x \<noteq> cur then EIdle else adv_next cur (Suc i)) v'"
    by (rule ea_R_step [OF R']) (use ea_RD(1,4) [OF R'] in auto)
qed

lemma ea_lists:
  assumes G: "ea_G g" and R: "ea_R g l v" and go: "ep_go (ea_sees g v) l = ((ea_sees g v)\<lparr>er := (er (ea_sees g v))\<lparr>retire_lists := ls\<rparr>\<rparr>, l')"
  shows "ea_G (g\<lparr>ea_lists := ls\<rparr>)" "ea_R (g\<lparr>ea_lists := ls\<rparr>) l' v"
proof -
  let ?g = "g\<lparr>ea_lists := ls\<rparr>"
  have "ea_closed ?g = ea_closed g" by (simp add: ea_closed_def fun_eq_iff)
  then have "ea_views ?g" using ea_GD(1) [OF G] by (simp add: ea_views_def)
  moreover have "ea_sections ?g" using ea_GD(4) [OF G] by (simp add: ea_sections_def)
  ultimately show "ea_G ?g" using ea_GD [OF G] by (simp add: ea_G_def ea_epochs_def ea_uses_def ea_safe_def)
  have "ea_pending ?g v p i = ea_pending g v p i" for p i by (rule ea_pending_cong) simp_all
  then have "ea_ordered ?g v" using ea_RD(4) [OF R] by (simp add: ea_ordered_def)
  moreover have "ea_sees ?g v = (ea_sees g v)\<lparr>er := (er (ea_sees g v))\<lparr>retire_lists := ls\<rparr>\<rparr>"
    by (simp add: ea_sees_def ea_local_epoch_def)
  ultimately show "ea_R ?g l' v" using ea_R_step [OF R, of ?g v l'] go ea_RD(1) [OF R] by simp
qed

lemma ea_advance:
  assumes G: "ea_G g" and c: "ea_closed g v" and R: "ea_R g (AdvCas cur) v"
    and cas: "cas_strong False True False j LGlobal (VEpoch cur) (VEpoch (cur + 1)) (ea_mem g) v = (r, m, v')"
  defines "g' \<equiv> g\<lparr>ea_mem := m\<rparr>"
  shows "r = None" "ea_G g'" "ea_closed g' v'" "ea_R g' (AdvSwap (cur + 1)) v'" "mem_le (ea_mem g) m" "\<And>t. m (LSlot t) = ea_mem g (LSlot t)"
    "ea_E g \<le> ea_E g'"
proof -
  let ?n = "length (ea_mem g LGlobal)" and ?old = "mview (last (ea_mem g LGlobal))"
  have lt: "Suc (seen v LGlobal) = ?n" using ea_RD(1) [OF R] by (simp add: latest_def)
  have cur: "cur = epoch_of (newest (ea_mem g) LGlobal)" using ea_RD(3) [OF R] by (simp add: sr_R_def)
  have last: "last (ea_mem g LGlobal) = ea_mem g LGlobal ! (?n - 1)" by (rule last_conv_nth [OF ea_GD(9) [OF G]])
  then have nw: "newest (ea_mem g) LGlobal = VEpoch cur" using ea_GD(3) [OF G] lt cur unfolding ea_epochs_def
    by (metis diff_Suc_1 ea_val.sel(1) lessI)
  have rm: "r = None" "rmw False True LGlobal (VEpoch (cur + 1)) (ea_mem g) v = (m, v')"
    using cas nw pick_latest [OF ea_closedD(1) [OF c] ea_RD(1) [OF R]] lt last by (auto simp: cas_strong_def cas_weak_def split: if_splits)
  then show "r = None" by simp
  note ok = rmw_ok [OF rm(2) ea_closedD(1) [OF c] ea_GD(7) [OF G]]
  show le: "mem_le (ea_mem g) m" by (rule ok(4))
  let ?u = "see LGlobal ?n (sup ?old v')"
  have v': "v' = see LGlobal ?n v" and m: "m = (ea_mem g)(LGlobal := ea_mem g LGlobal @ [Msg (VEpoch (cur + 1)) ?u])"
    using rm(2) by (auto simp: rmw_def Let_def)
  show sl: "\<And>t. m (LSlot t) = ea_mem g (LSlot t)" by (simp add: m)
  have cs: "ea_closed g' (see LGlobal ?n w)" if "ea_closed g w" for w
  proof -
    have "w \<le> see LGlobal ?n w" using ea_closedD(3) [OF that, of LGlobal] by (intro see_ge) simp
    then have "mview (ea_mem g (LSlot t) ! seen w (LSlot t)) \<le> see LGlobal ?n w" for t by (rule order_trans [OF ea_closedD(2) [OF that]])
    then show ?thesis using view_ok_app_see [OF ea_closedD(1) [OF that], of LGlobal] by (simp add: ea_closed_def g'_def m)
  qed
  show c': "ea_closed g' v'" unfolding v' by (rule cs [OF c])
  have old: "ea_closed g ?old" using ea_GD(9,10) [OF G] by (simp add: last)
  have "?u = see LGlobal ?n (sup ?old v)" by (auto simp: v' see_def sup_view_def)
  then have cu: "ea_closed g' ?u" using cs [OF ea_closed_sup [OF old c]] by simp
  have E: "ea_E g' = unat (cur + 1)" by (simp add: g'_def m)
  have sees: "ea_sees g' v' = (ea_sees g v)\<lparr>er := (er (ea_sees g v))\<lparr>global_epoch := cur + 1\<rparr>\<rparr>"
    by (simp add: ea_sees_def ea_local_epoch_def g'_def m v')
  have adv: "sr_G (ea_sees g' v')" "sr_R (ea_sees g' v') (AdvSwap (cur + 1))" "unat (cur + 1) = ea_E g + 1"
    using sr_advance [OF ea_RD(2,3) [OF R]] unfolding sees by simp_all
  show Ele: "ea_E g \<le> ea_E g'" using E adv(3) by simp
  have "ea_closed g' (mview (m l ! k))" if "k < length (m l)" for l k
    using that ea_closed_mono [OF ea_GD(10) [OF G], of k l g'] le cu by (auto simp: g'_def m nth_append less_Suc_eq split: if_splits)
  moreover have "ea_closed g' (ea_fences g)" using ea_GD(1) [OF G] le ea_closed_mono [of g "ea_fences g" g'] by (simp add: ea_views_def g'_def)
  ultimately have vw: "ea_views g'" using ea_GD(9) [OF G] by (simp add: ea_views_def g'_def m)
  have "ea_E g' \<le> 2 ^ 64 - 2" using sr_GD(5) [OF adv(1)] by simp
  moreover have "\<exists>e. mval (m LGlobal ! k) = VEpoch e \<and> unat e \<le> ea_E g'" if "k < length (m LGlobal)" for k
  proof (cases "k = ?n")
    case True
    then show ?thesis by (simp add: E) (simp add: m)
  next
    case False
    then have k: "k < ?n" "m LGlobal ! k = ea_mem g LGlobal ! k" using that by (auto simp: m nth_append)
    obtain e where "mval (ea_mem g LGlobal ! k) = VEpoch e" "unat e \<le> ea_E g"
      using ea_GD(3) [OF G] k(1) unfolding ea_epochs_def by blast
    then show ?thesis using k(2) le_trans [OF _ Ele] by simp
  qed
  moreover have "slot_msg_ok (ea_E g') t k (ea_mem g (LSlot t) ! k)" if "k < length (ea_mem g (LSlot t))" for t k
    using ea_GD(3) [OF G] that slot_msg_ok_mono [OF _ Ele] by (simp add: ea_epochs_def)
  moreover have mem: "ea_mem g' = m" by (simp add: g'_def)
  ultimately have "ea_epochs g'" unfolding ea_epochs_def mem sl by blast
  moreover have "ea_sections g'" using ea_GD(4) [OF G] by (simp add: ea_sections_def g'_def sl)
  moreover have "ea_uses g'" "ea_safe g'" using ea_GD(5,8) [OF G] by (simp_all add: ea_uses_def ea_safe_def g'_def sl)
  ultimately show "ea_G g'" using vw ea_GD(2,6) [OF G] by (simp add: ea_G_def) (simp add: g'_def)
  have "ea_pending g' v' p i = ea_pending g v p i" for p i by (simp add: ea_pending_def g'_def v' split: option.split)
  then have "ea_ordered g' v'" using ea_RD(4) [OF R] by (simp add: ea_ordered_def g'_def v')
  moreover have "latest LGlobal (ea_mem g') v'" by (simp add: latest_def g'_def m v')
  ultimately show "ea_R g' (AdvSwap (cur + 1)) v'" using adv by (simp add: ea_R_def)
qed

text \<open>
  The deleter is called on an object that no reader can use any more, and all uses happen before:
  a use that the retiring thread does not know of would be in a section that it has not seen the end of.
\<close>

lemma ea_free:
  assumes G: "ea_G g" and c: "ea_closed g v" and R: "ea_R g (AdvFree (p # ps)) v" and dl: "ea_delete p g v = (g', v')"
  shows "ea_G g'" "ea_closed g' v'" "ea_R g' (AdvFree ps) v'"
proof -
  let ?i = "length (ea_trail g p)"
  have e: "ea_trail g' = (ea_trail g)(p := ea_trail g p @ [True])" "v' = know p ?i v" "ea_freed g' = ea_freed g @ [p]"
    "ea_race g' \<longleftrightarrow> ea_race g \<or> \<not> write_ordered p (ea_trail g) v"
    and sel: "ea_mem g' = ea_mem g" "ea_in_use g' = ea_in_use g" "ea_lists g' = ea_lists g" "ea_retired_at g' = ea_retired_at g"
    "ea_covered g' = ea_covered g" "ea_fences g' = ea_fences g" "ea_by g' = ea_by g"
    using dl by (auto simp: ea_delete_def leave_trail_def)
  note r = sr_RD [OF ea_RD(3) [OF R]] and o = ea_RD(4) [OF R]
  have nr: "(t, seen v (LSlot t), p) \<notin> ea_covered g" for t using r(3) by simp
  have p: "p \<in> dom (ea_retired_at g)" "p \<notin> set (ea_freed g)" using r(2) by (auto simp: sr_once_def)
  have "(p, i) \<in> known v" if "i < ?i" for i
  proof (rule ccontr)
    assume "(p, i) \<notin> known v"
    then have "ea_pending g v p i" using o p(2) that by (auto simp: ea_ordered_def)
    then obtain t n where "(t, n, p) \<in> ea_covered g" "seen v (LSlot t) = n"
      using p(1) by (auto simp: ea_pending_def split: option.splits if_splits)
    then show False using nr by blast
  qed
  then have "write_ordered p (ea_trail g) v" by (simp add: write_ordered_def)
  then have race: "\<not> ea_race g'" using ea_GD(6) [OF G] e(4) by simp
  have cl: "ea_closed g' = ea_closed g" by (simp add: ea_closed_def fun_eq_iff sel)
  show "ea_closed g' v'" using c know_ge [of v p ?i] unfolding cl by (auto simp: ea_closed_def e(2) intro: order_trans)
  have "Suc n < length (ea_mem g (LSlot t))" if cv: "(t, n, p) \<in> ea_covered g" for t n
  proof -
    have "n \<le> seen v (LSlot t)" using o cv unfolding ea_ordered_def by blast
    moreover have "n \<noteq> seen v (LSlot t)" using nr cv by blast
    ultimately show ?thesis using ea_closedD(3) [OF c, of "LSlot t"] by linarith
  qed
  then have "ea_safe g'" using ea_GD(8) [OF G] p(1) unfolding ea_safe_def sel e(3) set_append list.set by blast
  moreover have "ea_uses g'" using ea_GD(5) [OF G] unfolding ea_uses_def by (fastforce simp: sel e)
  moreover have "ea_sections g'" using ea_GD(4,5) [OF G] unfolding ea_sections_def ea_uses_def sel by blast
  moreover have "ea_views g'" "ea_epochs g'" using ea_GD(1,3) [OF G] by (simp_all add: ea_views_def ea_epochs_def cl sel)
  ultimately show "ea_G g'" using ea_GD(2) [OF G] race by (simp add: ea_G_def sel)
  have sees: "ea_sees g' v' = (ea_sees g v)\<lparr>freed := freed (ea_sees g v) @ [p]\<rparr>" by (simp add: ea_sees_def ea_local_epoch_def sel e)
  have "ea_pending g' v' x i = ea_pending g v x i" for x i by (simp add: ea_pending_def sel e(2) split: option.split)
  then have "ea_ordered g' v'" using o unfolding ea_ordered_def by (auto simp: sel e)
  moreover have "latest LGlobal (ea_mem g') v'" using ea_RD(1) [OF R] by (simp add: sel e(2) latest_def)
  ultimately show "ea_R g' (AdvFree ps) v'"
    using sr_free [OF ea_RD(2,3) [OF R]] unfolding ea_R_def sees by simp
qed

lemma ea_retire:
  assumes G: "ea_G g" and c: "ea_closed g v" and R: "ea_R g EIdle v"
    and guard: "ea_retired_at g p = None" "ea_E g < 2 ^ 64 - 2" "ea_disciplined p g v"
  defines "g' \<equiv> ea_call_retire p g v"
  shows "ea_G g'" "ea_closed g' = ea_closed g" "ea_R g' (RetLoad p) v"
proof -
  have sel: "ea_mem g' = ea_mem g" "ea_in_use g' = ea_in_use g" "ea_lists g' = ea_lists g" "ea_freed g' = ea_freed g"
    "ea_fences g' = ea_fences g" "ea_by g' = ea_by g" "ea_trail g' = ea_trail g" "ea_race g' = ea_race g"
    "ea_retired_at g' = (ea_retired_at g)(p \<mapsto> ea_E g)"
    by (simp_all add: g'_def ea_call_retire_def)
  have ins: "t \<in> set (ea_inside g v) \<longleftrightarrow> active (er (ea_sees g v)) t" for t by (auto simp: ea_inside_def active_def)
  have cov: "(t, n, x) \<in> ea_covered g' \<longleftrightarrow> (t, n, x) \<in> ea_covered g \<or> x = p \<and> n = seen v (LSlot t) \<and> active (er (ea_sees g v)) t" for t n x
    by (auto simp: g'_def ea_call_retire_def simp flip: ins)
  note o = ea_RD(4) [OF R]
  have p: "p \<notin> set (ea_freed g)" using ea_GD(8) [OF G] guard(1) by (auto simp: ea_safe_def)
  show cl: "ea_closed g' = ea_closed g" by (simp add: ea_closed_def fun_eq_iff sel)
  have "ea_safe g'" using ea_GD(8) [OF G] p unfolding ea_safe_def by (auto simp: sel cov)
  moreover have "ea_sections g'" using ea_GD(4) [OF G] by (simp add: ea_sections_def sel)
  moreover have "ea_views g'" "ea_epochs g'" "ea_uses g'" using ea_GD(1,3,5) [OF G] by (simp_all add: ea_views_def ea_epochs_def ea_uses_def cl sel)
  ultimately show "ea_G g'" using ea_GD(2,6) [OF G] by (simp add: ea_G_def sel)
  have "(p, i) \<in> known v \<or> ea_pending g' v p i" if i: "i < length (ea_trail g p)" for i
  proof -
    have "(p, i) \<in> known v \<or> ea_pending g v p i" using o p i by (simp add: ea_ordered_def)
    moreover have "ea_pending g' v p i" if pd: "ea_pending g v p i"
    proof -
      obtain t n where b: "ea_by g p i = Some (t, n)" "seen v (LSlot t) \<le> n" using pd guard(1) by (auto simp: ea_pending_def split: option.splits)
      have n: "n = seen v (LSlot t)" using guard(3) i b by (fastforce simp: ea_disciplined_def)
      have t: "t < MAX_THREADS" "ea_in_use g ! t" "odd n" using ea_GD(5) [OF G] b(1) by (auto simp: ea_uses_def)
      then have "ea_local_epoch g v t \<noteq> UINT64_MAX"
        using ea_epoch_reached [OF G ea_closedD(3) [OF c], of t] n by (auto simp: ea_local_epoch_def)
      then have "active (er (ea_sees g v)) t" using t ea_GD(2) [OF G] by (simp add: active_def)
      then show ?thesis using b n by (simp add: ea_pending_def sel cov)
    qed
    ultimately show ?thesis by blast
  qed
  moreover have "ea_pending g' v x i" if "ea_pending g v x i" "x \<noteq> p" for x i
    using that by (auto simp: ea_pending_def sel cov split: option.splits if_splits)
  ultimately have "ea_ordered g' v" using o unfolding ea_ordered_def by (metis cov order_refl sel(4,7))
  moreover have "ea_sees g' v = (ea_sees g v)\<lparr>retired_at := (retired_at (ea_sees g v))(p \<mapsto> ep_E (ea_sees g v)),
      reading := reading (ea_sees g v) \<union> {t. active (er (ea_sees g v)) t} \<times> {p}\<rparr>"
    by (auto simp: ea_sees_def ea_local_epoch_def sel cov)
  ultimately show "ea_R g' (RetLoad p) v"
    using sr_call_retire [OF ea_RD(2,3) [OF R], of p] ea_RD(1) [OF R] guard unfolding ea_R_def by (simp add: sel)
qed

lemma ea_retirer_same:
  assumes "ea_G g" "ea_R g l v" "ep_go (ea_sees g v) l = (ea_sees g v, l')"
  shows "ea_R g l' v"
  using ea_R_step [OF assms(2,3)] ea_RD(1,4) [OF assms(2)] by blast

lemma ea_frame:
  assumes "ea_G g" "mem_le (ea_mem g) (ea_mem g')" "\<And>t. ea_mem g' (LSlot t) = ea_mem g (LSlot t)"
    "ea_by g' = ea_by g" "ea_in_use g' = ea_in_use g" "ea_E g \<le> ea_E g'"
  shows "\<forall>x. ea_L g x \<and> fst x \<noteq> Retirer \<longrightarrow> ea_L g' x"
  using ea_other_retirer [OF assms] by (metis prod.collapse)

lemma ea_retirer_go:
  assumes G: "ea_G g" and c: "ea_closed g v" "ea_closed g q" and R: "ea_R g l v" and go: "ea_go j g (At l, v, q) = (g', pc', v', q')"
  shows "ea_G g' \<and> ea_L g' (Retirer, pc', v', q') \<and> (\<forall>x. ea_L g x \<and> fst x \<noteq> Retirer \<longrightarrow> ea_L g' x)"
proof -
  have pc: "sr_pc (ea_sees g v) l" using ea_RD(3) [OF R] by (simp add: sr_R_def)
  note ld = ea_load_global [OF ea_RD(1) [OF R] c(1) G, of j] and cq = ea_enter_load(4) [OF G c ea_load_global [OF ea_RD(1) [OF R] c(1) G, of j]]
  have stay: ?thesis if "g' = g" "ea_closed g v'" "ea_closed g q'" "pc' = At l'" "ea_R g l' v'" for l' using that G by simp
  show ?thesis
  proof (cases l)
    case (RetLoad p)
    have "ea_R g (RetPush p (epoch_idx (epoch_of (newest (ea_mem g) LGlobal)))) v"
      by (rule ea_retirer_same [OF G R]) (simp add: RetLoad)
    moreover have "g' = g" "v' = v" "q' = sup q (msg_view j LGlobal (ea_mem g) v)"
      "pc' = At (RetPush p (epoch_idx (epoch_of (newest (ea_mem g) LGlobal))))" using go ld by (auto simp: RetLoad)
    ultimately show ?thesis using stay c(1) cq by blast
  next
    case AdvLoad
    have "ea_R g (adv_next (epoch_of (newest (ea_mem g) LGlobal)) 0) v" by (rule ea_retirer_same [OF G R]) (simp add: AdvLoad)
    moreover have "g' = g" "v' = v" "q' = sup q (msg_view j LGlobal (ea_mem g) v)"
      "pc' = At (adv_next (epoch_of (newest (ea_mem g) LGlobal)) 0)" using go ld by (auto simp: AdvLoad)
    ultimately show ?thesis using stay c(1) cq by blast
  next
    case (AdvInUse cur i)
    have "i < length (ea_in_use g)" using pc ea_GD(2) [OF G] by (simp add: AdvInUse)
    then have "ea_R g (if \<not> ea_in_use g ! i then adv_next cur (Suc i) else AdvEpoch cur i) v"
      by (intro ea_retirer_same [OF G R]) (simp add: AdvInUse)
    moreover have "g' = g" "v' = v" "q' = q" "pc' = At (if \<not> ea_in_use g ! i then adv_next cur (Suc i) else AdvEpoch cur i)"
      using go by (auto simp: AdvInUse)
    ultimately show ?thesis using stay c by blast
  next
    case (AdvEpoch cur i)
    obtain x w where la: "load_acq j (LSlot i) (ea_mem g) v = (x, w)" by fastforce
    have "g' = g" "v' = w" "q' = q" "pc' = At (if epoch_of x \<noteq> UINT64_MAX \<and> epoch_of x \<noteq> cur then EIdle else adv_next cur (Suc i))"
      using go la by (auto simp: AdvEpoch)
    then show ?thesis using stay ea_scan_slot [OF G c(1) R [unfolded AdvEpoch] la] c(2) by blast
  next
    case (RetPush p idx)
    note st = ea_lists [OF G R, of "(ea_lists g)[idx := ea_lists g ! idx @ [p]]" AdvLoad]
    have e: "g' = g\<lparr>ea_lists := (ea_lists g)[idx := ea_lists g ! idx @ [p]]\<rparr>" "pc' = At AdvLoad" "v' = v" "q' = q" using go by (auto simp: RetPush)
    have "\<forall>x. ea_L g x \<and> fst x \<noteq> Retirer \<longrightarrow> ea_L g' x" by (rule ea_frame [OF G]) (simp_all add: e)
    then show ?thesis using st c by (simp add: RetPush e ea_closed_def)
  next
    case (AdvSwap new)
    note st = ea_lists [OF G R, of "(ea_lists g)[epoch_idx new := []]" "AdvFree (ea_lists g ! epoch_idx new)"]
    have e: "g' = g\<lparr>ea_lists := (ea_lists g)[epoch_idx new := []]\<rparr>" "pc' = At (AdvFree (ea_lists g ! epoch_idx new))" "v' = v" "q' = q"
      using go by (auto simp: AdvSwap Let_def)
    have "\<forall>x. ea_L g x \<and> fst x \<noteq> Retirer \<longrightarrow> ea_L g' x" by (rule ea_frame [OF G]) (simp_all add: e)
    then show ?thesis using st c by (simp add: AdvSwap e Let_def ea_closed_def)
  next
    case (AdvCas cur)
    obtain r m w where cas: "cas_strong False True False j LGlobal (VEpoch cur) (VEpoch (cur + 1)) (ea_mem g) v = (r, m, w)" by (metis prod_cases3)
    note ad = ea_advance [OF G c(1) R [unfolded AdvCas] cas]
    have e: "g' = g\<lparr>ea_mem := m\<rparr>" "pc' = At (AdvSwap (cur + 1))" "v' = w" "q' = q" using go cas ad(1) by (auto simp: AdvCas)
    have "\<forall>x. ea_L g x \<and> fst x \<noteq> Retirer \<longrightarrow> ea_L g' x" by (rule ea_frame [OF G]) (use ad(5-7) in \<open>simp_all add: e\<close>)
    moreover have "ea_closed g' q" by (rule ea_closed_mono [OF c(2)]) (simp add: e ad(5))
    ultimately show ?thesis using ad(2-4) by (simp add: e)
  next
    case (AdvFree ps)
    show ?thesis
    proof (cases ps)
      case Nil
      have "ea_R g EIdle v" by (rule ea_retirer_same [OF G R]) (simp add: AdvFree Nil)
      moreover have "g' = g" "v' = v" "q' = q" "pc' = At EIdle" using go by (auto simp: AdvFree Nil)
      ultimately show ?thesis using stay c by blast
    next
      case (Cons p ps')
      obtain g1 w where dl: "ea_delete p g v = (g1, w)" by fastforce
      note fr = ea_free [OF G c(1) R [unfolded AdvFree Cons] dl]
      have e: "g' = g1" "pc' = At (AdvFree ps')" "v' = w" "q' = q" using go dl by (auto simp: AdvFree Cons)
      have sel: "ea_mem g1 = ea_mem g" "ea_by g1 = ea_by g" "ea_in_use g1 = ea_in_use g" using dl by (auto simp: ea_delete_def leave_trail_def)
      have "\<forall>x. ea_L g x \<and> fst x \<noteq> Retirer \<longrightarrow> ea_L g' x" by (rule ea_frame [OF G]) (simp_all add: e sel)
      moreover have "ea_closed g1 q" using c(2) by (simp add: ea_closed_def sel)
      ultimately show ?thesis using fr by (simp add: e)
    qed
  next
    case EIdle
    then have "g' = g" "v' = v" "q' = q" "pc' = At EIdle" using go by auto
    then show ?thesis using stay c R EIdle by blast
  qed (use pc in simp_all)
qed

lemma ea_retirer_step:
  assumes G: "ea_G g" and L: "ea_L g (Retirer, pc, v, q)" and ex: "ea_exec a g (Retirer, pc, v, q) = (g', k', pc', v', q')"
  shows "ea_G g' \<and> ea_L g' (k', pc', v', q') \<and> k' = Retirer \<and> (\<forall>x. ea_L g x \<and> fst x \<noteq> Retirer \<longrightarrow> ea_L g' x)"
proof -
  obtain l where l: "pc = At l" and R: "ea_R g l v" and c: "ea_closed g v" "ea_closed g q" using L by auto
  have same: ?thesis if "g' = g" "k' = Retirer" "pc' = pc" "v' = v" "q' = q" using that G L by (simp del: ea_L.simps)
  show ?thesis
  proof (cases a)
    case (EaGo j)
    then have "ea_go j g (At l, v, q) = (g', pc', v', q')" "k' = Retirer" using ex by (auto simp: l simp del: ea_go.simps split: prod.splits)
    then show ?thesis using ea_retirer_go [OF G c R] by blast
  next
    case (EaRetire p)
    show ?thesis
    proof (cases "l = EIdle \<and> ea_retired_at g p = None \<and> ea_E g < 2 ^ 64 - 2 \<and> ea_disciplined p g v")
      case True
      then have retire: "l = EIdle" "ea_retired_at g p = None" "ea_E g < 2 ^ 64 - 2" "ea_disciplined p g v"
        "g' = ea_call_retire p g v" "k' = Retirer" "pc' = At (RetLoad p)" "v' = v" "q' = q" using ex by (auto simp: l EaRetire)
      note rt = ea_retire [OF G c(1) R [unfolded retire(1)] retire(2-4), folded retire(5)]
      have "\<forall>x. ea_L g x \<and> fst x \<noteq> Retirer \<longrightarrow> ea_L g' x" by (rule ea_frame [OF G]) (simp_all add: retire(5) ea_call_retire_def)
      then show ?thesis using rt c retire(6-9) by simp
    next
      case False
      then show ?thesis using ex by (intro same) (auto simp: l EaRetire split: if_splits)
    qed
  qed (use ex G L in auto)
qed

lemma ea_step:
  assumes ex: "ea_exec a g l = (g', l')" and G: "ea_G g" and L: "ea_L g l"
  shows "ea_G g' \<and> ea_L g' l' \<and> slot_of (fst l') = slot_of (fst l) \<and> (fst l' = Retirer \<longleftrightarrow> fst l = Retirer) \<and>
    (\<forall>x. ea_L g x \<and> ea_X l x \<longrightarrow> ea_L g' x)"
proof -
  obtain k pc v q k' pc' v' q' where l: "l = (k, pc, v, q)" "l' = (k', pc', v', q')" by (metis prod_cases4)
  note ex = ex [unfolded l] and L = L [unfolded l]
  consider "k = Retirer" | "k = Bystander" | t where "slot_of k = Some t" by (cases k) auto
  then show ?thesis
  proof cases
    case 1
    then show ?thesis using ea_retirer_step [OF G _ ex [unfolded 1]] L by (auto simp: l ea_X_def sr_X_def simp del: ea_L.simps)
  next
    case 2
    then have "pc = At EIdle" using L by simp
    then have "g' = g" "l' = l" using ex 2 by (cases a; auto simp: l)+
    then show ?thesis using G L l by simp
  next
    case 3
    then show ?thesis using ea_reader_step [OF G L 3 ex] by (auto simp: l ea_X_def sr_X_def simp del: ea_L.simps)
  qed
qed

lemma ea_start:
  assumes "sr_init n s"
  shows "ea_sees (ea_of s) bot = s" "ea_G (ea_of s)" "ea_L (ea_of s) (ea_roles n u)"
proof -
  have n: "n \<le> MAX_THREADS" and s: "s = ep_init\<lparr>er := ((\<lambda>r. snd (register_thread r)) ^^ n) er_new\<rparr>" using assms by (auto simp: sr_init_def)
  have len: "length (er_slots er_new) = MAX_THREADS" by (simp add: er_new_def)
  have sl: "er_slots (er s) = map (\<lambda>t. \<lparr>local_epoch = UINT64_MAX, in_use = t < n\<rparr>) [0..<length (er_slots er_new)]"
    and E: "global_epoch (er s) = 0" unfolding s registered [OF n] by (simp_all add: ep_init_def) (simp add: er_new_def)
  have "map (\<lambda>t. \<lparr>local_epoch = UINT64_MAX, in_use = map in_use (er_slots (er s)) ! t\<rparr>) [0..<length (er_slots (er s))] = er_slots (er s)"
    by (rule nth_equalityI) (simp_all add: sl)
  then show sees: "ea_sees (ea_of s) bot = s" by (simp add: ea_sees_def ea_of_def ea_local_epoch_def) (simp add: s ep_init_def)
  have c: "ea_closed (ea_of s) bot" by (simp add: ea_closed_def view_ok_def ea_of_def)
  show "ea_G (ea_of s)"
    using c E len by (simp add: ea_G_def ea_views_def ea_epochs_def ea_sections_def ea_uses_def ea_safe_def slot_msg_ok_def)
      (simp add: ea_of_def sl)
  have "ea_R (ea_of s) EIdle bot"
    using sr_init_ok(1) [OF assms] sr_init_ok(2) [OF assms, of 0] unfolding ea_R_def sees by (simp add: ea_of_def latest_def ea_ordered_def sr_roles_def)
  moreover have "ea_reader (ea_of s) t bot" if "t < n" for t
    using that n len by (simp add: ea_reader_def ea_of_def latest_def sl)
  ultimately show "ea_L (ea_of s) (ea_roles n u)" using c by (auto simp: ea_roles_def sr_roles_def)
qed

interpretation ea: og_proof ea_exec "ea_init n" "ea_roles n" "\<lambda>_. True" ea_G ea_L ea_X for n
proof
  fix a g l g' l'
  assume ex: "ea_exec a g l = (g', l')" and G: "ea_G g" and L: "ea_L g l"
  note st = ea_step [OF ex G L]
  then show "ea_G g' \<and> ea_L g' l'" by blast
  show "ea_L g' m \<and> ea_X l' m" if "ea_L g m" "ea_X l m" for m
    using st that unfolding ea_X_def sr_X_def by (metis fst_conv)
next
  show "ea_X (ea_roles n t) (ea_roles n u)" if "t \<noteq> u" for t u using that by (auto simp: ea_X_def sr_X_def ea_roles_def sr_roles_def)
  show "ea_X m l" if "ea_X l m" for l m using that unfolding ea_X_def sr_X_def by metis
qed (auto simp: ea_init_def ea_start)

lemma ea_reach_kind: "ea_reach n c \<Longrightarrow> fst (snd c 0) = Retirer"
proof (induction rule: reach.induct)
  case (step c e)
  obtain t a g ls where e: "e = (t, a)" "c = (g, ls)" by (metis surj_pair)
  obtain g' l' where ex: "ea_exec a g (ls t) = (g', l')" by (metis surj_pair)
  have r: "ea_reach n (g, ls)" using step.hyps e by simp
  have "fst l' = Retirer \<longleftrightarrow> fst (ls t) = Retirer"
    using ea_step [OF ex ea.reach_G [OF r]] ea.reach_L [OF r, of t] by simp
  then show ?case using step.IH ex by (simp add: e sys_step_eq)
qed (simp add: ea_roles_def sr_roles_def)

subsection \<open>Properties of all executions\<close>

text \<open>
  C6. Safe reclamation with the memory orders of the code, for one retiring thread, readers with slots of
  their own, and clients that retire an object only when the entry of every section that uses it happens
  before: no use of an object races with the call of its deleter, and none comes after it; an object is not
  freed while a reader is in a section whose entry was observed when it was retired; and the objects
  freed, on the lists and in the hands of the retiring thread are exactly the retired ones, each once.
\<close>

theorem ea_reclaims_safely:
  assumes "ea_reach n (g, ls)"
  shows "\<not> ea_race g \<and>
    (\<forall>u t pc v q p. ls u = (Inside t, pc, v, q) \<and> (t, seen v (LSlot t), p) \<in> ea_covered g \<longrightarrow> p \<notin> set (ea_freed g)) \<and>
    (\<exists>l. fst (snd (ls 0)) = At l \<and> distinct (ea_freed g @ concat (ea_lists g) @ transit l) \<and>
       set (ea_freed g @ concat (ea_lists g) @ transit l) = dom (ea_retired_at g))"
proof -
  have G: "ea_G g" using ea.reach_G [OF assms] by simp
  have L: "ea_L g (ls u)" for u using ea.reach_L [OF assms] by simp
  have "p \<notin> set (ea_freed g)" if "ls u = (Inside t, pc, v, q)" "(t, seen v (LSlot t), p) \<in> ea_covered g" for u t pc v q p
  proof
    assume "p \<in> set (ea_freed g)"
    then have "Suc (seen v (LSlot t)) < length (ea_mem g (LSlot t))" using ea_GD(8) [OF G] that(2) unfolding ea_safe_def by blast
    then show False using L [of u] that(1) by (simp add: ea_reader_def latest_def)
  qed
  moreover obtain pc v q where l0: "ls 0 = (Retirer, pc, v, q)" using ea_reach_kind [OF assms] by (metis prod_cases4 fst_conv snd_conv)
  then obtain l where "pc = At l" "ea_R g l v" using L [of 0] by auto
  then have "\<exists>l. fst (snd (ls 0)) = At l \<and> distinct (ea_freed g @ concat (ea_lists g) @ transit l) \<and>
       set (ea_freed g @ concat (ea_lists g) @ transit l) = dom (ea_retired_at g)"
    using ea_RD(3) [of g l v] by (auto simp: l0 sr_R_def sr_once_def)
  ultimately show ?thesis using ea_GD(6) [OF G] by blast
qed

subsection \<open>The scan of one slot\<close>

definition one_slot :: "ea_global \<Rightarrow> ea_view \<Rightarrow> uint64 \<Rightarrow> bool" where
  "one_slot g v e \<longleftrightarrow> latest LGlobal (ea_mem g) v \<and> newest (ea_mem g) LGlobal = VEpoch e \<and> length (ea_in_use g) = MAX_THREADS \<and>
     (\<forall>i < MAX_THREADS. ea_in_use g ! i \<longleftrightarrow> i = 0)"

lemma see_same: "see l (seen v l) v = v"
  by (cases v) (auto simp: see_def)

lemma sup_bot_view: "sup v bot = (v :: ('l, 'p) view)"
  by (cases v) (simp add: sup_view_def bot_view_def)

lemma one_slot_loads:
  assumes "one_slot g v e"
  shows "load_rlx 0 LGlobal (ea_mem g) v = (VEpoch e, v)"
    "cas_strong False True False 0 LGlobal (VEpoch e) d (ea_mem g) v = (None, rmw False True LGlobal d (ea_mem g) v)"
proof -
  have s: "Suc (seen v LGlobal) = length (ea_mem g LGlobal)" "newest (ea_mem g) LGlobal = VEpoch e" using assms by (auto simp: one_slot_def latest_def)
  then have "mval (ea_mem g LGlobal ! seen v LGlobal) = VEpoch e" by (metis diff_Suc_1 last_conv_nth length_0_conv nat.distinct(1))
  moreover have "max (seen v LGlobal) (length (ea_mem g LGlobal) - 1) = seen v LGlobal" using s(1) by simp
  ultimately show "load_rlx 0 LGlobal (ea_mem g) v = (VEpoch e, v)"
    "cas_strong False True False 0 LGlobal (VEpoch e) d (ea_mem g) v = (None, rmw False True LGlobal d (ea_mem g) v)"
    using s by (simp_all add: load_rlx_def pick_def see_same cas_strong_def cas_weak_def)
qed

lemma one_slot_scan:
  assumes "one_slot g v e" "0 < i" "i + n = MAX_THREADS"
  shows "solo ea_exec (EaGo 0) n g (k, At (adv_next e i), v, q) = (g, k, At (AdvCas e), v, q)"
  using assms
proof (induction n arbitrary: i)
  case 0
  then show ?case by (simp add: adv_next_def)
next
  case (Suc n)
  then have i: "i < MAX_THREADS" "\<not> ea_in_use g ! i" by (auto simp: one_slot_def)
  have "ea_exec (EaGo 0) g (k, At (adv_next e i), v, q) = (g, k, At (adv_next e (Suc i)), v, q)" using i by (simp add: adv_next_def)
  then show ?case using Suc by simp
qed

lemma one_slot_advance:
  assumes o: "one_slot g v e" and rm: "rmw False True LGlobal (VEpoch (e + 1)) (ea_mem g) v = (m, v')"
  shows "solo ea_exec (EaGo 0) 65 g (k, At (adv_next e 1), v, q) =
    (g\<lparr>ea_mem := m, ea_lists := (ea_lists g)[epoch_idx (e + 1) := []]\<rparr>, k, At (AdvFree (ea_lists g ! epoch_idx (e + 1))), v', q)"
proof -
  have "solo ea_exec (EaGo 0) 63 g (k, At (adv_next e 1), v, q) = (g, k, At (AdvCas e), v, q)" by (rule one_slot_scan [OF o]) auto
  moreover have "solo ea_exec (EaGo 0) 2 g (k, At (AdvCas e), v, q) =
      (g\<lparr>ea_mem := m, ea_lists := (ea_lists g)[epoch_idx (e + 1) := []]\<rparr>, k, At (AdvFree (ea_lists g ! epoch_idx (e + 1))), v', q)"
    using one_slot_loads(2) [OF o] rm by (simp add: eval_nat_numeral Let_def)
  ultimately show ?thesis using solo_add [of ea_exec "EaGo 0" 63 2] by simp
qed

lemma ea_solo_idle: "solo ea_exec (EaGo 0) n g (k, At EIdle, v, q) = (g, k, At EIdle, v, q)"
  by (induction n) simp_all

lemma solo_free:
  "solo ea_exec (EaGo 0) (Suc n) g (k, At (AdvFree []), v, q) = (g, k, At EIdle, v, q)"
  "solo ea_exec (EaGo 0) (Suc (Suc n)) g (k, At (AdvFree [x]), v, q) =
     (case ea_delete x g v of (g', v') \<Rightarrow> (g', k, At EIdle, v', q))"
  by (simp_all add: ea_solo_idle split: prod.split)

subsection \<open>A client that relies on the fence of the reader\<close>

text \<open>
  A client with one shared pointer (\<open>LCell\<close>): a reader enters, loads the pointer with acquire and uses the object; the
  retiring thread exchanges the pointer for a new object (acquire and release) and retires the old one. Under
  sequential consistency this is safe: an object that a reader has loaded is retired while the reader is inside.
\<close>

type_synonym cl_local = "ea_local \<times> obj option"

datatype cl_act = ClAct ea_act | ClLoad nat | ClUse | ClReplace obj | ClRetire

fun cl_exec :: "cl_act \<Rightarrow> ea_global \<Rightarrow> cl_local \<Rightarrow> ea_global \<times> cl_local" where
  "cl_exec (ClAct a) g (l, h) =
     (case a of
        EaGo j \<Rightarrow> (case ea_exec a g l of (g', l') \<Rightarrow> (g', l', h))
      | EaEnter \<Rightarrow> (case ea_exec a g l of (g', l') \<Rightarrow> (g', l', None))
      | EaLeave \<Rightarrow> (case ea_exec a g l of (g', l') \<Rightarrow> (g', l', None))
      | _ \<Rightarrow> (g, l, h))"
| "cl_exec (ClLoad j) g ((k, pc, v, q), h) =
     (case k of
        Inside t \<Rightarrow> (if pc = At EIdle then (case load_acq j LCell (ea_mem g) v of (x, v') \<Rightarrow> (g, (k, pc, v', q), Some (obj_of x)))
                    else (g, (k, pc, v, q), h))
      | _ \<Rightarrow> (g, (k, pc, v, q), h))"
| "cl_exec ClUse g ((k, pc, v, q), h) =
     (case (k, h) of
        (Inside t, Some p) \<Rightarrow> (if pc = At EIdle then (case ea_read p t g v of (g', v') \<Rightarrow> (g', (k, pc, v', q), h)) else (g, (k, pc, v, q), h))
      | _ \<Rightarrow> (g, (k, pc, v, q), h))"
| "cl_exec (ClReplace p) g ((k, pc, v, q), h) =
     (if k = Retirer \<and> pc = At EIdle \<and> h = None
      then (case rmw True True LCell (VObj p) (ea_mem g) v of (m, v') \<Rightarrow>
              (g\<lparr>ea_mem := m\<rparr>, (k, pc, v', q), Some (obj_of (newest (ea_mem g) LCell))))
      else (g, (k, pc, v, q), h))"
| "cl_exec ClRetire g ((k, pc, v, q), h) =
     (case h of
        Some p \<Rightarrow> (if k = Retirer \<and> pc = At EIdle then (ea_call_retire p g v, (k, At (RetLoad p), v, q), None) else (g, (k, pc, v, q), h))
      | None \<Rightarrow> (g, (k, pc, v, q), h))"

abbreviation cl_reach :: "nat \<Rightarrow> (ea_global, cl_local) config \<Rightarrow> bool" where
  "cl_reach n \<equiv> reach cl_exec (ea_init n) (\<lambda>u. (ea_roles n u, None))"

text \<open>One registered slot; the retiring thread knows the epoch; it has not observed that the slot was entered.\<close>

definition stale :: "ea_global \<Rightarrow> ea_view \<Rightarrow> uint64 \<Rightarrow> bool" where
  "stale g v e \<longleftrightarrow> one_slot g v e \<and> seen v (LSlot 0) = 0 \<and> ea_mem g (LSlot 0) ! 0 = Msg (VEpoch UINT64_MAX) bot \<and>
     seen v LCell < length (ea_mem g LCell) \<and> mview (last (ea_mem g LCell)) \<le> v"

lemma stale_load:
  assumes "stale g v e"
  shows "load_acq 0 (LSlot 0) (ea_mem g) v = (VEpoch UINT64_MAX, v)"
  using assms see_same [of "LSlot 0" v] by (simp add: stale_def load_acq_def pick_def sup_bot_view)

lemma stale_round:
  fixes p :: obj
  assumes st: "stale g v e"
  defines "L \<equiv> (ea_lists g)[epoch_idx e := ea_lists g ! epoch_idx e @ [p]]"
  shows "\<exists>m v' q'. solo ea_exec (EaGo 0) 70 g (k, At (RetLoad p), v, q) =
      (g\<lparr>ea_mem := m, ea_lists := L[epoch_idx (e + 1) := []]\<rparr>, k, At (AdvFree (L ! epoch_idx (e + 1))), v', q') \<and>
    stale (g\<lparr>ea_mem := m, ea_lists := L[epoch_idx (e + 1) := []]\<rparr>) v' (e + 1) \<and> m LCell = ea_mem g LCell"
proof -
  let ?g = "g\<lparr>ea_lists := L\<rparr>" and ?n = "length (ea_mem g LGlobal)"
  have o: "one_slot g v e" "one_slot ?g v e" and in0: "ea_in_use g ! 0" using st by (auto simp: stale_def one_slot_def)
  obtain q1 where q1: "solo ea_exec (EaGo 0) 5 g (k, At (RetLoad p), v, q) = (?g, k, At (adv_next e 1), v, q1)"
    using one_slot_loads(1) [OF o(1)] stale_load [OF st] in0 by (simp add: eval_nat_numeral adv_next_def L_def)
  obtain m v' where rm: "rmw False True LGlobal (VEpoch (e + 1)) (ea_mem g) v = (m, v')" by fastforce
  then have v': "v' = see LGlobal ?n v" and m: "m LGlobal = ea_mem g LGlobal @ [Msg (VEpoch (e + 1)) (see LGlobal ?n (sup (mview (last (ea_mem g LGlobal))) v'))]"
    "\<And>l. l \<noteq> LGlobal \<Longrightarrow> m l = ea_mem g l" by (auto simp: rmw_def Let_def)
  have le: "v \<le> v'" unfolding v' using o(1) by (intro see_ge) (simp add: one_slot_def latest_def)
  have "stale (?g\<lparr>ea_mem := m, ea_lists := L[epoch_idx (e + 1) := []]\<rparr>) v' (e + 1)"
    using st order_trans [OF _ le] by (auto simp: stale_def one_slot_def latest_def m v')
  moreover have "solo ea_exec (EaGo 0) (5 + 65) g (k, At (RetLoad p), v, q) =
      (g\<lparr>ea_mem := m, ea_lists := L[epoch_idx (e + 1) := []]\<rparr>, k, At (AdvFree (L ! epoch_idx (e + 1))), v', q1)"
    unfolding solo_add q1 prod.case using one_slot_advance [OF o(2), of m v'] rm by simp
  ultimately show ?thesis using m(2) [of LCell] by (intro exI [of _ m] exI [of _ v'] exI [of _ q1]) simp
qed

lemma cl_solo: "solo cl_exec (ClAct (EaGo j)) n g (l, h) = (case solo ea_exec (EaGo j) n g l of (g', l') \<Rightarrow> (g', l', h))"
  by (induction n arbitrary: g l) (auto split: prod.splits)

definition cl_round :: "obj \<Rightarrow> (tid \<times> cl_act) list" where
  "cl_round p = [(0, ClReplace p), (0, ClRetire)] @ replicate 72 (0, ClAct (EaGo 0))"

lemma cl_round_run:
  assumes st: "stale g v e" and l: "ls 0 = ((Retirer, At EIdle, v, q), None)"
    and p: "newest (ea_mem g) LCell = VObj p" and L_def: "L = (ea_lists g)[epoch_idx e := ea_lists g ! epoch_idx e @ [p]]"
    and F: "L ! epoch_idx (e + 1) = F" "F = [] \<or> F = [x]"
  shows "\<exists>g' v' q'. run cl_exec (g, ls) (cl_round r) = (g', ls(0 := ((Retirer, At EIdle, v', q'), None))) \<and> stale g' v' (e + 1) \<and>
    newest (ea_mem g') LCell = VObj r \<and> ea_lists g' = L[epoch_idx (e + 1) := []] \<and> ea_freed g' = ea_freed g @ F \<and>
    ea_trail g' = (if F = [] then ea_trail g else (ea_trail g)(x := ea_trail g x @ [True])) \<and> (ea_trail g x = [] \<longrightarrow> ea_race g' = ea_race g)"
proof -
  let ?n = "length (ea_mem g LCell)" and ?old = "mview (last (ea_mem g LCell))"
  obtain m v1 where rm: "rmw True True LCell (VObj r) (ea_mem g) v = (m, v1)" by fastforce
  have old: "?old \<le> v" "seen v LCell < ?n" using st by (auto simp: stale_def)
  have v1: "v1 = see LCell ?n (sup v ?old)" and m: "m = (ea_mem g)(LCell := ea_mem g LCell @ [Msg (VObj r) (see LCell ?n (sup ?old v1))])"
    using rm by (auto simp: rmw_def Let_def)
  have "sup v ?old = v" using old(1) by (rule sup_absorb1)
  then have v1: "v1 = see LCell ?n v" by (simp add: v1)
  have le: "v \<le> v1" unfolding v1 using old(2) by (intro see_ge) simp
  then have "sup ?old v1 = v1" using old(1) by (intro sup_absorb2) (rule order_trans)
  then have u: "see LCell ?n (sup ?old v1) = v1" by (simp add: v1 see_def)
  let ?g = "ea_call_retire p (g\<lparr>ea_mem := m\<rparr>) v1"
  have m1: "m = (ea_mem g)(LCell := ea_mem g LCell @ [Msg (VObj r) v1])" using m u by simp
  have "seen v1 l = (if l = LCell then ?n else seen v l)" for l by (simp add: v1)
  then have st1: "stale ?g v1 e" using st unfolding stale_def one_slot_def ea_call_retire_def by (auto simp: m1 latest_def)
  obtain m2 v2 q2 where rd: "solo ea_exec (EaGo 0) 70 ?g (Retirer, At (RetLoad p), v1, q) =
      (?g\<lparr>ea_mem := m2, ea_lists := L[epoch_idx (e + 1) := []]\<rparr>, Retirer, At (AdvFree F), v2, q2)"
    and st2: "stale (?g\<lparr>ea_mem := m2, ea_lists := L[epoch_idx (e + 1) := []]\<rparr>) v2 (e + 1)" and m2: "m2 LCell = ea_mem ?g LCell"
    using stale_round [OF st1, where p = p and k = Retirer and q = q] F(1) unfolding L_def by (auto simp: ea_call_retire_def)
  let ?g2 = "?g\<lparr>ea_mem := m2, ea_lists := L[epoch_idx (e + 1) := []]\<rparr>"
  obtain g3 v3 where g3: "solo ea_exec (EaGo 0) 2 ?g2 (Retirer, At (AdvFree F), v2, q2) = (g3, Retirer, At EIdle, v3, q2)"
    "g3 = (if F = [] then ?g2 else fst (ea_delete x ?g2 v2))" "v3 = (if F = [] then v2 else snd (ea_delete x ?g2 v2))"
    using F(2) by (auto simp: eval_nat_numeral split: prod.splits)
  have "solo ea_exec (EaGo 0) (70 + 2) ?g (Retirer, At (RetLoad p), v1, q) = (g3, Retirer, At EIdle, v3, q2)"
    unfolding solo_add rd prod.case g3(1) ..
  then have "run cl_exec (g, ls) (cl_round r) = (g3, ls(0 := ((Retirer, At EIdle, v3, q2), None)))"
    by (simp add: cl_round_def sys_step_eq l rm p run_replicate cl_solo run_append)
  moreover have "stale g3 v3 (e + 1)"
    using st2 unfolding g3(2,3) by (auto simp: stale_def one_slot_def ea_delete_def leave_trail_def latest_def intro: order_trans [OF _ know_ge])
  moreover have "newest (ea_mem g3) LCell = VObj r" "ea_lists g3 = L[epoch_idx (e + 1) := []]" "ea_freed g3 = ea_freed g @ F"
    "ea_trail g3 = (if F = [] then ea_trail g else (ea_trail g)(x := ea_trail g x @ [True]))"
    "ea_trail g x = [] \<longrightarrow> ea_race g3 = ea_race g"
    using F(2) m2 unfolding g3(2) by (auto simp: ea_delete_def leave_trail_def ea_call_retire_def m write_ordered_def)
  ultimately show ?thesis by blast
qed

text \<open>The reader enters and loads the pointer; then three rounds of the retiring thread.\<close>

definition cl_enter :: "(tid \<times> cl_act) list" where
  "cl_enter = [(1, ClAct EaEnter), (1, ClAct (EaGo 0)), (1, ClAct (EaGo 0)), (1, ClAct (EaGo 0)), (1, ClLoad 0)]"

definition cl_start :: "(ea_global, cl_local) config" where
  "cl_start = (ea_of sr_s0, \<lambda>u. (ea_roles 1 u, None))"

lemma ea_of_s0:
  "ea_in_use (ea_of sr_s0) = True # replicate 63 False" "ea_mem (ea_of sr_s0) = (\<lambda>l. [Msg (ea_first sr_s0 l) bot])"
  "ea_lists (ea_of sr_s0) = [[], [], []]" "ea_freed (ea_of sr_s0) = []" "ea_trail (ea_of sr_s0) = (\<lambda>_. [])" "ea_race (ea_of sr_s0) = False"
  "ea_fences (ea_of sr_s0) = bot" "global_epoch (er sr_s0) = 0" "ea_retired_at (ea_of sr_s0) = Map.empty" "ea_covered (ea_of sr_s0) = {}"
  "ea_by (ea_of sr_s0) = (\<lambda>_ _. None)"
  by (simp_all add: ea_of_def sr_s0_def demo_slots_def)

lemmas ea_eval = sys_step_eq ea_roles_def sr_roles_def ea_of_s0 load_rlx_def load_acq_def pick_def store_rel_def latest_def fence_sc_def
  msg_view_def Let_def

lemma cl_enter_run:
  "\<exists>g ls v q. run cl_exec cl_start cl_enter = (g, ls) \<and> ls 0 = ((Retirer, At EIdle, bot, bot), None) \<and>
     ls 1 = ((Inside 0, At EIdle, v, q), Some 0) \<and> known v = {} \<and> stale g bot 0 \<and> newest (ea_mem g) LCell = VObj 0 \<and>
     ea_lists g = [[], [], []] \<and> ea_freed g = [] \<and> ea_trail g = (\<lambda>_. []) \<and> \<not> ea_race g"
  by (auto simp: cl_start_def cl_enter_def ea_eval stale_def one_slot_def nth_Cons split: nat.splits)

text \<open>
  C39. The fence in \<^verbatim>\<open>enter_critical\<close> is not enough: with the memory orders of the code there is an execution in which
  the reader, still inside its section, holds the object 0 that it has loaded from the shared pointer, while
  the object has been freed, so that its next use is a use after the free. The retiring thread has read the
  slot of the reader stale in three calls of \<^verbatim>\<open>try_advance\<close>, since it has no fence of its own.
\<close>

theorem ea_fence_missing:
  "\<exists>g ls v q. cl_reach 1 (g, ls) \<and> ls 1 = ((Inside 0, At EIdle, v, q), Some 0) \<and> 0 \<in> set (ea_freed g) \<and>
     \<not> ea_race g \<and> ea_race (fst (cl_exec ClUse g (ls 1)))"
proof -
  obtain g ls v q where r: "run cl_exec cl_start cl_enter = (g, ls)" "ls 0 = ((Retirer, At EIdle, bot, bot), None)"
    "ls 1 = ((Inside 0, At EIdle, v, q), Some 0)" "known v = {}" "stale g bot 0" "newest (ea_mem g) LCell = VObj 0"
    "ea_lists g = [[], [], []]" "ea_freed g = []" "ea_trail g = (\<lambda>_. [])" "\<not> ea_race g" using cl_enter_run by blast
  obtain g1 v1 q1 where r1: "run cl_exec (g, ls) (cl_round 1) = (g1, ls(0 := ((Retirer, At EIdle, v1, q1), None)))" "stale g1 v1 1"
    "newest (ea_mem g1) LCell = VObj 1" "ea_lists g1 = [[0], [], []]" "ea_freed g1 = []" "ea_trail g1 = (\<lambda>_. [])" "\<not> ea_race g1"
    using cl_round_run [of g bot 0 ls bot 0 "[[0], [], []]" "[]" 0 1] r(2,5-10) by (auto simp: epoch_idx_def)
  let ?l1 = "ls(0 := ((Retirer, At EIdle, v1, q1), None))"
  obtain g2 v2 q2 where r2: "run cl_exec (g1, ?l1) (cl_round 2) = (g2, ls(0 := ((Retirer, At EIdle, v2, q2), None)))" "stale g2 v2 2"
    "newest (ea_mem g2) LCell = VObj 2" "ea_lists g2 = [[0], [1], []]" "ea_freed g2 = []" "ea_trail g2 = (\<lambda>_. [])" "\<not> ea_race g2"
    using cl_round_run [of g1 v1 1 ?l1 q1 1 "[[0], [1], []]" "[]" 0 2] r1(2-7) by (auto simp: epoch_idx_def)
  let ?l2 = "ls(0 := ((Retirer, At EIdle, v2, q2), None))"
  obtain g3 v3 q3 where r3: "run cl_exec (g2, ?l2) (cl_round 3) = (g3, ls(0 := ((Retirer, At EIdle, v3, q3), None)))"
    "ea_freed g3 = [0]" "ea_trail g3 = (\<lambda>_. [])(0 := [True])" "\<not> ea_race g3"
    using cl_round_run [of g2 v2 2 ?l2 q2 2 "[[0], [1], [2]]" "[0]" 0 3] r2(2-7) by (auto simp: epoch_idx_def)
  let ?l3 = "ls(0 := ((Retirer, At EIdle, v3, q3), None))"
  have "ea_init 1 (ea_of sr_s0)" using sr_s0_init by (auto simp: ea_init_def)
  then have "cl_reach 1 (run cl_exec cl_start (cl_enter @ cl_round 1 @ cl_round 2 @ cl_round 3))"
    unfolding cl_start_def by (rule reach_run_init)
  then have "cl_reach 1 (g3, ?l3)" unfolding run_append r(1) r1(1) r2(1) r3(1) .
  moreover have "ea_race (fst (cl_exec ClUse g3 (?l3 1)))"
    using r(3,4) r3(3) by (simp add: ea_read_def leave_trail_def read_ordered_def)
  ultimately show ?thesis using r(3) r3(2,4) by (intro exI [of _ g3] exI [of _ ?l3]) simp
qed

subsection \<open>A witness\<close>

text \<open>
  The reader enters and uses the object 7; the retiring thread retires the object 5, observes in the scan that the slot was
  entered, advances the epoch, and retires the object 7, which the section of the reader covers.
\<close>

definition ew_pre :: "(tid \<times> ea_act) list" where
  "ew_pre = [(1, EaEnter), (1, EaGo 0), (1, EaGo 0), (1, EaGo 0), (1, EaAccess 7), (0, EaRetire 5),
     (0, EaGo 0), (0, EaGo 0), (0, EaGo 0), (0, EaGo 0), (0, EaGo 1)]"

lemma ew_pre_run:
  "\<exists>g ls v q v1 q1. run ea_exec (ea_of sr_s0, ea_roles 1) ew_pre = (g, ls) \<and> ls 0 = (Retirer, At (adv_next 0 1), v, q) \<and>
     ls 1 = (Inside 0, At EIdle, v1, q1) \<and> seen v1 (LSlot 0) = 1 \<and> one_slot g v 0 \<and> seen v (LSlot 0) = 1 \<and>
     ea_lists g = [[5], [], []] \<and> ea_retired_at g = [5 \<mapsto> 0] \<and> ea_trail g 7 = [False] \<and> ea_by g 7 0 = Some (0, 1) \<and>
     ea_local_epoch g v 0 \<noteq> UINT64_MAX"
  by (auto simp: ew_pre_def ea_eval one_slot_def nth_Cons ea_read_def leave_trail_def ea_call_retire_def ea_disciplined_def ea_local_epoch_def
      adv_next_def epoch_idx_def split: nat.splits)

definition ew_sched :: "(tid \<times> ea_act) list" where
  "ew_sched = ew_pre @ replicate 66 (0, EaGo 0) @ [(0, EaRetire 7)]"

lemma ew_run:
  "\<exists>g ls pc v q. run ea_exec (ea_of sr_s0, ea_roles 1) ew_sched = (g, ls) \<and> ls 1 = (Inside 0, pc, v, q) \<and>
     (0, seen v (LSlot 0), 7) \<in> ea_covered g \<and> 7 \<in> dom (ea_retired_at g)"
proof -
  obtain g ls v q v1 q1 where r: "run ea_exec (ea_of sr_s0, ea_roles 1) ew_pre = (g, ls)" "ls 0 = (Retirer, At (adv_next 0 1), v, q)"
    "ls 1 = (Inside 0, At EIdle, v1, q1)" "seen v1 (LSlot 0) = 1" "one_slot g v 0" "seen v (LSlot 0) = 1"
    "ea_lists g = [[5], [], []]" "ea_retired_at g = [5 \<mapsto> 0]" "ea_trail g 7 = [False]" "ea_by g 7 0 = Some (0, 1)"
    "ea_local_epoch g v 0 \<noteq> UINT64_MAX" using ew_pre_run by blast
  obtain m v' where rm: "rmw False True LGlobal (VEpoch (0 + 1)) (ea_mem g) v = (m, v')" by fastforce
  then have m: "newest m LGlobal = VEpoch 1" "m (LSlot 0) = ea_mem g (LSlot 0)" "seen v' (LSlot 0) = 1" using r(6) by (auto simp: rmw_def Let_def)
  let ?g = "g\<lparr>ea_mem := m, ea_lists := (ea_lists g)[epoch_idx (0 + 1) := []]\<rparr>"
  have "ea_lists g ! epoch_idx (0 + 1) = []" using r(7) by (simp add: epoch_idx_def)
  then have "solo ea_exec (EaGo 0) (65 + 1) g (ls 0) = (?g, Retirer, At EIdle, v', q)"
    unfolding solo_add r(2) one_slot_advance [OF r(5) rm] by simp
  then have s: "run ea_exec (g, ls) (replicate 66 (0, EaGo 0)) = (?g, ls(0 := (Retirer, At EIdle, v', q)))"
    by (simp add: run_replicate)
  have "ea_disciplined 7 ?g v'" using r(9,10) m(3) by (simp add: ea_disciplined_def)
  then have e: "ea_exec (EaRetire 7) ?g (Retirer, At EIdle, v', q) = (ea_call_retire 7 ?g v', Retirer, At (RetLoad 7), v', q)"
    using r(8) m(1) by simp
  have "0 \<in> set (ea_inside ?g v')" using r(5,6,11) m(2,3) by (simp add: ea_inside_def one_slot_def ea_local_epoch_def)
  then have c: "(0, 1, 7) \<in> ea_covered (ea_call_retire 7 ?g v')" using m(3) by (force simp: ea_call_retire_def)
  have d: "7 \<in> dom (ea_retired_at (ea_call_retire 7 ?g v'))" by (simp add: ea_call_retire_def)
  have "run ea_exec (ea_of sr_s0, ea_roles 1) ew_sched = (ea_call_retire 7 ?g v', ls(0 := (Retirer, At (RetLoad 7), v', q)))"
    using e unfolding ew_sched_def run_append r(1) s by (simp add: sys_step_eq del: ea_exec.simps)
  then show ?thesis using r(3,4) c d
    by (intro exI [of _ "ea_call_retire 7 ?g v'"] exI [of _ "ls(0 := (Retirer, At (RetLoad 7), v', q))"] exI [of _ "At EIdle"] exI [of _ v1] exI [of _ q1]) simp
qed

theorem ea_reclaims_safely_witness:
  "\<exists>g ls. run ea_exec (ea_of sr_s0, ea_roles 1) ew_sched = (g, ls) \<and> \<not> ea_race g \<and> 7 \<in> dom (ea_retired_at g) \<and> 7 \<notin> set (ea_freed g)"
proof -
  obtain g ls pc v q where r: "run ea_exec (ea_of sr_s0, ea_roles 1) ew_sched = (g, ls)" "ls 1 = (Inside 0, pc, v, q)"
    "(0, seen v (LSlot 0), 7) \<in> ea_covered g" "7 \<in> dom (ea_retired_at g)" using ew_run by blast
  have "ea_init 1 (ea_of sr_s0)" using sr_s0_init by (auto simp: ea_init_def)
  then have "ea_reach 1 (run ea_exec (ea_of sr_s0, ea_roles 1) ew_sched)" by (rule reach_run_init)
  then have "ea_reach 1 (g, ls)" unfolding r(1) .
  from ea_reclaims_safely [OF this] show ?thesis using r by blast
qed

end
