(* ===== verification/Ring_Buffer_RA.thy ===== *)
theory Ring_Buffer_RA
  imports Ring_Buffer_Conc Release_Acquire
begin

text \<open>
  \<^verbatim>\<open>RingBuffer\<close> with the memory orders of the code: relaxed loads and exchanges of \<^verbatim>\<open>head_\<close> and \<^verbatim>\<open>tail_\<close>,
  acquire loads and release stores of the sequence numbers, plain accesses of \<^verbatim>\<open>buffer_\<close>. The program
  points are those of \<open>Ring_Buffer_Conc\<close>; every thread has a view beside its program point, every load may
  be stale, and a data race, a store without a determined place in the modification order or
  a signed overflow lead to \<open>RbUndefined\<close>. Moving an item out of a slot may change the slot, so both
  accesses of a slot count as writes.
\<close>

datatype rb_loc = LHead | LTail | LSeq nat

record 'a rr_global =
  rr_size :: size_t
  rr_mem :: "(size_t, rb_loc, nat) mem"
  rr_buffer :: "'a list"
  rr_trail :: "nat trail"
  rr_enq :: "'a list"
  rr_pushing :: "nat set"
  rr_popping :: "nat set"

type_synonym 'a rr_local = "'a rb_pc \<times> (rb_loc, nat) view"

datatype 'a rr_act = RrPush 'a | RrPop
  | RrGo nat bool \<comment> \<open>the message a load returns; whether a weak compare-exchange fails spuriously\<close>

definition rr_index :: "'a rr_global \<Rightarrow> size_t \<Rightarrow> nat" where
  "rr_index g pos = unat (pos AND (rr_size g - 1))"

fun rr_go :: "nat \<Rightarrow> bool \<Rightarrow> 'a rr_global \<Rightarrow> 'a rr_local \<Rightarrow> 'a rr_global \<times> 'a rr_local" where
  "rr_go j spurious g (RbIdle, v) = (g, RbIdle, v)"
| "rr_go j spurious g (PushLoad item, v) =
     (case load_rlx j LHead (rr_mem g) v of (head, v') \<Rightarrow> (g, PushCheck item head, v'))"
| "rr_go j spurious g (PushCheck item head, v) =
     (case load_acq j (LSeq (rr_index g head)) (rr_mem g) v of (seq, v') \<Rightarrow>
      (g, case intptr_sub seq head of
            None \<Rightarrow> RbUndefined
          | Some diff \<Rightarrow> if diff = 0 then PushCas item head
                        else if diff < 0 then PushRet False
                        else PushLoad item, v'))"
| "rr_go j spurious g (PushCas item head, v) =
     (case cas_weak False False False j spurious LHead head (head + 1) (rr_mem g) v of
        (None, m, v') \<Rightarrow> (g\<lparr>rr_mem := m, rr_enq := rr_enq g @ [item],
            rr_pushing := insert (unat head) (rr_pushing g)\<rparr>, PushWrite item head, v')
      | (Some head', m, v') \<Rightarrow> (g, PushCheck item head', v'))"
| "rr_go j spurious g (PushWrite item head, v) =
     (let i = rr_index g head in
      if write_ordered i (rr_trail g) v
      then (case leave_trail i True (rr_trail g) v of (h, v') \<Rightarrow>
              (g\<lparr>rr_buffer := (rr_buffer g)[i := item], rr_trail := h\<rparr>, PushPublish head, v'))
      else (g, RbUndefined, v))"
| "rr_go j spurious g (PushPublish head, v) =
     (case store_rel (LSeq (rr_index g head)) (head + 1) (rr_mem g) v of
        None \<Rightarrow> (g, RbUndefined, v)
      | Some (m, v') \<Rightarrow>
          (g\<lparr>rr_mem := m, rr_pushing := rr_pushing g - {unat head}\<rparr>, PushRet True, v'))"
| "rr_go j spurious g (PushRet b, v) = (g, RbIdle, v)"
| "rr_go j spurious g (PopLoad, v) =
     (case load_rlx j LTail (rr_mem g) v of (tail, v') \<Rightarrow> (g, PopCheck tail, v'))"
| "rr_go j spurious g (PopCheck tail, v) =
     (case load_acq j (LSeq (rr_index g tail)) (rr_mem g) v of (seq, v') \<Rightarrow>
      (g, case intptr_sub seq (tail + 1) of
            None \<Rightarrow> RbUndefined
          | Some diff \<Rightarrow> if diff = 0 then PopCas tail
                        else if diff < 0 then PopRet None
                        else PopLoad, v'))"
| "rr_go j spurious g (PopCas tail, v) =
     (case cas_weak False False False j spurious LTail tail (tail + 1) (rr_mem g) v of
        (None, m, v') \<Rightarrow> (g\<lparr>rr_mem := m, rr_popping := insert (unat tail) (rr_popping g)\<rparr>,
            PopRead tail, v')
      | (Some tail', m, v') \<Rightarrow> (g, PopCheck tail', v'))"
| "rr_go j spurious g (PopRead tail, v) =
     (let i = rr_index g tail in
      if write_ordered i (rr_trail g) v
      then (case leave_trail i True (rr_trail g) v of (h, v') \<Rightarrow>
              (g\<lparr>rr_trail := h\<rparr>, PopPublish (rr_buffer g ! i) tail, v'))
      else (g, RbUndefined, v))"
| "rr_go j spurious g (PopPublish item tail, v) =
     (case store_rel (LSeq (rr_index g tail)) (tail + (rr_size g - 1) + 1) (rr_mem g) v of
        None \<Rightarrow> (g, RbUndefined, v)
      | Some (m, v') \<Rightarrow>
          (g\<lparr>rr_mem := m, rr_popping := rr_popping g - {unat tail}\<rparr>, PopRet (Some item), v'))"
| "rr_go j spurious g (PopRet r, v) = (g, RbIdle, v)"
| "rr_go j spurious g (RbUndefined, v) = (g, RbUndefined, v)"

fun rr_exec :: "'a rr_act \<Rightarrow> 'a rr_global \<Rightarrow> 'a rr_local \<Rightarrow> 'a rr_global \<times> 'a rr_local" where
  "rr_exec (RrPush item) g (l, v) = (g, case l of RbIdle \<Rightarrow> PushLoad item | _ \<Rightarrow> l, v)"
| "rr_exec RrPop g (l, v) = (g, case l of RbIdle \<Rightarrow> PopLoad | _ \<Rightarrow> l, v)"
| "rr_exec (RrGo j spurious) g lv = rr_go j spurious g lv"

text \<open>The constructor; its stores happen before every use of the buffer.\<close>

fun rr_init :: "rb_loc \<Rightarrow> size_t" where
  "rr_init (LSeq i) = word_of_nat i"
| "rr_init _ = 0"

definition rr_start :: "size_t \<Rightarrow> 'a \<Rightarrow> 'a rr_global" where
  "rr_start sz d = \<lparr>rr_size = sz, rr_mem = (\<lambda>l. [Msg (rr_init l) bot]), rr_buffer = replicate (unat sz) d,
     rr_trail = (\<lambda>_. []), rr_enq = [], rr_pushing = {}, rr_popping = {}\<rparr>"

definition rr_ginit :: "'a rr_global \<Rightarrow> bool" where
  "rr_ginit g \<longleftrightarrow> (\<exists>sz d. is_pow2 sz \<and> 2 \<le> unat sz \<and> g = rr_start sz d)"

definition rr_linit :: "tid \<Rightarrow> 'a rr_local" where
  "rr_linit t = (RbIdle, bot)"

abbreviation rr_reach :: "('a rr_global, 'a rr_local) config \<Rightarrow> bool" where
  "rr_reach \<equiv> reach rr_exec rr_ginit rr_linit"

subsection \<open>Assertions\<close>

text \<open>
  The newest messages make up a state of the interleaved machine of \<open>Ring_Buffer_Conc\<close>; its invariant is
  one half of the invariant here. The other half describes the histories: the \<open>n\<close>-th message of
  slot \<open>i\<close> is determined, and whoever has read it knows of the first \<open>n\<close> accesses of the slot.
\<close>

abbreviation rr_N :: "'a rr_global \<Rightarrow> nat" where "rr_N g \<equiv> unat (rr_size g)"

definition rr_sc :: "'a rr_global \<Rightarrow> 'a rb_global" where
  "rr_sc g = \<lparr>g_rb = \<lparr>rb_size = rr_size g, rb_sequences = map (\<lambda>i. newest (rr_mem g) (LSeq i)) [0..<rr_N g],
       rb_buffer = rr_buffer g, rb_head = newest (rr_mem g) LHead, rb_tail = newest (rr_mem g) LTail\<rparr>,
     g_enq = rr_enq g, g_deq = length (rr_mem g LTail) - 1, g_pushing = rr_pushing g, g_popping = rr_popping g\<rparr>"

definition rr_bound :: "'a rr_global \<Rightarrow> bool" where
  "rr_bound g \<longleftrightarrow> rb_bound (rr_sc g)"

definition slot_seq :: "nat \<Rightarrow> nat \<Rightarrow> nat \<Rightarrow> nat" where
  "slot_seq N i n = i + n div 2 * N + n mod 2"

definition acquired :: "nat \<Rightarrow> nat \<Rightarrow> (rb_loc, nat) view \<Rightarrow> bool" where
  "acquired i n v \<longleftrightarrow> n \<le> seen v (LSeq i) \<and> (\<forall>e<n. (i, e) \<in> known v)"

definition rr_hist :: "'a rr_global \<Rightarrow> bool" where
  "rr_hist g \<longleftrightarrow> (\<forall>k<length (rr_mem g LHead). unat (mval (rr_mem g LHead ! k)) = k) \<and>
     (\<forall>k<length (rr_mem g LTail). unat (mval (rr_mem g LTail ! k)) = k) \<and>
     (\<forall>i<rr_N g. \<forall>n<length (rr_mem g (LSeq i)).
        unat (mval (rr_mem g (LSeq i) ! n)) = slot_seq (rr_N g) i n \<and> acquired i n (mview (rr_mem g (LSeq i) ! n)))"

definition rr_quiet_slots :: "'a rr_global \<Rightarrow> bool" where
  "rr_quiet_slots g \<longleftrightarrow> (\<forall>i<rr_N g. (\<forall>k\<in>rr_pushing g \<union> rr_popping g. k mod rr_N g \<noteq> i) \<longrightarrow>
     Suc (length (rr_trail g i)) = length (rr_mem g (LSeq i)))"

definition rr_G :: "'a rr_global \<Rightarrow> bool" where
  "rr_G g \<longleftrightarrow> rb_G (rr_sc g) \<and> mem_ok (rr_mem g) \<and> rr_hist g \<and> rr_quiet_slots g"

definition rr_owns_slot :: "'a rr_global \<Rightarrow> nat \<Rightarrow> bool \<Rightarrow> (rb_loc, nat) view \<Rightarrow> bool" where
  "rr_owns_slot g i accessed v \<longleftrightarrow> latest (LSeq i) (rr_mem g) v \<and> mview (last (rr_mem g (LSeq i))) \<le> v \<and>
     write_ordered i (rr_trail g) v \<and>
     length (rr_trail g i) + (if accessed then 0 else 1) = length (rr_mem g (LSeq i))"

definition rr_read_msg :: "'a rr_global \<Rightarrow> nat \<Rightarrow> nat \<Rightarrow> (rb_loc, nat) view \<Rightarrow> bool" where
  "rr_read_msg g i s v \<longleftrightarrow> (\<exists>n<length (rr_mem g (LSeq i)). slot_seq (rr_N g) i n = s \<and> mview (rr_mem g (LSeq i) ! n) \<le> v)"

fun rr_V :: "'a rr_global \<Rightarrow> 'a rr_local \<Rightarrow> bool" where
  "rr_V g (PushCas item head, v) = rr_read_msg g (unat head mod rr_N g) (unat head) v"
| "rr_V g (PushWrite item head, v) = rr_owns_slot g (unat head mod rr_N g) False v"
| "rr_V g (PushPublish head, v) = rr_owns_slot g (unat head mod rr_N g) True v"
| "rr_V g (PopCas tail, v) = rr_read_msg g (unat tail mod rr_N g) (unat tail + 1) v"
| "rr_V g (PopRead tail, v) = rr_owns_slot g (unat tail mod rr_N g) False v"
| "rr_V g (PopPublish item tail, v) = rr_owns_slot g (unat tail mod rr_N g) True v"
| "rr_V g _ = True"

definition rr_L :: "'a rr_global \<Rightarrow> 'a rr_local \<Rightarrow> bool" where
  "rr_L g lv \<longleftrightarrow> rb_L (rr_sc g) (fst lv) \<and> view_ok (rr_mem g) (snd lv) \<and> rr_V g lv"

definition rr_X :: "'a rr_local \<Rightarrow> 'a rr_local \<Rightarrow> bool" where
  "rr_X lv mw \<longleftrightarrow> rb_X (fst lv) (fst mw)"

subsection \<open>Histories\<close>

lemma slot_seq_even:
  assumes "2 \<le> N" "i < N"
  shows "slot_seq N i n mod N = i \<longleftrightarrow> even n"
proof -
  have "slot_seq N i n = (i + n mod 2) + n div 2 * N" by (simp add: slot_seq_def)
  then have "slot_seq N i n mod N = (i + n mod 2) mod N" by (simp only: mod_mult_self1)
  moreover have "(i + 1) mod N \<noteq> i" using assms by (cases "i + 1 = N") auto
  ultimately show ?thesis using assms by (cases "even n") (auto simp: odd_iff_mod_2_eq_one)
qed

lemma slot_seq_Suc: "slot_seq N i (Suc n) = (if even n then slot_seq N i n + 1 else slot_seq N i n + N - 1)"
  by (cases "even n") (auto simp: slot_seq_def elim!: oddE)

lemma slot_seq_mono:
  assumes "2 \<le> N" "n < k"
  shows "slot_seq N i n < slot_seq N i k"
proof (rule lift_Suc_mono_less [of "slot_seq N i"])
  show "slot_seq N i n < slot_seq N i (Suc n)" for n using assms(1) unfolding slot_seq_Suc by simp linarith
qed (rule assms(2))

lemma slot_seq_le_iff: "2 \<le> N \<Longrightarrow> slot_seq N i n \<le> slot_seq N i k \<longleftrightarrow> n \<le> k"
  using slot_seq_mono [of N n k i] slot_seq_mono [of N k n i] by (cases n k rule: linorder_cases) auto

lemma acquired_mono: "acquired i n v \<Longrightarrow> v \<le> w \<Longrightarrow> acquired i n w"
  unfolding acquired_def using view_leD [of v w] by (meson le_trans subsetD)

lemma rr_histD:
  assumes "rr_hist g"
  shows "k < length (rr_mem g LHead) \<Longrightarrow> unat (mval (rr_mem g LHead ! k)) = k"
    and "k < length (rr_mem g LTail) \<Longrightarrow> unat (mval (rr_mem g LTail ! k)) = k"
    and "i < rr_N g \<Longrightarrow> n < length (rr_mem g (LSeq i)) \<Longrightarrow> unat (mval (rr_mem g (LSeq i) ! n)) = slot_seq (rr_N g) i n"
    and "i < rr_N g \<Longrightarrow> n < length (rr_mem g (LSeq i)) \<Longrightarrow> acquired i n (mview (rr_mem g (LSeq i) ! n))"
  using assms by (simp_all add: rr_hist_def)

lemma rr_sc_sel [simp]:
  "rb_size (g_rb (rr_sc g)) = rr_size g" "rb_buffer (g_rb (rr_sc g)) = rr_buffer g"
  "rb_head (g_rb (rr_sc g)) = newest (rr_mem g) LHead" "rb_tail (g_rb (rr_sc g)) = newest (rr_mem g) LTail"
  "rb_sequences (g_rb (rr_sc g)) = map (\<lambda>i. newest (rr_mem g) (LSeq i)) [0..<rr_N g]"
  "g_enq (rr_sc g) = rr_enq g" "g_deq (rr_sc g) = length (rr_mem g LTail) - 1"
  "g_pushing (rr_sc g) = rr_pushing g" "g_popping (rr_sc g) = rr_popping g"
  by (simp_all add: rr_sc_def)

lemma rr_GD:
  assumes "rr_G g"
  shows "rb_G (rr_sc g)" "mem_ok (rr_mem g)" "rr_hist g" "rr_quiet_slots g"
    and "is_pow2 (rr_size g)" "2 \<le> rr_N g" "rr_mem g l \<noteq> []"
    and "unat (newest (rr_mem g) LHead) = length (rr_enq g)" "Suc (length (rr_enq g)) = length (rr_mem g LHead)"
    and "unat (newest (rr_mem g) LTail) = length (rr_mem g LTail) - 1"
proof -
  show *: "rb_G (rr_sc g)" "mem_ok (rr_mem g)" "rr_hist g" "rr_quiet_slots g" using assms by (auto simp: rr_G_def)
  show ne: "rr_mem g l \<noteq> []" for l by (rule mem_okD(1) [OF *(2)])
  show "is_pow2 (rr_size g)" "2 \<le> rr_N g" "unat (newest (rr_mem g) LHead) = length (rr_enq g)"
    "unat (newest (rr_mem g) LTail) = length (rr_mem g LTail) - 1"
    using rb_G_D(1-3) [OF *(1)] ticket_ringD(1) [OF rb_G_D(4) [OF *(1)]] by auto
  moreover have "unat (newest (rr_mem g) LHead) = length (rr_mem g LHead) - 1" "0 < length (rr_mem g LHead)"
    using *(3) ne [of LHead] by (simp_all add: rr_hist_def last_conv_nth)
  ultimately show "Suc (length (rr_enq g)) = length (rr_mem g LHead)" by linarith
qed

lemma rr_index_mod: "rr_G g \<Longrightarrow> rr_index g pos = unat pos mod rr_N g"
  using rr_GD(5) [of g] by (simp add: rr_index_def is_pow2_mask)

text \<open>The newest message of a slot, in the terms of the interleaved machine.\<close>

lemma rr_newest_seq:
  assumes "rr_G g" "i < rr_N g"
  shows "map unat (rb_sequences (g_rb (rr_sc g))) ! i = slot_seq (rr_N g) i (length (rr_mem g (LSeq i)) - 1)"
  using assms(2) rr_GD(3,7) [OF assms(1)] by (simp add: rr_hist_def last_conv_nth)

lemma rr_msg_le_newest:
  assumes "rr_G g" "i < rr_N g" "n < length (rr_mem g (LSeq i))"
  shows "slot_seq (rr_N g) i n \<le> map unat (rb_sequences (g_rb (rr_sc g))) ! i"
  unfolding rr_newest_seq [OF assms(1,2)] using assms(3) rr_GD(6) [OF assms(1)] by (simp add: slot_seq_le_iff)

subsection \<open>Loads\<close>

text \<open>Stale values of the two counters are older tickets.\<close>

lemma rr_load_head:
  assumes G: "rr_G g" and v: "view_ok (rr_mem g) v" and ld: "load_rlx j LHead (rr_mem g) v = (w, v')"
  shows "rr_L g (PushCheck item w, v')"
proof -
  obtain i where i: "i < length (rr_mem g LHead)" "w = mval (rr_mem g LHead ! i)" "view_ok (rr_mem g) v'"
    using load_rlxE [OF ld v] by metis
  then show ?thesis using rr_histD(1) [OF rr_GD(3) [OF G] i(1)] rr_GD(9) [OF G] by (simp add: rr_L_def)
qed

lemma rr_load_tail:
  assumes G: "rr_G g" and v: "view_ok (rr_mem g) v" and ld: "load_rlx j LTail (rr_mem g) v = (w, v')"
  shows "rr_L g (PopCheck w, v')"
proof -
  obtain i where i: "i < length (rr_mem g LTail)" "w = mval (rr_mem g LTail ! i)" "view_ok (rr_mem g) v'"
    using load_rlxE [OF ld v] by metis
  then show ?thesis using rr_histD(2) [OF rr_GD(3) [OF G] i(1)] by (simp add: rr_L_def less_eq_Suc_le)
qed

text \<open>What an acquire load of a sequence number tells.\<close>

lemma rr_load_seq:
  assumes G: "rr_G g" and B: "rr_bound g" and v: "view_ok (rr_mem g) v" and i: "i < rr_N g"
    and ld: "load_acq j (LSeq i) (rr_mem g) v = (w, v')"
  obtains "rr_read_msg g i (unat w) v'" "unat w \<le> map unat (rb_sequences (g_rb (rr_sc g))) ! i"
    "unat w < 2 ^ 63" "view_ok (rr_mem g) v'"
proof -
  obtain n where n: "n < length (rr_mem g (LSeq i))" "w = mval (rr_mem g (LSeq i) ! n)"
      "mview (rr_mem g (LSeq i) ! n) \<le> v'" "view_ok (rr_mem g) v'"
    using load_acqE [OF ld v rr_GD(2) [OF G]] by metis
  have w: "unat w = slot_seq (rr_N g) i n" using rr_histD(3) [OF rr_GD(3) [OF G] i n(1)] n(2) by simp
  moreover have le: "unat w \<le> map unat (rb_sequences (g_rb (rr_sc g))) ! i"
    using rr_msg_le_newest [OF G i n(1)] w by simp
  moreover have "map unat (rb_sequences (g_rb (rr_sc g))) ! i \<le> length (rr_enq g) + rr_N g"
    using ring_seq_bound [OF rb_G_D(4) [OF rr_GD(1) [OF G]], of i] i by simp
  then have "unat w < 2 ^ 63" using le B by (simp add: rr_bound_def rb_bound_def)
  ultimately show ?thesis using n w that by (auto simp: rr_read_msg_def)
qed

lemma rr_push_check:
  assumes G: "rr_G g" and B: "rr_bound g" and L: "rr_L g (PushCheck item head, v)"
    and go: "rr_go j sp g (PushCheck item head, v) = (g', l', v')"
  shows "g' = g \<and> rr_L g (l', v') \<and> l' \<in> {PushCas item head, PushRet False, PushLoad item}"
proof -
  note r = rb_G_D(4) [OF rr_GD(1) [OF G]]
  have h: "unat head \<le> length (rr_enq g)" "unat head < 2 ^ 63"
    using L B by (auto simp: rr_L_def rr_bound_def rb_bound_def)
  have i: "unat head mod rr_N g < rr_N g" using rr_GD(6) [OF G] by simp
  obtain w v1 where ld: "load_acq j (LSeq (unat head mod rr_N g)) (rr_mem g) v = (w, v1)" by fastforce
  have v: "view_ok (rr_mem g) v" using L by (simp add: rr_L_def)
  obtain rd: "rr_read_msg g (unat head mod rr_N g) (unat w) v1" "view_ok (rr_mem g) v1" "unat w < 2 ^ 63"
    and le: "unat w \<le> map unat (rb_sequences (g_rb (rr_sc g))) ! (unat head mod rr_N g)"
    by (rule rr_load_seq [OF G B v i ld])
  have diff: "intptr_sub w head = Some (int (unat w) - int (unat head))"
    using rd h by (intro intptr_sub_small)
  have free: "length (rr_enq g) < length (rr_mem g LTail) - 1 + rr_N g \<and>
      \<not> (rr_N g \<le> length (rr_enq g) \<and> length (rr_enq g) - rr_N g \<in> rr_popping g)"
    if "unat w = unat head" "unat head = length (rr_enq g)"
    using that le ring_seq_le_head [OF r] ring_push_free [OF r] by simp
  have g': "g' = g" "v' = v1"
    and l': "l' = (if unat w = unat head then PushCas item head else if unat w < unat head then PushRet False else PushLoad item)"
    using go by (auto simp: rr_index_mod [OF G] ld diff simp del: of_nat_unat)
  show ?thesis using rd h free by (auto simp: g' l' rr_L_def)
qed

lemma rr_pop_check:
  assumes G: "rr_G g" and B: "rr_bound g" and L: "rr_L g (PopCheck tail, v)"
    and go: "rr_go j sp g (PopCheck tail, v) = (g', l', v')"
  shows "g' = g \<and> rr_L g (l', v') \<and> l' \<in> {PopCas tail, PopRet None, PopLoad}"
proof -
  note r = rb_G_D(4) [OF rr_GD(1) [OF G]]
  have t: "unat tail \<le> length (rr_mem g LTail) - 1" using L by (auto simp: rr_L_def)
  then have u: "unat (tail + 1) = unat tail + 1" "unat (tail + 1) < 2 ^ 63"
    using B ticket_ringD(1,5) [OF r] by (auto simp: rr_bound_def rb_bound_def unat_plus_1)
  have i: "unat tail mod rr_N g < rr_N g" using rr_GD(6) [OF G] by simp
  obtain w v1 where ld: "load_acq j (LSeq (unat tail mod rr_N g)) (rr_mem g) v = (w, v1)" by fastforce
  have v: "view_ok (rr_mem g) v" using L by (simp add: rr_L_def)
  obtain rd: "rr_read_msg g (unat tail mod rr_N g) (unat w) v1" "view_ok (rr_mem g) v1" "unat w < 2 ^ 63"
    and le: "unat w \<le> map unat (rb_sequences (g_rb (rr_sc g))) ! (unat tail mod rr_N g)"
    by (rule rr_load_seq [OF G B v i ld])
  have diff: "intptr_sub w (tail + 1) = Some (int (unat w) - int (unat tail + 1))"
    using rd u intptr_sub_small [of w "tail + 1"] by simp
  have ready: "length (rr_mem g LTail) - 1 < length (rr_enq g) \<and> length (rr_mem g LTail) - 1 \<notin> rr_pushing g"
    if "unat w = unat tail + 1" "unat tail = length (rr_mem g LTail) - 1"
    using that le ring_seq_le_tail [OF r] ring_pop_ready [OF r] by simp
  have g': "g' = g" "v' = v1"
    and l': "l' = (if unat w = unat tail + 1 then PopCas tail else if unat w < unat tail + 1 then PopRet None else PopLoad)"
    using go by (auto simp: rr_index_mod [OF G] ld diff simp del: of_nat_unat)
  show ?thesis using rd t ready by (auto simp: g' l' rr_L_def)
qed

subsection \<open>Taking a ticket\<close>

lemma rmw_rlxD:
  assumes "rmw False False l d m v = (m', v')"
  shows "m' l = m l @ [Msg d (see l (length (m l)) (mview (last (m l))))]" "k \<noteq> l \<Longrightarrow> m' k = m k"
    "newest m' l = d" "v' = see l (length (m l)) v"
  using assms by (auto simp: rmw_def Let_def)

text \<open>A thread whose ticket is the next one has read the newest message of a slot nobody uses.\<close>

lemma rr_read_newest:
  assumes G: "rr_G g" and i: "i < rr_N g" and v: "view_ok (rr_mem g) v" and rd: "rr_read_msg g i s v"
    and le: "map unat (rb_sequences (g_rb (rr_sc g))) ! i \<le> s"
    and quiet: "\<forall>k\<in>rr_pushing g \<union> rr_popping g. k mod rr_N g \<noteq> i"
  shows "rr_owns_slot g i False v"
proof -
  obtain n where n: "n < length (rr_mem g (LSeq i))" "slot_seq (rr_N g) i n = s" "mview (rr_mem g (LSeq i) ! n) \<le> v"
    using rd by (auto simp: rr_read_msg_def)
  have acq: "acquired i n v" using rr_histD(4) [OF rr_GD(3) [OF G] i n(1)] n(3) by (rule acquired_mono)
  have "length (rr_mem g (LSeq i)) - 1 \<le> n"
    using n(2) le rr_newest_seq [OF G i] slot_seq_le_iff [OF rr_GD(6) [OF G]] by metis
  then have len: "length (rr_mem g (LSeq i)) = Suc n" using n(1) by simp
  moreover have "seen v (LSeq i) < length (rr_mem g (LSeq i))" using v by (simp add: view_ok_def)
  moreover have "Suc (length (rr_trail g i)) = length (rr_mem g (LSeq i))"
    using rr_GD(4) [OF G] i quiet by (simp add: rr_quiet_slots_def)
  moreover have "mview (last (rr_mem g (LSeq i))) \<le> v" using n(3) len rr_GD(7) [OF G, of "LSeq i"] by (simp add: last_conv_nth)
  ultimately show ?thesis using acq by (auto simp: rr_owns_slot_def latest_def write_ordered_def acquired_def)
qed

lemma rr_push_quiet:
  assumes G: "rr_G g" and "length (rr_enq g) < length (rr_mem g LTail) - 1 + rr_N g"
    "\<not> (rr_N g \<le> length (rr_enq g) \<and> length (rr_enq g) - rr_N g \<in> rr_popping g)"
    and k: "k \<in> rr_pushing g \<union> rr_popping g"
  shows "k mod rr_N g \<noteq> length (rr_enq g) mod rr_N g"
proof
  assume eq: "k mod rr_N g = length (rr_enq g) mod rr_N g"
  note r = rb_G_D(4) [OF rr_GD(1) [OF G]]
  have "k < length (rr_enq g)" using k ticket_ringD(5,7,8) [OF r] by fastforce
  then have gap: "k + rr_N g \<le> length (rr_enq g)" by (rule mod_eq_gap [OF eq])
  then have "k \<in> rr_popping g" using k ticket_ringD(7) [OF r, of k] assms(2) by auto
  moreover from this have "length (rr_enq g) \<le> k + rr_N g" using ticket_ringD(8) [OF r, of k] by simp
  ultimately show False using gap assms(3) by (metis add_diff_cancel_right' add_leD2 le_antisym)
qed

lemma rr_pop_quiet:
  assumes G: "rr_G g" and "length (rr_mem g LTail) - 1 < length (rr_enq g)" "length (rr_mem g LTail) - 1 \<notin> rr_pushing g"
    and k: "k \<in> rr_pushing g \<union> rr_popping g"
  shows "k mod rr_N g \<noteq> (length (rr_mem g LTail) - 1) mod rr_N g"
proof
  let ?T = "length (rr_mem g LTail) - 1"
  assume eq: "k mod rr_N g = ?T mod rr_N g"
  note r = rb_G_D(4) [OF rr_GD(1) [OF G]]
  have "k \<noteq> ?T" using k assms(3) ticket_ringD(8) [OF r, of k] by auto
  then consider "k + rr_N g \<le> ?T" | "?T + rr_N g \<le> k" using mod_eq_gap [OF eq] mod_eq_gap [OF eq [symmetric]] by linarith
  then show False
  proof cases
    case 1
    then show False using k ticket_ringD(7,8) [OF r, of k] assms(2) rr_GD(6) [OF G] by auto
  next
    case 2
    then show False using k ticket_ringD(6) [OF r] ticket_ringD(7,8) [OF r, of k] rr_GD(6) [OF G] by auto
  qed
qed

lemma rr_quiet_slots_busy:
  "rr_quiet_slots g \<Longrightarrow> rr_size g' = rr_size g \<Longrightarrow> rr_trail g' = rr_trail g \<Longrightarrow> (\<And>i. rr_mem g' (LSeq i) = rr_mem g (LSeq i)) \<Longrightarrow>
   rr_pushing g \<union> rr_popping g \<subseteq> rr_pushing g' \<union> rr_popping g' \<Longrightarrow> rr_quiet_slots g'"
  unfolding rr_quiet_slots_def by (metis subset_iff)

lemma rr_push_cas:
  assumes G: "rr_G g" and B': "rr_bound g'" and L: "rr_L g (PushCas item head, v)"
    and rm: "newest (rr_mem g) LHead = head" "rmw False False LHead (head + 1) (rr_mem g) v = (m, v')"
    and g': "g' = g\<lparr>rr_mem := m, rr_enq := rr_enq g @ [item], rr_pushing := insert (unat head) (rr_pushing g)\<rparr>"
  shows "rb_go False (rr_sc g) (PushCas item head) = (rr_sc g', PushWrite item head)"
    and "rr_G g' \<and> rr_L g' (PushWrite item head, v')"
proof -
  note rd = rmw_rlxD [OF rm(2)] and ok = rmw_ok [OF rm(2) _ rr_GD(2) [OF G]]
  have v: "view_ok (rr_mem g) v" and bL: "rb_L (rr_sc g) (PushCas item head)" using L by (auto simp: rr_L_def)
  show sc: "rb_go False (rr_sc g) (PushCas item head) = (rr_sc g', PushWrite item head)"
    using rm(1) rd by (simp add: rr_sc_def g')
  have own: "rb_G (rr_sc g') \<and> rb_L (rr_sc g') (PushWrite item head)"
    using rb_own_push_cas [OF sc _ rr_GD(1) [OF G] bL] B' by (simp add: rr_bound_def)
  have uh: "unat head = length (rr_enq g)" "Suc (unat head) = length (rr_mem g LHead)"
    using rm(1) rr_GD(8,9) [OF G] by auto
  have "unat (head + 1) = Suc (unat head)" using B' uh by (simp add: rr_bound_def rb_bound_def g' unat_plus_1)
  then have "rr_hist g'" using rr_GD(3) [OF G] uh(2)
    by (auto simp: rr_hist_def g' rd nth_append less_Suc_eq)
  moreover have "rr_quiet_slots g'" by (rule rr_quiet_slots_busy [OF rr_GD(4) [OF G]]) (auto simp: g' rd)
  moreover have "rr_owns_slot g (unat head mod rr_N g) False v"
  proof (rule rr_read_newest [OF G _ v])
    have free: "length (rr_enq g) < length (rr_mem g LTail) - 1 + rr_N g"
      "\<not> (rr_N g \<le> length (rr_enq g) \<and> length (rr_enq g) - rr_N g \<in> rr_popping g)" using bL uh by auto
    show "\<forall>k\<in>rr_pushing g \<union> rr_popping g. k mod rr_N g \<noteq> unat head mod rr_N g"
      using rr_push_quiet [OF G free] uh by simp
    show "rr_read_msg g (unat head mod rr_N g) (unat head) v" using L by (simp add: rr_L_def)
    show "map unat (rb_sequences (g_rb (rr_sc g))) ! (unat head mod rr_N g) \<le> unat head"
      using ring_seq_le_head [OF rb_G_D(4) [OF rr_GD(1) [OF G]]] uh by simp
  qed (use rr_GD(6) [OF G] in simp)
  then have "rr_owns_slot g' (unat head mod rr_N g) False v'"
    using order_trans [OF _ ok(3)] v by (simp add: rr_owns_slot_def latest_def write_ordered_def g' rd)
  ultimately show "rr_G g' \<and> rr_L g' (PushWrite item head, v')"
    using own ok v by (auto simp: rr_G_def rr_L_def g')
qed

lemma rr_pop_cas:
  assumes G: "rr_G g" and B: "rr_bound g" and L: "rr_L g (PopCas tail, v)"
    and rm: "newest (rr_mem g) LTail = tail" "rmw False False LTail (tail + 1) (rr_mem g) v = (m, v')"
    and g': "g' = g\<lparr>rr_mem := m, rr_popping := insert (unat tail) (rr_popping g)\<rparr>"
  shows "rb_go False (rr_sc g) (PopCas tail) = (rr_sc g', PopRead tail)"
    and "rr_G g' \<and> rr_L g' (PopRead tail, v')"
proof -
  note rd = rmw_rlxD [OF rm(2)] and ok = rmw_ok [OF rm(2) _ rr_GD(2) [OF G]]
  have v: "view_ok (rr_mem g) v" and bL: "rb_L (rr_sc g) (PopCas tail)" using L by (auto simp: rr_L_def)
  have ut: "unat tail = length (rr_mem g LTail) - 1" "Suc (unat tail) = length (rr_mem g LTail)"
    using rm(1) rr_GD(10) [OF G] rr_GD(7) [OF G, of LTail] by auto
  show sc: "rb_go False (rr_sc g) (PopCas tail) = (rr_sc g', PopRead tail)"
    using rm(1) rd ut(2) by (simp add: rr_sc_def g')
  have own: "rb_G (rr_sc g') \<and> rb_L (rr_sc g') (PopRead tail)"
    using rb_own_pop_cas [OF sc _ rr_GD(1) [OF G] bL] B by (simp add: rr_bound_def)
  have ready: "length (rr_mem g LTail) - 1 < length (rr_enq g)" "length (rr_mem g LTail) - 1 \<notin> rr_pushing g"
    using bL ut by auto
  then have "unat (tail + 1) = Suc (unat tail)" using B ut(1) by (simp add: rr_bound_def rb_bound_def unat_plus_1)
  then have "rr_hist g'" using rr_GD(3) [OF G] ut(2)
    by (auto simp: rr_hist_def g' rd nth_append less_Suc_eq)
  moreover have "rr_quiet_slots g'" by (rule rr_quiet_slots_busy [OF rr_GD(4) [OF G]]) (auto simp: g' rd)
  moreover have "rr_owns_slot g (unat tail mod rr_N g) False v"
  proof (rule rr_read_newest [OF G _ v])
    show "\<forall>k\<in>rr_pushing g \<union> rr_popping g. k mod rr_N g \<noteq> unat tail mod rr_N g"
      using rr_pop_quiet [OF G ready] ut(1) by simp
    show "rr_read_msg g (unat tail mod rr_N g) (unat tail + 1) v" using L by (simp add: rr_L_def)
    show "map unat (rb_sequences (g_rb (rr_sc g))) ! (unat tail mod rr_N g) \<le> unat tail + 1"
      using ring_seq_le_tail [OF rb_G_D(4) [OF rr_GD(1) [OF G]]] ut(1) by simp
  qed (use rr_GD(6) [OF G] in simp)
  then have "rr_owns_slot g' (unat tail mod rr_N g) False v'"
    using order_trans [OF _ ok(3)] v by (simp add: rr_owns_slot_def latest_def write_ordered_def g' rd)
  ultimately show "rr_G g' \<and> rr_L g' (PopRead tail, v')"
    using own ok v by (auto simp: rr_G_def rr_L_def g')
qed

subsection \<open>Using and releasing a slot\<close>

lemma rr_access:
  assumes G: "rr_G g" and own: "rr_owns_slot g i False v" and busy: "k \<in> rr_pushing g \<union> rr_popping g" "k mod rr_N g = i"
    and tr: "leave_trail i True (rr_trail g) v = (h, v')"
  shows "rr_hist (g\<lparr>rr_buffer := b, rr_trail := h\<rparr>)" "rr_quiet_slots (g\<lparr>rr_buffer := b, rr_trail := h\<rparr>)"
    and "rr_owns_slot (g\<lparr>rr_buffer := b, rr_trail := h\<rparr>) i True v'"
proof -
  have h: "h = (rr_trail g)(i := rr_trail g i @ [True])" and v': "v' = know i (length (rr_trail g i)) v"
    using tr by (auto simp: leave_trail_def)
  show "rr_hist (g\<lparr>rr_buffer := b, rr_trail := h\<rparr>)" using rr_GD(3) [OF G] by (simp add: rr_hist_def)
  show "rr_quiet_slots (g\<lparr>rr_buffer := b, rr_trail := h\<rparr>)"
    using rr_GD(4) [OF G] busy by (auto simp: rr_quiet_slots_def h)
  have "write_ordered i h v'" using own tr by (auto simp: rr_owns_slot_def intro: write_ordered_leave)
  then show "rr_owns_slot (g\<lparr>rr_buffer := b, rr_trail := h\<rparr>) i True v'"
    using own order_trans [OF _ know_ge] by (auto simp: rr_owns_slot_def latest_def h v')
qed

lemma rr_own_sc:
  assumes G: "rr_G g" and B: "rr_bound g" and bL: "rb_L (rr_sc g) l" and sc: "rb_go False (rr_sc g) l = (rr_sc g', l')"
    and "rr_size g' = rr_size g" "rr_enq g' = rr_enq g"
  shows "rb_G (rr_sc g') \<and> rb_L (rr_sc g') l'"
proof -
  have "rb_bound (rr_sc g')" using B assms(5,6) by (simp add: rr_bound_def rb_bound_def)
  then show ?thesis
    using rb_own_step [OF _ _ rr_GD(1) [OF G] bL, of "Go False" "rr_sc g'" l'] sc unfolding rb_exec.simps by blast
qed

lemma rr_push_write:
  assumes G: "rr_G g" and B: "rr_bound g" and L: "rr_L g (PushWrite item head, v)"
    and go: "rr_go j sp g (PushWrite item head, v) = (g', l', v')"
  shows "rb_go False (rr_sc g) (PushWrite item head) = (rr_sc g', l')" "rr_G g' \<and> rr_L g' (l', v')"
proof -
  let ?i = "unat head mod rr_N g"
  have own: "rr_owns_slot g ?i False v" "write_ordered ?i (rr_trail g) v"
    and bL: "rb_L (rr_sc g) (PushWrite item head)" and v: "view_ok (rr_mem g) v"
    using L by (auto simp: rr_L_def rr_owns_slot_def)
  obtain h w where tr: "leave_trail ?i True (rr_trail g) v = (h, w)" by fastforce
  have g': "g' = g\<lparr>rr_buffer := (rr_buffer g)[?i := item], rr_trail := h\<rparr>" and l': "l' = PushPublish head" "v' = w"
    using go own(2) tr by (auto simp: rr_index_mod [OF G] Let_def)
  show sc: "rb_go False (rr_sc g) (PushWrite item head) = (rr_sc g', l')"
    using rr_GD(5) [OF G] by (simp add: rr_sc_def g' l' rb_write_def rb_index_mod)
  have *: "rb_G (rr_sc g') \<and> rb_L (rr_sc g') l'" by (rule rr_own_sc [OF G B bL sc]) (simp_all add: g')
  have busy: "unat head \<in> rr_pushing g \<union> rr_popping g" using bL by simp
  note acc = rr_access [OF G own(1) busy refl tr, of "(rr_buffer g)[?i := item]", folded g']
  have "v' = know ?i (length (rr_trail g ?i)) v" using tr l' by (simp add: leave_trail_def)
  then show "rr_G g' \<and> rr_L g' (l', v')" using * acc v rr_GD(2) [OF G] by (simp add: rr_G_def rr_L_def l') (simp add: g')
qed

lemma rr_pop_read:
  assumes G: "rr_G g" and B: "rr_bound g" and L: "rr_L g (PopRead tail, v)"
    and go: "rr_go j sp g (PopRead tail, v) = (g', l', v')"
  shows "rb_go False (rr_sc g) (PopRead tail) = (rr_sc g', l')" "rr_G g' \<and> rr_L g' (l', v')"
proof -
  let ?i = "unat tail mod rr_N g"
  have own: "rr_owns_slot g ?i False v" "write_ordered ?i (rr_trail g) v"
    and bL: "rb_L (rr_sc g) (PopRead tail)" and v: "view_ok (rr_mem g) v"
    using L by (auto simp: rr_L_def rr_owns_slot_def)
  obtain h w where tr: "leave_trail ?i True (rr_trail g) v = (h, w)" by fastforce
  have g': "g' = g\<lparr>rr_buffer := rr_buffer g, rr_trail := h\<rparr>" and l': "l' = PopPublish (rr_buffer g ! ?i) tail" "v' = w"
    using go own(2) tr by (auto simp: rr_index_mod [OF G] Let_def)
  show sc: "rb_go False (rr_sc g) (PopRead tail) = (rr_sc g', l')"
    using rr_GD(5) [OF G] by (simp add: rr_sc_def g' l' rb_index_mod)
  have *: "rb_G (rr_sc g') \<and> rb_L (rr_sc g') l'" by (rule rr_own_sc [OF G B bL sc]) (simp_all add: g')
  have busy: "unat tail \<in> rr_pushing g \<union> rr_popping g" using bL by simp
  note acc = rr_access [OF G own(1) busy refl tr, of "rr_buffer g", folded g']
  have "v' = know ?i (length (rr_trail g ?i)) v" using tr l' by (simp add: leave_trail_def)
  then show "rr_G g' \<and> rr_L g' (l', v')" using * acc v rr_GD(2) [OF G] by (simp add: rr_G_def rr_L_def l') (simp add: g')
qed

lemma rr_release:
  assumes G: "rr_G g" and i: "i < rr_N g" and own: "rr_owns_slot g i True v" and v: "view_ok (rr_mem g) v"
    and st: "store_rel (LSeq i) w (rr_mem g) v = Some (m, v')"
    and w: "unat w = slot_seq (rr_N g) i (length (rr_mem g (LSeq i)))"
    and PQ: "\<And>k. k \<in> rr_pushing g \<union> rr_popping g \<Longrightarrow> k mod rr_N g \<noteq> i \<Longrightarrow> k \<in> P \<union> Q"
  defines "g' \<equiv> g\<lparr>rr_mem := m, rr_pushing := P, rr_popping := Q\<rparr>"
  shows "mem_ok (rr_mem g')" "view_ok (rr_mem g') v'" "rr_hist g'" "rr_quiet_slots g'"
    and "mem_le (rr_mem g) (rr_mem g')"
    and "unat pos mod rr_N g = i \<Longrightarrow> rr_sc g' = (rr_sc g)\<lparr>g_rb := rb_publish (g_rb (rr_sc g)) pos w, g_pushing := P, g_popping := Q\<rparr>"
proof -
  note st = store_relD [OF st v rr_GD(2) [OF G]]
  show "mem_ok (rr_mem g')" "view_ok (rr_mem g') v'" using st by (auto simp: g'_def)
  have m: "m l = (if l = LSeq i then rr_mem g l @ [Msg w v'] else rr_mem g l)" for l by (subst st(1)) simp
  have acq: "acquired i (length (rr_mem g (LSeq i))) v'"
    using own by (auto simp: acquired_def st(2) rr_owns_slot_def write_ordered_def)
  show "rr_hist g'"
    using rr_GD(3) [OF G] w acq by (auto simp: rr_hist_def g'_def m nth_append less_Suc_eq)
  show "rr_quiet_slots g'"
    unfolding rr_quiet_slots_def
  proof (intro allI impI)
    fix k assume "k < rr_N g'" "\<forall>q\<in>rr_pushing g' \<union> rr_popping g'. q mod rr_N g' \<noteq> k"
    then show "Suc (length (rr_trail g' k)) = length (rr_mem g' (LSeq k))"
      using own rr_GD(4) [OF G] PQ by (cases "k = i") (auto simp: g'_def m rr_owns_slot_def rr_quiet_slots_def)
  qed
  show "mem_le (rr_mem g) (rr_mem g')" using st(6) by (simp add: g'_def)
  have "map (\<lambda>k. newest m (LSeq k)) [0..<rr_N g] = (map (\<lambda>k. newest (rr_mem g) (LSeq k)) [0..<rr_N g])[i := w]"
    using i by (intro nth_equalityI) (auto simp: m nth_list_update)
  then show "rr_sc g' = (rr_sc g)\<lparr>g_rb := rb_publish (g_rb (rr_sc g)) pos w, g_pushing := P, g_popping := Q\<rparr>"
    if "unat pos mod rr_N g = i"
    using that rr_GD(5) [OF G] by (simp add: rr_sc_def g'_def m rb_publish_def rb_index_mod)
qed

lemma rr_push_publish:
  assumes G: "rr_G g" and B: "rr_bound g" and L: "rr_L g (PushPublish head, v)"
    and go: "rr_go j sp g (PushPublish head, v) = (g', l', v')"
  shows "rb_go False (rr_sc g) (PushPublish head) = (rr_sc g', l')" "rr_G g' \<and> rr_L g' (l', v')"
    and "mem_le (rr_mem g) (rr_mem g')"
proof -
  let ?i = "unat head mod rr_N g"
  note r = rb_G_D(4) [OF rr_GD(1) [OF G]]
  have own: "rr_owns_slot g ?i True v" "latest (LSeq ?i) (rr_mem g) v" and v: "view_ok (rr_mem g) v"
    and bL: "rb_L (rr_sc g) (PushPublish head)" using L by (auto simp: rr_L_def rr_owns_slot_def)
  obtain m w where st: "store_rel (LSeq ?i) (head + 1) (rr_mem g) v = Some (m, w)" using store_rel_latest [OF own(2)] by blast
  have g': "g' = g\<lparr>rr_mem := m, rr_pushing := rr_pushing g - {unat head}, rr_popping := rr_popping g\<rparr>"
    and l': "l' = PushRet True" "v' = w" using go st by (auto simp: rr_index_mod [OF G])
  have i: "?i < rr_N g" using rr_GD(6) [OF G] by simp
  have P: "unat head \<in> rr_pushing g" using bL by simp
  then have k: "length (rr_mem g LTail) - 1 \<le> unat head" "unat head < length (rr_enq g)" using ticket_ringD(7) [OF r] by auto
  then have u: "unat (head + 1) = unat head + 1" using B by (simp add: rr_bound_def rb_bound_def unat_plus_1)
  let ?n = "length (rr_mem g (LSeq ?i)) - 1"
  have n: "slot_seq (rr_N g) ?i ?n = unat head"
    using rr_newest_seq [OF G i] ticket_ringD(9) [OF r, of "unat head"] k P by simp
  then have "even ?n" using slot_seq_even [OF rr_GD(6) [OF G] i, of ?n] by simp
  moreover have "length (rr_mem g (LSeq ?i)) = Suc ?n" using own(2) by (simp add: latest_def)
  ultimately have w: "unat (head + 1) = slot_seq (rr_N g) ?i (length (rr_mem g (LSeq ?i)))"
    using n u slot_seq_Suc [of "rr_N g" ?i ?n] by simp
  have PQ: "k \<in> rr_pushing g \<union> rr_popping g \<Longrightarrow> k mod rr_N g \<noteq> ?i \<Longrightarrow> k \<in> rr_pushing g - {unat head} \<union> rr_popping g" for k
    by auto
  note rel = rr_release [OF G i own(1) v st w PQ, folded g']
  show sc: "rb_go False (rr_sc g) (PushPublish head) = (rr_sc g', l')" using rel(6) [of head] by (simp add: l')
  show "rr_G g' \<and> rr_L g' (l', v')"
    using rr_own_sc [OF G B bL sc] rel by (simp add: rr_G_def rr_L_def l') (simp add: g')
  show "mem_le (rr_mem g) (rr_mem g')" by (rule rel(5))
qed

lemma rr_pop_publish:
  assumes G: "rr_G g" and B: "rr_bound g" and L: "rr_L g (PopPublish item tail, v)"
    and go: "rr_go j sp g (PopPublish item tail, v) = (g', l', v')"
  shows "rb_go False (rr_sc g) (PopPublish item tail) = (rr_sc g', l')" "rr_G g' \<and> rr_L g' (l', v')"
    and "mem_le (rr_mem g) (rr_mem g')"
proof -
  let ?i = "unat tail mod rr_N g"
  note r = rb_G_D(4) [OF rr_GD(1) [OF G]] and mask = rb_mask_def [of "g_rb (rr_sc g)", simplified]
  have own: "rr_owns_slot g ?i True v" "latest (LSeq ?i) (rr_mem g) v" and v: "view_ok (rr_mem g) v"
    and bL: "rb_L (rr_sc g) (PopPublish item tail)" using L by (auto simp: rr_L_def rr_owns_slot_def)
  let ?w = "tail + (rr_size g - 1) + 1"
  obtain m w where st: "store_rel (LSeq ?i) ?w (rr_mem g) v = Some (m, w)" using store_rel_latest [OF own(2)] by blast
  have g': "g' = g\<lparr>rr_mem := m, rr_pushing := rr_pushing g, rr_popping := rr_popping g - {unat tail}\<rparr>"
    and l': "l' = PopRet (Some item)" "v' = w" using go st by (auto simp: rr_index_mod [OF G])
  have i: "?i < rr_N g" using rr_GD(6) [OF G] by simp
  have Q: "unat tail \<in> rr_popping g" using bL by simp
  then have "unat tail < length (rr_enq g)" using ticket_ringD(5,8) [OF r] by fastforce
  then have u: "unat ?w = unat tail + rr_N g"
    using B rb_next_seq [of "g_rb (rr_sc g)" tail] rr_GD(5) [OF G] by (simp add: rr_bound_def rb_bound_def mask)
  let ?n = "length (rr_mem g (LSeq ?i)) - 1"
  have n: "slot_seq (rr_N g) ?i ?n = unat tail + 1"
    using rr_newest_seq [OF G i] ring_slot_Q [OF r, of "unat tail"] Q by simp
  moreover have "(unat tail + 1) mod rr_N g \<noteq> ?i" using mod_eq_gap [of "unat tail" "rr_N g" "unat tail + 1"] rr_GD(6) [OF G] by auto
  ultimately have "odd ?n" using slot_seq_even [OF rr_GD(6) [OF G] i, of ?n] by simp
  moreover have "length (rr_mem g (LSeq ?i)) = Suc ?n" using own(2) by (simp add: latest_def)
  ultimately have w: "unat ?w = slot_seq (rr_N g) ?i (length (rr_mem g (LSeq ?i)))"
    using n u slot_seq_Suc [of "rr_N g" ?i ?n] by simp
  have PQ: "k \<in> rr_pushing g \<union> rr_popping g \<Longrightarrow> k mod rr_N g \<noteq> ?i \<Longrightarrow> k \<in> rr_pushing g \<union> (rr_popping g - {unat tail})" for k
    by auto
  note rel = rr_release [OF G i own(1) v st w PQ, folded g']
  show sc: "rb_go False (rr_sc g) (PopPublish item tail) = (rr_sc g', l')" using rel(6) [of tail] by (simp add: l' mask)
  show "rr_G g' \<and> rr_L g' (l', v')"
    using rr_own_sc [OF G B bL sc] rel by (simp add: rr_G_def rr_L_def l') (simp add: g')
  show "mem_le (rr_mem g) (rr_mem g')" by (rule rel(5))
qed

subsection \<open>Obligations of the proof rule\<close>

definition rr_load_step :: "'a rr_global \<Rightarrow> 'a rr_global \<Rightarrow> 'a rb_pc \<Rightarrow> 'a rb_pc \<Rightarrow> bool" where
  "rr_load_step g g' l l' \<longleftrightarrow> g' = g \<and> rb_owns l = None \<and> rb_owns l' = None"

text \<open>
  Every access either is a load, which leaves the shared state alone, or is the access the
  interleaved machine makes on the newest messages.
\<close>

lemma rr_go_step:
  assumes G: "rr_G g" and B: "rr_bound g" and B': "rr_bound g'" and L: "rr_L g (l, v)" and go: "rr_go j sp g (l, v) = (g', l', v')"
  shows "rr_G g' \<and> rr_L g' (l', v') \<and> (rr_load_step g g' l l' \<or> rb_go False (rr_sc g) l = (rr_sc g', l'))"
proof (cases l)
  case (PushLoad item)
  have v: "view_ok (rr_mem g) v" using L by (simp add: rr_L_def)
  then show ?thesis
    using G go PushLoad rr_load_head [OF G v] by (auto simp: rr_load_step_def rb_owns_def split: prod.splits)
next
  case (PushCheck item head)
  then show ?thesis using G rr_push_check [OF G B _ go [unfolded PushCheck]] L by (auto simp: rr_load_step_def rb_owns_def)
next
  case (PushCas item head)
  have v: "view_ok (rr_mem g) v" using L by (simp add: rr_L_def)
  obtain r m w where cas: "cas_weak False False False j sp LHead head (head + 1) (rr_mem g) v = (r, m, w)" by (metis prod_cases3)
  from cas show ?thesis
  proof (cases rule: cas_weakE)
    case success
    then have "g' = g\<lparr>rr_mem := m, rr_enq := rr_enq g @ [item], rr_pushing := insert (unat head) (rr_pushing g)\<rparr>"
      "l' = PushWrite item head" "v' = w" using go cas PushCas by auto
    then show ?thesis using rr_push_cas [OF G B' L [unfolded PushCas] success(2,3)] PushCas by simp
  next
    case (failure z)
    then show ?thesis using go cas PushCas G rr_load_head [OF G v, of j] failure(3) by (auto simp: rr_load_step_def rb_owns_def)
  qed
next
  case (PopLoad)
  have v: "view_ok (rr_mem g) v" using L by (simp add: rr_L_def)
  then show ?thesis
    using G go PopLoad rr_load_tail [OF G v] by (auto simp: rr_load_step_def rb_owns_def split: prod.splits)
next
  case (PopCheck tail)
  then show ?thesis using G rr_pop_check [OF G B _ go [unfolded PopCheck]] L by (auto simp: rr_load_step_def rb_owns_def)
next
  case (PopCas tail)
  have v: "view_ok (rr_mem g) v" using L by (simp add: rr_L_def)
  obtain r m w where cas: "cas_weak False False False j sp LTail tail (tail + 1) (rr_mem g) v = (r, m, w)" by (metis prod_cases3)
  from cas show ?thesis
  proof (cases rule: cas_weakE)
    case success
    then have "g' = g\<lparr>rr_mem := m, rr_popping := insert (unat tail) (rr_popping g)\<rparr>"
      "l' = PopRead tail" "v' = w" using go cas PopCas by auto
    then show ?thesis using rr_pop_cas [OF G B L [unfolded PopCas] success(2,3)] PopCas by simp
  next
    case (failure z)
    then show ?thesis using go cas PopCas G rr_load_tail [OF G v, of j] failure(3) by (auto simp: rr_load_step_def rb_owns_def)
  qed
next
  case (PushWrite item head)
  then show ?thesis using rr_push_write [OF G B _ go [unfolded PushWrite]] L by simp
next
  case (PushPublish head)
  then show ?thesis using rr_push_publish [OF G B _ go [unfolded PushPublish]] L by simp
next
  case (PopRead tail)
  then show ?thesis using rr_pop_read [OF G B _ go [unfolded PopRead]] L by blast
next
  case (PopPublish item tail)
  then show ?thesis using rr_pop_publish [OF G B _ go [unfolded PopPublish]] L by simp
qed (use L G go in \<open>auto simp: rr_load_step_def rb_owns_def rr_L_def\<close>)

lemma rr_go_frame:
  assumes G: "rr_G g" and L: "rr_L g (l, v)" and go: "rr_go j sp g (l, v) = (g', l', v')"
  shows "mem_le (rr_mem g) (rr_mem g')" "rr_size g' = rr_size g" "length (rr_enq g) \<le> length (rr_enq g')"
    and "(\<And>k. rb_owns l = Some k \<Longrightarrow> unat k mod rr_N g \<noteq> i) \<Longrightarrow>
      rr_mem g' (LSeq i) = rr_mem g (LSeq i) \<and> rr_trail g' i = rr_trail g i"
  using go rr_index_mod [OF G]
  by (cases l; auto simp: rb_owns_def cas_weak_def rmw_def store_rel_def leave_trail_def Let_def
      split: prod.splits option.splits if_splits)+

lemma rr_exec_step:
  assumes ex: "rr_exec a g (l, v) = (g', l', v')" and B': "rr_bound g'" and G: "rr_G g" and L: "rr_L g (l, v)"
  shows "rr_G g' \<and> rr_L g' (l', v')" "rr_load_step g g' l l' \<or> (\<exists>b. rb_exec b (rr_sc g) l = (rr_sc g', l'))"
proof -
  have "rr_G g' \<and> rr_L g' (l', v') \<and> (rr_load_step g g' l l' \<or> (\<exists>b. rb_exec b (rr_sc g) l = (rr_sc g', l')))"
  proof (cases a)
    case (RrPush item)
    then have "rb_exec (CallPush item) (rr_sc g) l = (rr_sc g', l')" using ex by simp
    moreover have "rr_G g' \<and> rr_L g' (l', v')" using ex RrPush G L by (auto simp: rr_L_def split: rb_pc.splits)
    ultimately show ?thesis by blast
  next
    case RrPop
    then have "rb_exec CallPop (rr_sc g) l = (rr_sc g', l')" using ex by simp
    moreover have "rr_G g' \<and> rr_L g' (l', v')" using ex RrPop G L by (auto simp: rr_L_def split: rb_pc.splits)
    ultimately show ?thesis by blast
  next
    case (RrGo j sp)
    then have go: "rr_go j sp g (l, v) = (g', l', v')" using ex by simp
    have B: "rr_bound g" using B' rr_go_frame(2,3) [OF G L go] by (simp add: rr_bound_def rb_bound_def)
    show ?thesis using rr_go_step [OF G B B' L go] rb_exec.simps(3) by metis
  qed
  then show "rr_G g' \<and> rr_L g' (l', v')" "rr_load_step g g' l l' \<or> (\<exists>b. rb_exec b (rr_sc g) l = (rr_sc g', l'))" by blast+
qed

lemma rr_exec_frame:
  assumes "rr_exec a g (l, v) = (g', l', v')" "rr_G g" "rr_L g (l, v)"
  shows "mem_le (rr_mem g) (rr_mem g')" "rr_size g' = rr_size g" "length (rr_enq g) \<le> length (rr_enq g')"
    and "(\<And>k. rb_owns l = Some k \<Longrightarrow> unat k mod rr_N g \<noteq> i) \<Longrightarrow>
      rr_mem g' (LSeq i) = rr_mem g (LSeq i) \<and> rr_trail g' i = rr_trail g i"
  using assms rr_go_frame [OF assms(2,3)] by (cases a; auto)+

lemma rr_bound_down: "rr_exec a g lv = (g', lv') \<Longrightarrow> rr_bound g' \<Longrightarrow> rr_bound g"
proof -
  assume ex: "rr_exec a g lv = (g', lv')" and B: "rr_bound g'"
  obtain l v where lv: "lv = (l, v)" by (cases lv)
  have "rr_size g' = rr_size g \<and> length (rr_enq g) \<le> length (rr_enq g')"
    using ex unfolding lv by (cases a; cases l) (auto simp: Let_def split: prod.splits option.splits if_splits)
  then show "rr_bound g" using B by (simp add: rr_bound_def rb_bound_def)
qed

lemma rr_V_frame:
  assumes V: "rr_V g (m, w)" and "mem_le (rr_mem g) (rr_mem g')" "rr_size g' = rr_size g"
    and own: "\<And>k. rb_owns m = Some k \<Longrightarrow> rr_mem g' (LSeq (unat k mod rr_N g)) = rr_mem g (LSeq (unat k mod rr_N g)) \<and>
      rr_trail g' (unat k mod rr_N g) = rr_trail g (unat k mod rr_N g)"
  shows "rr_V g' (m, w)"
proof -
  have rd: "rr_read_msg g' i s w" if h: "rr_read_msg g i s w" for i s
  proof -
    obtain n where n: "n < length (rr_mem g (LSeq i))" "slot_seq (rr_N g) i n = s" "mview (rr_mem g (LSeq i) ! n) \<le> w"
      using h by (auto simp: rr_read_msg_def)
    then show ?thesis using mem_leD(1) [OF assms(2), of "LSeq i"] mem_leD(2) [OF assms(2) n(1)] assms(3)
      by (auto simp: rr_read_msg_def intro!: exI [of _ n])
  qed
  show ?thesis using V own assms(3) rd
    by (cases m) (auto simp: rb_owns_def rr_owns_slot_def latest_def write_ordered_def)
qed

lemma rr_other_step:
  assumes ex: "rr_exec a g lv = (g', lv')" and B': "rr_bound g'" and G: "rr_G g" and L: "rr_L g lv"
    and m: "rr_L g mw" and X: "rr_X lv mw"
  shows "rr_L g' mw \<and> rr_X lv' mw"
proof -
  obtain l v l' v' m w where lv: "lv = (l, v)" "lv' = (l', v')" "mw = (m, w)" by (metis surj_pair)
  note ex = ex [unfolded lv] and L = L [unfolded lv] and m = m [unfolded lv]
  have bX: "rb_X l m" and bm: "rb_L (rr_sc g) m" and bL: "rb_L (rr_sc g) l" and w: "view_ok (rr_mem g) w"
    using X m L by (auto simp: lv rr_X_def rr_L_def)
  have "rb_L (rr_sc g') m \<and> rb_X l' m"
    using rr_exec_step(2) [OF ex B' G L]
  proof
    assume "rr_load_step g g' l l'"
    then show ?thesis using bm bX by (auto simp: rr_load_step_def rb_X_def rb_owns_def split: option.splits)
  next
    assume "\<exists>b. rb_exec b (rr_sc g) l = (rr_sc g', l')"
    then show ?thesis using rb_other_step [OF _ _ rr_GD(1) [OF G] bL bm bX] B' by (auto simp: rr_bound_def)
  qed
  moreover have "rr_V g' (m, w)"
  proof (rule rr_V_frame)
    show "rr_V g (m, w)" using m by (simp add: rr_L_def)
    fix k assume k: "rb_owns m = Some k"
    have "unat h mod rr_N g \<noteq> unat k mod rr_N g" if "rb_owns l = Some h" for h
      using rb_owned_slots [OF rr_GD(1) [OF G] bL bm bX that k] by simp
    then show "rr_mem g' (LSeq (unat k mod rr_N g)) = rr_mem g (LSeq (unat k mod rr_N g)) \<and>
        rr_trail g' (unat k mod rr_N g) = rr_trail g (unat k mod rr_N g)"
      by (rule rr_exec_frame(4) [OF ex G L])
  qed (rule rr_exec_frame [OF ex G L])+
  ultimately show ?thesis
    using view_ok_mono [OF w rr_exec_frame(1) [OF ex G L]] by (simp add: lv rr_L_def rr_X_def)
qed

definition rr_abs :: "'a rr_global \<Rightarrow> nat \<times> 'a list" where
  "rr_abs g = rb_abs (rr_sc g)"

fun rr_status :: "'a rr_global \<Rightarrow> 'a rr_local \<Rightarrow> ('a queue_op, 'a queue_res) status" where
  "rr_status g (l, v) = rb_status (rr_sc g) l"

fun rr_obs :: "'a rr_local \<Rightarrow> 'a rr_local \<Rightarrow> ('a queue_op, 'a queue_res) label option" where
  "rr_obs (l, v) (l', v') = rb_obs l l'"

text \<open>A load does not change how far an operation has got, unless it makes the operation give up.\<close>

lemma rr_load_move:
  assumes "rr_exec a g (l, v) = (g, l', v')" "rb_owns l = None" "rb_owns l' = None" "l' \<noteq> RbUndefined"
  shows "lin_move queue_spec (rr_abs g, rr_status g (l, v)) (rb_obs l l') (rr_abs g, rr_status g (l', v'))"
proof -
  obtain n q where abs: "rr_abs g = (n, q)" by fastforce
  show ?thesis
    using assms unfolding abs
    by (cases a; cases l) (auto simp: rb_owns_def split: prod.splits option.splits if_splits intro: rb_move_intros)
qed

lemma rr_status_move:
  assumes ex: "rr_exec a g lv = (g', lv')" and B': "rr_bound g'" and G: "rr_G g" and L: "rr_L g lv"
  shows "lin_move queue_spec (rr_abs g, rr_status g lv) (rr_obs lv lv') (rr_abs g', rr_status g' lv')"
proof -
  obtain l v l' v' where lv: "lv = (l, v)" "lv' = (l', v')" by (metis surj_pair)
  note ex = ex [unfolded lv] and L = L [unfolded lv]
  have bL: "rb_L (rr_sc g) l" using L by (simp add: rr_L_def)
  from rr_exec_step(2) [OF ex B' G L] show ?thesis
  proof
    assume st: "rr_load_step g g' l l'"
    have "l' \<noteq> RbUndefined" using rr_exec_step(1) [OF ex B' G L] by (auto simp: rr_L_def)
    then show ?thesis using rr_load_move [of a g l v l' v'] ex st by (simp add: lv rr_load_step_def)
  next
    assume "\<exists>b. rb_exec b (rr_sc g) l = (rr_sc g', l')"
    then show ?thesis using rb_status_move [OF _ _ rr_GD(1) [OF G] bL] B' by (auto simp: lv rr_abs_def rr_bound_def)
  qed
qed

lemma rr_status_stable:
  assumes ex: "rr_exec a g lv = (g', lv')" and B': "rr_bound g'" and G: "rr_G g" and L: "rr_L g lv" and m: "rr_L g mw"
  shows "rr_status g' mw = rr_status g mw"
proof -
  obtain l v l' v' m w where lv: "lv = (l, v)" "lv' = (l', v')" "mw = (m, w)" by (metis surj_pair)
  have bm: "rb_L (rr_sc g) m" using m by (simp add: lv rr_L_def)
  show ?thesis
    using rr_exec_step(2) [OF ex [unfolded lv] B' G L [unfolded lv]] rb_status_stable [OF _ rr_GD(1) [OF G] bm]
    by (auto simp: lv rr_load_step_def)
qed

lemma rr_start_G:
  assumes "is_pow2 sz" "2 \<le> unat sz" "rr_bound (rr_start sz d)"
  shows "rr_G (rr_start sz d)"
proof -
  have eq: "rr_sc (rr_start sz d) = rb_start sz d" by (simp add: rr_sc_def rr_start_def rb_start_def rb_new_def)
  have "rb_ginit (rb_start sz d)" using assms by (auto simp: rb_ginit_def)
  then have "rb_G (rr_sc (rr_start sz d))" using rb_og.init_G assms(3) by (simp add: rr_bound_def eq)
  moreover have "unat (word_of_nat i :: size_t) = i" if "i < unat sz" for i
    using that unat_less_64 [of sz] by (simp add: unat_of_nat)
  ultimately show ?thesis
    by (simp add: rr_G_def) (auto simp: rr_start_def mem_ok_def view_ok_def rr_hist_def rr_quiet_slots_def slot_seq_def acquired_def)
qed

interpretation rr_og: og_linearizable rr_exec rr_ginit rr_linit rr_bound rr_G rr_L rr_X rr_abs queue_spec rr_status rr_obs
proof
  show "rr_G g" if "rr_ginit g" "rr_bound g" for g :: "'a rr_global"
    using that rr_start_G by (auto simp: rr_ginit_def)
  show "rr_L g (rr_linit t)" if "rr_ginit g" for g :: "'a rr_global" and t
    using that by (auto simp: rr_ginit_def rr_linit_def rr_L_def rr_start_def view_ok_def)
  show "rr_X (rr_linit t) (rr_linit u)" for t u :: tid by (simp add: rr_X_def rr_linit_def rb_X_def)
  show "rr_X l m \<Longrightarrow> rr_X m l" for l m :: "'a rr_local" by (auto simp: rr_X_def intro: rb_X_sym)
  show "rr_G g' \<and> rr_L g' l'" if "rr_exec a g l = (g', l')" "rr_bound g'" "rr_G g" "rr_L g l" for a and g g' :: "'a rr_global" and l l'
    using that rr_exec_step(1) by (metis surj_pair)
  show "rr_status g (rr_linit t) = Ready" for g :: "'a rr_global" and t by (simp add: rr_linit_def)
qed (fact rr_bound_down rr_other_step rr_status_move | (rule rr_status_stable; assumption))+

subsection \<open>Properties of all executions\<close>

definition rr_demo :: "(tid \<times> nat rr_act) list \<Rightarrow> (nat rr_global, nat rr_local) config" where
  "rr_demo es = run rr_exec (rr_start 2 0, rr_linit) es"

lemma rr_demo_reach: "rr_reach (fst (rr_demo es), snd (rr_demo es))"
  unfolding prod.collapse rr_demo_def by (rule reach_run_init) (auto simp: rr_ginit_def is_pow2_def intro!: exI [of _ "2 :: size_t"])

lemmas rr_eval = rr_demo_def sys_step_def rr_start_def rr_linit_def rr_index_def intptr_sub_def rr_bound_def rb_bound_def
  load_rlx_def load_acq_def cas_weak_def rmw_def store_rel_def latest_def leave_trail_def write_ordered_def pick_def Let_def

text \<open>Thread 0 pushes 5, thread 1 has taken the ticket of the item and read it.\<close>

definition rr_sched_pop :: "(tid \<times> nat rr_act) list" where
  "rr_sched_pop = [(0, RrPush 5), (0, RrGo 0 False), (0, RrGo 0 False), (0, RrGo 0 False), (0, RrGo 0 False),
     (0, RrGo 0 False), (1, RrPop), (1, RrGo 0 False), (1, RrGo 1 False), (1, RrGo 0 False), (1, RrGo 0 False)]"

lemma rr_demo_pop:
  "rr_bound (fst (rr_demo rr_sched_pop))" "fst (snd (rr_demo rr_sched_pop) 1) = PopPublish 5 0"
  "rr_enq (fst (rr_demo rr_sched_pop)) = [5]"
  by (simp_all add: rr_eval rr_sched_pop_def)

definition rr_sched_stale :: "(tid \<times> nat rr_act) list" where
  "rr_sched_stale = [(0, RrPush 5), (0, RrGo 0 False), (0, RrGo 0 False), (0, RrGo 0 False), (0, RrGo 0 False),
     (0, RrGo 0 False), (1, RrPop), (1, RrGo 0 False)]"

lemma rr_demo_stale:
  "rr_bound (fst (rr_demo rr_sched_stale))" "snd (rr_demo rr_sched_stale) 1 = (PopCheck 0, see LTail 0 bot)"
  "fst (snd (rr_go 0 False (fst (rr_demo rr_sched_stale)) (snd (rr_demo rr_sched_stale) 1))) = PopRet None"
  "rr_enq (fst (rr_demo rr_sched_stale)) = [5]" "rr_mem (fst (rr_demo rr_sched_stale)) LTail = [Msg 0 bot]"
  "rr_pushing (fst (rr_demo rr_sched_stale)) = {}" "rr_index (fst (rr_demo rr_sched_stale)) 0 = 0"
  "rr_size (fst (rr_demo rr_sched_stale)) = 2" 
  by (simp_all add: rr_eval rr_sched_stale_def)

text \<open>Thread 0 pushes 5 and 6; thread 1 pops in between, and both have returned.\<close>

definition rr_sched_full :: "(tid \<times> nat rr_act) list" where
  "rr_sched_full = rr_sched_pop @ [(0, RrGo 0 False), (0, RrPush 6), (0, RrGo 0 False), (0, RrGo 0 False), (0, RrGo 0 False),
     (1, RrGo 0 False), (1, RrGo 0 False)]"

lemma rr_demo_full:
  "rr_bound (fst (rr_demo rr_sched_full))" "rr_abs (fst (rr_demo rr_sched_full)) = (2, [6])"
  "history rr_obs rr_exec (rr_start 2 0, rr_linit) rr_sched_full =
     [(0, Invoke (Enqueue 5)), (1, Invoke Dequeue), (0, Respond (Enqueued True)), (0, Invoke (Enqueue 6)), (1, Respond (Dequeued (Some 5)))]"
  by (simp_all add: rr_eval rr_sched_full_def rr_sched_pop_def rr_abs_def rb_abs_def rr_sc_def)

text \<open>
  C1. Linearizability of the ring buffer under release/acquire memory: for every schedule of calls and accesses of any number of
  threads, however stale the loads are, the history of the calls of \<^verbatim>\<open>try_push\<close> and \<^verbatim>\<open>try_pop\<close> with the results they return is
  one of an atomic first-in first-out queue of capacity \<^verbatim>\<open>Size\<close>: every call takes effect at one moment between its
  call and its return; a successful \<^verbatim>\<open>try_push\<close> appends its item then, below capacity, and a successful \<^verbatim>\<open>try_pop\<close> removes the
  oldest item and returns it. A call may also fail, with no effect (when it does is the subject of \<open>rr_failure_justified\<close>).
  The theorem holds while fewer than \<open>2 ^ 63 - Size\<close> tickets have been handed out.
\<close>

theorem rr_linearizable:
  assumes "is_pow2 sz" "2 \<le> unat sz"
    and "run rr_exec (rr_start sz d, rr_linit) es = (g, ls)" "rr_bound g"
  shows "linearizable queue_spec (unat sz, []) (history rr_obs rr_exec (rr_start sz d, rr_linit) es) (rr_abs g)"
proof -
  have "rr_ginit (rr_start sz d)" "rr_abs (rr_start sz d) = (unat sz, [])"
    using assms(1,2) by (auto simp: rr_ginit_def rr_abs_def rb_abs_def rr_sc_def rr_start_def)
  then show ?thesis using rr_og.run_linearizable [OF _ assms(3,4)] by simp
qed

theorem rr_linearizable_witness:
  "linearizable queue_spec (2, [])
     [(0, Invoke (Enqueue 5)), (1, Invoke Dequeue), (0, Respond (Enqueued True)), (0, Invoke (Enqueue 6)), (1, Respond (Dequeued (Some 5)))]
     (rr_abs (fst (rr_demo rr_sched_full)))"
proof -
  have "run rr_exec (rr_start 2 0, rr_linit) rr_sched_full = (fst (rr_demo rr_sched_full), snd (rr_demo rr_sched_full))"
    by (simp add: rr_demo_def)
  from rr_linearizable [OF _ _ this rr_demo_full(1)] show ?thesis unfolding rr_demo_full(3) by (simp add: is_pow2_def)
qed

text \<open>
  C10. The ring buffer has no undefined behaviour under release/acquire memory: a thread about to access a slot of
  \<^verbatim>\<open>buffer_\<close> owns an existing slot and all earlier accesses of that slot happen before its own, so the
  plain accesses never race; a thread about to store a sequence number has observed the newest
  one; and the signed difference never overflows.
\<close>

theorem rr_race_free:
  assumes "rr_reach (g, ls)" "rr_bound g" "ls t = (l, v)"
  shows "l \<noteq> RbUndefined \<and>
    (\<forall>k. rb_owns l = Some k \<longrightarrow> rr_index g k < length (rr_buffer g) \<and>
       write_ordered (rr_index g k) (rr_trail g) v \<and> latest (LSeq (rr_index g k)) (rr_mem g) v)"
proof -
  note G = rr_og.reach_G [OF assms(1,2)]
  have L: "rr_L g (l, v)" using rr_og.reach_L [OF assms(1,2), of t] assms(3) by simp
  have len: "length (rr_buffer g) = rr_N g" "0 < rr_N g"
    using ticket_ringD(1,3) [OF rb_G_D(4) [OF rr_GD(1) [OF G]]] by auto
  then show ?thesis
    using L by (cases l) (auto simp: rr_L_def rb_owns_def rr_owns_slot_def rr_index_mod [OF G])
qed

theorem rr_race_free_witness:
  "write_ordered 0 (rr_trail (fst (rr_demo rr_sched_pop))) (snd (snd (rr_demo rr_sched_pop) 1)) \<and>
   rr_trail (fst (rr_demo rr_sched_pop)) 0 = [True, True]"
proof -
  have "snd (rr_demo rr_sched_pop) 1 = (PopPublish 5 0, snd (snd (rr_demo rr_sched_pop) 1))"
    using rr_demo_pop(2) by (metis prod.collapse)
  from rr_race_free [OF rr_demo_reach rr_demo_pop(1) this] show ?thesis
    by (simp add: rb_owns_def) (simp add: rr_eval rr_sched_pop_def)
qed

text \<open>
  C9. The \<open>k\<close>-th successful \<^verbatim>\<open>try_pop\<close> hands over the item of the \<open>k\<close>-th successful \<^verbatim>\<open>try_push\<close>, no two threads hold
  the same ticket, and the consumer has acquired the message by which the producer published the
  item: everything that happened before the push happens before the pop returns, so the item may
  point to memory that the producer wrote.
\<close>

theorem rr_pop_receives:
  assumes "rr_reach (g, ls)" "rr_bound g" "ls t = (PopPublish item k, v)"
  shows "item = rr_enq g ! unat k \<and> unat k < length (rr_enq g) \<and>
    (\<forall>u. pop_ticket (fst (ls u)) = Some k \<longrightarrow> u = t) \<and>
    (\<exists>msg \<in> set (rr_mem g (LSeq (rr_index g k))). mval msg = k + 1 \<and> mview msg \<le> v)"
proof -
  note G = rr_og.reach_G [OF assms(1,2)]
  note r = rb_G_D(4) [OF rr_GD(1) [OF G]]
  let ?i = "unat k mod rr_N g"
  have L: "rr_L g (PopPublish item k, v)" using rr_og.reach_L [OF assms(1,2), of t] assms(3) by simp
  then have Q: "unat k \<in> rr_popping g" and own: "mview (last (rr_mem g (LSeq ?i))) \<le> v" and it: "item = rr_enq g ! unat k"
    by (auto simp: rr_L_def rr_owns_slot_def)
  have lt: "unat k < length (rr_enq g)" using ticket_ringD(5,8) [OF r] Q by fastforce
  have "unat (newest (rr_mem g) (LSeq ?i)) = unat k + 1"
    using ring_slot_Q [OF r, of "unat k"] Q rr_GD(6) [OF G] by simp
  moreover have "unat (k + 1) = unat k + 1" using lt assms(2) by (simp add: rr_bound_def rb_bound_def unat_plus_1)
  ultimately have "newest (rr_mem g) (LSeq ?i) = k + 1" by (simp add: word_unat_eq_iff)
  then have "\<exists>msg \<in> set (rr_mem g (LSeq ?i)). mval msg = k + 1 \<and> mview msg \<le> v"
    using own last_in_set [OF rr_GD(7) [OF G, of "LSeq ?i"]] by blast
  moreover have "u = t" if "pop_ticket (fst (ls u)) = Some k" for u
    using rr_og.reach_X [OF assms(1,2), of u t] that assms(3) by (auto simp: rr_X_def rb_X_def)
  ultimately show ?thesis using it lt by (auto simp: rr_index_mod [OF G])
qed

theorem rr_pop_receives_witness:
  "\<exists>msg \<in> set (rr_mem (fst (rr_demo rr_sched_pop)) (LSeq 0)). mval msg = 1 \<and> mview msg \<le> snd (snd (rr_demo rr_sched_pop) 1)"
proof -
  have "snd (rr_demo rr_sched_pop) 1 = (PopPublish 5 0, snd (snd (rr_demo rr_sched_pop) 1))"
    using rr_demo_pop(2) by (metis prod.collapse)
  from rr_pop_receives [OF rr_demo_reach rr_demo_pop(1) this] show ?thesis by (simp add: rr_index_def)
qed

text \<open>A thread that has observed the newest message of a slot compares as the interleaved machine does.\<close>

lemma rr_fresh_check:
  assumes G: "rr_G g" and v: "view_ok (rr_mem g) v" and "latest (LSeq (rr_index g pos)) (rr_mem g) v"
  shows "fst (snd (rr_go j sp g (PushCheck x pos, v))) = snd (rb_go sp (rr_sc g) (PushCheck x pos))"
    and "fst (snd (rr_go j sp g (PopCheck pos, v))) = snd (rb_go sp (rr_sc g) (PopCheck pos))"
proof -
  have "fst (load_acq j (LSeq (rr_index g pos)) (rr_mem g) v) = newest (rr_mem g) (LSeq (rr_index g pos))"
    using rr_GD(7) [OF G] by (simp add: load_acq_def Let_def pick_latest [OF v assms(3)] last_conv_nth)
  moreover have "rb_seq_at (g_rb (rr_sc g)) pos = newest (rr_mem g) (LSeq (rr_index g pos))"
    using rr_GD(5,6) [OF G] by (simp add: rb_seq_at_def rb_index_mod rr_index_mod [OF G])
  ultimately show "fst (snd (rr_go j sp g (PushCheck x pos, v))) = snd (rb_go sp (rr_sc g) (PushCheck x pos))"
    "fst (snd (rr_go j sp g (PopCheck pos, v))) = snd (rb_go sp (rr_sc g) (PopCheck pos))"
    by (auto split: prod.splits)
qed

text \<open>
  C23. \<^verbatim>\<open>try_push\<close> reports "full" only if \<^verbatim>\<open>Size\<close> items are queued, or the next slot is not free because the consumer of
  the ticket \<^verbatim>\<open>Size\<close> places back, the previous user of that slot, has not released it (other slots may then be free), or there is a newer
  sequence number of the slot that the thread has not observed, that is, a release that does not happen before
  the call. \<^verbatim>\<open>try_pop\<close> reports "empty" only if nothing is queued, or the producer of the oldest ticket has not
  published its item, or again the thread has not observed it. The schedule of the witness shows such a stale "empty".
\<close>

theorem rr_failure_justified:
  assumes "rr_reach (g, ls)" "rr_bound g" "ls t = (l, v)"
  shows "(l = PushCheck x h \<and> fst (snd (rr_go j sp g (l, v))) = PushRet False \<longrightarrow>
            \<not> latest (LSeq (rr_index g h)) (rr_mem g) v \<or> unat h = length (rr_enq g) \<and>
            (length (snd (rr_abs g)) = rr_N g \<or> rr_N g \<le> unat h \<and> unat h - rr_N g \<in> rr_popping g)) \<and>
         (l = PopCheck k \<and> fst (snd (rr_go j sp g (l, v))) = PopRet None \<longrightarrow>
            \<not> latest (LSeq (rr_index g k)) (rr_mem g) v \<or>
            Suc (unat k) = length (rr_mem g LTail) \<and> (snd (rr_abs g) = [] \<or> unat k \<in> rr_pushing g))"
proof -
  note G = rr_og.reach_G [OF assms(1,2)]
  have L: "rb_L (rr_sc g) l" and v: "view_ok (rr_mem g) v"
    using rr_og.reach_L [OF assms(1,2), of t] assms(3) by (auto simp: rr_L_def)
  have B: "rb_bound (rr_sc g)" using assms(2) by (simp add: rr_bound_def)
  show ?thesis
  proof (intro conjI impI)
    assume "l = PushCheck x h \<and> fst (snd (rr_go j sp g (l, v))) = PushRet False"
    then show "\<not> latest (LSeq (rr_index g h)) (rr_mem g) v \<or> unat h = length (rr_enq g) \<and>
        (length (snd (rr_abs g)) = rr_N g \<or> rr_N g \<le> unat h \<and> unat h - rr_N g \<in> rr_popping g)"
      using rr_fresh_check(1) [OF G v, of h] rb_push_gives_up [OF rr_GD(1) [OF G] B, of x h sp] L
      by (auto simp: rr_abs_def simp del: rr_go.simps rb_go.simps rb_L.simps)
  next
    assume "l = PopCheck k \<and> fst (snd (rr_go j sp g (l, v))) = PopRet None"
    then show "\<not> latest (LSeq (rr_index g k)) (rr_mem g) v \<or>
        Suc (unat k) = length (rr_mem g LTail) \<and> (snd (rr_abs g) = [] \<or> unat k \<in> rr_pushing g)"
      using rr_fresh_check(2) [OF G v, of k] rb_pop_gives_up [OF rr_GD(1) [OF G] B, of k sp] L rr_GD(7) [OF G, of LTail]
      by (auto simp: rr_abs_def simp del: rr_go.simps rb_go.simps rb_L.simps)
  qed
qed

theorem rr_failure_justified_witness:
  "fst (snd (rr_go 0 False (fst (rr_demo rr_sched_stale)) (snd (rr_demo rr_sched_stale) 1))) = PopRet None \<and>
   rr_enq (fst (rr_demo rr_sched_stale)) = [5] \<and>
   \<not> latest (LSeq 0) (rr_mem (fst (rr_demo rr_sched_stale))) (snd (snd (rr_demo rr_sched_stale) 1))"
  using rr_failure_justified [OF rr_demo_reach rr_demo_stale(1) rr_demo_stale(2), of 0 0 0 False 0] rr_demo_stale
  by (simp add: rr_abs_def rb_abs_def del: rr_go.simps)

end
