(* ===== verification/Array_Stack_RA.thy ===== *)
theory Array_Stack_RA
  imports Array_Stack_Conc Release_Acquire
begin

text \<open>
  \<^verbatim>\<open>ArrayLockFreeStack\<close> with the memory orders of the code: \<^verbatim>\<open>pop_index\<close> loads and exchanges a head word with acquire,
  \<^verbatim>\<open>push_index\<close> loads it relaxed and exchanges it with release, \<^verbatim>\<open>next\<close> is loaded and stored relaxed, the data of a node
  is plain. The program points are those of \<open>Array_Stack_Conc\<close>; every thread has a view. What makes the relaxed accesses
  of \<^verbatim>\<open>next\<close> safe is the release sequence of the head word: the exchanges of \<^verbatim>\<open>pop_index\<close> are no releases, but their
  messages carry on the views of the pushes before, so whoever acquires a head word has observed the
  newest \<^verbatim>\<open>next\<close> of every node on the list and every access of its data. A data race, or a store whose
  place in the modification order is open, leads to \<open>AsUndefined\<close>. Moving data out of a node counts as a write.
\<close>

datatype as_loc = LTop which | LNext nat

datatype as_val = VHead (top_word: uint64) | VNext (next_index: uint32)

record 'a rs_global =
  rs_mem :: "(as_val, as_loc, nat) mem"
  rs_data :: "'a list"
  rs_capacity :: size_t
  rs_trail :: "nat trail"
  rs_ds :: "nat list"
  rs_fs :: "nat list"
  rs_nd :: nat
  rs_nf :: nat
  rs_taken :: "nat \<Rightarrow> 'a"

type_synonym rs_view = "(as_loc, nat) view"
type_synonym 'a rs_local = "'a as_pc \<times> rs_view"

datatype 'a rs_act = RsCall "'a stack_op"
  | RsGo nat bool \<comment> \<open>the message a load returns; whether a weak compare-exchange fails spuriously\<close>

definition rs_take :: "which \<Rightarrow> nat \<Rightarrow> 'a rs_global \<Rightarrow> 'a rs_global" where
  "rs_take w x g = (case w of
     DataHead \<Rightarrow> g\<lparr>rs_ds := tl (rs_ds g), rs_nd := rs_nd g + 1, rs_taken := (rs_taken g)(x := rs_data g ! x)\<rparr>
   | FreeHead \<Rightarrow> g\<lparr>rs_fs := tl (rs_fs g), rs_nf := rs_nf g + 1\<rparr>)"

definition rs_put :: "which \<Rightarrow> nat \<Rightarrow> 'a rs_global \<Rightarrow> 'a rs_global" where
  "rs_put w x g = (case w of
     DataHead \<Rightarrow> g\<lparr>rs_ds := x # rs_ds g, rs_nd := rs_nd g + 1\<rparr>
   | FreeHead \<Rightarrow> g\<lparr>rs_fs := x # rs_fs g, rs_nf := rs_nf g + 1\<rparr>)"

fun rs_go :: "nat \<Rightarrow> bool \<Rightarrow> 'a rs_global \<Rightarrow> 'a rs_local \<Rightarrow> 'a rs_global \<times> 'a rs_local" where
  "rs_go j sp g (AsIdle, v) = (g, AsIdle, v)"
| "rs_go j sp g (TakeLoad op, v) =
     (case load_acq j (LTop (take_from op)) (rs_mem g) v of (x, v') \<Rightarrow> (g, take_check op (top_word x), v'))"
| "rs_go j sp g (TakeNext op raw, v) =
     (let i = unat (hd_index (unpack raw)) in
      if i < length (rs_data g)
      then (case load_rlx j (LNext i) (rs_mem g) v of (x, v') \<Rightarrow> (g, TakeCas op raw (next_index x), v'))
      else (g, AsUndefined, v))"
| "rs_go j sp g (TakeCas op raw next_idx, v) =
     (let w = take_from op; old_head = unpack raw in
      case cas_weak True False True j sp (LTop w) (VHead raw) (VHead (pack next_idx (hd_tag old_head + 1))) (rs_mem g) v of
        (None, m, v') \<Rightarrow> (rs_take w (unat (hd_index old_head)) (g\<lparr>rs_mem := m\<rparr>), Access op (hd_index old_head), v')
      | (Some x, m, v') \<Rightarrow> (g, take_check op (top_word x), v'))"
| "rs_go j sp g (Access op i, v) =
     (if unat i < length (rs_data g) \<and> write_ordered (unat i) (rs_trail g) v
      then (case leave_trail (unat i) True (rs_trail g) v of (h, v') \<Rightarrow>
        (case op of
           OpPush x \<Rightarrow> (g\<lparr>rs_data := (rs_data g)[unat i := x], rs_trail := h\<rparr>, PutLoad (Pushed x) i, v')
         | OpPop \<Rightarrow> (g\<lparr>rs_trail := h\<rparr>, PutLoad (Popped (rs_data g ! unat i)) i, v')))
      else (g, AsUndefined, v))"
| "rs_go j sp g (PutLoad r i, v) =
     (case load_rlx j (LTop (put_to r)) (rs_mem g) v of (x, v') \<Rightarrow> (g, PutStore r i (top_word x), v'))"
| "rs_go j sp g (PutStore r i raw, v) =
     (if unat i < length (rs_data g)
      then (case store_rlx (LNext (unat i)) (VNext (hd_index (unpack raw))) (rs_mem g) v of
              None \<Rightarrow> (g, AsUndefined, v)
            | Some (m, v') \<Rightarrow> (g\<lparr>rs_mem := m\<rparr>, PutCas r i raw, v'))
      else (g, AsUndefined, v))"
| "rs_go j sp g (PutCas r i raw, v) =
     (let w = put_to r in
      case cas_weak False True False j sp (LTop w) (VHead raw) (VHead (pack i (hd_tag (unpack raw) + 1))) (rs_mem g) v of
        (None, m, v') \<Rightarrow> (rs_put w (unat i) (g\<lparr>rs_mem := m\<rparr>), AsRet r, v')
      | (Some x, m, v') \<Rightarrow> (g, PutStore r i (top_word x), v'))"
| "rs_go j sp g (AsRet r, v) = (g, AsIdle, v)"
| "rs_go j sp g (AsUndefined, v) = (g, AsUndefined, v)"

fun rs_exec :: "'a rs_act \<Rightarrow> 'a rs_global \<Rightarrow> 'a rs_local \<Rightarrow> 'a rs_global \<times> 'a rs_local" where
  "rs_exec (RsCall op) g (l, v) = (g, case l of AsIdle \<Rightarrow> TakeLoad op | _ \<Rightarrow> l, v)"
| "rs_exec (RsGo j sp) g lv = rs_go j sp g lv"

text \<open>The threads start on a stack between calls; what was done to it happens before the start.\<close>

fun rs_init :: "'a array_stack \<Rightarrow> as_loc \<Rightarrow> as_val" where
  "rs_init st (LTop w) = VHead (target w st)"
| "rs_init st (LNext i) = VNext (nd_next (as_nodes st ! i))"

definition rs_of :: "'a as_global \<Rightarrow> 'a rs_global" where
  "rs_of h = \<lparr>rs_mem = (\<lambda>l. [Msg (rs_init (ag_st h) l) bot]), rs_data = map nd_data (as_nodes (ag_st h)),
     rs_capacity = as_capacity (ag_st h), rs_trail = (\<lambda>_. []), rs_ds = ag_ds h, rs_fs = ag_fs h,
     rs_nd = ag_nd h, rs_nf = ag_nf h, rs_taken = ag_taken h\<rparr>"

definition rs_ginit :: "'a rs_global \<Rightarrow> bool" where
  "rs_ginit g \<longleftrightarrow> (\<exists>h. as_ginit h \<and> g = rs_of h)"

definition rs_linit :: "tid \<Rightarrow> 'a rs_local" where
  "rs_linit t = (AsIdle, bot)"

abbreviation rs_reach :: "('a rs_global, 'a rs_local) config \<Rightarrow> bool" where
  "rs_reach \<equiv> reach rs_exec rs_ginit rs_linit"

subsection \<open>Assertions\<close>

definition rs_node :: "'a rs_global \<Rightarrow> nat \<Rightarrow> 'a node" where
  "rs_node g i = \<lparr>nd_data = rs_data g ! i, nd_next = next_index (newest (rs_mem g) (LNext i))\<rparr>"

definition rs_sc :: "'a rs_global \<Rightarrow> 'a as_global" where
  "rs_sc g = \<lparr>ag_st = \<lparr>as_nodes = map (rs_node g) [0..<length (rs_data g)], as_capacity = rs_capacity g,
       as_head = top_word (newest (rs_mem g) (LTop DataHead)), as_free = top_word (newest (rs_mem g) (LTop FreeHead))\<rparr>,
     ag_ds = rs_ds g, ag_fs = rs_fs g, ag_nd = rs_nd g, ag_nf = rs_nf g, ag_taken = rs_taken g\<rparr>"

definition rs_bound :: "'a rs_global \<Rightarrow> bool" where
  "rs_bound g \<longleftrightarrow> as_bound (rs_sc g)"

text \<open>The tag of a head word counts its messages.\<close>

definition rs_heads :: "'a rs_global \<Rightarrow> bool" where
  "rs_heads g \<longleftrightarrow> (\<forall>w. \<forall>n<length (rs_mem g (LTop w)). \<exists>raw. mval (rs_mem g (LTop w) ! n) = VHead raw \<and>
     unat (hd_tag (unpack raw)) + length (rs_mem g (LTop w)) = Suc n + g_ver w (rs_sc g) \<and>
     (hd_index (unpack raw) \<noteq> NULL_INDEX \<longrightarrow> unat (hd_index (unpack raw)) < length (rs_data g)))"

definition node_view :: "'a rs_global \<Rightarrow> nat \<Rightarrow> rs_view \<Rightarrow> bool" where
  "node_view g x v \<longleftrightarrow> latest (LNext x) (rs_mem g) v \<and> write_ordered x (rs_trail g) v"

abbreviation top_view :: "'a rs_global \<Rightarrow> which \<Rightarrow> rs_view" where
  "top_view g w \<equiv> mview (last (rs_mem g (LTop w)))"

definition rs_lists :: "'a rs_global \<Rightarrow> bool" where
  "rs_lists g \<longleftrightarrow> (\<forall>w. \<forall>x \<in> set (g_list w (rs_sc g)). node_view g x (top_view g w))"

definition rs_G :: "'a rs_global \<Rightarrow> bool" where
  "rs_G g \<longleftrightarrow> as_G (rs_sc g) \<and> mem_ok (rs_mem g) \<and> rs_heads g \<and> rs_lists g"

definition fresh_top :: "'a rs_global \<Rightarrow> which \<Rightarrow> uint64 \<Rightarrow> rs_view \<Rightarrow> bool" where
  "fresh_top g w raw v \<longleftrightarrow> (raw = target w (ag_st (rs_sc g)) \<longrightarrow> top_view g w \<le> v)"

definition rs_V :: "'a rs_global \<Rightarrow> 'a rs_local \<Rightarrow> bool" where
  "rs_V g lv \<longleftrightarrow> (\<forall>i. owns (fst lv) = Some i \<longrightarrow> node_view g (unat i) (snd lv)) \<and>
     (case fst lv of TakeNext op raw \<Rightarrow> fresh_top g (take_from op) raw (snd lv)
      | TakeCas op raw nx \<Rightarrow> fresh_top g (take_from op) raw (snd lv) | _ \<Rightarrow> True)"

definition rs_L :: "'a rs_global \<Rightarrow> 'a rs_local \<Rightarrow> bool" where
  "rs_L g lv \<longleftrightarrow> as_L (rs_sc g) (fst lv) \<and> view_ok (rs_mem g) (snd lv) \<and> rs_V g lv"

definition rs_X :: "'a rs_local \<Rightarrow> 'a rs_local \<Rightarrow> bool" where
  "rs_X lv mw \<longleftrightarrow> as_X (fst lv) (fst mw)"

text \<open>
  What a step leaves alone: messages are only added, the nodes of other threads are not touched,
  and a new head word has a new tag.
\<close>

definition rs_frame :: "uint32 option \<Rightarrow> 'a rs_global \<Rightarrow> 'a rs_global \<Rightarrow> bool" where
  "rs_frame q g g' \<longleftrightarrow> mem_le (rs_mem g) (rs_mem g') \<and>
     (\<forall>i. q \<noteq> Some i \<longrightarrow> rs_mem g' (LNext (unat i)) = rs_mem g (LNext (unat i)) \<and> rs_trail g' (unat i) = rs_trail g (unat i)) \<and>
     (\<forall>w. rs_mem g' (LTop w) = rs_mem g (LTop w) \<or>
       unat (hd_tag (unpack (target w (ag_st (rs_sc g'))))) = g_ver w (rs_sc g) + 1)"

subsection \<open>Head words and nodes\<close>

lemma rs_sc_sel [simp]:
  "as_nodes (ag_st (rs_sc g)) = map (rs_node g) [0..<length (rs_data g)]"
  "target w (ag_st (rs_sc g)) = top_word (newest (rs_mem g) (LTop w))"
  "ag_ds (rs_sc g) = rs_ds g" "ag_fs (rs_sc g) = rs_fs g" "ag_nd (rs_sc g) = rs_nd g" "ag_nf (rs_sc g) = rs_nf g"
  "ag_taken (rs_sc g) = rs_taken g"
  by (cases w; simp add: rs_sc_def)+

lemma rs_GD:
  assumes "rs_G g"
  shows "as_G (rs_sc g)" "mem_ok (rs_mem g)" "rs_heads g" "rs_lists g" "rs_mem g l \<noteq> []"
    "x \<in> set (g_list w (rs_sc g)) \<Longrightarrow> node_view g x (top_view g w)"
  using assms mem_okD(1) [of "rs_mem g"] by (auto simp: rs_G_def rs_lists_def)

lemma node_view_mono:
  assumes "node_view g x v" "v \<le> w" "view_ok (rs_mem g) w"
  shows "node_view g x w"
proof -
  have "seen w (LNext x) < length (rs_mem g (LNext x))" using assms(3) by (simp add: view_ok_def)
  then have "latest (LNext x) (rs_mem g) w" using assms(1) view_leD(1) [OF assms(2), of "LNext x"] by (auto simp: node_view_def latest_def)
  then show ?thesis using assms(1) view_leD(2) [OF assms(2)] by (auto simp: node_view_def write_ordered_def)
qed

text \<open>A head word that was loaded, possibly stale: it is the newest one exactly if its tag says so.\<close>

lemma rs_loaded:
  assumes G: "rs_G g" and n: "n < length (rs_mem g (LTop w))"
  defines "raw \<equiv> top_word (mval (rs_mem g (LTop w) ! n))"
  shows "mval (rs_mem g (LTop w) ! n) = VHead raw" "raw_ok w (rs_sc g) raw"
    "hd_index (unpack raw) \<noteq> NULL_INDEX \<Longrightarrow> idx_ok (rs_sc g) (hd_index (unpack raw))"
    "raw = target w (ag_st (rs_sc g)) \<Longrightarrow> rs_mem g (LTop w) ! n = last (rs_mem g (LTop w))"
proof -
  let ?len = "length (rs_mem g (LTop w))"
  obtain r where r: "mval (rs_mem g (LTop w) ! n) = VHead r" "unat (hd_tag (unpack r)) + ?len = Suc n + g_ver w (rs_sc g)"
    "hd_index (unpack r) \<noteq> NULL_INDEX \<longrightarrow> unat (hd_index (unpack r)) < length (rs_data g)"
    using rs_GD(3) [OF G] n by (auto simp: rs_heads_def)
  have raw: "raw = r" by (simp add: raw_def r)
  then show "mval (rs_mem g (LTop w) ! n) = VHead raw" using r by simp
  have nw: "rs_mem g (LTop w) ! n = last (rs_mem g (LTop w))" if "unat (hd_tag (unpack r)) = g_ver w (rs_sc g)"
    using that r(2) n by (simp add: last_conv_nth [OF rs_GD(5) [OF G]])
  then show "raw_ok w (rs_sc g) raw" using r(2) n by (auto simp: raw_ok_def raw raw_def [symmetric]) (metis as_val.sel(1) r(1))
  show "idx_ok (rs_sc g) (hd_index (unpack raw))" if "hd_index (unpack raw) \<noteq> NULL_INDEX"
    using r(3) that by (simp add: raw idx_ok_def)
  show "rs_mem g (LTop w) ! n = last (rs_mem g (LTop w))" if "raw = target w (ag_st (rs_sc g))"
    using nw as_G_head [OF rs_GD(1) [OF G], of w] that by (simp add: raw head_ok_def)
qed

lemma rs_take_check:
  assumes G: "rs_G g" and v: "view_ok (rs_mem g) v" and ld: "load_acq j (LTop (take_from op)) (rs_mem g) v = (x, v')"
  shows "rs_L g (take_check op (top_word x), v')"
proof -
  let ?w = "take_from op"
  obtain n where n: "n < length (rs_mem g (LTop ?w))" "x = mval (rs_mem g (LTop ?w) ! n)"
      "mview (rs_mem g (LTop ?w) ! n) \<le> v'" "view_ok (rs_mem g) v'"
    using load_acqE [OF ld v rs_GD(2) [OF G]] by metis
  note l = rs_loaded [OF G n(1)]
  have "fresh_top g ?w (top_word x) v'" unfolding fresh_top_def using l(4) n(2,3) by metis
  then show ?thesis using l(2,3) n by (auto simp: rs_L_def rs_V_def take_check_def)
qed

lemma rs_take_next:
  assumes G: "rs_G g" and L: "rs_L g (TakeNext op raw, v)" and go: "rs_go j sp g (TakeNext op raw, v) = (g', l', v')"
  shows "g' = g" "rs_L g (l', v')" "owns l' = None"
proof -
  let ?i = "unat (hd_index (unpack raw))" and ?w = "take_from op"
  have v: "view_ok (rs_mem g) v" and raw: "raw_ok ?w (rs_sc g) raw" "idx_ok (rs_sc g) (hd_index (unpack raw))"
    and fr: "fresh_top g ?w raw v" using L by (auto simp: rs_L_def rs_V_def)
  have i: "?i < length (rs_data g)" using raw(2) by (simp add: idx_ok_def)
  obtain x v1 where ld: "load_rlx j (LNext ?i) (rs_mem g) v = (x, v1)" by fastforce
  obtain n where n: "n < length (rs_mem g (LNext ?i))" "seen v (LNext ?i) \<le> n" "x = mval (rs_mem g (LNext ?i) ! n)" "v \<le> v1" "view_ok (rs_mem g) v1"
    using load_rlxE [OF ld v] by metis
  have e: "g' = g" "l' = TakeCas op raw (next_index x)" "v' = v1" using go i ld by (auto simp: Let_def)
  have nx: "nd_next (rs_node g ?i) = next_index x" if top: "raw = target ?w (ag_st (rs_sc g))"
  proof -
    have "hd_index (unpack (target ?w (ag_st (rs_sc g)))) \<noteq> NULL_INDEX" using raw(2) top by (simp add: idx_ok_def)
    from head_in_list [OF rs_GD(1) [OF G] this] have "?i \<in> set (g_list ?w (rs_sc g))" using top by auto
    then have "node_view g ?i (top_view g ?w)" by (rule rs_GD(6) [OF G])
    moreover have "top_view g ?w \<le> v" using fr top by (simp add: fresh_top_def)
    ultimately have "node_view g ?i v" using v by (rule node_view_mono)
    then have "Suc (seen v (LNext ?i)) = length (rs_mem g (LNext ?i))" by (simp add: node_view_def latest_def)
    then have "n = length (rs_mem g (LNext ?i)) - 1" using n(1,2) by linarith
    then show ?thesis using n(3) rs_GD(5) [OF G, of "LNext ?i"] by (simp add: rs_node_def last_conv_nth)
  qed
  have "fresh_top g ?w raw v1" using fr n(4) by (auto simp: fresh_top_def)
  then show "g' = g" "rs_L g (l', v')" "owns l' = None" using raw i nx n(5) by (auto simp: e rs_L_def rs_V_def)
qed

lemma rs_put_load:
  assumes G: "rs_G g" and L: "as_L (rs_sc g) (PutStore r i raw')" and v: "view_ok (rs_mem g) v" "node_view g (unat i) v"
    and ld: "load_rlx j (LTop w) (rs_mem g) v = (x, v')"
  shows "rs_L g (PutStore r i (top_word x), v')"
proof -
  have "v \<le> v'" "view_ok (rs_mem g) v'" using load_rlxE [OF ld v(1)] by metis+
  then show ?thesis using L node_view_mono [OF v(2)] by (simp add: rs_L_def rs_V_def)
qed

subsection \<open>Exchanging a head word\<close>

lemma rs_take_sel [simp]:
  "rs_mem (rs_take w x g) = rs_mem g" "rs_data (rs_take w x g) = rs_data g" "rs_trail (rs_take w x g) = rs_trail g"
  "rs_mem (rs_put w x g) = rs_mem g" "rs_data (rs_put w x g) = rs_data g" "rs_trail (rs_put w x g) = rs_trail g"
  by (cases w; simp add: rs_take_def rs_put_def)+

lemma rs_mem_upd [simp]: "rs_node (g\<lparr>rs_trail := h\<rparr>) = rs_node g"
  by (simp add: rs_node_def fun_eq_iff)

lemma rs_sc_take:
  assumes "newest m (LTop w) = VHead r" "\<And>l. l \<noteq> LTop w \<Longrightarrow> m l = rs_mem g l" "x < length (rs_data g)"
  shows "rs_sc (rs_take w x (g\<lparr>rs_mem := m\<rparr>)) = ghost_take w x ((rs_sc g)\<lparr>ag_st := set_target w r (ag_st (rs_sc g))\<rparr>)"
    "rs_sc (rs_put w y (g\<lparr>rs_mem := m\<rparr>)) = ghost_put w y ((rs_sc g)\<lparr>ag_st := set_target w r (ag_st (rs_sc g))\<rparr>)"
proof -
  have "rs_node (g\<lparr>rs_mem := m\<rparr>) = rs_node g" using assms(2) by (simp add: rs_node_def fun_eq_iff)
  moreover have "rs_node (rs_take w x h) = rs_node h" "rs_node (rs_put w y h) = rs_node h" for h :: "'a rs_global"
    by (simp_all add: rs_node_def fun_eq_iff)
  ultimately show "rs_sc (rs_take w x (g\<lparr>rs_mem := m\<rparr>)) = ghost_take w x ((rs_sc g)\<lparr>ag_st := set_target w r (ag_st (rs_sc g))\<rparr>)"
    "rs_sc (rs_put w y (g\<lparr>rs_mem := m\<rparr>)) = ghost_put w y ((rs_sc g)\<lparr>ag_st := set_target w r (ag_st (rs_sc g))\<rparr>)"
    using assms by (cases w; simp add: rs_sc_def rs_take_def rs_put_def ghost_take_def ghost_put_def rs_node_def)+
qed

text \<open>
  The rest of the invariant after an exchange: the new message has the next tag, and its view
  covers the nodes of the new list.
\<close>

lemma rs_exchanged:
  assumes G: "rs_G g" and G': "as_G (rs_sc g')" and ok: "mem_ok (rs_mem g')"
    and m: "rs_mem g' (LTop w) = rs_mem g (LTop w) @ [Msg (VHead r) u]" "\<And>l. l \<noteq> LTop w \<Longrightarrow> rs_mem g' l = rs_mem g l"
    and gh: "rs_data g' = rs_data g" "rs_trail g' = rs_trail g" "g_ver w (rs_sc g') = g_ver w (rs_sc g) + 1"
      "\<And>z. z \<noteq> w \<Longrightarrow> g_ver z (rs_sc g') = g_ver z (rs_sc g) \<and> g_list z (rs_sc g') = g_list z (rs_sc g)"
    and li: "\<And>x. x \<in> set (g_list w (rs_sc g')) \<Longrightarrow> node_view g x u"
  shows "rs_G g'" "rs_frame q g g'"
proof -
  have tgt: "target w (ag_st (rs_sc g')) = r" using m(1) by simp
  have hd: "unat (hd_tag (unpack r)) = g_ver w (rs_sc g')"
    "hd_index (unpack r) \<noteq> NULL_INDEX \<Longrightarrow> unat (hd_index (unpack r)) < length (rs_data g')"
    using as_G_head [OF G', of w] unfolding head_ok_def tgt by (cases "g_list w (rs_sc g')"; auto)+
  have "rs_heads g'"
    unfolding rs_heads_def
  proof (intro allI impI)
    fix z n assume n: "n < length (rs_mem g' (LTop z))"
    let ?P = "\<lambda>raw. mval (rs_mem g' (LTop z) ! n) = VHead raw \<and>
        unat (hd_tag (unpack raw)) + length (rs_mem g' (LTop z)) = Suc n + g_ver z (rs_sc g') \<and>
        (hd_index (unpack raw) \<noteq> NULL_INDEX \<longrightarrow> unat (hd_index (unpack raw)) < length (rs_data g'))"
    have old: "\<exists>raw. mval (rs_mem g (LTop z) ! n) = VHead raw \<and>
        unat (hd_tag (unpack raw)) + length (rs_mem g (LTop z)) = Suc n + g_ver z (rs_sc g) \<and>
        (hd_index (unpack raw) \<noteq> NULL_INDEX \<longrightarrow> unat (hd_index (unpack raw)) < length (rs_data g))" if "n < length (rs_mem g (LTop z))"
      using rs_GD(3) [OF G] that by (simp add: rs_heads_def)
    show "\<exists>raw. ?P raw"
    proof (cases "z = w \<and> n = length (rs_mem g (LTop w))")
      case True
      then have "?P r" using hd m(1) by (auto simp: nth_append)
      then show ?thesis ..
    next
      case False
      then show ?thesis using old n m gh by (cases "z = w") (auto simp: nth_append)
    qed
  qed
  moreover have "node_view g' x v \<longleftrightarrow> node_view g x v" for x v using m(2) by (simp add: node_view_def latest_def gh)
  then have "rs_lists g'"
    unfolding rs_lists_def using li rs_GD(6) [OF G] m gh(4) by (metis last_snoc msg.sel(2) as_loc.inject(1))
  ultimately show "rs_G g'" using G' ok by (simp add: rs_G_def)
  have "mem_le (rs_mem g) (rs_mem g')" unfolding mem_le_def using m by (metis append_Nil2 le_add1 length_append nth_append order_refl)
  moreover have "rs_mem g' (LTop z) = rs_mem g (LTop z) \<or> unat (hd_tag (unpack (target z (ag_st (rs_sc g'))))) = g_ver z (rs_sc g) + 1" for z
    using m(2) hd(1) tgt gh(3) by (cases "z = w") auto
  ultimately show "rs_frame q g g'" unfolding rs_frame_def using m(2) gh(2) by (metis as_loc.distinct(1))
qed

lemma node_view_see [simp]:
  "node_view g x (see (LTop w) n u) = node_view g x u"
  "node_view g x (sup a (see (LTop w) n u)) = node_view g x (sup a u)"
  by (simp_all add: node_view_def latest_def write_ordered_def)

lemma rs_top_ok: "rs_G g \<Longrightarrow> view_ok (rs_mem g) (top_view g w)"
  using mem_okD(2) [of "rs_mem g" "length (rs_mem g (LTop w)) - 1" "LTop w"] rs_GD(2,5) [of g] by (simp add: last_conv_nth)

lemma rs_own_sc:
  assumes G: "rs_G g" and B: "rs_bound g'" and L: "as_L (rs_sc g) l" and sc: "as_go False (rs_sc g) l = (rs_sc g', l')"
  shows "as_G (rs_sc g')" "as_L (rs_sc g') l'"
  using as_go_step [OF sc _ rs_GD(1) [OF G] L] B by (auto simp: rs_bound_def)

lemma rs_take_ok:
  assumes G: "rs_G g" and L: "rs_L g (TakeCas op raw nx, v)" and B: "rs_bound g'" and w: "w = take_from op"
    and nw: "newest (rs_mem g) (LTop w) = VHead raw"
    and rm: "rmw True False (LTop w) (VHead (pack nx (hd_tag (unpack raw) + 1))) (rs_mem g) v = (m, v')"
    and g': "g' = rs_take w (unat (hd_index (unpack raw))) (g\<lparr>rs_mem := m\<rparr>)"
  shows "as_go False (rs_sc g) (TakeCas op raw nx) = (rs_sc g', Access op (hd_index (unpack raw)))"
    "rs_G g' \<and> rs_L g' (Access op (hd_index (unpack raw)), v')" "rs_frame None g g'"
proof -
  let ?i = "hd_index (unpack raw)" and ?r = "pack nx (hd_tag (unpack raw) + 1)" and ?old = "top_view g w"
  have v: "view_ok (rs_mem g) v" and aL: "as_L (rs_sc g) (TakeCas op raw nx)" using L by (auto simp: rs_L_def)
  have i: "idx_ok (rs_sc g) ?i" "unat ?i < length (rs_data g)" using aL by (auto simp: idx_ok_def)
  note ok = rmw_ok [OF rm v rs_GD(2) [OF G]]
  let ?n = "length (rs_mem g (LTop w))"
  have m: "m = (rs_mem g)(LTop w := rs_mem g (LTop w) @ [Msg (VHead ?r) (see (LTop w) ?n ?old)])" and v': "v' = see (LTop w) ?n (sup v ?old)"
    using rm by (auto simp: rmw_def Let_def)
  have "newest m (LTop w) = VHead ?r" "\<And>l. l \<noteq> LTop w \<Longrightarrow> m l = rs_mem g l" by (simp_all add: m)
  note rsc = rs_sc_take(1) [OF this i(2), folded g']
  show sc: "as_go False (rs_sc g) (TakeCas op raw nx) = (rs_sc g', Access op ?i)"
    using nw by (simp add: rsc Let_def flip: w)
  note own = rs_own_sc [OF G B aL sc]
  obtain xs where xs: "g_list w (rs_sc g) = unat ?i # xs"
    using head_in_list [OF rs_GD(1) [OF G], of w] nw i(1) by (auto simp: idx_ok_def)
  have gl: "g_list z (rs_sc g') = (if z = w then xs else g_list z (rs_sc g))"
    "g_ver z (rs_sc g') = (if z = w then g_ver w (rs_sc g) + 1 else g_ver z (rs_sc g))" for z
    using arg_cong [OF rsc, of "g_list z"] arg_cong [OF rsc, of "g_ver z"] xs by (simp_all add: ghost_take_eq)
  have li: "node_view g x ?old" if "x \<in> set (unat ?i # xs)" for x using rs_GD(6) [OF G, of x w] that xs by simp
  have sel: "rs_mem g' = m" "rs_data g' = rs_data g" "rs_trail g' = rs_trail g" by (simp_all add: g')
  have ex: "rs_G g'" "rs_frame None g g'"
    by (rule rs_exchanged [OF G own(1), of w ?r "see (LTop w) ?n ?old"]; use ok(1) li in \<open>auto simp: sel gl; simp add: m\<close>)+
  then show "rs_frame None g g'" by simp
  have "node_view g (unat ?i) (sup v ?old)"
    by (rule node_view_mono [OF li [of "unat ?i"]]) (use v rs_top_ok [OF G, of w] in auto)
  then have "node_view g' (unat ?i) v'" by (simp add: node_view_def latest_def write_ordered_def g' m v')
  then show "rs_G g' \<and> rs_L g' (Access op ?i, v')" using ex own(2) ok(2) by (simp add: rs_L_def rs_V_def) (simp add: g')
qed

lemma rs_put_ok:
  assumes G: "rs_G g" and L: "rs_L g (PutCas r i raw, v)" and B: "rs_bound g'" and w: "w = put_to r"
    and nw: "newest (rs_mem g) (LTop w) = VHead raw"
    and rm: "rmw False True (LTop w) (VHead (pack i (hd_tag (unpack raw) + 1))) (rs_mem g) v = (m, v')"
    and g': "g' = rs_put w (unat i) (g\<lparr>rs_mem := m\<rparr>)"
  shows "as_go False (rs_sc g) (PutCas r i raw) = (rs_sc g', AsRet r)"
    "rs_G g' \<and> rs_L g' (AsRet r, v')" "rs_frame (Some i) g g'"
proof -
  let ?r = "pack i (hd_tag (unpack raw) + 1)" and ?old = "top_view g w" and ?n = "length (rs_mem g (LTop w))"
  have v: "view_ok (rs_mem g) v" "node_view g (unat i) v" and aL: "as_L (rs_sc g) (PutCas r i raw)"
    using L by (auto simp: rs_L_def rs_V_def)
  have i: "unat i < length (rs_data g)" using aL by (auto simp: owned_ok_def idx_ok_def)
  note ok = rmw_ok [OF rm v(1) rs_GD(2) [OF G]]
  let ?u = "see (LTop w) ?n (sup ?old v')"
  have v': "v' = see (LTop w) ?n v" and m: "m = (rs_mem g)(LTop w := rs_mem g (LTop w) @ [Msg (VHead ?r) ?u])"
    using rm by (auto simp: rmw_def Let_def)
  have "newest m (LTop w) = VHead ?r" "\<And>l. l \<noteq> LTop w \<Longrightarrow> m l = rs_mem g l" by (simp_all add: m)
  note rsc = rs_sc_take(2) [OF this i, of "unat i", folded g']
  show sc: "as_go False (rs_sc g) (PutCas r i raw) = (rs_sc g', AsRet r)"
    using nw by (simp add: rsc Let_def flip: w)
  note own = rs_own_sc [OF G B aL sc]
  have gl: "g_list z (rs_sc g') = (if z = w then unat i # g_list w (rs_sc g) else g_list z (rs_sc g))"
    "g_ver z (rs_sc g') = (if z = w then g_ver w (rs_sc g) + 1 else g_ver z (rs_sc g))" for z
    using arg_cong [OF rsc, of "g_list z"] arg_cong [OF rsc, of "g_ver z"] by (simp_all add: ghost_put_eq)
  have li: "node_view g x ?u" if "x \<in> set (unat i # g_list w (rs_sc g))" for x
  proof -
    have "node_view g x v \<or> node_view g x ?old" using that v(2) rs_GD(6) [OF G, of x w] by auto
    then have "node_view g x (sup ?old v)"
      using node_view_mono [of g x _ "sup ?old v"] v(1) rs_top_ok [OF G, of w] by auto
    then show ?thesis by (simp add: v')
  qed
  have sel: "rs_mem g' = m" "rs_data g' = rs_data g" "rs_trail g' = rs_trail g" by (simp_all add: g')
  have ex: "rs_G g'" "rs_frame (Some i) g g'"
    by (rule rs_exchanged [OF G own(1), of w ?r ?u]; use ok(1) li in \<open>auto simp: sel gl; simp add: m\<close>)+
  then show "rs_G g' \<and> rs_L g' (AsRet r, v')" "rs_frame (Some i) g g'"
    using own(2) ok(2) by (simp_all add: rs_L_def rs_V_def) (simp add: g')
qed

subsection \<open>Working on an owned node\<close>

lemma rs_node_step:
  assumes G: "rs_G g" and own: "owned_ok (rs_sc g) i" and sc: "rs_sc g' = set_node (rs_sc g) i nd"
    and ok: "mem_ok (rs_mem g')" "mem_le (rs_mem g) (rs_mem g')"
    and top: "\<And>w. rs_mem g' (LTop w) = rs_mem g (LTop w)"
    and frm: "\<And>x. x \<noteq> unat i \<Longrightarrow> rs_mem g' (LNext x) = rs_mem g (LNext x) \<and> rs_trail g' x = rs_trail g x"
  shows "rs_G g'" "rs_frame (Some i) g g'"
proof -
  have len: "length (rs_data g') = length (rs_data g)"
    using arg_cong [OF sc, of "\<lambda>h. length (as_nodes (ag_st h))"] by simp
  have gl: "g_list w (rs_sc g') = g_list w (rs_sc g)" "g_ver w (rs_sc g') = g_ver w (rs_sc g)" for w
    using arg_cong [OF sc, of "g_list w"] arg_cong [OF sc, of "g_ver w"] by simp_all
  have "node_view g' x v = node_view g x v" if "x \<in> set (g_list w (rs_sc g))" for x v w
  proof -
    have "x \<noteq> unat i" using own that g_list_disjoint [OF rs_GD(1) [OF G] that] by (auto simp: owned_ok_def)
    then show ?thesis using frm by (simp add: node_view_def latest_def write_ordered_def)
  qed
  then have "rs_lists g'" using rs_GD(6) [OF G] by (auto simp: rs_lists_def gl top)
  moreover have "rs_heads g'" using rs_GD(3) [OF G] by (simp add: rs_heads_def gl top len)
  moreover have "as_G (rs_sc g')" unfolding sc by (rule set_node_G [OF rs_GD(1) [OF G] own])
  ultimately show "rs_G g'" using ok by (simp add: rs_G_def)
  show "rs_frame (Some i) g g'" using ok(2) frm top by (auto simp: rs_frame_def word_unat_eq_iff)
qed

lemma rs_sc_node:
  assumes "length (rs_data g') = length (rs_data g)" "\<And>x. rs_node g' x = (if x = unat i then nd else rs_node g x)"
    "\<And>w. rs_mem g' (LTop w) = rs_mem g (LTop w)" "rs_capacity g' = rs_capacity g" "rs_ds g' = rs_ds g" "rs_fs g' = rs_fs g"
    "rs_nd g' = rs_nd g" "rs_nf g' = rs_nf g" "rs_taken g' = rs_taken g"
  shows "rs_sc g' = set_node (rs_sc g) i nd"
proof -
  have "map (rs_node g') [0..<length (rs_data g)] = (map (rs_node g) [0..<length (rs_data g)])[unat i := nd]"
    by (rule nth_equalityI) (simp_all add: assms(2) nth_list_update)
  then show ?thesis using assms by (simp add: rs_sc_def set_node_def)
qed

lemma rs_node_sc: "unat i < length (rs_data g) \<Longrightarrow> as_nodes (ag_st (rs_sc g)) ! unat i = rs_node g (unat i)"
  by simp

lemma rs_access:
  assumes G: "rs_G g" and L: "rs_L g (Access op i, v)" and B: "rs_bound g'" and go: "rs_go j sp g (Access op i, v) = (g', l', v')"
  shows "as_go False (rs_sc g) (Access op i) = (rs_sc g', l')" "rs_G g' \<and> rs_L g' (l', v')" "rs_frame (Some i) g g'"
proof -
  have aL: "as_L (rs_sc g) (Access op i)" and v: "view_ok (rs_mem g) v" and nv: "node_view g (unat i) v"
    using L by (auto simp: rs_L_def rs_V_def)
  have own: "owned_ok (rs_sc g) i" using aL by simp
  then have i: "unat i < length (rs_data g)" by (simp add: owned_ok_def idx_ok_def)
  have wr: "write_ordered (unat i) (rs_trail g) v" using nv by (simp add: node_view_def)
  obtain h v1 where lt: "leave_trail (unat i) True (rs_trail g) v = (h, v1)" by fastforce
  then have h: "h = (rs_trail g)(unat i := rs_trail g (unat i) @ [True])" "v1 = know (unat i) (length (rs_trail g (unat i))) v"
    by (auto simp: leave_trail_def)
  define d where "d = (case op of OpPush x \<Rightarrow> (rs_data g)[unat i := x] | OpPop \<Rightarrow> rs_data g)"
  define nd where "nd = (rs_node g (unat i))\<lparr>nd_data := d ! unat i\<rparr>"
  have e: "g' = g\<lparr>rs_data := d, rs_trail := h\<rparr>" "v' = v1"
    "l' = (case op of OpPush x \<Rightarrow> PutLoad (Pushed x) i | OpPop \<Rightarrow> PutLoad (Popped (rs_data g ! unat i)) i)"
    using go i wr lt by (auto simp: d_def split: stack_op.splits)
  have d: "length d = length (rs_data g)" "x \<noteq> unat i \<Longrightarrow> d ! x = rs_data g ! x" for x by (auto simp: d_def split: stack_op.splits)
  have sc': "rs_sc g' = set_node (rs_sc g) i nd"
    by (rule rs_sc_node) (use d in \<open>auto simp: e rs_node_def nd_def\<close>)
  have triv: "set_node (rs_sc g) i (rs_node g (unat i)) = rs_sc g" using i by (simp add: set_node_def list_update_same_conv)
  show sc: "as_go False (rs_sc g) (Access op i) = (rs_sc g', l')"
    unfolding sc' e(3) using access_node [OF own] i triv by (cases op) (simp_all add: nd_def d_def rs_node_def)
  note own' = rs_own_sc [OF G B aL sc]
  have st: "rs_G g'" "rs_frame (Some i) g g'"
    by (rule rs_node_step [OF G own sc']; use rs_GD(2) [OF G] in \<open>simp add: e h\<close>)+
  then show "rs_frame (Some i) g g'" by simp
  have "node_view g' (unat i) v'"
    using nv write_ordered_leave [OF wr lt] by (simp add: node_view_def latest_def e h(2))
  then have "rs_V g' (l', v')" by (cases op) (simp_all add: rs_V_def e(3))
  then show "rs_G g' \<and> rs_L g' (l', v')" using st own'(2) v by (simp add: rs_L_def) (simp add: e h(2))
qed

lemma rs_put_store:
  assumes G: "rs_G g" and L: "rs_L g (PutStore r i raw, v)" and B: "rs_bound g'" and go: "rs_go j sp g (PutStore r i raw, v) = (g', l', v')"
  shows "as_go False (rs_sc g) (PutStore r i raw) = (rs_sc g', l')" "rs_G g' \<and> rs_L g' (l', v')" "rs_frame (Some i) g g'"
proof -
  have aL: "as_L (rs_sc g) (PutStore r i raw)" and v: "view_ok (rs_mem g) v" and nv: "node_view g (unat i) v"
    using L by (auto simp: rs_L_def rs_V_def)
  have own: "owned_ok (rs_sc g) i" using aL by simp
  then have i: "unat i < length (rs_data g)" by (simp add: owned_ok_def idx_ok_def)
  let ?x = "hd_index (unpack raw)" and ?nd = "(rs_node g (unat i))\<lparr>nd_next := hd_index (unpack raw)\<rparr>"
  obtain m v1 where s: "store_rlx (LNext (unat i)) (VNext ?x) (rs_mem g) v = Some (m, v1)"
    using nv by (auto simp: store_rlx_def node_view_def)
  note ok = store_rlxD [OF s v rs_GD(2) [OF G]]
  have e: "g' = g\<lparr>rs_mem := m\<rparr>" "l' = PutCas r i raw" "v' = v1" using go i s by auto
  have sc': "rs_sc g' = set_node (rs_sc g) i ?nd"
    by (rule rs_sc_node) (auto simp: e ok(1) rs_node_def)
  show sc: "as_go False (rs_sc g) (PutStore r i raw) = (rs_sc g', l')"
    using access_node(3) [OF own] i by (simp add: sc' e(2))
  note own' = rs_own_sc [OF G B aL sc]
  have st: "rs_G g'" "rs_frame (Some i) g g'"
    by (rule rs_node_step [OF G own sc']; use ok(1,5,6) in \<open>simp add: e\<close>)+
  then show "rs_frame (Some i) g g'" by simp
  have "node_view g' (unat i) v'" using nv ok(2,7) by (simp add: e node_view_def write_ordered_def)
  then show "rs_G g' \<and> rs_L g' (l', v')" using st own'(2) ok(4) by (simp add: rs_L_def rs_V_def e(2)) (simp add: e)
qed

subsection \<open>Obligations of the proof rule\<close>

definition rs_load_step :: "'a rs_global \<Rightarrow> 'a rs_global \<Rightarrow> 'a as_pc \<Rightarrow> 'a as_pc \<Rightarrow> bool" where
  "rs_load_step g g' l l' \<longleftrightarrow> g' = g \<and> owns l' = owns l"

lemma rs_take_cas:
  assumes G: "rs_G g" and B: "rs_bound g'" and L: "rs_L g (TakeCas op raw nx, v)" and go: "rs_go j sp g (TakeCas op raw nx, v) = (g', l', v')"
  shows "rs_G g' \<and> rs_L g' (l', v') \<and> (rs_load_step g g' (TakeCas op raw nx) l' \<or>
    as_go False (rs_sc g) (TakeCas op raw nx) = (rs_sc g', l') \<and> rs_frame None g g')"
proof -
  have v: "view_ok (rs_mem g) v" using L by (simp add: rs_L_def)
  obtain r m w where cas: "cas_weak True False True j sp (LTop (take_from op)) (VHead raw)
      (VHead (pack nx (hd_tag (unpack raw) + 1))) (rs_mem g) v = (r, m, w)" by (metis prod_cases3)
  from cas show ?thesis
  proof (cases rule: cas_weakE)
    case success
    then have "g' = rs_take (take_from op) (unat (hd_index (unpack raw))) (g\<lparr>rs_mem := m\<rparr>)"
      "l' = Access op (hd_index (unpack raw))" "v' = w" using go cas by (auto simp: Let_def)
    then show ?thesis using rs_take_ok [OF G L B refl success(2,3)] by simp
  next
    case (failure z)
    then have "g' = g" "l' = take_check op (top_word z)" "v' = w" using go cas by (auto simp: Let_def)
    then show ?thesis using rs_take_check [OF G v] failure(3) G by (simp add: rs_load_step_def)
  qed
qed

lemma rs_put_cas:
  assumes G: "rs_G g" and B: "rs_bound g'" and L: "rs_L g (PutCas r i raw, v)" and go: "rs_go j sp g (PutCas r i raw, v) = (g', l', v')"
  shows "rs_G g' \<and> rs_L g' (l', v') \<and> (rs_load_step g g' (PutCas r i raw) l' \<or>
    as_go False (rs_sc g) (PutCas r i raw) = (rs_sc g', l') \<and> rs_frame (Some i) g g')"
proof -
  have v: "view_ok (rs_mem g) v" "node_view g (unat i) v" and aL: "as_L (rs_sc g) (PutStore r i raw)"
    using L by (auto simp: rs_L_def rs_V_def)
  obtain x m w where cas: "cas_weak False True False j sp (LTop (put_to r)) (VHead raw)
      (VHead (pack i (hd_tag (unpack raw) + 1))) (rs_mem g) v = (x, m, w)" by (metis prod_cases3)
  from cas show ?thesis
  proof (cases rule: cas_weakE)
    case success
    then have "g' = rs_put (put_to r) (unat i) (g\<lparr>rs_mem := m\<rparr>)" "l' = AsRet r" "v' = w" using go cas by (auto simp: Let_def)
    then show ?thesis using rs_put_ok [OF G L B refl success(2,3)] by simp
  next
    case (failure z)
    then have "g' = g" "l' = PutStore r i (top_word z)" "v' = w" using go cas by (auto simp: Let_def)
    then show ?thesis using rs_put_load [OF G aL v] failure(3) G by (simp add: rs_load_step_def)
  qed
qed

text \<open>
  Every access either is a load, which leaves the shared state alone, or is the access the
  interleaved machine makes on the newest messages.
\<close>

lemma rs_go_step:
  assumes G: "rs_G g" and B: "rs_bound g'" and L: "rs_L g (l, v)" and go: "rs_go j sp g (l, v) = (g', l', v')"
  shows "rs_G g' \<and> rs_L g' (l', v') \<and> (rs_load_step g g' l l' \<or> as_go False (rs_sc g) l = (rs_sc g', l') \<and> rs_frame (owns l) g g')"
proof (cases l)
  case (TakeLoad op)
  have "view_ok (rs_mem g) v" using L by (simp add: rs_L_def)
  then show ?thesis using go TakeLoad G rs_take_check [OF G] by (auto simp: rs_load_step_def split: prod.splits)
next
  case (TakeNext op raw)
  then show ?thesis using rs_take_next [OF G L [unfolded TakeNext] go [unfolded TakeNext]] G by (simp add: rs_load_step_def)
next
  case (TakeCas op raw nx)
  then show ?thesis using rs_take_cas [OF G B L [unfolded TakeCas] go [unfolded TakeCas]] by simp
next
  case (Access op i)
  then show ?thesis using rs_access [OF G L [unfolded Access] B go [unfolded Access]] by simp
next
  case (PutLoad r i)
  have v: "view_ok (rs_mem g) v" "node_view g (unat i) v" and aL: "as_L (rs_sc g) (PutStore r i 0)"
    using L by (auto simp: PutLoad rs_L_def rs_V_def)
  then show ?thesis using go G rs_put_load [OF G aL v] by (auto simp: PutLoad rs_load_step_def split: prod.splits)
next
  case (PutStore r i raw)
  then show ?thesis using rs_put_store [OF G L [unfolded PutStore] B go [unfolded PutStore]] by simp
next
  case (PutCas r i raw)
  then show ?thesis using rs_put_cas [OF G B L [unfolded PutCas] go [unfolded PutCas]] by simp
qed (use L G go in \<open>auto simp: rs_load_step_def rs_L_def rs_V_def\<close>)

lemma rs_exec_step:
  assumes ex: "rs_exec a g (l, v) = (g', l', v')" and B: "rs_bound g'" and G: "rs_G g" and L: "rs_L g (l, v)"
  shows "rs_G g' \<and> rs_L g' (l', v')"
    "rs_load_step g g' l l' \<or> as_go False (rs_sc g) l = (rs_sc g', l') \<and> rs_frame (owns l) g g'"
proof -
  have "rs_G g' \<and> rs_L g' (l', v') \<and> (rs_load_step g g' l l' \<or> as_go False (rs_sc g) l = (rs_sc g', l') \<and> rs_frame (owns l) g g')"
  proof (cases a)
    case (RsCall op)
    then show ?thesis using ex G L by (auto simp: rs_load_step_def rs_L_def rs_V_def split: as_pc.splits)
  next
    case (RsGo j sp)
    then show ?thesis using ex by (intro rs_go_step [OF G B L]) simp
  qed
  then show "rs_G g' \<and> rs_L g' (l', v')"
    "rs_load_step g g' l l' \<or> as_go False (rs_sc g) l = (rs_sc g', l') \<and> rs_frame (owns l) g g'" by blast+
qed

lemma rs_bound_down: "rs_exec a g lv = (g', lv') \<Longrightarrow> rs_bound g' \<Longrightarrow> rs_bound g"
proof -
  assume ex: "rs_exec a g lv = (g', lv')" and B: "rs_bound g'"
  obtain l v where lv: "lv = (l, v)" by (cases lv)
  have "rs_nd g \<le> rs_nd g' \<and> rs_nf g \<le> rs_nf g'"
    using ex unfolding lv by (cases a; cases l)
      (auto simp: Let_def leave_trail_def rs_take_def rs_put_def split: prod.splits option.splits if_splits which.splits stack_op.splits)
  then show "rs_bound g" using B by (simp add: rs_bound_def as_bound_def)
qed

lemma rs_V_frame:
  assumes fr: "rs_frame q g g'" and L: "rs_L g (m, w)" and X: "\<And>i. owns m = Some i \<Longrightarrow> q \<noteq> Some i"
  shows "view_ok (rs_mem g') w" "rs_V g' (m, w)"
proof -
  have V: "rs_V g (m, w)" and aL: "as_L (rs_sc g) m" using L by (auto simp: rs_L_def)
  have "mem_le (rs_mem g) (rs_mem g')" using fr by (simp add: rs_frame_def)
  then show "view_ok (rs_mem g') w" using view_ok_mono L by (auto simp: rs_L_def)
  have nv: "node_view g' (unat i) w" if "owns m = Some i" for i
    using fr X [OF that] V that by (auto simp: rs_frame_def rs_V_def node_view_def latest_def write_ordered_def)
  have ft: "fresh_top g' z raw w" if r: "raw_ok z (rs_sc g) raw" and f: "fresh_top g z raw w" for z raw
  proof (cases "rs_mem g' (LTop z) = rs_mem g (LTop z)")
    case True
    then show ?thesis using f by (simp add: fresh_top_def)
  next
    case False
    then have "unat (hd_tag (unpack (target z (ag_st (rs_sc g'))))) = g_ver z (rs_sc g) + 1" using fr by (auto simp: rs_frame_def)
    then have "raw \<noteq> target z (ag_st (rs_sc g'))" using r by (auto simp: raw_ok_def)
    then show ?thesis by (simp add: fresh_top_def)
  qed
  show "rs_V g' (m, w)" using nv ft V aL by (auto simp: rs_V_def split: as_pc.splits)
qed

lemma rs_other_step:
  assumes ex: "rs_exec a g lv = (g', lv')" and B: "rs_bound g'" and G: "rs_G g" and L: "rs_L g lv"
    and m: "rs_L g mw" and X: "rs_X lv mw"
  shows "rs_L g' mw \<and> rs_X lv' mw"
proof -
  obtain l v l' v' m w where lv: "lv = (l, v)" "lv' = (l', v')" "mw = (m, w)" by (metis surj_pair)
  have aX: "as_X l m" and aL: "as_L (rs_sc g) l" "as_L (rs_sc g) m" using L assms(5) X by (auto simp: lv rs_L_def rs_X_def)
  show ?thesis
    using rs_exec_step(2) [OF ex [unfolded lv] B G L [unfolded lv]]
  proof
    assume "rs_load_step g g' l l'"
    then show ?thesis using assms(5) aX by (auto simp: lv rs_load_step_def rs_X_def as_X_def)
  next
    assume st: "as_go False (rs_sc g) l = (rs_sc g', l') \<and> rs_frame (owns l) g g'"
    then have "as_L (rs_sc g') m \<and> as_X l' m"
      using as_go_step [OF _ _ rs_GD(1) [OF G] aL(1), of False "rs_sc g'" l' m] B aL aX by (simp add: rs_bound_def)
    moreover have "owns l \<noteq> Some i" if "owns m = Some i" for i using aX that by (auto simp: as_X_def)
    ultimately show ?thesis using rs_V_frame [of "owns l" g g' m w] st assms(5) by (auto simp: lv rs_L_def rs_X_def)
  qed
qed

definition rs_abs :: "'a rs_global \<Rightarrow> nat \<times> 'a list" where
  "rs_abs g = as_abs (rs_sc g)"

fun rs_status :: "'a rs_global \<Rightarrow> 'a rs_local \<Rightarrow> ('a stack_op, 'a stack_res) status" where
  "rs_status g (l, v) = as_status (rs_sc g) l"

fun rs_obs :: "'a rs_local \<Rightarrow> 'a rs_local \<Rightarrow> ('a stack_op, 'a stack_res) label option" where
  "rs_obs (l, v) (l', v') = as_obs l l'"

text \<open>A load does not change how far an operation has got, unless it makes the operation fail.\<close>

lemma rs_load_move:
  assumes "rs_exec a g (l, v) = (g, l', v')" "owns l' = owns l" "rs_L g (l, v)" "l' \<noteq> AsUndefined"
  shows "lin_move stack_spec (rs_abs g, rs_status g (l, v)) (as_obs l l') (rs_abs g, rs_status g (l', v'))"
proof (cases a)
  case (RsCall op)
  then show ?thesis using assms by (cases l) (auto simp: as_move_simps)
next
  case (RsGo j sp)
  show ?thesis
  proof (cases l)
    case (TakeCas op raw nx)
    then show ?thesis using assms RsGo by (auto simp: Let_def take_check_move as_move_simps split: prod.splits option.splits)
  next
    case (Access op i)
    then show ?thesis using assms RsGo by (cases op) (auto simp: rs_L_def rs_node_def owned_ok_def idx_ok_def as_move_simps split: prod.splits if_splits)
  next
    case (PutCas r i raw)
    then show ?thesis using assms RsGo by (auto simp: Let_def as_move_simps split: prod.splits option.splits)
  qed (use assms RsGo in \<open>auto simp: Let_def take_check_move as_move_simps split: prod.splits option.splits if_splits\<close>)
qed

lemma rs_status_move:
  assumes ex: "rs_exec a g lv = (g', lv')" and B: "rs_bound g'" and G: "rs_G g" and L: "rs_L g lv"
  shows "lin_move stack_spec (rs_abs g, rs_status g lv) (rs_obs lv lv') (rs_abs g', rs_status g' lv')"
proof -
  obtain l v l' v' where lv: "lv = (l, v)" "lv' = (l', v')" by (metis surj_pair)
  note ex = ex [unfolded lv] and L = L [unfolded lv]
  have aL: "as_L (rs_sc g) l" using L by (simp add: rs_L_def)
  from rs_exec_step(2) [OF ex B G L] show ?thesis
  proof
    assume st: "rs_load_step g g' l l'"
    have "l' \<noteq> AsUndefined" using rs_exec_step(1) [OF ex B G L] by (auto simp: rs_L_def)
    then show ?thesis using rs_load_move [of a g l v l' v'] ex st L by (simp add: lv rs_load_step_def)
  next
    assume "as_go False (rs_sc g) l = (rs_sc g', l') \<and> rs_frame (owns l) g g'"
    then have "as_go False (rs_sc g) l = (rs_sc g', l')" by blast
    from as_go_move [OF this rs_GD(1) [OF G] aL] show ?thesis by (simp add: lv rs_abs_def)
  qed
qed

lemma rs_status_stable:
  assumes ex: "rs_exec a g lv = (g', lv')" and B: "rs_bound g'" and G: "rs_G g" and L: "rs_L g lv" and m: "rs_L g mw"
  shows "rs_status g' mw = rs_status g mw"
proof -
  obtain l v l' v' m w where lv: "lv = (l, v)" "lv' = (l', v')" "mw = (m, w)" by (metis surj_pair)
  have aL: "as_L (rs_sc g) l" "as_L (rs_sc g) m" using L m by (auto simp: lv rs_L_def)
  show ?thesis
    using rs_exec_step(2) [OF ex [unfolded lv] B G L [unfolded lv]] as_status_stable [OF _ rs_GD(1) [OF G] aL]
    by (auto simp: lv rs_load_step_def)
qed

lemma rs_sc_of: "rs_sc (rs_of h) = h"
proof -
  have "map (rs_node (rs_of h)) [0..<length (as_nodes (ag_st h))] = as_nodes (ag_st h)"
    by (rule nth_equalityI) (simp_all add: rs_node_def rs_of_def)
  then show ?thesis by (simp add: rs_sc_def rs_of_def)
qed

lemma rs_start_G:
  assumes "as_ginit h" "rs_bound (rs_of h)"
  shows "rs_G (rs_of h)"
proof -
  have aG: "as_G h" using as_og.init_G assms by (simp add: rs_bound_def rs_sc_of)
  have hd: "unat (hd_tag (unpack (target w (ag_st h)))) = g_ver w h"
    "hd_index (unpack (target w (ag_st h))) \<noteq> NULL_INDEX \<Longrightarrow> unat (hd_index (unpack (target w (ag_st h)))) < length (as_nodes (ag_st h))" for w
    using as_G_head [OF aG, of w] as_head_idx [OF aG, of w] by (simp_all add: head_ok_def)
  have "rs_heads (rs_of h)" unfolding rs_heads_def rs_sc_of using hd by (simp add: rs_of_def)
  moreover have "rs_lists (rs_of h)" unfolding rs_lists_def rs_sc_of by (simp add: rs_of_def node_view_def latest_def write_ordered_def)
  moreover have "mem_ok (rs_mem (rs_of h))" by (simp add: rs_of_def mem_ok_def view_ok_def)
  ultimately show ?thesis using aG by (simp add: rs_G_def rs_sc_of)
qed

interpretation rs_og: og_linearizable rs_exec rs_ginit rs_linit rs_bound rs_G rs_L rs_X rs_abs stack_spec rs_status rs_obs
proof
  show "rs_G g" if "rs_ginit g" "rs_bound g" for g :: "'a rs_global"
    using that rs_start_G by (auto simp: rs_ginit_def)
  show "rs_L g (rs_linit t)" if "rs_ginit g" for g :: "'a rs_global" and t
    using that by (auto simp: rs_ginit_def rs_linit_def rs_L_def rs_V_def rs_of_def view_ok_def)
  show "rs_X (rs_linit t) (rs_linit u)" for t u :: tid by (simp add: rs_X_def rs_linit_def as_X_def)
  show "rs_X l m \<Longrightarrow> rs_X m l" for l m :: "'a rs_local" by (auto simp: rs_X_def as_X_def)
  show "rs_G g' \<and> rs_L g' l'" if "rs_exec a g l = (g', l')" "rs_bound g'" "rs_G g" "rs_L g l" for a and g g' :: "'a rs_global" and l l'
    using that rs_exec_step(1) by (metis surj_pair)
  show "rs_status g (rs_linit t) = Ready" for g :: "'a rs_global" and t by (simp add: rs_linit_def)
qed (fact rs_bound_down rs_other_step rs_status_move | (rule rs_status_stable; assumption))+

text \<open>No node gets lost.\<close>

lemma rs_exec_sizes:
  assumes "rs_exec a g (l, v) = (g', l', v')"
  shows "length (rs_data g') = length (rs_data g)" "rs_capacity g' = rs_capacity g"
  using assms by (cases a; cases l; auto simp: Let_def leave_trail_def rs_take_def rs_put_def
    split: prod.splits option.splits if_splits which.splits stack_op.splits)+

lemma rs_nodes_owned:
  assumes "rs_reach c"
  shows "rs_bound (fst c) \<Longrightarrow> x < as_usable (ag_st (rs_sc (fst c))) \<Longrightarrow>
     x \<in> set (rs_ds (fst c)) \<union> set (rs_fs (fst c)) \<or> (\<exists>t i. owns (fst (snd c t)) = Some i \<and> unat i = x)"
  using assms
proof (induction rule: reach.induct)
  case (start g)
  then obtain h where h: "as_ginit h" "g = rs_of h" by (auto simp: rs_ginit_def)
  then have "set (ag_ds h) \<union> set (ag_fs h) = {..<as_usable (ag_st h)}" by (auto simp: as_ginit_def as_lists_def)
  then show ?case using start.prems h(2) by (auto simp: rs_sc_of) (auto simp: rs_of_def)
next
  case (step c e)
  obtain t a g ls where e: "e = (t, a)" "c = (g, ls)" by (metis surj_pair)
  obtain l v g' l' v' where lv: "ls t = (l, v)" and ex: "rs_exec a g (l, v) = (g', l', v')" by (metis surj_pair)
  have B': "rs_bound g'" using step.prems by (simp add: e lv ex sys_step_eq)
  have B: "rs_bound g" by (rule rs_bound_down [OF ex B'])
  have "rs_reach (g, ls)" using step.hyps e by simp
  note G = rs_og.reach_G [OF this B] and L = rs_og.reach_L [OF this B, of t, unfolded lv]
  have IH: "x \<in> set (rs_ds g) \<union> set (rs_fs g) \<or> (\<exists>u i. owns (fst (ls u)) = Some i \<and> unat i = x)"
    using step.IH B step.prems(2) rs_exec_sizes [OF ex] by (simp add: e lv ex sys_step_eq as_usable_def rs_sc_def)
  have "set (rs_ds g) \<union> set (rs_fs g) \<union> {unat i |i. owns (fst (ls t)) = Some i} = set (rs_ds g') \<union> set (rs_fs g') \<union> {unat i |i. owns l' = Some i}"
    using rs_exec_step(2) [OF ex B' G L] as_owner_step [OF _ rs_GD(1) [OF G], of False l "rs_sc g'" l'] L
    by (auto simp: lv rs_load_step_def rs_L_def)
  from owned_update [of _ "\<lambda>u. fst (ls u)", OF this IH] show ?case by (simp add: e lv ex sys_step_eq if_distrib [of fst] cong: if_cong)
qed

subsection \<open>Properties of all executions\<close>

text \<open>Thread 0 pushes 7; thread 1 first finds the stack empty in its old view, then pops and has read the data.\<close>

definition rs_demo :: "(tid \<times> nat rs_act) list \<Rightarrow> (nat rs_global, nat rs_local) config" where
  "rs_demo es = run rs_exec (rs_of as_g0, rs_linit) es"

definition rs_sched_push :: "(tid \<times> nat rs_act) list" where
  "rs_sched_push = [(0, RsCall (OpPush 7)), (0, RsGo 0 False), (0, RsGo 0 False), (0, RsGo 0 False), (0, RsGo 0 False),
     (0, RsGo 0 False), (0, RsGo 0 False), (0, RsGo 0 False), (0, RsGo 0 False), (1, RsCall OpPop)]"

definition rs_sched_pop :: "(tid \<times> nat rs_act) list" where
  "rs_sched_pop = rs_sched_push @ [(1, RsGo 1 False), (1, RsGo 1 False), (1, RsGo 1 False), (1, RsGo 0 False)]"

lemma rs_demo_reach: "rs_reach (fst (rs_demo es), snd (rs_demo es))"
  unfolding prod.collapse rs_demo_def by (rule reach_run_init) (use as_g0_init in \<open>auto simp: rs_ginit_def\<close>)

lemmas rs_eval = rs_demo_def sys_step_def rs_of_def rs_linit_def as_g0_def as_new_2 take_check_def rs_take_def rs_put_def
  load_rlx_def load_acq_def cas_weak_def rmw_def store_rlx_def latest_def leave_trail_def write_ordered_def pick_def Let_def

lemma rs_demo_push:
  "rs_bound (fst (rs_demo rs_sched_push))" "snd (rs_demo rs_sched_push) 1 = (TakeLoad OpPop, bot)"
  "rs_ds (fst (rs_demo rs_sched_push)) = [0]"
  "fst (snd (rs_go 0 False (fst (rs_demo rs_sched_push)) (snd (rs_demo rs_sched_push) 1))) = AsRet Failed"
  by (simp_all add: rs_bound_def as_bound_def rs_sched_push_def rs_eval)

lemma rs_demo_pop:
  "rs_bound (fst (rs_demo rs_sched_pop))" "fst (snd (rs_demo rs_sched_pop) 1) = PutLoad (Popped 7) 0"
  "rs_ds (fst (rs_demo rs_sched_pop)) = []" "rs_trail (fst (rs_demo rs_sched_pop)) 0 = [True, True]"
  by (simp_all add: rs_bound_def as_bound_def rs_sched_push_def rs_sched_pop_def rs_eval)

text \<open>Thread 0 pushes 7 and returns, thread 1 pops it and returns.\<close>

definition rs_sched_full :: "(tid \<times> nat rs_act) list" where
  "rs_sched_full = rs_sched_pop @ [(1, RsGo 3 False), (1, RsGo 0 False), (1, RsGo 3 False), (1, RsGo 0 False)]"

lemma rs_demo_full:
  "rs_bound (fst (rs_demo rs_sched_full))" "rs_abs (fst (rs_demo rs_sched_full)) = (2, [])"
  "history rs_obs rs_exec (rs_of as_g0, rs_linit) rs_sched_full =
     [(0, Invoke (OpPush 7)), (0, Respond (Pushed 7)), (1, Invoke OpPop), (1, Respond (Popped 7))]"
  by (simp_all add: rs_bound_def as_bound_def rs_sched_push_def rs_sched_pop_def rs_sched_full_def rs_eval rs_abs_def as_abs_def rs_sc_def as_usable_def)

text \<open>
  C2. Linearizability of the stack under release/acquire memory: for every schedule of calls and accesses of any number of
  threads, however stale the loads are, the history of the calls of \<^verbatim>\<open>try_push\<close> and \<^verbatim>\<open>try_pop\<close> with the results they return is one of
  an atomic last-in first-out stack, beginning with the content the threads found: every call takes effect at one
  moment between its call and its return; a successful \<^verbatim>\<open>try_push\<close> puts its value on top then, below capacity, and a
  successful \<^verbatim>\<open>try_pop\<close> removes the top and returns it. A call may also fail, with no effect (\<open>rs_failure_justified\<close> says when).
  The theorem holds while each head word has been exchanged fewer than \<open>2 ^ 32\<close> times.
\<close>

theorem rs_linearizable:
  assumes "as_ginit h" "run rs_exec (rs_of h, rs_linit) es = (g, ls)" "rs_bound g"
  shows "linearizable stack_spec (as_usable (ag_st h), as_contents (ag_st h)) (history rs_obs rs_exec (rs_of h, rs_linit) es) (rs_abs g)"
proof -
  have "rs_abs (rs_of h) = (as_usable (ag_st h), as_contents (ag_st h))"
    using assms(1) as_lists_contents by (fastforce simp: as_ginit_def rs_abs_def rs_sc_of as_abs_def)
  moreover have "rs_ginit (rs_of h)" using assms(1) by (auto simp: rs_ginit_def)
  ultimately show ?thesis using rs_og.run_linearizable [OF _ assms(2,3)] by simp
qed

theorem rs_linearizable_witness:
  "linearizable stack_spec (as_usable (ag_st as_g0), as_contents (ag_st as_g0))
     [(0, Invoke (OpPush 7)), (0, Respond (Pushed 7)), (1, Invoke OpPop), (1, Respond (Popped 7))] (2, [])"
proof -
  have "run rs_exec (rs_of as_g0, rs_linit) rs_sched_full = (fst (rs_demo rs_sched_full), snd (rs_demo rs_sched_full))"
    by (simp add: rs_demo_def)
  from rs_linearizable [OF as_g0_init this rs_demo_full(1)] show ?thesis unfolding rs_demo_full(2,3) .
qed

text \<open>
  C17. The stack has no undefined behaviour under release/acquire memory: a node that a thread works on
  exists, is on no list and belongs to no other thread; all earlier accesses of its data happen
  before, and the thread has observed its newest \<^verbatim>\<open>next\<close>, so that neither the plain accesses race nor the
  relaxed stores are misplaced. A pop hands over the value that it removed from the top, a push links in a node with its own value.
\<close>

theorem rs_race_free:
  assumes "rs_reach (g, ls)" "rs_bound g" "ls t = (l, v)"
  shows "l \<noteq> AsUndefined \<and>
    (\<forall>i. owns l = Some i \<longrightarrow> unat i < length (rs_data g) \<and>
       write_ordered (unat i) (rs_trail g) v \<and> latest (LNext (unat i)) (rs_mem g) v \<and>
       unat i \<notin> set (rs_ds g) \<and> unat i \<notin> set (rs_fs g) \<and> (\<forall>u. u \<noteq> t \<longrightarrow> owns (fst (ls u)) \<noteq> Some i)) \<and>
    (\<forall>x i raw. l = PutCas (Popped x) i raw \<longrightarrow> x = rs_taken g (unat i)) \<and>
    (\<forall>x i raw. l = PutCas (Pushed x) i raw \<longrightarrow> rs_data g ! unat i = x)"
proof -
  have L: "rs_L g (l, v)" using rs_og.reach_L [OF assms(1,2), of t] assms(3) by simp
  then have aL: "as_L (rs_sc g) l" by (simp add: rs_L_def)
  have "owns (fst (ls u)) \<noteq> Some i" if "owns l = Some i" "u \<noteq> t" for u i
    using rs_og.reach_X [OF assms(1,2), of u t] that assms(3) by (auto simp: rs_X_def as_X_def)
  moreover have "owned_ok (rs_sc g) i" "node_view g (unat i) v" if "owns l = Some i" for i
    using owns_owned [OF aL that] L that by (auto simp: rs_L_def rs_V_def)
  ultimately show ?thesis using aL by (auto simp: owned_ok_def idx_ok_def node_view_def rs_node_def)
qed

theorem rs_race_free_witness:
  "write_ordered 0 (rs_trail (fst (rs_demo rs_sched_pop))) (snd (snd (rs_demo rs_sched_pop) 1)) \<and>
   rs_trail (fst (rs_demo rs_sched_pop)) 0 = [True, True]"
proof -
  have "snd (rs_demo rs_sched_pop) 1 = (PutLoad (Popped 7) 0, snd (snd (rs_demo rs_sched_pop) 1))"
    using rs_demo_pop(2) by (metis prod.collapse)
  from rs_race_free [OF rs_demo_reach rs_demo_pop(1) this] show ?thesis by (simp add: rs_demo_pop(4))
qed

text \<open>The two loads at which an operation can find its list empty.\<close>

definition top_empty :: "as_val \<Rightarrow> bool" where
  "top_empty x \<longleftrightarrow> hd_index (unpack (top_word x)) = NULL_INDEX"

lemma take_check_Failed: "take_check op raw = AsRet Failed \<longleftrightarrow> hd_index (unpack raw) = NULL_INDEX"
  by (simp add: take_check_def)

lemma rs_fails:
  assumes f: "fst (snd (rs_go j sp g (l, v))) = AsRet Failed" and L: "rs_L g (l, v)"
  obtains op where "l = TakeLoad op \<or> (\<exists>raw nx. l = TakeCas op raw nx)" "top_empty (fst (load_acq j (LTop (take_from op)) (rs_mem g) v))"
proof (cases l)
  case (TakeLoad op)
  then show ?thesis using f that [of op] by (auto simp: take_check_Failed top_empty_def split: prod.splits)
next
  case (TakeCas op raw nx)
  then show ?thesis using f that [of op] by (auto simp: Let_def cas_weak_def take_check_Failed top_empty_def split: prod.splits option.splits if_splits)
next
  case (PutCas r i raw)
  then show ?thesis using f L by (cases r) (auto simp: Let_def rs_L_def split: prod.splits option.splits)
next
  case (Access op i)
  then show ?thesis using f by (cases op) (auto split: prod.splits if_splits)
qed (use f in \<open>auto simp: Let_def split: prod.splits option.splits if_splits\<close>)

text \<open>
  C24. When an operation fails, on every path: either the first load of the head word shows an empty list, or a failed
  compare-exchange has reloaded it and shows one. \<^verbatim>\<open>try_pop\<close> then reports "empty" only if the stack is empty, and \<^verbatim>\<open>try_push\<close> reports "full" only if
  every usable node is on the stack or in the hands of a thread that has not finished its operation, unless the
  thread has not observed the newest head word, that is, the exchange that changed it does not happen before
  the load: \<open>rs_demo_push\<close> is such a stale "empty".
\<close>

theorem rs_failure_justified:
  assumes "rs_reach (g, ls)" "rs_bound g" "ls t = (l, v)" "fst (snd (rs_go j sp g (l, v))) = AsRet Failed"
  shows "\<exists>op. (l = TakeLoad op \<or> (\<exists>raw nx. l = TakeCas op raw nx)) \<and>
    (latest (LTop (take_from op)) (rs_mem g) v \<longrightarrow>
     (case op of OpPop \<Rightarrow> snd (rs_abs g) = []
      | OpPush x \<Rightarrow> \<forall>k < fst (rs_abs g). k \<in> set (rs_ds g) \<or> (\<exists>u i. owns (fst (ls u)) = Some i \<and> unat i = k)))"
proof -
  note G = rs_og.reach_G [OF assms(1,2)]
  have L: "rs_L g (l, v)" using rs_og.reach_L [OF assms(1,2), of t] assms(3) by simp
  then have v: "view_ok (rs_mem g) v" by (simp add: rs_L_def)
  obtain op where op: "l = TakeLoad op \<or> (\<exists>raw nx. l = TakeCas op raw nx)"
    "top_empty (fst (load_acq j (LTop (take_from op)) (rs_mem g) v))"
    by (rule rs_fails [OF assms(4) L])
  let ?w = "take_from op"
  have "g_list ?w (rs_sc g) = []" if lt: "latest (LTop ?w) (rs_mem g) v"
  proof -
    have "hd_index (unpack (target ?w (ag_st (rs_sc g)))) = NULL_INDEX"
      using op(2) pick_latest [OF v lt, of j] rs_GD(5) [OF G, of "LTop ?w"]
      by (simp add: load_acq_def Let_def top_empty_def last_conv_nth)
    then show ?thesis using as_G_head [OF rs_GD(1) [OF G], of ?w]
      by (cases "g_list ?w (rs_sc g)") (auto simp: head_ok_def)
  qed
  moreover have "\<forall>k < fst (rs_abs g). k \<in> set (rs_ds g) \<union> set (rs_fs g) \<or> (\<exists>u i. owns (fst (ls u)) = Some i \<and> unat i = k)"
    using rs_nodes_owned [OF assms(1)] assms(2) by (simp add: rs_abs_def as_abs_def)
  ultimately have "latest (LTop ?w) (rs_mem g) v \<longrightarrow>
     (case op of OpPop \<Rightarrow> snd (rs_abs g) = []
      | OpPush x \<Rightarrow> \<forall>k < fst (rs_abs g). k \<in> set (rs_ds g) \<or> (\<exists>u i. owns (fst (ls u)) = Some i \<and> unat i = k))"
    by (cases op) (auto simp: rs_abs_def as_abs_def)
  then show ?thesis using op(1) by blast
qed

theorem rs_failure_justified_witness:
  "fst (snd (rs_go 0 False (fst (rs_demo [(1, RsCall OpPop)])) (TakeLoad OpPop, bot))) = AsRet Failed \<and>
   snd (rs_abs (fst (rs_demo [(1, RsCall OpPop)]))) = []"
proof -
  let ?c = "rs_demo [(1, RsCall OpPop)]"
  have "rs_bound (fst ?c)" "snd ?c 1 = (TakeLoad OpPop, bot)" "latest (LTop DataHead) (rs_mem (fst ?c)) bot"
    and f: "fst (snd (rs_go 0 False (fst ?c) (TakeLoad OpPop, bot))) = AsRet Failed"
    by (simp_all add: rs_bound_def as_bound_def rs_eval)
  from rs_failure_justified [OF rs_demo_reach this(1,2) f] f this(3) show ?thesis by auto
qed

end
