(* ===== verification/Map_Contract.thy ===== *)
theory Map_Contract
  imports Lockless_Prelude
begin

text \<open>
  The contract of an insert-only map of bounded size: an insertion succeeds exactly if the key is
  new and there is space, and then adds exactly that entry; a lookup that returns gives the
  current entry. \<open>LockFreeHashMap\<close> is the instance, see \<open>Hash_Map\<close>.
\<close>

locale insert_only_map =
  fixes insert :: "'m \<Rightarrow> 'k \<Rightarrow> 'v \<Rightarrow> bool \<times> 'm"
    and find :: "'m \<Rightarrow> 'k \<Rightarrow> 'v option option"
    and invar :: "'m \<Rightarrow> bool"
    and entries :: "'m \<Rightarrow> 'k \<Rightarrow> 'v option"
    and full :: "'m \<Rightarrow> bool"
  assumes insert_new: "invar m \<Longrightarrow> entries m k = None \<Longrightarrow> \<not> full m \<Longrightarrow>
        fst (insert m k v) \<and> invar (snd (insert m k v)) \<and> entries (snd (insert m k v)) = (entries m)(k \<mapsto> v)"
    and insert_dup: "invar m \<Longrightarrow> entries m k \<noteq> None \<or> full m \<Longrightarrow> insert m k v = (False, m)"
    and find_entry: "invar m \<Longrightarrow> find m k = Some (entries m k)"
begin

lemma insert_total:
  assumes "invar m"
  shows "(fst (insert m k v) \<longleftrightarrow> entries m k = None \<and> \<not> full m) \<and> invar (snd (insert m k v)) \<and>
    entries (snd (insert m k v)) = (if fst (insert m k v) then (entries m)(k \<mapsto> v) else entries m)"
  using insert_new [OF assms, of k v] insert_dup [OF assms, of k v] assms by (cases "entries m k = None \<and> \<not> full m") auto

text \<open>An inserted entry is found, it is not overwritten by later insertions, and other keys are unaffected.\<close>

lemma insert_find:
  assumes "invar m" "fst (insert m k v)"
  shows "find (snd (insert m k v)) k = Some (Some v)"
    and "find (snd (insert (snd (insert m k v)) k' v')) k = Some (Some v)"
    and "k' \<noteq> k \<Longrightarrow> find (snd (insert m k v)) k' = find m k'"
  using insert_total [OF assms(1), of k v] insert_total [of "snd (insert m k v)" k' v'] assms find_entry
  by (auto split: if_splits)

end

end
