(* ===== verification/Hash_Map.thy ===== *)
theory Hash_Map
  imports Map_Contract
begin

text \<open>
  \<^verbatim>\<open>include/lockless/hash_map.hpp\<close> run by one thread: open addressing with linear probing, no
  deletion. \<^verbatim>\<open>std::hash<K>\<close> is implementation-defined, so it is the parameter \<open>hash\<close>, any function
  from keys to \<^verbatim>\<open>size_t\<close>. The counting loops recurse on the iterations that are left; the spin
  in \<^verbatim>\<open>find\<close> on a slot that is claimed and never becomes ready does not return (\<open>None\<close>). Both
  overloads of \<^verbatim>\<open>insert\<close> are one definition (a move is a copy). The interleavings are in
  \<open>Hash_Map_Conc\<close>.
\<close>

record ('k, 'v) hnode =
  hn_key :: 'k
  hn_value :: 'v
  hn_occupied :: bool
  hn_ready :: bool

record ('k, 'v) hash_map =
  hm_size :: size_t
  hm_buckets :: "('k, 'v) hnode list"

definition hm_new :: "size_t \<Rightarrow> 'k \<Rightarrow> 'v \<Rightarrow> ('k, 'v) hash_map" where
  "hm_new sz dk dv = \<lparr>hm_size = sz,
     hm_buckets = replicate (unat sz) \<lparr>hn_key = dk, hn_value = dv, hn_occupied = False, hn_ready = False\<rparr>\<rparr>"

text \<open>\<^verbatim>\<open>(hash % Size + i) % Size\<close>\<close>

definition hm_slot :: "size_t \<Rightarrow> size_t \<Rightarrow> nat \<Rightarrow> nat" where
  "hm_slot sz h i = unat ((h mod sz + word_of_nat i) mod sz)"

fun hm_insert_loop :: "('k, 'v) hash_map \<Rightarrow> 'k \<Rightarrow> 'v \<Rightarrow> size_t \<Rightarrow> nat \<Rightarrow> nat \<Rightarrow> bool \<times> ('k, 'v) hash_map" where
  "hm_insert_loop m key v h i 0 = (False, m)"
| "hm_insert_loop m key v h i (Suc n) =
     (let current_idx = hm_slot (hm_size m) h i; node = hm_buckets m ! current_idx in
      if hn_occupied node then
        if hn_ready node \<and> hn_key node = key then (False, m)
        else hm_insert_loop m key v h (Suc i) n
      else (True, m\<lparr>hm_buckets := (hm_buckets m)[current_idx :=
              \<lparr>hn_key = key, hn_value = v, hn_occupied = True, hn_ready = True\<rparr>]\<rparr>))"

definition hm_insert :: "('k \<Rightarrow> size_t) \<Rightarrow> ('k, 'v) hash_map \<Rightarrow> 'k \<Rightarrow> 'v \<Rightarrow> bool \<times> ('k, 'v) hash_map" where
  "hm_insert hash m key v = hm_insert_loop m key v (hash key) 0 (unat (hm_size m))"

fun hm_find_loop :: "('k, 'v) hash_map \<Rightarrow> 'k \<Rightarrow> size_t \<Rightarrow> nat \<Rightarrow> nat \<Rightarrow> 'v option option" where
  "hm_find_loop m key h i 0 = Some None"
| "hm_find_loop m key h i (Suc n) =
     (let node = hm_buckets m ! hm_slot (hm_size m) h i in
      if \<not> hn_occupied node then Some None
      else if \<not> hn_ready node then None
      else if hn_key node = key then Some (Some (hn_value node))
      else hm_find_loop m key h (Suc i) n)"

definition hm_find :: "('k \<Rightarrow> size_t) \<Rightarrow> ('k, 'v) hash_map \<Rightarrow> 'k \<Rightarrow> 'v option option" where
  "hm_find hash m key = hm_find_loop m key (hash key) 0 (unat (hm_size m))"

subsection \<open>The probe sequence\<close>

lemma hm_slot_mod:
  assumes "0 < unat sz" "unat sz \<le> 2 ^ 63" "i < unat sz"
  shows "hm_slot sz h i = (unat h mod unat sz + i) mod unat sz"
proof -
  have "unat (word_of_nat i :: size_t) = i" using assms by (simp add: unat_of_nat)
  moreover have "unat h mod unat sz + i < 2 ^ 64"
  proof -
    have "unat h mod unat sz < unat sz" by (rule mod_less_divisor [OF assms(1)])
    moreover have "(2::nat) ^ 64 = 2 ^ 63 + 2 ^ 63" by simp
    ultimately show ?thesis using assms(2,3) by linarith
  qed
  ultimately have "unat (h mod sz + word_of_nat i) = unat h mod unat sz + i"
    using assms by (subst unat_plus) (simp_all add: unat_mod_distrib)
  then show ?thesis by (simp add: hm_slot_def unat_mod_distrib)
qed

text \<open>The probe sequence visits every slot exactly once.\<close>

lemma hm_slot_inj:
  assumes "0 < unat sz" "unat sz \<le> 2 ^ 63" "i < unat sz" "j < unat sz" "hm_slot sz h i = hm_slot sz h j"
  shows "i = j"
  using mod_window_inj [of "unat h mod unat sz + i" "unat sz" "unat h mod unat sz + j" "unat h mod unat sz"] assms
  by (simp add: hm_slot_mod)

lemma hm_slot_surj:
  assumes "0 < unat sz" "unat sz \<le> 2 ^ 63" "j < unat sz"
  obtains i where "i < unat sz" "hm_slot sz h i = j"
proof -
  obtain k where k: "unat h mod unat sz \<le> k" "k < unat h mod unat sz + unat sz" "k mod unat sz = j"
    using window_cover [OF assms(3)] by blast
  then show thesis using that [of "k - unat h mod unat sz"] hm_slot_mod [OF assms(1,2)] by simp
qed

lemma hm_slot_less: "0 < unat sz \<Longrightarrow> unat sz \<le> 2 ^ 63 \<Longrightarrow> i < unat sz \<Longrightarrow> hm_slot sz h i < unat sz"
  by (simp add: hm_slot_mod)

subsection \<open>Invariant and abstraction\<close>

abbreviation hm_N :: "('k, 'v) hash_map \<Rightarrow> nat" where "hm_N m \<equiv> unat (hm_size m)"

definition hm_holds :: "('k, 'v) hash_map \<Rightarrow> nat \<Rightarrow> 'k \<Rightarrow> bool" where
  "hm_holds m j k \<longleftrightarrow> j < hm_N m \<and> hn_occupied (hm_buckets m ! j) \<and> hn_key (hm_buckets m ! j) = k"

text \<open>
  A key in slot \<open>j\<close> is reached by its own probe sequence: every slot before \<open>j\<close> on it is
  occupied by another key.
\<close>

definition hm_reached :: "('k \<Rightarrow> size_t) \<Rightarrow> ('k, 'v) hash_map \<Rightarrow> nat \<Rightarrow> nat \<Rightarrow> 'k \<Rightarrow> bool" where
  "hm_reached hash m j d k \<longleftrightarrow> d < hm_N m \<and> hm_slot (hm_size m) (hash k) d = j \<and>
     (\<forall>e < d. hn_occupied (hm_buckets m ! hm_slot (hm_size m) (hash k) e) \<and>
              hn_key (hm_buckets m ! hm_slot (hm_size m) (hash k) e) \<noteq> k)"

definition hm_invar :: "('k \<Rightarrow> size_t) \<Rightarrow> ('k, 'v) hash_map \<Rightarrow> bool" where
  "hm_invar hash m \<longleftrightarrow> length (hm_buckets m) = hm_N m \<and> 0 < hm_N m \<and> hm_N m \<le> 2 ^ 63 \<and>
     (\<forall>j k. hm_holds m j k \<longrightarrow> hn_ready (hm_buckets m ! j) \<and> (\<exists>d. hm_reached hash m j d k))"

definition hm_entries :: "('k, 'v) hash_map \<Rightarrow> 'k \<Rightarrow> 'v option" where
  "hm_entries m k = map_option hn_value (List.find (\<lambda>nd. hn_occupied nd \<and> hn_key nd = k) (hm_buckets m))"

definition hm_full :: "('k, 'v) hash_map \<Rightarrow> bool" where
  "hm_full m \<longleftrightarrow> (\<forall>nd \<in> set (hm_buckets m). hn_occupied nd)"

lemma hm_holdsD:
  assumes "hm_invar hash m" "hm_holds m j k"
  obtains d where "hm_reached hash m j d k" "hn_ready (hm_buckets m ! j)"
  using assms unfolding hm_invar_def by blast

lemma hm_unique:
  assumes "hm_invar hash m" "hm_holds m i k" "hm_holds m j k"
  shows "i = j"
proof -
  obtain d where "hm_reached hash m i d k" using assms(1,2) by (rule hm_holdsD)
  moreover obtain e where "hm_reached hash m j e k" using assms(1,3) by (rule hm_holdsD)
  ultimately show ?thesis
    using assms(2,3) by (metis hm_holds_def hm_reached_def linorder_less_linear)
qed

lemma hm_entries_None:
  assumes "length (hm_buckets m) = hm_N m"
  shows "hm_entries m k = None \<longleftrightarrow> (\<forall>j. \<not> hm_holds m j k)"
  using assms by (auto simp: hm_entries_def hm_holds_def find_None_iff in_set_conv_nth)

lemma hm_entries_Some:
  assumes "hm_invar hash m" "hm_holds m j k"
  shows "hm_entries m k = Some (hn_value (hm_buckets m ! j))"
proof -
  let ?P = "\<lambda>nd. hn_occupied nd \<and> hn_key nd = k"
  have len: "length (hm_buckets m) = hm_N m" using assms(1) by (simp add: hm_invar_def)
  have "List.find ?P (hm_buckets m) = Some (hm_buckets m ! j)"
    unfolding find_Some_iff
  proof (intro exI [of _ j] conjI allI impI)
    show "j < length (hm_buckets m)" "hn_occupied (hm_buckets m ! j)" "hn_key (hm_buckets m ! j) = k"
      using assms(2) len by (simp_all add: hm_holds_def)
    fix i assume "i < j"
    then have "\<not> hm_holds m i k" using hm_unique [OF assms(1) _ assms(2), of i] by auto
    then show "\<not> (hn_occupied (hm_buckets m ! i) \<and> hn_key (hm_buckets m ! i) = k)"
      using \<open>i < j\<close> assms(2) by (auto simp: hm_holds_def)
  qed (rule refl)
  then show ?thesis by (simp add: hm_entries_def)
qed

subsection \<open>The loops\<close>

text \<open>
  The loops are entered at iteration \<open>i\<close> after passing occupied slots with other keys.
\<close>

definition hm_passed :: "('k \<Rightarrow> size_t) \<Rightarrow> ('k, 'v) hash_map \<Rightarrow> 'k \<Rightarrow> nat \<Rightarrow> bool" where
  "hm_passed hash m k i \<longleftrightarrow>
     (\<forall>e < i. hn_occupied (hm_buckets m ! hm_slot (hm_size m) (hash k) e) \<and>
              hn_key (hm_buckets m ! hm_slot (hm_size m) (hash k) e) \<noteq> k)"

lemma hm_passed_Suc:
  "hm_passed hash m k (Suc i) \<longleftrightarrow> hm_passed hash m k i \<and>
     hn_occupied (hm_buckets m ! hm_slot (hm_size m) (hash k) i) \<and>
     hn_key (hm_buckets m ! hm_slot (hm_size m) (hash k) i) \<noteq> k"
  by (auto simp: hm_passed_def less_Suc_eq)

lemma hm_passed_end:
  assumes "hm_invar hash m" "hm_passed hash m k i"
    "i = hm_N m \<or> \<not> hn_occupied (hm_buckets m ! hm_slot (hm_size m) (hash k) i)"
  shows "hm_entries m k = None" "i = hm_N m \<Longrightarrow> hm_full m"
proof -
  have m: "length (hm_buckets m) = hm_N m" "0 < hm_N m" "hm_N m \<le> 2 ^ 63"
    using assms(1) by (auto simp: hm_invar_def)
  have "\<not> hm_holds m j k" for j
  proof
    assume h: "hm_holds m j k"
    obtain d where "hm_reached hash m j d k" using assms(1) h by (rule hm_holdsD)
    then show False using h assms(2,3) unfolding hm_reached_def hm_holds_def hm_passed_def
      by (metis linorder_less_linear)
  qed
  then show "hm_entries m k = None" using hm_entries_None [OF m(1)] by blast
  show "hm_full m" if "i = hm_N m"
  proof -
    have "hn_occupied (hm_buckets m ! j)" if j: "j < hm_N m" for j
    proof -
      obtain d where "d < hm_N m" "hm_slot (hm_size m) (hash k) d = j" using m(2,3) j by (rule hm_slot_surj)
      then show ?thesis using assms(2) \<open>i = hm_N m\<close> by (auto simp: hm_passed_def)
    qed
    then show ?thesis using m(1) by (auto simp: hm_full_def in_set_conv_nth)
  qed
qed

lemma hm_find_loop_correct:
  assumes "hm_invar hash m" "hm_passed hash m k i" "i + n = hm_N m"
  shows "hm_find_loop m k (hash k) i n = Some (hm_entries m k)"
  using assms(2,3)
proof (induction n arbitrary: i)
  case 0
  then show ?case using hm_passed_end(1) [OF assms(1), of k i] by simp
next
  case (Suc n)
  let ?s = "hm_slot (hm_size m) (hash k) i"
  have s: "?s < hm_N m" using assms(1) Suc.prems(2) by (intro hm_slot_less) (auto simp: hm_invar_def)
  show ?case
  proof (cases "hn_occupied (hm_buckets m ! ?s)")
    case False
    then show ?thesis using hm_passed_end(1) [OF assms(1) Suc.prems(1)] by (simp add: Let_def)
  next
    case True
    then have h: "hm_holds m ?s (hn_key (hm_buckets m ! ?s))" using s by (simp add: hm_holds_def)
    obtain d where rdy: "hn_ready (hm_buckets m ! ?s)" using assms(1) h by (rule hm_holdsD)
    show ?thesis
    proof (cases "hn_key (hm_buckets m ! ?s) = k")
      case True
      then show ?thesis using rdy h hm_entries_Some [OF assms(1), of ?s k] by (auto simp: Let_def hm_holds_def)
    next
      case False
      then show ?thesis using rdy True Suc.IH [of "Suc i"] Suc.prems by (simp add: Let_def hm_passed_Suc)
    qed
  qed
qed

definition hm_put :: "('k, 'v) hash_map \<Rightarrow> nat \<Rightarrow> 'k \<Rightarrow> 'v \<Rightarrow> ('k, 'v) hash_map" where
  "hm_put m j k v = m\<lparr>hm_buckets := (hm_buckets m)[j :=
     \<lparr>hn_key = k, hn_value = v, hn_occupied = True, hn_ready = True\<rparr>]\<rparr>"

lemma hm_insert_loop_cases:
  assumes "hm_invar hash m" "hm_passed hash m k i" "i + n = hm_N m"
  shows "hm_insert_loop m k v (hash k) i n = (False, m) \<and> (hm_entries m k \<noteq> None \<or> hm_full m) \<or>
    (\<exists>d < hm_N m. hm_passed hash m k d \<and> \<not> hn_occupied (hm_buckets m ! hm_slot (hm_size m) (hash k) d) \<and>
       hm_insert_loop m k v (hash k) i n = (True, hm_put m (hm_slot (hm_size m) (hash k) d) k v))"
  using assms(2,3)
proof (induction n arbitrary: i)
  case 0
  then show ?case using hm_passed_end(2) [OF assms(1), of k i] by simp
next
  case (Suc n)
  let ?s = "hm_slot (hm_size m) (hash k) i"
  have s: "?s < hm_N m" using assms(1) Suc.prems(2) by (intro hm_slot_less) (auto simp: hm_invar_def)
  show ?case
  proof (cases "hn_occupied (hm_buckets m ! ?s)")
    case False
    then show ?thesis using Suc.prems by (auto simp: Let_def hm_put_def intro!: exI [of _ i])
  next
    case True
    then have h: "hm_holds m ?s (hn_key (hm_buckets m ! ?s))" using s by (simp add: hm_holds_def)
    obtain d where rdy: "hn_ready (hm_buckets m ! ?s)" using assms(1) h by (rule hm_holdsD)
    show ?thesis
    proof (cases "hn_key (hm_buckets m ! ?s) = k")
      case True
      then show ?thesis using rdy h hm_entries_Some [OF assms(1), of ?s k] by (auto simp: Let_def hm_holds_def)
    next
      case False
      then show ?thesis using rdy True Suc.IH [of "Suc i"] Suc.prems by (simp add: Let_def hm_passed_Suc)
    qed
  qed
qed

lemma hm_put_nth:
  assumes "s < length (hm_buckets m)"
  shows "hm_buckets (hm_put m s k v) ! j =
    (if j = s then \<lparr>hn_key = k, hn_value = v, hn_occupied = True, hn_ready = True\<rparr> else hm_buckets m ! j)"
  using assms by (auto simp: hm_put_def nth_list_update)

lemma hm_put_size [simp]: "hm_size (hm_put m s k v) = hm_size m" "length (hm_buckets (hm_put m s k v)) = length (hm_buckets m)"
  by (simp_all add: hm_put_def)

lemma hm_put_holds:
  assumes "s < hm_N m" "length (hm_buckets m) = hm_N m"
  shows "hm_holds (hm_put m s k v) j l \<longleftrightarrow> (if j = s then l = k else hm_holds m j l)"
  using assms by (auto simp: hm_holds_def hm_put_nth)

lemma hm_put_invar:
  assumes inv: "hm_invar hash m" and d: "d < hm_N m" "hm_passed hash m k d"
    and s: "s = hm_slot (hm_size m) (hash k) d" and free: "\<not> hn_occupied (hm_buckets m ! s)"
    and new: "hm_entries m k = None"
  shows "hm_invar hash (hm_put m s k v)"
proof -
  let ?m = "hm_put m s k v"
  have m: "length (hm_buckets m) = hm_N m" "0 < hm_N m" "hm_N m \<le> 2 ^ 63" using inv by (auto simp: hm_invar_def)
  have sN: "s < hm_N m" using d m by (simp add: s hm_slot_less)
  note nth = hm_put_nth [of s m k v, unfolded m(1), OF sN] and holds = hm_put_holds [OF sN m(1)]
  have nk: "\<not> hm_holds m j k" for j using new hm_entries_None [OF m(1)] by blast
  show ?thesis
    unfolding hm_invar_def
  proof (intro conjI allI impI)
    fix j l assume h: "hm_holds ?m j l"
    show "hn_ready (hm_buckets ?m ! j)"
      using h inv by (auto simp: holds nth hm_invar_def split: if_splits)
    show "\<exists>e. hm_reached hash ?m j e l"
    proof (cases "j = s")
      case True
      then have "l = k" using h holds by simp
      then have "hm_reached hash ?m j d l"
        using True d free s [symmetric] by (auto simp: hm_reached_def hm_passed_def nth)
      then show ?thesis ..
    next
      case False
      then have h': "hm_holds m j l" using h holds by simp
      obtain e where e: "hm_reached hash m j e l" using inv h' by (rule hm_holdsD)
      moreover have "l \<noteq> k" using nk h' by auto
      ultimately have "hm_reached hash ?m j e l" using free by (auto simp: hm_reached_def nth)
      then show ?thesis ..
    qed
  qed (use m in \<open>auto simp: hm_put_def\<close>)
qed

lemma hm_put_entries:
  assumes inv: "hm_invar hash m" "hm_invar hash (hm_put m s k v)" and sN: "s < hm_N m"
    and free: "\<not> hn_occupied (hm_buckets m ! s)" and new: "hm_entries m k = None"
  shows "hm_entries (hm_put m s k v) = (hm_entries m)(k \<mapsto> v)"
proof
  fix l
  let ?m = "hm_put m s k v"
  have m: "length (hm_buckets m) = hm_N m" using inv(1) by (auto simp: hm_invar_def)
  note nth = hm_put_nth [of s m k v, unfolded m, OF sN] and holds = hm_put_holds [OF sN m]
  have nk: "\<not> hm_holds m j k" for j using new hm_entries_None [OF m] by blast
  show "hm_entries ?m l = ((hm_entries m)(k \<mapsto> v)) l"
  proof (cases "\<exists>j. hm_holds ?m j l")
    case True
    then obtain j where j: "hm_holds ?m j l" by blast
    then have "hm_entries ?m l = Some (hn_value (hm_buckets ?m ! j))" by (rule hm_entries_Some [OF inv(2)])
    then show ?thesis
      using j nk hm_entries_Some [OF inv(1), of j l] by (auto simp: holds nth split: if_splits)
  next
    case False
    moreover have "\<not> hm_holds m s l" using free by (simp add: hm_holds_def)
    ultimately have "l \<noteq> k" "\<forall>j. \<not> hm_holds m j l" using holds by metis+
    moreover have "length (hm_buckets ?m) = hm_N ?m" using m by simp
    ultimately show ?thesis using False hm_entries_None [of ?m l] hm_entries_None [OF m, of l] by simp
  qed
qed

lemma hm_put_correct:
  assumes inv: "hm_invar hash m" and d: "d < hm_N m" "hm_passed hash m k d"
    and s: "s = hm_slot (hm_size m) (hash k) d" and free: "\<not> hn_occupied (hm_buckets m ! s)"
    and new: "hm_entries m k = None"
  shows "hm_invar hash (hm_put m s k v)" "hm_entries (hm_put m s k v) = (hm_entries m)(k \<mapsto> v)"
proof -
  have "s < hm_N m" using d inv by (auto simp: s hm_slot_less hm_invar_def)
  then show "hm_invar hash (hm_put m s k v)" "hm_entries (hm_put m s k v) = (hm_entries m)(k \<mapsto> v)"
    using hm_put_invar [OF assms, of v] hm_put_entries [OF inv _ _ free new] by blast+
qed

interpretation hmap: insert_only_map "hm_insert hash" "hm_find hash" "hm_invar hash" hm_entries hm_full
  for hash :: "'k \<Rightarrow> size_t"
proof
  fix m :: "('k, 'v) hash_map" and k v
  assume inv: "hm_invar hash m"
  have p: "hm_passed hash m k 0" by (simp add: hm_passed_def)
  note c = hm_insert_loop_cases [OF inv p, of "hm_N m" v, simplified, folded hm_insert_def]
  show "hm_find hash m k = Some (hm_entries m k)"
    unfolding hm_find_def by (rule hm_find_loop_correct [OF inv p]) simp
  show "fst (hm_insert hash m k v) \<and> hm_invar hash (snd (hm_insert hash m k v)) \<and>
      hm_entries (snd (hm_insert hash m k v)) = (hm_entries m)(k \<mapsto> v)"
    if "hm_entries m k = None" "\<not> hm_full m"
    using c that hm_put_correct [OF inv] by auto
  show "hm_insert hash m k v = (False, m)" if "hm_entries m k \<noteq> None \<or> hm_full m"
  proof -
    have "hm_slot (hm_size m) (hash k) d < length (hm_buckets m)" if "d < hm_N m" for d
      using inv that by (auto simp: hm_invar_def intro: hm_slot_less)
    moreover have "hm_entries m k = None"
      if "hm_passed hash m k d" "\<not> hn_occupied (hm_buckets m ! hm_slot (hm_size m) (hash k) d)" for d
      using hm_passed_end(1) [OF inv that(1)] that(2) by simp
    ultimately show ?thesis using c that by (auto simp: hm_full_def)
  qed
qed

lemma hm_new_invar:
  assumes "0 < unat sz" "unat sz \<le> 2 ^ 63"
  shows "hm_invar hash (hm_new sz dk dv)" "hm_entries (hm_new sz dk dv) = Map.empty"
  using assms by (auto simp: hm_invar_def hm_new_def hm_holds_def hm_entries_def find_None_iff fun_eq_iff)

text \<open>
  C29. \<^verbatim>\<open>insert\<close> returns true exactly if the key is new and some slot is free, and then exactly this
  entry is added; otherwise (duplicate or full table) nothing changes. \<^verbatim>\<open>find\<close> always returns and
  returns the entry of its key. This holds for every hash function and every size up to \<open>2 ^ 63\<close>.
\<close>

theorem hm_insert_find_correct:
  assumes "hm_invar hash m"
  shows "(fst (hm_insert hash m k v) \<longleftrightarrow> hm_entries m k = None \<and> \<not> hm_full m) \<and>
    hm_invar hash (snd (hm_insert hash m k v)) \<and>
    hm_find hash (snd (hm_insert hash m k v)) l =
      Some (if fst (hm_insert hash m k v) then ((hm_entries m)(k \<mapsto> v)) l else hm_entries m l)"
  using hmap.insert_total [OF assms, of k v] hmap.find_entry [of hash "snd (hm_insert hash m k v)" l] by simp

theorem hm_insert_find_correct_witness:
  "fst (hm_insert (\<lambda>k. k) (hm_new 4 0 (0::nat)) 9 7) \<and>
   hm_find (\<lambda>k. k) (snd (hm_insert (\<lambda>k. k) (hm_new 4 0 (0::nat)) 9 7)) 9 = Some (Some 7)"
proof -
  have i: "hm_invar (\<lambda>k. k) (hm_new 4 0 (0::nat))" "hm_entries (hm_new 4 (0::size_t) (0::nat)) = Map.empty"
    by (rule hm_new_invar; simp)+
  have "\<not> hm_full (hm_new 4 (0::size_t) (0::nat))" by (simp add: hm_full_def hm_new_def)
  then show ?thesis using hm_insert_find_correct [OF i(1), of 9 7 9] i(2) by simp
qed

end
