(* ===== verification/Hash_Map_Conc.thy ===== *)
theory Hash_Map_Conc
  imports Hash_Map Interleaving
begin

text \<open>
  \<^verbatim>\<open>LockFreeHashMap\<close> under any number of inserting and searching threads, one access of a node field
  per step. \<^verbatim>\<open>find\<close> first tests \<^verbatim>\<open>ready\<close> and then spins on it, which is one program point that
  repeats the load. The ghost \<open>hg_committed\<close> lists the entries whose \<^verbatim>\<open>ready\<close> flag has been stored;
  a searching thread carries the ghost flag whether its key was committed when it was called.

  Readers never see a half-written entry and never miss a committed one. What the two-phase commit
  does not give are unique keys (an inserter skips a claimed slot without knowing its key) and
  lock-freedom of \<^verbatim>\<open>find\<close>.
\<close>

record ('k, 'v) hm_global =
  hg_map :: "('k, 'v) hash_map"
  hg_committed :: "('k \<times> 'v) list"

datatype ('k, 'v) hm_pc =
    HIdle
  | InsProbe 'k 'v nat            \<comment> \<open>about to load \<^verbatim>\<open>occupied\<close> of probe \<open>i\<close>\<close>
  | InsReady 'k 'v nat            \<comment> \<open>about to load \<^verbatim>\<open>ready\<close>\<close>
  | InsKey 'k 'v nat              \<comment> \<open>about to compare the key\<close>
  | InsCas 'k 'v nat
  | InsWriteKey 'k 'v nat         \<comment> \<open>owns the slot with this number\<close>
  | InsWriteValue 'k 'v nat
  | InsPublish 'k 'v nat
  | InsRet bool
  | FindProbe bool 'k nat
  | FindReady bool 'k nat
  | FindKey bool 'k nat
  | FindValue bool 'k nat
  | FindRet bool 'k "'v option"

datatype ('k, 'v) hm_act = HInsert 'k 'v | HFind 'k | HGo

definition hg_node :: "('k \<Rightarrow> size_t) \<Rightarrow> ('k, 'v) hm_global \<Rightarrow> 'k \<Rightarrow> nat \<Rightarrow> ('k, 'v) hnode" where
  "hg_node hash g k i = hm_buckets (hg_map g) ! hm_slot (hm_size (hg_map g)) (hash k) i"

definition hg_set :: "('k, 'v) hm_global \<Rightarrow> nat \<Rightarrow> ('k, 'v) hnode \<Rightarrow> ('k, 'v) hm_global" where
  "hg_set g j nd = g\<lparr>hg_map := (hg_map g)\<lparr>hm_buckets := (hm_buckets (hg_map g))[j := nd]\<rparr>\<rparr>"

text \<open>The loop headers \<^verbatim>\<open>i < Size\<close>.\<close>

definition ins_next :: "('k, 'v) hm_global \<Rightarrow> 'k \<Rightarrow> 'v \<Rightarrow> nat \<Rightarrow> ('k, 'v) hm_pc" where
  "ins_next g k v i = (if i < hm_N (hg_map g) then InsProbe k v i else InsRet False)"

definition find_next :: "('k, 'v) hm_global \<Rightarrow> bool \<Rightarrow> 'k \<Rightarrow> nat \<Rightarrow> ('k, 'v) hm_pc" where
  "find_next g b k i = (if i < hm_N (hg_map g) then FindProbe b k i else FindRet b k None)"

fun hm_go :: "('k \<Rightarrow> size_t) \<Rightarrow> ('k, 'v) hm_global \<Rightarrow> ('k, 'v) hm_pc \<Rightarrow> ('k, 'v) hm_global \<times> ('k, 'v) hm_pc" where
  "hm_go hash g HIdle = (g, HIdle)"
| "hm_go hash g (InsProbe k v i) =
     (g, if hn_occupied (hg_node hash g k i) then InsReady k v i else InsCas k v i)"
| "hm_go hash g (InsReady k v i) =
     (g, if hn_ready (hg_node hash g k i) then InsKey k v i else ins_next g k v (Suc i))"
| "hm_go hash g (InsKey k v i) =
     (g, if hn_key (hg_node hash g k i) = k then InsRet False else ins_next g k v (Suc i))"
| "hm_go hash g (InsCas k v i) =
     (if hn_occupied (hg_node hash g k i) then (g, ins_next g k v (Suc i))
      else (hg_set g (hm_slot (hm_size (hg_map g)) (hash k) i) ((hg_node hash g k i)\<lparr>hn_occupied := True\<rparr>),
            InsWriteKey k v (hm_slot (hm_size (hg_map g)) (hash k) i)))"
| "hm_go hash g (InsWriteKey k v j) =
     (hg_set g j ((hm_buckets (hg_map g) ! j)\<lparr>hn_key := k\<rparr>), InsWriteValue k v j)"
| "hm_go hash g (InsWriteValue k v j) =
     (hg_set g j ((hm_buckets (hg_map g) ! j)\<lparr>hn_value := v\<rparr>), InsPublish k v j)"
| "hm_go hash g (InsPublish k v j) =
     ((hg_set g j ((hm_buckets (hg_map g) ! j)\<lparr>hn_ready := True\<rparr>))\<lparr>hg_committed := (k, v) # hg_committed g\<rparr>,
      InsRet True)"
| "hm_go hash g (InsRet b) = (g, HIdle)"
| "hm_go hash g (FindProbe b k i) =
     (g, if hn_occupied (hg_node hash g k i) then FindReady b k i else FindRet b k None)"
| "hm_go hash g (FindReady b k i) =
     (g, if hn_ready (hg_node hash g k i) then FindKey b k i else FindReady b k i)"
| "hm_go hash g (FindKey b k i) =
     (g, if hn_key (hg_node hash g k i) = k then FindValue b k i else find_next g b k (Suc i))"
| "hm_go hash g (FindValue b k i) = (g, FindRet b k (Some (hn_value (hg_node hash g k i))))"
| "hm_go hash g (FindRet b k r) = (g, HIdle)"

fun hm_exec :: "('k \<Rightarrow> size_t) \<Rightarrow> ('k, 'v) hm_act \<Rightarrow> ('k, 'v) hm_global \<Rightarrow> ('k, 'v) hm_pc \<Rightarrow>
    ('k, 'v) hm_global \<times> ('k, 'v) hm_pc" where
  "hm_exec hash (HInsert k v) g l = (case l of HIdle \<Rightarrow> (g, ins_next g k v 0) | _ \<Rightarrow> (g, l))"
| "hm_exec hash (HFind k) g l =
     (case l of HIdle \<Rightarrow> (g, find_next g (k \<in> fst ` set (hg_committed g)) k 0) | _ \<Rightarrow> (g, l))"
| "hm_exec hash HGo g l = hm_go hash g l"

definition hm_ginit :: "('k, 'v) hm_global \<Rightarrow> bool" where
  "hm_ginit g \<longleftrightarrow> (\<exists>sz dk dv. 0 < unat sz \<and> unat sz \<le> 2 ^ 63 \<and>
     g = \<lparr>hg_map = hm_new sz dk dv, hg_committed = []\<rparr>)"

abbreviation hm_reach :: "('k \<Rightarrow> size_t) \<Rightarrow> (('k, 'v) hm_global, ('k, 'v) hm_pc) config \<Rightarrow> bool" where
  "hm_reach hash \<equiv> reach (hm_exec hash) hm_ginit (\<lambda>_. HIdle)"

subsection \<open>Invariant\<close>

definition probed :: "('k \<Rightarrow> size_t) \<Rightarrow> ('k, 'v) hm_global \<Rightarrow> 'k \<Rightarrow> nat \<Rightarrow> bool" where
  "probed hash g k i \<longleftrightarrow> i \<le> hm_N (hg_map g) \<and> (\<forall>e < i. hn_occupied (hg_node hash g k e))"

definition hm_G :: "('k \<Rightarrow> size_t) \<Rightarrow> ('k, 'v) hm_global \<Rightarrow> bool" where
  "hm_G hash g \<longleftrightarrow> length (hm_buckets (hg_map g)) = hm_N (hg_map g) \<and> 0 < hm_N (hg_map g) \<and> hm_N (hg_map g) \<le> 2 ^ 63 \<and>
     (\<forall>nd \<in> set (hm_buckets (hg_map g)). hn_ready nd \<longrightarrow> hn_occupied nd \<and> (hn_key nd, hn_value nd) \<in> set (hg_committed g)) \<and>
     (\<forall>k \<in> fst ` set (hg_committed g). \<exists>d < hm_N (hg_map g). probed hash g k d \<and>
        hn_ready (hg_node hash g k d) \<and> hn_key (hg_node hash g k d) = k)"

definition claimed :: "('k \<Rightarrow> size_t) \<Rightarrow> ('k, 'v) hm_global \<Rightarrow> 'k \<Rightarrow> nat \<Rightarrow> bool" where
  "claimed hash g k j \<longleftrightarrow> j < hm_N (hg_map g) \<and> hn_occupied (hm_buckets (hg_map g) ! j) \<and>
     \<not> hn_ready (hm_buckets (hg_map g) ! j) \<and>
     (\<exists>d < hm_N (hg_map g). probed hash g k d \<and> hm_slot (hm_size (hg_map g)) (hash k) d = j)"

text \<open>A search for a key that was committed has not passed its slot yet.\<close>

definition ahead :: "('k \<Rightarrow> size_t) \<Rightarrow> ('k, 'v) hm_global \<Rightarrow> bool \<Rightarrow> 'k \<Rightarrow> nat \<Rightarrow> bool" where
  "ahead hash g b k i \<longleftrightarrow> i < hm_N (hg_map g) \<and> (b \<longrightarrow> (\<exists>d < hm_N (hg_map g). i \<le> d \<and> probed hash g k d \<and>
     hn_ready (hg_node hash g k d) \<and> hn_key (hg_node hash g k d) = k))"

fun hm_L :: "('k \<Rightarrow> size_t) \<Rightarrow> ('k, 'v) hm_global \<Rightarrow> ('k, 'v) hm_pc \<Rightarrow> bool" where
  "hm_L hash g (InsProbe k v i) = (i < hm_N (hg_map g) \<and> probed hash g k i)"
| "hm_L hash g (InsReady k v i) = (i < hm_N (hg_map g) \<and> probed hash g k (Suc i))"
| "hm_L hash g (InsKey k v i) = (i < hm_N (hg_map g) \<and> probed hash g k (Suc i) \<and> hn_ready (hg_node hash g k i))"
| "hm_L hash g (InsCas k v i) = (i < hm_N (hg_map g) \<and> probed hash g k i)"
| "hm_L hash g (InsWriteKey k v j) = claimed hash g k j"
| "hm_L hash g (InsWriteValue k v j) = (claimed hash g k j \<and> hn_key (hm_buckets (hg_map g) ! j) = k)"
| "hm_L hash g (InsPublish k v j) = (claimed hash g k j \<and> hn_key (hm_buckets (hg_map g) ! j) = k \<and>
     hn_value (hm_buckets (hg_map g) ! j) = v)"
| "hm_L hash g (FindProbe b k i) = ahead hash g b k i"
| "hm_L hash g (FindReady b k i) = (ahead hash g b k i \<and> hn_occupied (hg_node hash g k i))"
| "hm_L hash g (FindKey b k i) = (ahead hash g b k i \<and> hn_ready (hg_node hash g k i))"
| "hm_L hash g (FindValue b k i) = (i < hm_N (hg_map g) \<and> hn_ready (hg_node hash g k i) \<and> hn_key (hg_node hash g k i) = k)"
| "hm_L hash g (FindRet b k r) = (case r of None \<Rightarrow> \<not> b | Some v \<Rightarrow> (k, v) \<in> set (hg_committed g))"
| "hm_L hash g _ = True"

fun hm_owns :: "('k, 'v) hm_pc \<Rightarrow> nat option" where
  "hm_owns (InsWriteKey k v j) = Some j"
| "hm_owns (InsWriteValue k v j) = Some j"
| "hm_owns (InsPublish k v j) = Some j"
| "hm_owns _ = None"

definition hm_X :: "('k, 'v) hm_pc \<Rightarrow> ('k, 'v) hm_pc \<Rightarrow> bool" where
  "hm_X l m \<longleftrightarrow> (hm_owns l = None \<or> hm_owns l \<noteq> hm_owns m)"

subsection \<open>Growth of the table\<close>

text \<open>Every step only adds: claimed slots stay claimed and ready slots stay as they are.\<close>

definition hm_grows :: "('k, 'v) hm_global \<Rightarrow> ('k, 'v) hm_global \<Rightarrow> bool" where
  "hm_grows g g' \<longleftrightarrow> hm_size (hg_map g') = hm_size (hg_map g) \<and>
     length (hm_buckets (hg_map g')) = length (hm_buckets (hg_map g)) \<and>
     set (hg_committed g) \<subseteq> set (hg_committed g') \<and>
     (\<forall>j. hn_occupied (hm_buckets (hg_map g) ! j) \<longrightarrow> hn_occupied (hm_buckets (hg_map g') ! j)) \<and>
     (\<forall>j. hn_ready (hm_buckets (hg_map g) ! j) \<longrightarrow> hm_buckets (hg_map g') ! j = hm_buckets (hg_map g) ! j)"

lemma hm_grows_refl: "hm_grows g g"
  by (simp add: hm_grows_def)

lemma grows_probed: "hm_grows g g' \<Longrightarrow> probed hash g k i \<Longrightarrow> probed hash g' k i"
  by (auto simp: hm_grows_def probed_def hg_node_def)

lemma grows_node:
  assumes "hm_grows g g'"
  shows "hn_ready (hg_node hash g k i) \<Longrightarrow> hg_node hash g' k i = hg_node hash g k i"
    "hn_occupied (hg_node hash g k i) \<Longrightarrow> hn_occupied (hg_node hash g' k i)"
    "hm_size (hg_map g') = hm_size (hg_map g)"
  using assms by (auto simp: hm_grows_def hg_node_def)

lemma grows_found:
  assumes "hm_grows g g'" "probed hash g k d \<and> hn_ready (hg_node hash g k d) \<and> hn_key (hg_node hash g k d) = k"
  shows "probed hash g' k d \<and> hn_ready (hg_node hash g' k d) \<and> hn_key (hg_node hash g' k d) = k"
  using assms grows_probed [OF assms(1)] grows_node(1) [OF assms(1), of hash k d] by auto

lemma grows_ahead: "hm_grows g g' \<Longrightarrow> ahead hash g b k i \<Longrightarrow> ahead hash g' b k i"
  using grows_node(3) [of g g'] grows_found [of g g' hash k] unfolding ahead_def by metis

lemma grows_claimed:
  "hm_grows g g' \<Longrightarrow> claimed hash g k j \<Longrightarrow> hm_buckets (hg_map g') ! j = hm_buckets (hg_map g) ! j \<Longrightarrow>
    claimed hash g' k j"
  using grows_node(3) [of g g'] grows_probed [of g g' hash k] unfolding claimed_def by metis

lemma grows_L:
  assumes "hm_grows g g'" "hm_L hash g m"
    and "\<And>j. hm_owns m = Some j \<Longrightarrow> hm_buckets (hg_map g') ! j = hm_buckets (hg_map g) ! j"
  shows "hm_L hash g' m"
proof -
  note gr = grows_probed [OF assms(1)] grows_node(1,2) [OF assms(1)] grows_ahead [OF assms(1)]
    grows_claimed [OF assms(1)]
  have sz: "hm_size (hg_map g') = hm_size (hg_map g)" by (rule grows_node(3) [OF assms(1)])
  have com: "set (hg_committed g) \<subseteq> set (hg_committed g')" using assms(1) by (simp add: hm_grows_def)
  show ?thesis using assms(2,3) gr com by (cases m) (auto simp: sz split: option.splits)
qed

lemma hg_set_grows:
  assumes "\<not> hn_ready (hm_buckets (hg_map g) ! j)" "hn_occupied nd"
  shows "hm_grows g (hg_set g j nd)" "hm_grows g ((hg_set g j nd)\<lparr>hg_committed := c # hg_committed g\<rparr>)"
    "i \<noteq> j \<Longrightarrow> hm_buckets (hg_map (hg_set g j nd)) ! i = hm_buckets (hg_map g) ! i"
proof -
  have "hn_occupied ((hm_buckets (hg_map g))[j := nd] ! i)" if "hn_occupied (hm_buckets (hg_map g) ! i)" for i
    using assms(2) that by (cases "i = j"; cases "j < length (hm_buckets (hg_map g))") (auto simp: list_update_beyond)
  moreover have "(hm_buckets (hg_map g))[j := nd] ! i = hm_buckets (hg_map g) ! i"
    if "hn_ready (hm_buckets (hg_map g) ! i)" for i using assms(1) that by (cases "i = j") auto
  ultimately show "hm_grows g (hg_set g j nd)" "hm_grows g ((hg_set g j nd)\<lparr>hg_committed := c # hg_committed g\<rparr>)"
    by (auto simp: hm_grows_def hg_set_def)
  show "i \<noteq> j \<Longrightarrow> hm_buckets (hg_map (hg_set g j nd)) ! i = hm_buckets (hg_map g) ! i"
    by (simp add: hg_set_def)
qed

lemma grows_G:
  assumes "hm_grows g g'" "hm_G hash g"
    "\<forall>nd \<in> set (hm_buckets (hg_map g')). hn_ready nd \<longrightarrow> hn_occupied nd \<and> (hn_key nd, hn_value nd) \<in> set (hg_committed g')"
    "\<forall>k \<in> fst ` set (hg_committed g'). k \<in> fst ` set (hg_committed g) \<or>
       (\<exists>d < hm_N (hg_map g'). probed hash g' k d \<and> hn_ready (hg_node hash g' k d) \<and> hn_key (hg_node hash g' k d) = k)"
  shows "hm_G hash g'"
proof -
  have sz: "hm_size (hg_map g') = hm_size (hg_map g)" by (rule grows_node(3) [OF assms(1)])
  have "\<exists>d < hm_N (hg_map g'). probed hash g' k d \<and> hn_ready (hg_node hash g' k d) \<and> hn_key (hg_node hash g' k d) = k"
    if "k \<in> fst ` set (hg_committed g)" for k
    using assms(2) that grows_found [OF assms(1), of hash k] unfolding hm_G_def sz by meson
  then have all: "\<forall>k \<in> fst ` set (hg_committed g'). \<exists>d < hm_N (hg_map g'). probed hash g' k d \<and>
      hn_ready (hg_node hash g' k d) \<and> hn_key (hg_node hash g' k d) = k" using assms(4) by blast
  have "length (hm_buckets (hg_map g')) = hm_N (hg_map g')" "0 < hm_N (hg_map g')" "hm_N (hg_map g') \<le> 2 ^ 63"
    using assms(1,2) by (auto simp: hm_G_def hm_grows_def)
  with all assms(3) show ?thesis unfolding hm_G_def by (intro conjI) assumption+
qed

lemma hm_G_node:
  assumes "hm_G hash g" "i < hm_N (hg_map g)"
  shows "hm_slot (hm_size (hg_map g)) (hash k) i < length (hm_buckets (hg_map g))"
    "hn_ready (hg_node hash g k i) \<Longrightarrow> hn_occupied (hg_node hash g k i)"
    "hn_ready (hg_node hash g k i) \<Longrightarrow> (hn_key (hg_node hash g k i), hn_value (hg_node hash g k i)) \<in> set (hg_committed g)"
proof -
  show s: "hm_slot (hm_size (hg_map g)) (hash k) i < length (hm_buckets (hg_map g))"
    using assms by (simp add: hm_G_def hm_slot_less)
  then have "hg_node hash g k i \<in> set (hm_buckets (hg_map g))" by (simp add: hg_node_def)
  then show "hn_ready (hg_node hash g k i) \<Longrightarrow> hn_occupied (hg_node hash g k i)"
    "hn_ready (hg_node hash g k i) \<Longrightarrow> (hn_key (hg_node hash g k i), hn_value (hg_node hash g k i)) \<in> set (hg_committed g)"
    using assms(1) by (auto simp: hm_G_def)
qed

lemma hg_set_G:
  assumes G: "hm_G hash g" and "\<not> hn_ready (hm_buckets (hg_map g) ! j)" "hn_occupied nd" "\<not> hn_ready nd"
  shows "hm_G hash (hg_set g j nd)"
proof (rule grows_G [OF hg_set_grows(1) [OF assms(2,3)] G])
  show "\<forall>x \<in> set (hm_buckets (hg_map (hg_set g j nd))). hn_ready x \<longrightarrow>
      hn_occupied x \<and> (hn_key x, hn_value x) \<in> set (hg_committed (hg_set g j nd))"
    using G assms(4) set_update_subset_insert [of "hm_buckets (hg_map g)" j nd]
    by (auto simp: hg_set_def hm_G_def)
qed (simp add: hg_set_def)

lemma hg_publish_G:
  assumes G: "hm_G hash g" and c: "claimed hash g k j" "hn_key (hm_buckets (hg_map g) ! j) = k"
    "hn_value (hm_buckets (hg_map g) ! j) = v"
  defines "g' \<equiv> (hg_set g j ((hm_buckets (hg_map g) ! j)\<lparr>hn_ready := True\<rparr>))\<lparr>hg_committed := (k, v) # hg_committed g\<rparr>"
  shows "hm_G hash g'" "hm_grows g g'"
proof -
  let ?nd = "(hm_buckets (hg_map g) ! j)\<lparr>hn_ready := True\<rparr>"
  have j: "j < length (hm_buckets (hg_map g))" using c(1) G by (simp add: claimed_def hm_G_def)
  have nr: "\<not> hn_ready (hm_buckets (hg_map g) ! j)" "hn_occupied ?nd" using c(1) by (auto simp: claimed_def)
  show gr: "hm_grows g g'" unfolding g'_def by (rule hg_set_grows(2) [OF nr])
  obtain d where d: "d < hm_N (hg_map g)" "probed hash g k d" "hm_slot (hm_size (hg_map g)) (hash k) d = j"
    using c(1) by (auto simp: claimed_def)
  have nd: "hg_node hash g' k d = ?nd" using d(3) j by (simp add: hg_node_def g'_def hg_set_def)
  have "probed hash g' k d" by (rule grows_probed [OF gr d(2)])
  then have k: "\<exists>d < hm_N (hg_map g'). probed hash g' k d \<and> hn_ready (hg_node hash g' k d) \<and> hn_key (hg_node hash g' k d) = k"
    using d(1) nd c(2) by (intro exI [of _ d]) (simp add: g'_def hg_set_def)
  show "hm_G hash g'"
  proof (rule grows_G [OF gr G])
    show "\<forall>nd \<in> set (hm_buckets (hg_map g')). hn_ready nd \<longrightarrow> hn_occupied nd \<and> (hn_key nd, hn_value nd) \<in> set (hg_committed g')"
      using G nr(2) c(2,3) set_update_subset_insert [of "hm_buckets (hg_map g)" j ?nd]
      by (auto simp: g'_def hg_set_def hm_G_def)
    show "\<forall>k' \<in> fst ` set (hg_committed g'). k' \<in> fst ` set (hg_committed g) \<or>
       (\<exists>d < hm_N (hg_map g'). probed hash g' k' d \<and> hn_ready (hg_node hash g' k' d) \<and> hn_key (hg_node hash g' k' d) = k')"
      using k by (auto simp: g'_def)
  qed
qed

subsection \<open>One step\<close>

lemma probed_Suc: "probed hash g k (Suc i) \<longleftrightarrow> i < hm_N (hg_map g) \<and> probed hash g k i \<and> hn_occupied (hg_node hash g k i)"
  by (auto simp: probed_def less_Suc_eq)

lemma ahead_skip:
  assumes "ahead hash g b k i" "hn_key (hg_node hash g k i) \<noteq> k"
  shows "hm_L hash g (find_next g b k (Suc i))"
proof (cases b)
  case True
  then obtain d where d: "d < hm_N (hg_map g)" "i \<le> d" "probed hash g k d" "hn_ready (hg_node hash g k d)"
    "hn_key (hg_node hash g k d) = k" using assms(1) by (auto simp: ahead_def)
  moreover have "d \<noteq> i" using d(5) assms(2) by auto
  ultimately show ?thesis by (auto simp: find_next_def ahead_def intro!: exI [of _ d])
qed (use assms(1) in \<open>auto simp: find_next_def ahead_def\<close>)

lemma ahead_empty:
  assumes "ahead hash g b k i" "\<not> hn_occupied (hg_node hash g k i)" "hm_G hash g"
  shows "\<not> b"
proof
  assume b
  then obtain d where d: "d < hm_N (hg_map g)" "i \<le> d" "probed hash g k d" "hn_ready (hg_node hash g k d)"
    using assms(1) by (auto simp: ahead_def)
  show False
  proof (cases "i = d")
    case True
    then show ?thesis using hm_G_node(2) [OF assms(3) d(1)] d(4) assms(2) by simp
  next
    case False
    then show ?thesis using d assms(2) by (auto simp: probed_def)
  qed
qed

lemma hm_own_cas:
  assumes ex: "hm_go hash g (InsCas k v i) = (g', l')" and G: "hm_G hash g" and L: "hm_L hash g (InsCas k v i)"
  shows "hm_G hash g' \<and> hm_L hash g' l' \<and> hm_grows g g'"
proof (cases "hn_occupied (hg_node hash g k i)")
  case True
  then show ?thesis using ex G L by (auto simp: ins_next_def probed_Suc hm_grows_refl)
next
  case False
  let ?j = "hm_slot (hm_size (hg_map g)) (hash k) i" and ?nd = "(hg_node hash g k i)\<lparr>hn_occupied := True\<rparr>"
  have i: "i < hm_N (hg_map g)" "probed hash g k i" using L by auto
  have nr: "\<not> hn_ready (hm_buckets (hg_map g) ! ?j)" using hm_G_node(2) [OF G i(1)] False by (auto simp: hg_node_def)
  have e: "g' = hg_set g ?j ?nd" "l' = InsWriteKey k v ?j" using ex False by auto
  have gr: "hm_grows g g'" unfolding e(1) by (rule hg_set_grows(1) [OF nr]) simp
  have "hm_G hash g'" unfolding e(1) using nr by (intro hg_set_G [OF G nr]) (auto simp: hg_node_def)
  moreover have "claimed hash g' k ?j"
    using i nr hm_G_node(1) [OF G i(1)] grows_probed [OF gr i(2)] G
    by (auto simp: claimed_def e hg_set_def hg_node_def hm_G_def)
  ultimately show ?thesis using gr e(2) by simp
qed

text \<open>Writing a field of a claimed slot keeps the claim.\<close>

lemma hm_own_write:
  assumes G: "hm_G hash g" and c: "claimed hash g k j" and nd: "hn_occupied nd" "\<not> hn_ready nd"
  shows "hm_G hash (hg_set g j nd) \<and> claimed hash (hg_set g j nd) k j \<and> hm_grows g (hg_set g j nd) \<and>
    hm_buckets (hg_map (hg_set g j nd)) ! j = nd"
proof -
  have nr: "\<not> hn_ready (hm_buckets (hg_map g) ! j)" "j < length (hm_buckets (hg_map g))"
    using c G by (auto simp: claimed_def hm_G_def)
  have gr: "hm_grows g (hg_set g j nd)" by (rule hg_set_grows(1) [OF nr(1) nd(1)])
  have "claimed hash (hg_set g j nd) k j" using c nr nd grows_probed [OF gr] by (auto simp: claimed_def hg_set_def)
  then show ?thesis using hg_set_G [OF G nr(1) nd(1)] nr nd gr by (simp add: hg_set_def)
qed

lemma hm_own_step:
  assumes ex: "hm_go hash g l = (g', l')" and G: "hm_G hash g" and L: "hm_L hash g l"
  shows "hm_G hash g' \<and> hm_L hash g' l' \<and> hm_grows g g'"
proof (cases l)
  case (InsProbe k v i)
  then show ?thesis using ex G L by (auto simp: probed_Suc hm_grows_refl)
next
  case (InsReady k v i)
  then show ?thesis using ex G L by (auto simp: ins_next_def hm_grows_refl)
next
  case (InsKey k v i)
  then show ?thesis using ex G L by (auto simp: ins_next_def hm_grows_refl)
next
  case (InsCas k v i)
  then show ?thesis using hm_own_cas [OF _ G] ex L by simp
next
  case (InsWriteKey k v j)
  then show ?thesis
    using ex L hm_own_write [OF G, of k j "(hm_buckets (hg_map g) ! j)\<lparr>hn_key := k\<rparr>"] by (auto simp: claimed_def)
next
  case (InsWriteValue k v j)
  then show ?thesis
    using ex L hm_own_write [OF G, of k j "(hm_buckets (hg_map g) ! j)\<lparr>hn_value := v\<rparr>"] by (auto simp: claimed_def)
next
  case (InsPublish k v j)
  then show ?thesis using ex hg_publish_G [OF G, of k j v] L by auto
next
  case (FindProbe b k i)
  then show ?thesis using ex G L ahead_empty [of hash g b k i] by (auto simp: hm_grows_refl)
next
  case (FindReady b k i)
  then show ?thesis using ex G L by (auto simp: hm_grows_refl)
next
  case (FindKey b k i)
  then show ?thesis using ex G L ahead_skip [of hash g b k i] by (auto simp: hm_grows_refl ahead_def)
next
  case (FindValue b k i)
  then show ?thesis using ex G L hm_G_node(3) [OF G, of i k] by (auto simp: hm_grows_refl)
qed (use ex G in \<open>auto simp: hm_grows_refl\<close>)

lemma owns_next [simp]: "hm_owns (ins_next g k v i) = None" "hm_owns (find_next g b k i) = None"
  by (simp_all add: ins_next_def find_next_def)

lemma hm_other_nodes:
  assumes "hm_go hash g l = (g', l')" "hm_G hash g" "hm_L hash g l" "hm_L hash g m" "hm_X l m" "hm_owns m = Some j"
  shows "hm_buckets (hg_map g') ! j = hm_buckets (hg_map g) ! j" "hm_owns l' \<noteq> Some j"
proof -
  have occ: "hn_occupied (hm_buckets (hg_map g) ! j)" using assms(4,6) by (cases m) (auto simp: claimed_def)
  have "hm_buckets (hg_map g') ! j = hm_buckets (hg_map g) ! j \<and> hm_owns l' \<noteq> Some j"
  proof (cases l)
    case (InsCas k v i)
    show ?thesis
    proof (cases "hn_occupied (hg_node hash g k i)")
      case False
      then have "j \<noteq> hm_slot (hm_size (hg_map g)) (hash k) i" using occ by (auto simp: hg_node_def)
      then show ?thesis using assms(1) InsCas False by (auto simp: hg_set_def)
    qed (use assms(1) InsCas in auto)
  qed (use assms(1,5,6) in \<open>auto simp: hm_X_def hg_set_def split: if_splits\<close>)
  then show "hm_buckets (hg_map g') ! j = hm_buckets (hg_map g) ! j" "hm_owns l' \<noteq> Some j" by auto
qed

lemma hm_other_step:
  assumes "hm_go hash g l = (g', l')" "hm_G hash g" "hm_L hash g l" "hm_L hash g m" "hm_X l m"
  shows "hm_L hash g' m \<and> hm_X l' m"
proof -
  have "hm_grows g g'" using hm_own_step [OF assms(1-3)] by simp
  then have "hm_L hash g' m" by (rule grows_L [OF _ assms(4)]) (rule hm_other_nodes(1) [OF assms])
  then show ?thesis using hm_other_nodes(2) [OF assms] by (cases "hm_owns m") (auto simp: hm_X_def)
qed

lemma hm_call_step:
  assumes "hm_G hash g"
  shows "hm_L hash g (ins_next g k v 0)" "hm_L hash g (find_next g (k \<in> fst ` set (hg_committed g)) k 0)"
proof -
  have N: "0 < hm_N (hg_map g)" using assms by (simp add: hm_G_def)
  show "hm_L hash g (ins_next g k v 0)" using N by (simp add: ins_next_def probed_def)
  have "ahead hash g (k \<in> fst ` set (hg_committed g)) k 0"
    using N assms unfolding ahead_def hm_G_def by blast
  then show "hm_L hash g (find_next g (k \<in> fst ` set (hg_committed g)) k 0)" using N by (simp add: find_next_def)
qed

interpretation hm_og: og_proof "hm_exec hash" hm_ginit "\<lambda>_. HIdle" "\<lambda>_. True" "hm_G hash" "hm_L hash" hm_X
  for hash :: "'k \<Rightarrow> size_t"
proof
  fix a and g :: "('k, 'v) hm_global" and l g' l'
  assume ex: "hm_exec hash a g l = (g', l')" and G: "hm_G hash g" and L: "hm_L hash g l"
  show "hm_G hash g' \<and> hm_L hash g' l'"
    using ex G L hm_own_step [OF _ G L] hm_call_step [OF G] by (cases a) (auto split: hm_pc.splits)
  show "hm_L hash g' m \<and> hm_X l' m" if "hm_L hash g m" "hm_X l m" for m
    using ex that hm_other_step [OF _ G L that]
    by (cases a) (auto split: hm_pc.splits simp: hm_X_def)
next
  show "hm_G hash g" if "hm_ginit g" for g :: "('k, 'v) hm_global"
    using that by (auto simp: hm_ginit_def hm_G_def hm_new_def)
qed (auto simp: hm_X_def)

subsection \<open>Properties of every schedule\<close>

text \<open>
  Under every schedule and for every hash function: a search that reports a value reports a
  value that was inserted with exactly this key (never a half-written entry), and a search that
  reports "not found" was started before any insertion of its key had been committed.
\<close>

theorem hm_conc_find_correct:
  assumes "hm_reach hash (g, ls)"
  shows "(ls t = FindRet b k (Some v) \<longrightarrow> (k, v) \<in> set (hg_committed g)) \<and>
         (ls t = FindRet b k None \<longrightarrow> \<not> b)"
  using hm_og.reach_L [OF assms, of t] by auto

text \<open>
  The plain fields \<^verbatim>\<open>key\<close> and \<^verbatim>\<open>value\<close> are free of data races: a slot that a thread is writing
  exists, is claimed by no other thread, and is not ready, while every other thread that is about
  to read a key or value reads a ready slot.
\<close>

theorem hm_conc_race_free:
  assumes "hm_reach hash (g, ls)" "hm_owns (ls t) = Some j" "u \<noteq> t"
  shows "j < length (hm_buckets (hg_map g)) \<and> \<not> hn_ready (hm_buckets (hg_map g) ! j) \<and> hm_owns (ls u) \<noteq> Some j \<and>
    (\<forall>b k v i. ls u \<in> {InsKey k v i, FindKey b k i, FindValue b k i} \<longrightarrow> hn_ready (hg_node hash g k i))"
proof -
  have G: "hm_G hash g" by (rule hm_og.reach_G [OF assms(1)]) simp
  have L: "hm_L hash g (ls t)" "hm_L hash g (ls u)" by (rule hm_og.reach_L [OF assms(1)]; simp)+
  have X: "hm_X (ls u) (ls t)" by (rule hm_og.reach_X [OF assms(1) _ assms(3)]) simp
  have "j < length (hm_buckets (hg_map g)) \<and> \<not> hn_ready (hm_buckets (hg_map g) ! j)"
    using L(1) assms(2) G by (cases "ls t") (auto simp: claimed_def hm_G_def)
  moreover have "hm_owns (ls u) \<noteq> Some j" using X assms(2) by (auto simp: hm_X_def)
  moreover have "hn_ready (hg_node hash g k i)" if "ls u \<in> {InsKey k v i, FindKey b k i, FindValue b k i}" for b k v i
    using L(2) that by auto
  ultimately show ?thesis by blast
qed

subsection \<open>Schedules\<close>

definition hm_g0 :: "(size_t, nat) hm_global" where
  "hm_g0 = \<lparr>hg_map = hm_new 2 0 0, hg_committed = []\<rparr>"

abbreviation hm_run :: "(tid \<times> (size_t, nat) hm_act) list \<Rightarrow> ((size_t, nat) hm_global, (size_t, nat) hm_pc) config" where
  "hm_run es \<equiv> run (hm_exec (\<lambda>k. k)) (hm_g0, \<lambda>_. HIdle) es"

lemma hm_run_reach: "hm_reach (\<lambda>k. k) (fst (hm_run es), snd (hm_run es))"
proof -
  have "hm_ginit hm_g0" unfolding hm_ginit_def hm_g0_def by (rule exI [of _ 2], rule exI [of _ 0], rule exI [of _ 0]) simp
  then show ?thesis using reach_run_init [of hm_ginit hm_g0 "hm_exec (\<lambda>k. k)" "\<lambda>_. HIdle" es] by simp
qed

lemma hm_g0_buckets: "hm_new 2 (0::size_t) (0::nat) = \<lparr>hm_size = 2,
    hm_buckets = [\<lparr>hn_key = 0, hn_value = 0, hn_occupied = False, hn_ready = False\<rparr>,
                  \<lparr>hn_key = 0, hn_value = 0, hn_occupied = False, hn_ready = False\<rparr>]\<rparr>"
proof -
  have "replicate 2 x = [x, x]" for x :: "(size_t, nat) hnode" by (simp add: numeral_2_eq_2)
  then show ?thesis by (simp add: hm_new_def)
qed

lemmas hm_eval = hm_g0_def hm_g0_buckets sys_step_def hg_node_def hg_set_def ins_next_def find_next_def hm_slot_def

text \<open>Thread 0 inserts key 1; thread 1 looks it up; thread 2 has claimed the other slot.\<close>

definition hm_sched :: "(tid \<times> (size_t, nat) hm_act) list" where
  "hm_sched = [(0, HInsert 1 7), (0, HGo), (0, HGo), (0, HGo), (0, HGo), (0, HGo),
     (1, HFind 1), (1, HGo), (1, HGo), (1, HGo), (1, HGo), (2, HInsert 0 5), (2, HGo), (2, HGo)]"

lemma hm_sched_ends:
  "snd (hm_run hm_sched) (Suc 0) = FindRet True 1 (Some 7)" "hg_committed (fst (hm_run hm_sched)) = [(1, 7)]"
  "snd (hm_run hm_sched) 2 = InsWriteKey 0 5 0"
  by (simp_all add: hm_sched_def hm_eval)

theorem hm_conc_find_correct_witness: "(1, 7) \<in> set (hg_committed (fst (hm_run hm_sched)))"
  using hm_conc_find_correct [OF hm_run_reach [of hm_sched], of "Suc 0" True 1 7] hm_sched_ends(1) by simp

theorem hm_conc_race_free_witness:
  "hm_owns (snd (hm_run hm_sched) 2) = Some 0 \<and> \<not> hn_ready (hm_buckets (hg_map (fst (hm_run hm_sched))) ! 0)"
  using hm_conc_race_free [OF hm_run_reach [of hm_sched], of 2 0 0] hm_sched_ends(3) by simp

text \<open>
  C40. Unique keys are not guaranteed under concurrency: an inserter passes a slot that is claimed and
  not yet ready without comparing keys, so two concurrent insertions of the same key both return
  true and the table holds the key twice.
\<close>

theorem hm_conc_duplicate:
  "\<exists>g ls. hm_reach (\<lambda>k. k) (g, ls) \<and> ls 0 = InsRet True \<and> ls 1 = InsRet True \<and>
     hg_committed g = [(0, 5), (0 :: size_t, 7 :: nat)] \<and> map hn_key (hm_buckets (hg_map g)) = [0, 0]"
proof -
  let ?es = "[(0, HInsert 0 7), (1, HInsert 0 5), (0, HGo), (0, HGo), (1, HGo), (1, HGo), (1, HGo), (1, HGo),
     (0, HGo), (0, HGo), (0, HGo), (1, HGo), (1, HGo), (1, HGo)]"
  have "snd (hm_run ?es) 0 = InsRet True" "snd (hm_run ?es) 1 = InsRet True"
    "hg_committed (fst (hm_run ?es)) = [(0, 5), (0, 7)]"
    "map hn_key (hm_buckets (hg_map (fst (hm_run ?es)))) = [0, 0]"
    by (simp_all add: hm_eval)
  then show ?thesis using hm_run_reach [of ?es]
    by (intro exI [of _ "fst (hm_run ?es)"] exI [of _ "snd (hm_run ?es)"] conjI)
qed

text \<open>
  \<^verbatim>\<open>find\<close> is not lock-free: if an inserter stops between claiming a slot and publishing it, a
  search whose probe sequence meets that slot spins, and never returns however long it runs.
\<close>

theorem hm_find_blocks:
  "\<exists>g ls k. hm_reach (\<lambda>k. k) (g :: (size_t, nat) hm_global, ls) \<and>
     (\<forall>n. snd (solo (hm_exec (\<lambda>k. k)) HGo n g (FindProbe False k 0)) \<in> {FindProbe False k 0, FindReady False k 0})"
proof -
  let ?es = "[(0, HInsert 0 7), (0, HGo), (0, HGo)]"
  let ?g = "fst (hm_run ?es)"
  have n: "hn_occupied (hg_node (\<lambda>k. k) ?g 0 0)" "\<not> hn_ready (hg_node (\<lambda>k. k) ?g 0 0)"
    by (simp_all add: hm_eval)
  have spin: "solo (hm_exec (\<lambda>k. k)) HGo n ?g (FindReady False 0 0) = (?g, FindReady False 0 0)" for n
    using n(2) by (induction n) auto
  have "snd (solo (hm_exec (\<lambda>k. k)) HGo n ?g (FindProbe False 0 0)) \<in> {FindProbe False 0 0, FindReady False 0 0}" for n
    using n(1) spin by (cases n) auto
  then show ?thesis using hm_run_reach [of ?es] by blast
qed

end
