(* ===== verification/Hash_Map_RA.thy ===== *)
theory Hash_Map_RA
  imports Hash_Map_Conc Release_Acquire
begin

text \<open>
  \<^verbatim>\<open>LockFreeHashMap\<close> with the memory orders of the code: acquire loads of \<^verbatim>\<open>occupied\<close> and \<^verbatim>\<open>ready\<close>, an acquire
  exchange that fails relaxed, a release store of \<^verbatim>\<open>ready\<close>, and plain accesses of \<^verbatim>\<open>key\<close> and \<^verbatim>\<open>value\<close>. The program
  points are those of \<open>Hash_Map_Conc\<close>; every thread has a view. \<open>hr_race\<close> is set by a plain access that is not
  ordered after the conflicting ones before it, and by a store whose place in the modification
  order is not determined. The flag a searching thread carries now says whether it had
  observed, when it was called, the commit of an entry with its key.
\<close>

datatype hm_loc = LOcc nat | LReady nat

datatype hm_field = FKey nat | FValue nat

record ('k, 'v) hr_global =
  hr_size :: size_t
  hr_mem :: "(bool, hm_loc, hm_field) mem"
  hr_keys :: "'k list"
  hr_values :: "'v list"
  hr_trail :: "hm_field trail"
  hr_race :: bool
  hr_committed :: "('k \<times> 'v) list"

type_synonym hr_view = "(hm_loc, hm_field) view"
type_synonym ('k, 'v) hr_local = "('k, 'v) hm_pc \<times> hr_view"

datatype ('k, 'v) hr_act = HrInsert 'k 'v | HrFind 'k | HrGo nat \<comment> \<open>the message a load returns\<close>

abbreviation hr_N :: "('k, 'v) hr_global \<Rightarrow> nat" where "hr_N g \<equiv> unat (hr_size g)"

abbreviation hr_slot :: "('k \<Rightarrow> size_t) \<Rightarrow> ('k, 'v) hr_global \<Rightarrow> 'k \<Rightarrow> nat \<Rightarrow> nat" where
  "hr_slot hash g k i \<equiv> hm_slot (hr_size g) (hash k) i"

definition hr_ins_next :: "('k, 'v) hr_global \<Rightarrow> 'k \<Rightarrow> 'v \<Rightarrow> nat \<Rightarrow> ('k, 'v) hm_pc" where
  "hr_ins_next g k x i = (if i < hr_N g then InsProbe k x i else InsRet False)"

definition hr_find_next :: "('k, 'v) hr_global \<Rightarrow> bool \<Rightarrow> 'k \<Rightarrow> nat \<Rightarrow> ('k, 'v) hm_pc" where
  "hr_find_next g b k i = (if i < hr_N g then FindProbe b k i else FindRet b k None)"

text \<open>A plain read and a plain write.\<close>

definition hr_read :: "hm_field \<Rightarrow> ('k, 'v) hr_global \<Rightarrow> hr_view \<Rightarrow> ('k, 'v) hr_global \<times> hr_view" where
  "hr_read f g v = (case leave_trail f False (hr_trail g) v of (h, v') \<Rightarrow>
     (g\<lparr>hr_trail := h, hr_race := hr_race g \<or> \<not> read_ordered f (hr_trail g) v\<rparr>, v'))"

definition hr_write :: "hm_field \<Rightarrow> ('k, 'v) hr_global \<Rightarrow> hr_view \<Rightarrow> ('k, 'v) hr_global \<times> hr_view" where
  "hr_write f g v = (case leave_trail f True (hr_trail g) v of (h, v') \<Rightarrow>
     (g\<lparr>hr_trail := h, hr_race := hr_race g \<or> \<not> write_ordered f (hr_trail g) v\<rparr>, v'))"

fun hr_go :: "('k \<Rightarrow> size_t) \<Rightarrow> nat \<Rightarrow> ('k, 'v) hr_global \<Rightarrow> ('k, 'v) hr_local \<Rightarrow>
    ('k, 'v) hr_global \<times> ('k, 'v) hr_local" where
  "hr_go hash n g (HIdle, v) = (g, HIdle, v)"
| "hr_go hash n g (InsProbe k x i, v) =
     (case load_acq n (LOcc (hr_slot hash g k i)) (hr_mem g) v of (occupied, v') \<Rightarrow>
      (g, if occupied then InsReady k x i else InsCas k x i, v'))"
| "hr_go hash n g (InsReady k x i, v) =
     (case load_acq n (LReady (hr_slot hash g k i)) (hr_mem g) v of (ready, v') \<Rightarrow>
      (g, if ready then InsKey k x i else hr_ins_next g k x (Suc i), v'))"
| "hr_go hash n g (InsKey k x i, v) =
     (case hr_read (FKey (hr_slot hash g k i)) g v of (g', v') \<Rightarrow>
      (g', if hr_keys g ! hr_slot hash g k i = k then InsRet False else hr_ins_next g k x (Suc i), v'))"
| "hr_go hash n g (InsCas k x i, v) =
     (case cas_strong True False False n (LOcc (hr_slot hash g k i)) False True (hr_mem g) v of
        (None, m, v') \<Rightarrow> (g\<lparr>hr_mem := m\<rparr>, InsWriteKey k x (hr_slot hash g k i), v')
      | (Some _, m, v') \<Rightarrow> (g, hr_ins_next g k x (Suc i), v'))"
| "hr_go hash n g (InsWriteKey k x j, v) =
     (case hr_write (FKey j) g v of (g', v') \<Rightarrow> (g'\<lparr>hr_keys := (hr_keys g)[j := k]\<rparr>, InsWriteValue k x j, v'))"
| "hr_go hash n g (InsWriteValue k x j, v) =
     (case hr_write (FValue j) g v of (g', v') \<Rightarrow> (g'\<lparr>hr_values := (hr_values g)[j := x]\<rparr>, InsPublish k x j, v'))"
| "hr_go hash n g (InsPublish k x j, v) =
     (case store_rel (LReady j) True (hr_mem g) v of
        None \<Rightarrow> (g\<lparr>hr_race := True\<rparr>, InsRet True, v)
      | Some (m, v') \<Rightarrow> (g\<lparr>hr_mem := m, hr_committed := (k, x) # hr_committed g\<rparr>, InsRet True, v'))"
| "hr_go hash n g (InsRet b, v) = (g, HIdle, v)"
| "hr_go hash n g (FindProbe b k i, v) =
     (case load_acq n (LOcc (hr_slot hash g k i)) (hr_mem g) v of (occupied, v') \<Rightarrow>
      (g, if occupied then FindReady b k i else FindRet b k None, v'))"
| "hr_go hash n g (FindReady b k i, v) =
     (case load_acq n (LReady (hr_slot hash g k i)) (hr_mem g) v of (ready, v') \<Rightarrow>
      (g, if ready then FindKey b k i else FindReady b k i, v'))"
| "hr_go hash n g (FindKey b k i, v) =
     (case hr_read (FKey (hr_slot hash g k i)) g v of (g', v') \<Rightarrow>
      (g', if hr_keys g ! hr_slot hash g k i = k then FindValue b k i else hr_find_next g b k (Suc i), v'))"
| "hr_go hash n g (FindValue b k i, v) =
     (case hr_read (FValue (hr_slot hash g k i)) g v of (g', v') \<Rightarrow>
      (g', FindRet b k (Some (hr_values g ! hr_slot hash g k i)), v'))"
| "hr_go hash n g (FindRet b k r, v) = (g, HIdle, v)"

definition observed :: "('k, 'v) hr_global \<Rightarrow> 'k \<Rightarrow> hr_view \<Rightarrow> bool" where
  "observed g k v \<longleftrightarrow> (\<exists>j<hr_N g. 1 \<le> seen v (LReady j) \<and> hr_keys g ! j = k)"

fun hr_exec :: "('k \<Rightarrow> size_t) \<Rightarrow> ('k, 'v) hr_act \<Rightarrow> ('k, 'v) hr_global \<Rightarrow> ('k, 'v) hr_local \<Rightarrow>
    ('k, 'v) hr_global \<times> ('k, 'v) hr_local" where
  "hr_exec hash (HrInsert k x) g (l, v) = (g, case l of HIdle \<Rightarrow> hr_ins_next g k x 0 | _ \<Rightarrow> l, v)"
| "hr_exec hash (HrFind k) g (l, v) = (g, case l of HIdle \<Rightarrow> hr_find_next g (observed g k v) k 0 | _ \<Rightarrow> l, v)"
| "hr_exec hash (HrGo n) g lv = hr_go hash n g lv"

definition hr_start :: "size_t \<Rightarrow> 'k \<Rightarrow> 'v \<Rightarrow> ('k, 'v) hr_global" where
  "hr_start sz dk dv = \<lparr>hr_size = sz, hr_mem = (\<lambda>_. [Msg False bot]), hr_keys = replicate (unat sz) dk,
     hr_values = replicate (unat sz) dv, hr_trail = (\<lambda>_. []), hr_race = False, hr_committed = []\<rparr>"

definition hr_ginit :: "('k, 'v) hr_global \<Rightarrow> bool" where
  "hr_ginit g \<longleftrightarrow> (\<exists>sz dk dv. 0 < unat sz \<and> unat sz \<le> 2 ^ 63 \<and> g = hr_start sz dk dv)"

definition hr_linit :: "tid \<Rightarrow> ('k, 'v) hr_local" where
  "hr_linit t = (HIdle, bot)"

abbreviation hr_reach :: "('k \<Rightarrow> size_t) \<Rightarrow> (('k, 'v) hr_global, ('k, 'v) hr_local) config \<Rightarrow> bool" where
  "hr_reach hash \<equiv> reach (hr_exec hash) hr_ginit hr_linit"

subsection \<open>Assertions\<close>

text \<open>The newest messages and the plain fields make up a table of the interleaved machine.\<close>

definition hr_node :: "('k, 'v) hr_global \<Rightarrow> nat \<Rightarrow> ('k, 'v) hnode" where
  "hr_node g j = \<lparr>hn_key = hr_keys g ! j, hn_value = hr_values g ! j,
     hn_occupied = newest (hr_mem g) (LOcc j), hn_ready = newest (hr_mem g) (LReady j)\<rparr>"

definition hr_sc :: "('k, 'v) hr_global \<Rightarrow> ('k, 'v) hm_global" where
  "hr_sc g = \<lparr>hg_map = \<lparr>hm_size = hr_size g, hm_buckets = map (hr_node g) [0..<hr_N g]\<rparr>, hg_committed = hr_committed g\<rparr>"

definition sees :: "('k \<Rightarrow> size_t) \<Rightarrow> ('k, 'v) hr_global \<Rightarrow> hr_view \<Rightarrow> 'k \<Rightarrow> nat \<Rightarrow> bool" where
  "sees hash g v k n \<longleftrightarrow> (\<forall>e<n. 1 \<le> seen v (LOcc (hr_slot hash g k e)))"

definition hr_flags :: "('k, 'v) hr_global \<Rightarrow> bool" where
  "hr_flags g \<longleftrightarrow> (\<forall>l. length (hr_mem g l) \<le> 2 \<and> (\<forall>i<length (hr_mem g l). mval (hr_mem g l ! i) \<longleftrightarrow> i = 1))"

text \<open>A view that includes the commit of an entry includes what the committing thread knew.\<close>

definition closed_view :: "('k, 'v) hr_global \<Rightarrow> hr_view \<Rightarrow> bool" where
  "closed_view g v \<longleftrightarrow> (\<forall>j. 1 \<le> seen v (LReady j) \<longrightarrow> mview (hr_mem g (LReady j) ! 1) \<le> v)"

definition one_write :: "hm_field \<Rightarrow> hm_field trail \<Rightarrow> bool" where
  "one_write f h \<longleftrightarrow> (\<forall>e<length (h f). h f ! e \<longrightarrow> e = 0)"

definition hr_entry :: "('k \<Rightarrow> size_t) \<Rightarrow> ('k, 'v) hr_global \<Rightarrow> nat \<Rightarrow> hr_view \<Rightarrow> bool" where
  "hr_entry hash g j u \<longleftrightarrow> (FKey j, 0) \<in> known u \<and> (FValue j, 0) \<in> known u \<and>
     one_write (FKey j) (hr_trail g) \<and> one_write (FValue j) (hr_trail g) \<and> 1 \<le> seen u (LReady j) \<and>
     (\<exists>d<hr_N g. hr_slot hash g (hr_keys g ! j) d = j \<and> sees hash g u (hr_keys g ! j) (Suc d))"

definition hr_entries :: "('k \<Rightarrow> size_t) \<Rightarrow> ('k, 'v) hr_global \<Rightarrow> bool" where
  "hr_entries hash g \<longleftrightarrow> (\<forall>j<hr_N g. (newest (hr_mem g) (LReady j) \<longrightarrow> hr_entry hash g j (mview (hr_mem g (LReady j) ! 1))) \<and>
     (\<not> newest (hr_mem g) (LOcc j) \<longrightarrow> hr_trail g (FKey j) = [] \<and> hr_trail g (FValue j) = []))"

definition hr_G :: "('k \<Rightarrow> size_t) \<Rightarrow> ('k, 'v) hr_global \<Rightarrow> bool" where
  "hr_G hash g \<longleftrightarrow> hm_G hash (hr_sc g) \<and> mem_ok (hr_mem g) \<and> hr_flags g \<and> hr_entries hash g \<and>
     (\<forall>l. \<forall>i<length (hr_mem g l). closed_view g (mview (hr_mem g l ! i))) \<and> \<not> hr_race g \<and>
     length (hr_keys g) = hr_N g \<and> length (hr_values g) = hr_N g"

text \<open>A search that had observed its key has the slot still ahead, and will see it.\<close>

definition awaits :: "('k \<Rightarrow> size_t) \<Rightarrow> ('k, 'v) hr_global \<Rightarrow> hr_view \<Rightarrow> bool \<Rightarrow> 'k \<Rightarrow> nat \<Rightarrow> bool" where
  "awaits hash g v b k i \<longleftrightarrow> (b \<longrightarrow> (\<exists>d<hr_N g. i \<le> d \<and> sees hash g v k (Suc d) \<and>
     newest (hr_mem g) (LReady (hr_slot hash g k d)) \<and> hr_keys g ! hr_slot hash g k d = k))"

definition own_path :: "('k \<Rightarrow> size_t) \<Rightarrow> ('k, 'v) hr_global \<Rightarrow> hr_view \<Rightarrow> 'k \<Rightarrow> nat \<Rightarrow> bool" where
  "own_path hash g v k j \<longleftrightarrow> (\<exists>d<hr_N g. hr_slot hash g k d = j \<and> sees hash g v k (Suc d))"

fun hr_V :: "('k \<Rightarrow> size_t) \<Rightarrow> ('k, 'v) hr_global \<Rightarrow> ('k, 'v) hr_local \<Rightarrow> bool" where
  "hr_V hash g (InsProbe k x i, v) = sees hash g v k i"
| "hr_V hash g (InsReady k x i, v) = sees hash g v k (Suc i)"
| "hr_V hash g (InsKey k x i, v) = (sees hash g v k (Suc i) \<and> 1 \<le> seen v (LReady (hr_slot hash g k i)))"
| "hr_V hash g (InsCas k x i, v) = sees hash g v k i"
| "hr_V hash g (InsWriteKey k x j, v) = (own_path hash g v k j \<and>
     hr_trail g (FKey j) = [] \<and> hr_trail g (FValue j) = [])"
| "hr_V hash g (InsWriteValue k x j, v) = (own_path hash g v k j \<and>
     hr_trail g (FKey j) = [True] \<and> hr_trail g (FValue j) = [] \<and> (FKey j, 0) \<in> known v)"
| "hr_V hash g (InsPublish k x j, v) = (own_path hash g v k j \<and>
     hr_trail g (FKey j) = [True] \<and> hr_trail g (FValue j) = [True] \<and> (FKey j, 0) \<in> known v \<and> (FValue j, 0) \<in> known v)"
| "hr_V hash g (FindProbe b k i, v) = awaits hash g v b k i"
| "hr_V hash g (FindReady b k i, v) = awaits hash g v b k i"
| "hr_V hash g (FindKey b k i, v) = (awaits hash g v b k i \<and> 1 \<le> seen v (LReady (hr_slot hash g k i)))"
| "hr_V hash g (FindValue b k i, v) = (1 \<le> seen v (LReady (hr_slot hash g k i)))"
| "hr_V hash g _ = True"

definition hr_L :: "('k \<Rightarrow> size_t) \<Rightarrow> ('k, 'v) hr_global \<Rightarrow> ('k, 'v) hr_local \<Rightarrow> bool" where
  "hr_L hash g lv \<longleftrightarrow> hm_L hash (hr_sc g) (fst lv) \<and> view_ok (hr_mem g) (snd lv) \<and> closed_view g (snd lv) \<and> hr_V hash g lv"

definition hr_X :: "('k, 'v) hr_local \<Rightarrow> ('k, 'v) hr_local \<Rightarrow> bool" where
  "hr_X lv mw \<longleftrightarrow> hm_X (fst lv) (fst mw)"

subsection \<open>Tables and histories\<close>

lemma hr_sc_sel [simp]:
  "hm_size (hg_map (hr_sc g)) = hr_size g" "hg_committed (hr_sc g) = hr_committed g"
  "hm_buckets (hg_map (hr_sc g)) = map (hr_node g) [0..<hr_N g]"
  by (simp_all add: hr_sc_def)

lemma hr_node_sel [simp]:
  "hn_key (hr_node g j) = hr_keys g ! j" "hn_value (hr_node g j) = hr_values g ! j"
  "hn_occupied (hr_node g j) = newest (hr_mem g) (LOcc j)" "hn_ready (hr_node g j) = newest (hr_mem g) (LReady j)"
  by (simp_all add: hr_node_def)

lemma hr_GD:
  assumes "hr_G hash g"
  shows "hm_G hash (hr_sc g)" "mem_ok (hr_mem g)" "hr_flags g" "hr_entries hash g" "\<not> hr_race g"
    and "length (hr_keys g) = hr_N g" "length (hr_values g) = hr_N g" "0 < hr_N g" "hr_N g \<le> 2 ^ 63"
    and "i < length (hr_mem g l) \<Longrightarrow> closed_view g (mview (hr_mem g l ! i))"
  using assms by (auto simp: hr_G_def hm_G_def)

lemma hr_slot_less: "hr_G hash g \<Longrightarrow> i < hr_N g \<Longrightarrow> hr_slot hash g k i < hr_N g"
  using hr_GD(8,9) [of hash g] by (simp add: hm_slot_less)

lemma hr_sc_node: "hr_G hash g \<Longrightarrow> i < hr_N g \<Longrightarrow> hg_node hash (hr_sc g) k i = hr_node g (hr_slot hash g k i)"
  using hr_slot_less [of hash g i k] by (simp add: hg_node_def)

lemma hr_next_sc [simp]:
  "ins_next (hr_sc g) k x i = hr_ins_next g k x i" "find_next (hr_sc g) b k i = hr_find_next g b k i"
  by (simp_all add: ins_next_def find_next_def hr_ins_next_def hr_find_next_def)

text \<open>A flag is set exactly when its history has its second message.\<close>

lemma hr_flag_iff:
  assumes "hr_G hash g"
  shows "newest (hr_mem g) l \<longleftrightarrow> length (hr_mem g l) = 2" "i < length (hr_mem g l) \<Longrightarrow> mval (hr_mem g l ! i) \<longleftrightarrow> i = 1"
    "hr_mem g l \<noteq> []"
proof -
  have fl: "length (hr_mem g l) \<le> 2" "i < length (hr_mem g l) \<Longrightarrow> mval (hr_mem g l ! i) \<longleftrightarrow> i = 1" for i
    using hr_GD(3) [OF assms] by (auto simp: hr_flags_def)
  show ne: "hr_mem g l \<noteq> []" by (rule mem_okD(1) [OF hr_GD(2) [OF assms]])
  show "newest (hr_mem g) l \<longleftrightarrow> length (hr_mem g l) = 2"
    using fl(2) [of "length (hr_mem g l) - 1"] ne by (auto simp: last_conv_nth)
  show "i < length (hr_mem g l) \<Longrightarrow> mval (hr_mem g l ! i) \<longleftrightarrow> i = 1" by (rule fl(2))
qed

lemma hr_seen_set:
  assumes "hr_G hash g" "view_ok (hr_mem g) v" "1 \<le> seen v l"
  shows "newest (hr_mem g) l"
proof -
  have "seen v l < length (hr_mem g l)" using assms(2) by (simp add: view_ok_def)
  then show ?thesis using hr_flag_iff(1) [OF assms(1)] hr_GD(3) [OF assms(1)] assms(3) by (auto simp: hr_flags_def intro: le_antisym)
qed

lemma closed_view_sup: "closed_view g v \<Longrightarrow> closed_view g w \<Longrightarrow> closed_view g (sup v w)"
  by (auto simp: closed_view_def max_def le_supI1 le_supI2 split: if_splits)

lemma closed_view_mono:
  assumes "closed_view g v" "view_ok (hr_mem g) v" "mem_le (hr_mem g) (hr_mem g')"
  shows "closed_view g' v"
  unfolding closed_view_def
proof (intro allI impI)
  fix j assume j: "1 \<le> seen v (LReady j)"
  then have "1 < length (hr_mem g (LReady j))" using assms(2) by (auto simp: view_ok_def intro: le_less_trans)
  then show "mview (hr_mem g' (LReady j) ! 1) \<le> v" using assms(1) j mem_leD(2) [OF assms(3)] by (simp add: closed_view_def)
qed

lemma sees_mono: "sees hash g v k n \<Longrightarrow> v \<le> w \<Longrightarrow> hr_size g' = hr_size g \<Longrightarrow> sees hash g' w k n"
  unfolding sees_def using view_leD(1) [of v w] by (metis le_trans)

lemma sees_Suc: "sees hash g v k (Suc n) \<longleftrightarrow> sees hash g v k n \<and> 1 \<le> seen v (LOcc (hr_slot hash g k n))"
  by (auto simp: sees_def less_Suc_eq)

text \<open>An acquire load of a flag.\<close>

lemma hr_load_flag:
  assumes G: "hr_G hash g" and v: "view_ok (hr_mem g) v" "closed_view g v" and ld: "load_acq n l (hr_mem g) v = (w, v')"
  shows "v \<le> v'" "view_ok (hr_mem g) v'" "closed_view g v'" "w \<longleftrightarrow> 1 \<le> seen v' l \<and> w" "w \<Longrightarrow> newest (hr_mem g) l"
    "1 \<le> seen v l \<Longrightarrow> w"
proof -
  obtain i where i: "i < length (hr_mem g l)" "seen v l \<le> i" "w = mval (hr_mem g l ! i)" "v \<le> v'"
      "mview (hr_mem g l ! i) \<le> v'" "i \<le> seen v' l" "view_ok (hr_mem g) v'"
    using load_acqE [OF ld v(1) hr_GD(2) [OF G]] by metis
  show "v \<le> v'" "view_ok (hr_mem g) v'" by (fact i)+
  have w: "w \<longleftrightarrow> i = 1" using hr_flag_iff(2) [OF G i(1)] i(3) by simp
  show "w \<longleftrightarrow> 1 \<le> seen v' l \<and> w" using w i(6) by auto
  have len: "length (hr_mem g l) \<le> 2" using hr_GD(3) [OF G] by (simp add: hr_flags_def)
  show "w \<Longrightarrow> newest (hr_mem g) l" using w i(1) len hr_flag_iff(1) [OF G, of l] by auto
  show "1 \<le> seen v l \<Longrightarrow> w" using w i(1,2) len by auto
  let ?i = "pick n l (hr_mem g) v"
  have v': "v' = sup (see l ?i v) (mview (hr_mem g l ! ?i))" using ld by (auto simp: load_acq_def Let_def)
  have p: "seen v l \<le> ?i" "?i < length (hr_mem g l)" using pick_bounds [OF v(1)] by auto
  have p01: "?i = 0 \<or> ?i = 1" using p(2) len by linarith
  show "closed_view g v'"
    unfolding closed_view_def
  proof (intro allI impI)
    fix j assume j: "1 \<le> seen v' (LReady j)"
    then consider "1 \<le> seen v (LReady j)" | "1 \<le> seen (mview (hr_mem g l ! ?i)) (LReady j)" | "l = LReady j" "?i = 1"
      using p01 by (auto simp: v' le_max_iff_disj split: if_splits)
    then show "mview (hr_mem g (LReady j) ! 1) \<le> v'"
    proof cases
      case 1
      then show ?thesis using v(2) \<open>v \<le> v'\<close> by (auto simp: closed_view_def intro: order_trans)
    next
      case 2
      then show ?thesis using hr_GD(10) [OF G p(2)] by (auto simp: closed_view_def v' intro: order_trans)
    next
      case 3
      then show ?thesis by (simp add: v')
    qed
  qed
qed

subsection \<open>Plain accesses\<close>

text \<open>What stays when only the fields of slots that are not ready, or trails, change.\<close>

lemma hr_entry_cong:
  assumes "hr_entry hash g j u" "hr_size g' = hr_size g" "hr_keys g' ! j = hr_keys g ! j"
    "one_write (FKey j) (hr_trail g')" "one_write (FValue j) (hr_trail g')"
  shows "hr_entry hash g' j u"
  using assms by (simp add: hr_entry_def sees_def)

lemma one_write_leave: "one_write f h \<Longrightarrow> leave_trail q False h v = (h', v') \<Longrightarrow> one_write f h'"
  by (cases "f = q") (auto simp: one_write_def leave_trail_def nth_append less_Suc_eq)

lemma closed_view_know [simp]: "closed_view g v \<Longrightarrow> closed_view g (know f e v)"
  unfolding closed_view_def using know_ge [of v f e] by (auto intro: order_trans)

lemma closed_view_mem: "hr_mem g' = hr_mem g \<Longrightarrow> closed_view g' = closed_view g"
  by (simp add: closed_view_def fun_eq_iff)

text \<open>A thread that has observed a commit reads the fields of the entry without a race.\<close>

lemma hr_read_ok:
  assumes G: "hr_G hash g" and v: "view_ok (hr_mem g) v" "closed_view g v" and j: "j < hr_N g" "1 \<le> seen v (LReady j)"
    and f: "f = FKey j \<or> f = FValue j" and rd: "hr_read f g v = (g', v')"
  shows "hr_G hash g'" "v \<le> v'" "view_ok (hr_mem g) v'" "closed_view g' v'" "hr_sc g' = hr_sc g" "hr_mem g' = hr_mem g"
    "hr_keys g' = hr_keys g" "hr_size g' = hr_size g"
proof -
  obtain h where h: "leave_trail f False (hr_trail g) v = (h, v')"
    and g': "g' = g\<lparr>hr_trail := h, hr_race := hr_race g \<or> \<not> read_ordered f (hr_trail g) v\<rparr>"
    using rd by (auto simp: hr_read_def split: prod.splits)
  have rdy: "newest (hr_mem g) (LReady j)" by (rule hr_seen_set [OF G v(1) j(2)])
  have ent: "hr_entry hash g j (mview (hr_mem g (LReady j) ! 1))" using hr_GD(4) [OF G] j(1) rdy by (simp add: hr_entries_def)
  have "mview (hr_mem g (LReady j) ! 1) \<le> v" using v(2) j(2) by (simp add: closed_view_def)
  then have "(FKey j, 0) \<in> known v" "(FValue j, 0) \<in> known v" using ent view_leD(2) by (auto simp: hr_entry_def)
  then have ord: "read_ordered f (hr_trail g) v" using ent f by (auto simp: read_ordered_def hr_entry_def one_write_def)
  have v': "v' = know f (length (hr_trail g f)) v" using h by (simp add: leave_trail_def)
  show sc: "hr_sc g' = hr_sc g" and m: "hr_mem g' = hr_mem g" "hr_keys g' = hr_keys g" "hr_size g' = hr_size g"
    by (simp_all add: g' hr_sc_def hr_node_def fun_eq_iff)
  show "v \<le> v'" "view_ok (hr_mem g) v'" "closed_view g' v'" using v by (simp_all add: v' know_ge closed_view_mem [OF m(1)])
  have occ: "newest (hr_mem g) (LOcc j)" using hr_GD(1) [OF G] j(1) rdy by (auto simp: hm_G_def)
  have tr: "h q = hr_trail g q" if "q \<noteq> f" for q using h that by (auto simp: leave_trail_def)
  have "hr_entries hash g'"
    unfolding hr_entries_def
  proof (intro allI impI conjI)
    fix i assume i: "i < hr_N g'"
    show "hr_entry hash g' i (mview (hr_mem g' (LReady i) ! 1))" if r: "newest (hr_mem g') (LReady i)"
    proof (rule hr_entry_cong [OF _ m(3)])
      show e: "hr_entry hash g i (mview (hr_mem g' (LReady i) ! 1))" using hr_GD(4) [OF G] i r by (simp add: hr_entries_def m)
      show "one_write (FKey i) (hr_trail g')" "one_write (FValue i) (hr_trail g')"
        using e one_write_leave [OF _ h] by (auto simp: hr_entry_def g')
    qed (simp add: m)
    assume u: "\<not> newest (hr_mem g') (LOcc i)"
    then have "i \<noteq> j" using occ m by auto
    then show "hr_trail g' (FKey i) = []" "hr_trail g' (FValue i) = []"
      using hr_GD(4) [OF G] i u f tr by (auto simp: hr_entries_def m) (auto simp: g' tr)
  qed
  then show "hr_G hash g'" using G ord by (simp add: hr_G_def sc m closed_view_mem [OF m(1)]) (simp add: g' hr_flags_def)
qed

text \<open>A step of the owner of a slot is a step of the interleaved machine.\<close>

lemma hr_sc_set:
  assumes "j < hr_N g" "hr_size g' = hr_size g" "\<And>i. i \<noteq> j \<Longrightarrow> hr_node g' i = hr_node g i"
  shows "map (hr_node g') [0..<hr_N g'] = (map (hr_node g) [0..<hr_N g])[j := hr_node g' j]"
  using assms by (intro nth_equalityI) (auto simp: nth_list_update)

lemma hr_claimed:
  assumes "claimed hash (hr_sc g) k j"
  shows "j < hr_N g" "newest (hr_mem g) (LOcc j)" "\<not> newest (hr_mem g) (LReady j)"
  using assms by (auto simp: claimed_def)

text \<open>Changing the fields of a claimed slot leaves the entries of the others alone.\<close>

lemma hr_entries_write:
  assumes E: "hr_entries hash g" and m: "hr_mem g' = hr_mem g" "hr_size g' = hr_size g"
    and j: "newest (hr_mem g) (LOcc j)" "\<not> newest (hr_mem g) (LReady j)"
    and eq: "\<And>i. i \<noteq> j \<Longrightarrow> hr_keys g' ! i = hr_keys g ! i \<and> hr_trail g' (FKey i) = hr_trail g (FKey i) \<and>
      hr_trail g' (FValue i) = hr_trail g (FValue i)"
  shows "hr_entries hash g'"
  unfolding hr_entries_def
proof (intro allI impI conjI)
  fix i assume i: "i < hr_N g'"
  show "hr_entry hash g' i (mview (hr_mem g' (LReady i) ! 1))" if r: "newest (hr_mem g') (LReady i)"
  proof (rule hr_entry_cong [OF _ m(2)])
    have ij: "i \<noteq> j" using r j m by auto
    show e: "hr_entry hash g i (mview (hr_mem g' (LReady i) ! 1))" using E i r by (simp add: hr_entries_def m)
    show "one_write (FKey i) (hr_trail g')" "one_write (FValue i) (hr_trail g')" "hr_keys g' ! i = hr_keys g ! i"
      using e eq [OF ij] by (auto simp: hr_entry_def one_write_def)
  qed
  assume u: "\<not> newest (hr_mem g') (LOcc i)"
  then have "i \<noteq> j" using j m by auto
  then show "hr_trail g' (FKey i) = []" "hr_trail g' (FValue i) = []" using eq [of i] E i u by (auto simp: hr_entries_def m)
qed

lemma own_path_mono: "own_path hash g v k j \<Longrightarrow> v \<le> w \<Longrightarrow> hr_size g' = hr_size g \<Longrightarrow> own_path hash g' w k j"
  unfolding own_path_def by (metis sees_mono)

lemma hr_owner_step:
  assumes G: "hr_G hash g" and L: "hr_L hash g (l, v)" and c: "claimed hash (hr_sc g) k j"
    and m: "hr_mem g' = hr_mem g" "hr_size g' = hr_size g" "\<not> hr_race g'" "hr_committed g' = hr_committed g"
      "length (hr_keys g') = hr_N g" "length (hr_values g') = hr_N g"
    and eq: "\<And>i. i \<noteq> j \<Longrightarrow> hr_keys g' ! i = hr_keys g ! i \<and> hr_values g' ! i = hr_values g ! i \<and>
      hr_trail g' (FKey i) = hr_trail g (FKey i) \<and> hr_trail g' (FValue i) = hr_trail g (FValue i)"
    and go: "hm_go hash (hr_sc g) l = (hg_set (hr_sc g) j (hr_node g' j), l')"
  shows "hm_go hash (hr_sc g) l = (hr_sc g', l')" "hr_G hash g'" "hm_L hash (hr_sc g') l'"
    and "view_ok (hr_mem g') (know f e v)" "closed_view g' (know f e v)"
proof -
  note j = hr_claimed [OF c]
  have "map (hr_node g') [0..<hr_N g'] = (map (hr_node g) [0..<hr_N g])[j := hr_node g' j]"
    by (rule hr_sc_set [OF j(1) m(2)]) (simp add: hr_node_def eq m)
  then show sc: "hm_go hash (hr_sc g) l = (hr_sc g', l')" using go by (simp add: hg_set_def) (simp add: hr_sc_def m)
  have bL: "hm_L hash (hr_sc g) l" using L by (simp add: hr_L_def)
  have *: "hm_G hash (hr_sc g') \<and> hm_L hash (hr_sc g') l'" using hm_own_step [OF sc hr_GD(1) [OF G] bL] by blast
  then show "hm_L hash (hr_sc g') l'" by blast
  have "hr_entries hash g'" by (rule hr_entries_write [OF hr_GD(4) [OF G] m(1,2) j(2,3)]) (simp add: eq)
  then show "hr_G hash g'" using G * m by (simp add: hr_G_def hr_flags_def closed_view_mem [OF m(1)])
  show "view_ok (hr_mem g') (know f e v)" "closed_view g' (know f e v)"
    using L by (simp_all add: hr_L_def m closed_view_mem [OF m(1)])
qed

lemma hr_write_key:
  assumes G: "hr_G hash g" and L: "hr_L hash g (InsWriteKey k x j, v)" and go: "hr_go hash n g (InsWriteKey k x j, v) = (g', l', v')"
  shows "hm_go hash (hr_sc g) (InsWriteKey k x j) = (hr_sc g', l')" "hr_G hash g' \<and> hr_L hash g' (l', v')"
proof -
  have c: "claimed hash (hr_sc g) k j" and p: "own_path hash g v k j"
    and t: "hr_trail g (FKey j) = []" "hr_trail g (FValue j) = []" using L by (auto simp: hr_L_def)
  have g': "g' = g\<lparr>hr_trail := (hr_trail g)(FKey j := [True]), hr_race := hr_race g, hr_keys := (hr_keys g)[j := k]\<rparr>"
    and l': "l' = InsWriteValue k x j" "v' = know (FKey j) 0 v"
    using go t by (auto simp: hr_write_def leave_trail_def write_ordered_def)
  have "hm_go hash (hr_sc g) (InsWriteKey k x j) = (hg_set (hr_sc g) j (hr_node g' j), l')"
    using hr_claimed(1) [OF c] hr_GD(6) [OF G] by (simp add: l' hr_node_def g')
  note st = hr_owner_step [OF G L c _ _ _ _ _ _ _ this]
  show "hm_go hash (hr_sc g) (InsWriteKey k x j) = (hr_sc g', l')"
    by (rule st(1)) (use hr_GD(5-7) [OF G] in \<open>simp_all add: g'\<close>)
  have *: "hr_G hash g'" "hm_L hash (hr_sc g') l'" "view_ok (hr_mem g') v'" "closed_view g' v'" unfolding l'(2)
    by (rule st(2) st(3) st(4) st(5); use hr_GD(5-7) [OF G] in \<open>simp_all add: g'\<close>)+
  moreover have "own_path hash g' v' k j" using own_path_mono [OF p know_ge, of g'] by (simp add: g' l')
  ultimately show "hr_G hash g' \<and> hr_L hash g' (l', v')" using t by (simp add: hr_L_def l') (simp add: g')
qed

lemma hr_write_value:
  assumes G: "hr_G hash g" and L: "hr_L hash g (InsWriteValue k x j, v)" and go: "hr_go hash n g (InsWriteValue k x j, v) = (g', l', v')"
  shows "hm_go hash (hr_sc g) (InsWriteValue k x j) = (hr_sc g', l')" "hr_G hash g' \<and> hr_L hash g' (l', v')"
proof -
  have c: "claimed hash (hr_sc g) k j" and p: "own_path hash g v k j"
    and t: "hr_trail g (FKey j) = [True]" "hr_trail g (FValue j) = []" "(FKey j, 0) \<in> known v" using L by (auto simp: hr_L_def)
  have g': "g' = g\<lparr>hr_trail := (hr_trail g)(FValue j := [True]), hr_race := hr_race g, hr_values := (hr_values g)[j := x]\<rparr>"
    and l': "l' = InsPublish k x j" "v' = know (FValue j) 0 v"
    using go t by (auto simp: hr_write_def leave_trail_def write_ordered_def)
  have "hm_go hash (hr_sc g) (InsWriteValue k x j) = (hg_set (hr_sc g) j (hr_node g' j), l')"
    using hr_claimed(1) [OF c] hr_GD(7) [OF G] by (simp add: l' hr_node_def g')
  note st = hr_owner_step [OF G L c _ _ _ _ _ _ _ this]
  show "hm_go hash (hr_sc g) (InsWriteValue k x j) = (hr_sc g', l')"
    by (rule st(1)) (use hr_GD(5-7) [OF G] in \<open>simp_all add: g'\<close>)
  have *: "hr_G hash g'" "hm_L hash (hr_sc g') l'" "view_ok (hr_mem g') v'" "closed_view g' v'" unfolding l'(2)
    by (rule st(2) st(3) st(4) st(5); use hr_GD(5-7) [OF G] in \<open>simp_all add: g'\<close>)+
  moreover have "own_path hash g' v' k j" using own_path_mono [OF p know_ge, of g'] by (simp add: g' l')
  ultimately show "hr_G hash g' \<and> hr_L hash g' (l', v')" using t by (simp add: hr_L_def l') (simp add: g')
qed

subsection \<open>Claiming and publishing a slot\<close>

text \<open>What stays when one flag gets its second message.\<close>

lemma hr_flag_set:
  assumes G: "hr_G hash g" and l: "\<not> newest (hr_mem g) l" and m: "m = (hr_mem g)(l := hr_mem g l @ [Msg True u])"
    and u: "view_ok m u" "closed_view g' u" and g': "hr_mem g' = m"
  shows "hr_flags g'" "mem_ok (hr_mem g')" "mem_le (hr_mem g) (hr_mem g')"
    "\<forall>k. \<forall>i<length (hr_mem g' k). closed_view g' (mview (hr_mem g' k ! i))"
    "newest (hr_mem g') k \<longleftrightarrow> k = l \<or> newest (hr_mem g) k" "length (hr_mem g l) = 1"
proof -
  have "length (hr_mem g l) \<le> 2" "length (hr_mem g l) \<noteq> 2" "0 < length (hr_mem g l)"
    using l hr_flag_iff(1,3) [OF G, of l] hr_GD(3) [OF G] by (auto simp: hr_flags_def)
  then have len: "length (hr_mem g l) = 1" by linarith
  then show "length (hr_mem g l) = 1" .
  show "hr_flags g'" using hr_GD(3) [OF G] len by (auto simp: hr_flags_def g' m nth_append less_Suc_eq)
  show "mem_ok (hr_mem g')" using mem_ok_app [OF hr_GD(2) [OF G]] u(1) by (simp add: g' m)
  show le: "mem_le (hr_mem g) (hr_mem g')" by (simp add: g' m)
  show "newest (hr_mem g') k \<longleftrightarrow> k = l \<or> newest (hr_mem g) k" by (simp add: g' m)
  have old: "closed_view g' (mview (hr_mem g k ! i))" if "i < length (hr_mem g k)" for k i
    using closed_view_mono [OF hr_GD(10) [OF G that] mem_okD(2) [OF hr_GD(2) [OF G] that] le] .
  show "\<forall>k. \<forall>i<length (hr_mem g' k). closed_view g' (mview (hr_mem g' k ! i))"
    using old u(2) by (auto simp: g' m nth_append less_Suc_eq)
qed

lemma hr_cas_strong:
  assumes G: "hr_G hash g" and v: "view_ok (hr_mem g) v"
    and cas: "cas_strong True False False n l False True (hr_mem g) v = (r, m, v')"
  obtains "r = None" "\<not> newest (hr_mem g) l" "rmw True False l True (hr_mem g) v = (m, v')"
    | w where "r = Some w" "m = hr_mem g" "newest (hr_mem g) l" "v' = see l 1 v" "seen v l \<le> 1"
proof -
  let ?n = "if mval (hr_mem g l ! pick n l (hr_mem g) v) = False then length (hr_mem g l) - 1 else n"
  let ?p = "pick ?n l (hr_mem g) v"
  have len: "length (hr_mem g l) \<le> 2" "0 < length (hr_mem g l)" using hr_GD(3) [OF G] hr_flag_iff(3) [OF G, of l] by (auto simp: hr_flags_def)
  have seen: "seen v l < length (hr_mem g l)" using v by (simp add: view_ok_def)
  have p: "?p = length (hr_mem g l) - 1"
  proof (cases "mval (hr_mem g l ! pick n l (hr_mem g) v)")
    case True
    then have "pick n l (hr_mem g) v = 1" using hr_flag_iff(2) [OF G pick_bounds(2) [OF v]] by simp
    then show ?thesis using True pick_bounds(2) [OF v, of n l] len by simp
  next
    case False
    then show ?thesis using seen by (simp add: pick_def)
  qed
  show ?thesis
  proof (cases "newest (hr_mem g) l")
    case False
    then have "r = None" "rmw True False l True (hr_mem g) v = (m, v')"
      using cas p len by (auto simp: cas_strong_def cas_weak_def)
    then show ?thesis using False that(1) by blast
  next
    case True
    then have "?p = 1" using p hr_flag_iff(1) [OF G, of l] by simp
    then have "r = Some (mval (hr_mem g l ! 1))" "m = hr_mem g" "v' = see l 1 v"
      using cas True by (auto simp: cas_strong_def cas_weak_def load_rlx_def Let_def split: if_splits)
    then show ?thesis using True that(2) seen len by simp
  qed
qed

lemma closed_view_see: "closed_view g v \<Longrightarrow> seen v (LOcc j) \<le> i \<Longrightarrow> closed_view g (see (LOcc j) i v)"
  unfolding closed_view_def using see_ge [of v "LOcc j" i] by (auto intro: order_trans)

lemma hr_claim:
  assumes G: "hr_G hash g" and L: "hr_L hash g (InsCas k x i, v)" and nw: "\<not> newest (hr_mem g) (LOcc (hr_slot hash g k i))"
    and rm: "rmw True False (LOcc (hr_slot hash g k i)) True (hr_mem g) v = (m, v')" and g': "g' = g\<lparr>hr_mem := m\<rparr>"
  shows "hm_go hash (hr_sc g) (InsCas k x i) = (hr_sc g', InsWriteKey k x (hr_slot hash g k i))"
    and "hr_G hash g' \<and> hr_L hash g' (InsWriteKey k x (hr_slot hash g k i), v')"
proof -
  let ?j = "hr_slot hash g k i"
  let ?l = "LOcc ?j"
  have i: "i < hr_N g" and v: "view_ok (hr_mem g) v" "closed_view g v" and se: "sees hash g v k i" and bL: "hm_L hash (hr_sc g) (InsCas k x i)"
    using L by (auto simp: hr_L_def)
  note jN = hr_slot_less [OF G i, of k] and ok = rmw_ok [OF rm v(1) hr_GD(2) [OF G]]
  have len: "length (hr_mem g ?l) = 1"
    using nw hr_flag_iff(1,3) [OF G, of ?l] hr_GD(3) [OF G] by (metis One_nat_def hr_flags_def le_Suc_eq le_zero_eq length_0_conv numeral_2_eq_2)
  let ?old = "mview (last (hr_mem g ?l))"
  have m: "m = (hr_mem g)(?l := hr_mem g ?l @ [Msg True (see ?l 1 ?old)])" and v': "v' = see ?l 1 (sup v ?old)"
    using rm len by (auto simp: rmw_def Let_def)
  have old: "view_ok (hr_mem g) ?old" "closed_view g ?old"
    using hr_GD(10) [OF G, of 0 ?l] mem_okD(2) [OF hr_GD(2) [OF G], of 0 ?l] len by (simp_all add: last_conv_nth hr_flag_iff(3) [OF G])
  have le1: "seen ?old ?l \<le> 1" "seen v ?l \<le> 1" using old(1) v(1) len by (auto simp: view_ok_def dest: spec [of _ ?l])
  have mono: "mem_le (hr_mem g) m" by (simp add: m)
  have cl: "closed_view g' (see ?l 1 w)" if "closed_view g w" "view_ok (hr_mem g) w" "seen w ?l \<le> 1" for w
    using closed_view_see [OF closed_view_mono [OF that(1,2), of g'] that(3)] mono by (simp add: g')
  have u: "view_ok m (see ?l 1 ?old)" using view_ok_app_see [OF old(1), of ?l] len by (simp add: m)
  have gm: "hr_mem g' = m" by (simp add: g')
  note fs = hr_flag_set [OF G nw m u cl [OF old(2,1) le1(1)] gm]
  have nd: "hr_node g' q = (if q = ?j then (hr_node g q)\<lparr>hn_occupied := True\<rparr> else hr_node g q)" for q
    using fs(5) by (auto simp: hr_node_def g')
  have "map (hr_node g') [0..<hr_N g'] = (map (hr_node g) [0..<hr_N g])[?j := hr_node g' ?j]"
    by (rule hr_sc_set [OF jN]) (simp_all add: nd, simp add: g')
  then show sc: "hm_go hash (hr_sc g) (InsCas k x i) = (hr_sc g', InsWriteKey k x ?j)"
    using nw by (simp add: hr_sc_node [OF G i] hg_set_def nd) (simp add: hr_sc_def g')
  have *: "hm_G hash (hr_sc g') \<and> hm_L hash (hr_sc g') (InsWriteKey k x ?j)" using hm_own_step [OF sc hr_GD(1) [OF G] bL] by blast
  have "hr_entries hash g'"
    using hr_GD(4) [OF G] fs(5) by (auto simp: hr_entries_def hr_entry_def sees_def g' m)
  then have G': "hr_G hash g'" using G * fs(1,2,4) by (simp add: hr_G_def) (simp add: g')
  have "sees hash g' v' k (Suc i)" using se ok(3) by (simp add: sees_Suc sees_mono [OF se ok(3)] g') (simp add: v')
  then have "own_path hash g' v' k ?j" using i by (auto simp: own_path_def g')
  moreover have "closed_view g' v'" unfolding v' by (rule cl [OF closed_view_sup [OF v(2) old(2)]]) (use v old le1 in auto)
  moreover have "hr_trail g' (FKey ?j) = [] \<and> hr_trail g' (FValue ?j) = []"
    using hr_GD(4) [OF G] jN nw by (simp add: hr_entries_def g')
  ultimately show "hr_G hash g' \<and> hr_L hash g' (InsWriteKey k x ?j, v')" using G' * ok(2) by (simp add: hr_L_def) (simp add: g')
qed

lemma hr_publish:
  assumes G: "hr_G hash g" and L: "hr_L hash g (InsPublish k x j, v)" and go: "hr_go hash n g (InsPublish k x j, v) = (g', l', v')"
  shows "hm_go hash (hr_sc g) (InsPublish k x j) = (hr_sc g', l')" "hr_G hash g' \<and> hr_L hash g' (l', v')"
    "mem_le (hr_mem g) (hr_mem g')"
proof -
  have c: "claimed hash (hr_sc g) k j" and kx: "hr_keys g ! j = k" "hr_values g ! j = x" and bL: "hm_L hash (hr_sc g) (InsPublish k x j)"
    and v: "view_ok (hr_mem g) v" "closed_view g v" and p: "own_path hash g v k j"
    and t: "hr_trail g (FKey j) = [True]" "hr_trail g (FValue j) = [True]" "(FKey j, 0) \<in> known v" "(FValue j, 0) \<in> known v"
    using L by (auto simp: hr_L_def claimed_def)
  note j = hr_claimed [OF c]
  let ?l = "LReady j"
  have len: "length (hr_mem g ?l) = 1"
    using j(3) hr_flag_iff(1,3) [OF G, of ?l] hr_GD(3) [OF G] by (metis One_nat_def hr_flags_def le_Suc_eq le_zero_eq length_0_conv numeral_2_eq_2)
  have "seen v ?l < length (hr_mem g ?l)" using v(1) by (simp add: view_ok_def)
  then have "latest ?l (hr_mem g) v" using len by (simp add: latest_def)
  then obtain m w where st: "store_rel ?l True (hr_mem g) v = Some (m, w)" using store_rel_latest [of ?l "hr_mem g" v True] by blast
  note sd = store_relD [OF st v(1) hr_GD(2) [OF G]]
  have g': "g' = g\<lparr>hr_mem := m, hr_committed := (k, x) # hr_committed g\<rparr>" and l': "l' = InsRet True" "v' = w" using go st by auto
  have w: "w = see ?l 1 v" using sd(2) len by simp
  have cl: "closed_view g' w"
    unfolding closed_view_def
  proof (intro allI impI)
    fix q assume "1 \<le> seen w (LReady q)"
    then show "mview (hr_mem g' (LReady q) ! 1) \<le> w"
      using closed_view_mono [OF v(2,1), of g'] sd(3,6) len sd(1) by (cases "q = j") (auto simp: g' w closed_view_def nth_append intro: order_trans)
  qed
  have gm: "hr_mem g' = m" by (simp add: g')
  note fs = hr_flag_set [OF G j(3) sd(1) sd(4) cl gm]
  have nd: "hr_node g' q = (if q = j then (hr_node g q)\<lparr>hn_ready := True\<rparr> else hr_node g q)" for q
    using fs(5) by (auto simp: hr_node_def g')
  have "map (hr_node g') [0..<hr_N g'] = (map (hr_node g) [0..<hr_N g])[j := hr_node g' j]"
    by (rule hr_sc_set [OF j(1)]) (simp_all add: nd, simp add: g')
  then show sc: "hm_go hash (hr_sc g) (InsPublish k x j) = (hr_sc g', l')"
    using j(1) by (simp add: hg_set_def nd l') (simp add: hr_sc_def g')
  have *: "hm_G hash (hr_sc g') \<and> hm_L hash (hr_sc g') l'" using hm_own_step [OF sc hr_GD(1) [OF G] bL] by blast
  have mj: "hr_mem g' (LReady q) ! 1 = (if q = j then Msg True w else hr_mem g (LReady q) ! 1)" for q
    using sd(1) len by (auto simp: g' nth_append)
  have "hr_entry hash g' j w"
    using t own_path_mono [OF p sd(3), of g'] kx by (auto simp: hr_entry_def one_write_def own_path_def g' w)
  moreover have "hr_entry hash g' q (mview (hr_mem g (LReady q) ! 1))" if "newest (hr_mem g) (LReady q)" "q < hr_N g" for q
    using hr_GD(4) [OF G] that by (auto simp: hr_entries_def hr_entry_def sees_def g')
  ultimately have "hr_entries hash g'"
    using hr_GD(4) [OF G] fs(5) unfolding hr_entries_def mj by (auto simp: g' split: if_splits)
  then have "hr_G hash g'" using G * fs(1,2,4) by (simp add: hr_G_def) (simp add: g')
  then show "hr_G hash g' \<and> hr_L hash g' (l', v')" using * cl sd(4) by (simp add: hr_L_def l' gm)
  show "mem_le (hr_mem g) (hr_mem g')" by (rule fs(3))
qed

subsection \<open>Obligations of the proof rule\<close>

text \<open>An access that is not a stale load is the access of the interleaved machine.\<close>

lemma hr_ins_load:
  assumes G: "hr_G hash g" and L: "hr_L hash g (l, v)" and go: "hr_go hash n g (l, v) = (g', l', v')"
    and l: "l = InsProbe k x i \<or> l = InsReady k x i"
  shows "g' = g \<and> hr_L hash g (l', v') \<and> hm_owns l' = None"
proof -
  have i: "i < hr_N g" and v: "view_ok (hr_mem g) v" "closed_view g v" using L l by (auto simp: hr_L_def)
  note nd = hr_sc_node [OF G i, of k]
  from l show ?thesis
  proof
    assume l: "l = InsProbe k x i"
    obtain w v1 where ld: "load_acq n (LOcc (hr_slot hash g k i)) (hr_mem g) v = (w, v1)" by fastforce
    note f = hr_load_flag [OF G v ld]
    have "sees hash g v1 k i" using L sees_mono [OF _ f(1), of hash g k _ g] by (simp add: l hr_L_def)
    moreover have "hn_occupied (hg_node hash (hr_sc g) k i)" if w using f(5) that nd by simp
    ultimately show ?thesis using go ld f L i by (auto simp: l hr_L_def probed_Suc sees_Suc)
  next
    assume l: "l = InsReady k x i"
    obtain w v1 where ld: "load_acq n (LReady (hr_slot hash g k i)) (hr_mem g) v = (w, v1)" by fastforce
    note f = hr_load_flag [OF G v ld]
    have "sees hash g v1 k (Suc i)" using L sees_mono [OF _ f(1), of hash g k _ g] by (simp add: l hr_L_def)
    moreover have "hn_ready (hg_node hash (hr_sc g) k i)" if w using f(5) that nd by simp
    ultimately show ?thesis using go ld f L i by (auto simp: l hr_L_def hr_ins_next_def)
  qed
qed

lemma awaits_mono: "awaits hash g v b k i \<Longrightarrow> v \<le> w \<Longrightarrow> awaits hash g w b k i"
  unfolding awaits_def using sees_mono [of hash g v k _ w g] by metis

lemma hr_find_load:
  assumes G: "hr_G hash g" and L: "hr_L hash g (l, v)" and go: "hr_go hash n g (l, v) = (g', l', v')"
    and l: "l = FindProbe b k i \<or> l = FindReady b k i"
  shows "g' = g \<and> hr_L hash g (l', v') \<and> hm_owns l' = None"
proof -
  have i: "i < hr_N g" and v: "view_ok (hr_mem g) v" "closed_view g v" and aw: "awaits hash g v b k i"
    using L l by (auto simp: hr_L_def ahead_def)
  note nd = hr_sc_node [OF G i, of k]
  from l show ?thesis
  proof
    assume l: "l = FindProbe b k i"
    obtain w v1 where ld: "load_acq n (LOcc (hr_slot hash g k i)) (hr_mem g) v = (w, v1)" by fastforce
    note f = hr_load_flag [OF G v ld]
    have "\<not> b" if "\<not> w" using aw f(6) that by (auto simp: awaits_def sees_def)
    moreover have "hn_occupied (hg_node hash (hr_sc g) k i)" if w using f(5) that nd by simp
    ultimately show ?thesis using go ld f L awaits_mono [OF aw f(1)] by (auto simp: l hr_L_def)
  next
    assume l: "l = FindReady b k i"
    obtain w v1 where ld: "load_acq n (LReady (hr_slot hash g k i)) (hr_mem g) v = (w, v1)" by fastforce
    note f = hr_load_flag [OF G v ld]
    have "hn_ready (hg_node hash (hr_sc g) k i)" if w using f(5) that nd by simp
    then show ?thesis using go ld f L awaits_mono [OF aw f(1)] by (auto simp: l hr_L_def)
  qed
qed

lemma awaits_skip:
  assumes "awaits hash g v b k i" "hr_keys g ! hr_slot hash g k i \<noteq> k"
  shows "awaits hash g v b k (Suc i)"
proof -
  have "Suc i \<le> d" if "i \<le> d" "hr_keys g ! hr_slot hash g k d = k" for d using that assms(2) by (cases "i = d") auto
  then show ?thesis using assms(1) unfolding awaits_def by metis
qed

lemma hr_plain_read:
  assumes G: "hr_G hash g" and L: "hr_L hash g (l, v)" and go: "hr_go hash n g (l, v) = (g', l', v')"
    and l: "l = InsKey k x i \<or> l = FindKey b k i \<or> l = FindValue b k i"
  shows "hm_go hash (hr_sc g) l = (hr_sc g', l')" "hr_G hash g' \<and> hr_L hash g' (l', v')"
proof -
  have i: "i < hr_N g" and v: "view_ok (hr_mem g) v" "closed_view g v" and rd: "1 \<le> seen v (LReady (hr_slot hash g k i))"
    using L l by (auto simp: hr_L_def ahead_def)
  note j = hr_slot_less [OF G i, of k] and nd = hr_sc_node [OF G i, of k]
  define f where "f = (case l of FindValue _ _ _ \<Rightarrow> FValue (hr_slot hash g k i) | _ \<Rightarrow> FKey (hr_slot hash g k i))"
  have f: "f = FKey (hr_slot hash g k i) \<or> f = FValue (hr_slot hash g k i)" using l by (auto simp: f_def)
  obtain g1 v1 where r: "hr_read f g v = (g1, v1)" by fastforce
  note ok = hr_read_ok [OF G v j rd f r]
  have g1: "g' = g1" "v' = v1" using go l r by (auto simp: f_def)
  show sc: "hm_go hash (hr_sc g) l = (hr_sc g', l')"
    using go l r ok(5) nd by (auto simp: f_def g1 split: if_splits)
  have bL: "hm_L hash (hr_sc g) l" using L by (simp add: hr_L_def)
  have "hm_L hash (hr_sc g') l'" using hm_own_step [OF sc hr_GD(1) [OF G] bL] by blast
  moreover have "hr_V hash g' (l', v')"
  proof -
    have aw: "awaits hash g' v1 b k q" if "awaits hash g v b k q" for q
      using awaits_mono [OF that ok(2)] by (simp add: g1 awaits_def ok sees_def)
    have se: "sees hash g' v1 k (Suc i)" if "sees hash g v k (Suc i)" using sees_mono [OF that ok(2), of g1] by (simp add: g1 ok)
    have rd': "1 \<le> seen v1 (LReady (hr_slot hash g' k i))" using rd view_leD(1) [OF ok(2)] by (simp add: g1 ok) (metis le_trans)
    show ?thesis using go l r L aw se rd' awaits_skip [of hash g v b k i]
      by (auto simp: f_def hr_L_def g1 ok hr_ins_next_def hr_find_next_def)
  qed
  ultimately show "hr_G hash g' \<and> hr_L hash g' (l', v')" using ok by (simp add: hr_L_def g1)
qed

lemma hr_cas:
  assumes G: "hr_G hash g" and L: "hr_L hash g (InsCas k x i, v)" and go: "hr_go hash n g (InsCas k x i, v) = (g', l', v')"
  shows "hm_go hash (hr_sc g) (InsCas k x i) = (hr_sc g', l')" "hr_G hash g' \<and> hr_L hash g' (l', v')"
proof -
  have i: "i < hr_N g" and v: "view_ok (hr_mem g) v" "closed_view g v" and se: "sees hash g v k i" and bL: "hm_L hash (hr_sc g) (InsCas k x i)"
    using L by (auto simp: hr_L_def)
  let ?l = "LOcc (hr_slot hash g k i)"
  obtain r m w where cas: "cas_strong True False False n ?l False True (hr_mem g) v = (r, m, w)" by (metis prod_cases3)
  have "hm_go hash (hr_sc g) (InsCas k x i) = (hr_sc g', l') \<and> hr_G hash g' \<and> hr_L hash g' (l', v')"
    using hr_cas_strong [OF G v(1) cas]
  proof cases
    case 1
    then have "g' = g\<lparr>hr_mem := m\<rparr>" "l' = InsWriteKey k x (hr_slot hash g k i)" "v' = w" using go cas by auto
    then show ?thesis using hr_claim [OF G L 1(2,3)] by simp
  next
    case (2 w')
    then have e: "g' = g" "l' = hr_ins_next g k x (Suc i)" "v' = see ?l 1 v" using go cas by auto
    have sc: "hm_go hash (hr_sc g) (InsCas k x i) = (hr_sc g', l')" using 2(3) by (simp add: e hr_sc_node [OF G i])
    have "v \<le> v'" unfolding e by (rule see_ge [OF 2(5)])
    then have "sees hash g v' k (Suc i)" using sees_mono [OF se, of v' g] by (simp add: sees_Suc) (simp add: e)
    moreover have "view_ok (hr_mem g) v'" "closed_view g v'"
      using hr_flag_iff(1) [OF G, of ?l] 2(3) view_ok_see [OF v(1), of 1 ?l] closed_view_see [OF v(2) 2(5)] by (simp_all add: e)
    ultimately show ?thesis using sc hm_own_step [OF sc hr_GD(1) [OF G] bL] G by (simp add: hr_L_def) (simp add: e hr_ins_next_def)
  qed
  then show "hm_go hash (hr_sc g) (InsCas k x i) = (hr_sc g', l')" "hr_G hash g' \<and> hr_L hash g' (l', v')" by auto
qed

lemma hr_go_step:
  assumes G: "hr_G hash g" and L: "hr_L hash g (l, v)" and go: "hr_go hash n g (l, v) = (g', l', v')"
  shows "hr_G hash g' \<and> hr_L hash g' (l', v')"
    and "g' = g \<and> hm_owns l' = None \<or> hm_go hash (hr_sc g) l = (hr_sc g', l')"
proof -
  have "hr_G hash g' \<and> hr_L hash g' (l', v') \<and> (g' = g \<and> hm_owns l' = None \<or> hm_go hash (hr_sc g) l = (hr_sc g', l'))"
  proof (cases l)
    case (InsProbe k x i)
    then show ?thesis using hr_ins_load [OF G L go] G by auto
  next
    case (InsReady k x i)
    then show ?thesis using hr_ins_load [OF G L go] G by auto
  next
    case (InsKey k x i)
    then show ?thesis using hr_plain_read [OF G L go, of k x i] by blast
  next
    case (InsCas k x i)
    then show ?thesis using hr_cas [OF G _ go [unfolded InsCas]] L by blast
  next
    case (InsWriteKey k x j)
    then show ?thesis using hr_write_key [OF G _ go [unfolded InsWriteKey]] L by blast
  next
    case (InsWriteValue k x j)
    then show ?thesis using hr_write_value [OF G _ go [unfolded InsWriteValue]] L by blast
  next
    case (InsPublish k x j)
    then show ?thesis using hr_publish(1,2) [OF G _ go [unfolded InsPublish]] L by blast
  next
    case (FindProbe b k i)
    then show ?thesis using hr_find_load [OF G L go] G by auto
  next
    case (FindReady b k i)
    then show ?thesis using hr_find_load [OF G L go] G by auto
  next
    case (FindKey b k i)
    then show ?thesis using hr_plain_read [OF G L go, of k _ i b] by blast
  next
    case (FindValue b k i)
    then show ?thesis using hr_plain_read [OF G L go, of k _ i b] by blast
  qed (use G L go in \<open>auto simp: hr_L_def\<close>)
  then show "hr_G hash g' \<and> hr_L hash g' (l', v')"
    "g' = g \<and> hm_owns l' = None \<or> hm_go hash (hr_sc g) l = (hr_sc g', l')" by blast+
qed

lemma hr_go_frame:
  assumes G: "hr_G hash g" and L: "hr_L hash g (l, v)" and go: "hr_go hash n g (l, v) = (g', l', v')"
  shows "mem_le (hr_mem g) (hr_mem g')" "hr_size g' = hr_size g"
    and "hm_owns l \<noteq> Some j \<Longrightarrow> \<not> newest (hr_mem g) (LReady j) \<Longrightarrow>
      hr_trail g' (FKey j) = hr_trail g (FKey j) \<and> hr_trail g' (FValue j) = hr_trail g (FValue j)"
proof -
  show "mem_le (hr_mem g) (hr_mem g')" "hr_size g' = hr_size g"
    using go by (cases l; auto simp: hr_read_def hr_write_def cas_strong_def cas_weak_def rmw_def store_rel_def
        Let_def split: prod.splits option.splits if_splits)+
  assume j: "hm_owns l \<noteq> Some j" "\<not> newest (hr_mem g) (LReady j)"
  have rd: "\<not> Suc 0 \<le> seen v (LReady j)" using hr_seen_set [OF G, of v "LReady j"] L j(2) by (auto simp: hr_L_def)
  show "hr_trail g' (FKey j) = hr_trail g (FKey j) \<and> hr_trail g' (FValue j) = hr_trail g (FValue j)"
    using go j(1) rd L by (cases l) (auto simp: hr_read_def hr_write_def leave_trail_def hr_L_def
        Let_def split: prod.splits option.splits if_splits)
qed

lemma hr_V_frame:
  assumes V: "hr_V hash g (m, w)" and gr: "hm_grows (hr_sc g) (hr_sc g')" and G: "hr_G hash g" and sz: "hr_size g' = hr_size g"
    and own: "\<And>j. hm_owns m = Some j \<Longrightarrow> hr_trail g' (FKey j) = hr_trail g (FKey j) \<and> hr_trail g' (FValue j) = hr_trail g (FValue j)"
  shows "hr_V hash g' (m, w)"
proof -
  have rdy: "newest (hr_mem g') (LReady j) \<and> hr_keys g' ! j = hr_keys g ! j" if "j < hr_N g" "newest (hr_mem g) (LReady j)" for j
  proof -
    have "hn_ready (hm_buckets (hg_map (hr_sc g)) ! j)" using that by simp
    then have "hm_buckets (hg_map (hr_sc g')) ! j = hm_buckets (hg_map (hr_sc g)) ! j" using gr unfolding hm_grows_def by blast
    then have "hr_node g' j = hr_node g j" using that(1) by (simp add: sz)
    then show ?thesis using that(2) by (metis hr_node_sel(1,4))
  qed
  have "awaits hash g' w b k i" if aw: "awaits hash g w b k i" for b k i
  proof (unfold awaits_def, rule impI)
    assume b
    then obtain d where d: "d < hr_N g" "i \<le> d" "sees hash g w k (Suc d)" "newest (hr_mem g) (LReady (hr_slot hash g k d))"
      "hr_keys g ! hr_slot hash g k d = k" using aw by (auto simp: awaits_def)
    then show "\<exists>d<hr_N g'. i \<le> d \<and> sees hash g' w k (Suc d) \<and> newest (hr_mem g') (LReady (hr_slot hash g' k d)) \<and>
        hr_keys g' ! hr_slot hash g' k d = k"
      using rdy [OF hr_slot_less [OF G d(1)]] by (auto simp: sz sees_def intro!: exI [of _ d])
  qed
  then show ?thesis using V own sz by (cases m) (auto simp: sees_def own_path_def)
qed

lemma hr_owns_next [simp]: "hm_owns (hr_ins_next g k x i) = None" "hm_owns (hr_find_next g b k i) = None"
  by (simp_all add: hr_ins_next_def hr_find_next_def)

lemma hr_call:
  assumes G: "hr_G hash g" and v: "view_ok (hr_mem g) v" "closed_view g v"
  shows "hr_L hash g (hr_ins_next g k x 0, v)" "hr_L hash g (hr_find_next g (observed g k v) k 0, v)"
proof -
  have N: "0 < hr_N g" by (rule hr_GD(8) [OF G])
  show "hr_L hash g (hr_ins_next g k x 0, v)"
    using hm_call_step(1) [OF hr_GD(1) [OF G], of k x] v N by (simp add: hr_L_def hr_ins_next_def sees_def)
  have "awaits hash g v (observed g k v) k 0"
    unfolding awaits_def
  proof
    assume "observed g k v"
    then obtain j where j: "j < hr_N g" "1 \<le> seen v (LReady j)" "hr_keys g ! j = k" by (auto simp: observed_def)
    have r: "newest (hr_mem g) (LReady j)" by (rule hr_seen_set [OF G v(1) j(2)])
    have le: "mview (hr_mem g (LReady j) ! 1) \<le> v" using v(2) j(2) by (simp add: closed_view_def)
    have "hr_entry hash g j (mview (hr_mem g (LReady j) ! 1))" using hr_GD(4) [OF G] j(1) r by (simp add: hr_entries_def)
    then obtain d where d: "d < hr_N g" "hr_slot hash g k d = j" "sees hash g (mview (hr_mem g (LReady j) ! 1)) k (Suc d)"
      using j(3) by (auto simp: hr_entry_def)
    then show "\<exists>d<hr_N g. 0 \<le> d \<and> sees hash g v k (Suc d) \<and> newest (hr_mem g) (LReady (hr_slot hash g k d)) \<and>
        hr_keys g ! hr_slot hash g k d = k" using sees_mono [OF d(3) le refl] r j(3) by auto
  qed
  moreover have "ahead hash (hr_sc g) (observed g k v) k 0"
  proof -
    have "k \<in> fst ` set (hr_committed g)" if ob: "observed g k v"
    proof -
      obtain j where j: "j < hr_N g" "1 \<le> seen v (LReady j)" "hr_keys g ! j = k" using ob by (auto simp: observed_def)
      have "newest (hr_mem g) (LReady j)" by (rule hr_seen_set [OF G v(1) j(2)])
      then have "(hr_keys g ! j, hr_values g ! j) \<in> set (hr_committed g)" using hr_GD(1) [OF G] j(1) by (auto simp: hm_G_def)
      then show ?thesis using j(3) by force
    qed
    then show ?thesis using hm_call_step(2) [OF hr_GD(1) [OF G], of k] N by (auto simp: hr_find_next_def ahead_def)
  qed
  ultimately show "hr_L hash g (hr_find_next g (observed g k v) k 0, v)"
    using v N by (simp add: hr_L_def hr_find_next_def)
qed

lemma hr_other_step:
  assumes go: "hr_go hash n g (l, v) = (g', l', v')" and G: "hr_G hash g" and L: "hr_L hash g (l, v)"
    and m: "hr_L hash g (m, w)" and X: "hm_X l m"
  shows "hr_L hash g' (m, w) \<and> hm_X l' m"
proof -
  have bL: "hm_L hash (hr_sc g) l" and bm: "hm_L hash (hr_sc g) m" and w: "view_ok (hr_mem g) w" "closed_view g w"
    using L m by (auto simp: hr_L_def)
  note fr = hr_go_frame [OF G L go]
  have *: "hm_L hash (hr_sc g') m \<and> hm_X l' m \<and> hm_grows (hr_sc g) (hr_sc g')"
    using hr_go_step(2) [OF G L go]
  proof
    assume "g' = g \<and> hm_owns l' = None"
    then show ?thesis using bm hm_grows_refl by (auto simp: hm_X_def)
  next
    assume sc: "hm_go hash (hr_sc g) l = (hr_sc g', l')"
    show ?thesis using hm_other_step [OF sc hr_GD(1) [OF G] bL bm X] hm_own_step [OF sc hr_GD(1) [OF G] bL] by blast
  qed
  have "hr_V hash g' (m, w)"
  proof (rule hr_V_frame)
    fix j assume j: "hm_owns m = Some j"
    then have "\<not> newest (hr_mem g) (LReady j)" using bm by (cases m) (auto simp: claimed_def)
    moreover have "hm_owns l \<noteq> Some j" using X j by (auto simp: hm_X_def)
    ultimately show "hr_trail g' (FKey j) = hr_trail g (FKey j) \<and> hr_trail g' (FValue j) = hr_trail g (FValue j)" using fr(3) by blast
  qed (use m * G fr(2) in \<open>auto simp: hr_L_def\<close>)
  then show ?thesis using * view_ok_mono [OF w(1) fr(1)] closed_view_mono [OF w(2,1) fr(1)] by (simp add: hr_L_def)
qed

interpretation hr_og: og_proof "hr_exec hash" hr_ginit hr_linit "\<lambda>_. True" "hr_G hash" "hr_L hash" hr_X
  for hash :: "'k \<Rightarrow> size_t"
proof
  fix a and g :: "('k, 'v) hr_global" and lv g' lv'
  assume ex: "hr_exec hash a g lv = (g', lv')" and G: "hr_G hash g" and L: "hr_L hash g lv"
  obtain l v l' v' where lv: "lv = (l, v)" "lv' = (l', v')" by (metis surj_pair)
  have v: "view_ok (hr_mem g) v" "closed_view g v" using L by (auto simp: lv hr_L_def)
  show "hr_G hash g' \<and> hr_L hash g' lv'"
    using ex G L hr_go_step(1) [OF G L [unfolded lv]] hr_call [OF G v] by (cases a) (auto simp: lv split: hm_pc.splits)
  show "hr_L hash g' mw \<and> hr_X lv' mw" if "hr_L hash g mw" "hr_X lv mw" for mw
    using ex that hr_other_step [OF _ G L [unfolded lv]]
    by (cases a; cases mw) (auto simp: lv hr_X_def hm_X_def split: hm_pc.splits)
next
  show "hr_G hash g" if "hr_ginit g" for g :: "('k, 'v) hr_global"
    using that by (auto simp: hr_ginit_def hr_start_def hr_G_def hm_G_def hr_sc_def hr_node_def mem_ok_def view_ok_def
        hr_flags_def hr_entries_def closed_view_def)
qed (auto simp: hr_X_def hm_X_def hr_linit_def hr_L_def hr_ginit_def hr_start_def view_ok_def closed_view_def)

subsection \<open>Properties of all executions\<close>

text \<open>An inserting thread has observed its own entry when \<^verbatim>\<open>insert\<close> returns.\<close>

lemma hr_insert_observed:
  assumes G: "hr_G hash g" and L: "hr_L hash g (InsPublish k x j, v)" and go: "hr_go hash n g (InsPublish k x j, v) = (g', l', v')"
  shows "observed g' k v'"
proof -
  have c: "claimed hash (hr_sc g) k j" and k: "hr_keys g ! j = k" using L by (auto simp: hr_L_def claimed_def)
  have "seen v' (LReady j) = length (hr_mem g (LReady j))" "hr_keys g' = hr_keys g" "hr_size g' = hr_size g"
    using go hr_GD(5) [OF hr_go_step(1) [OF G L go, THEN conjunct1]]
    by (auto simp: store_rel_def Let_def split: if_splits option.splits)
  then show ?thesis using k hr_claimed(1) [OF c] hr_flag_iff(3) [OF G, of "LReady j"] by (auto simp: observed_def Suc_le_eq)
qed

definition hr_demo :: "(tid \<times> (size_t, nat) hr_act) list \<Rightarrow> ((size_t, nat) hr_global, (size_t, nat) hr_local) config" where
  "hr_demo es = run (hr_exec (\<lambda>k. k)) (hr_start 2 0 0, hr_linit) es"

lemma hr_demo_reach: "hr_reach (\<lambda>k. k) (fst (hr_demo es), snd (hr_demo es))"
  unfolding prod.collapse hr_demo_def
  by (rule reach_run_init, unfold hr_ginit_def, rule exI [of _ 2], rule exI [of _ 0], rule exI [of _ 0]) simp

lemmas hr_eval = hr_demo_def sys_step_def hr_start_def hr_linit_def hr_ins_next_def hr_find_next_def hm_slot_def observed_def
  hr_read_def hr_write_def load_acq_def load_rlx_def cas_strong_def cas_weak_def rmw_def store_rel_def latest_def leave_trail_def
  pick_def Let_def

text \<open>Thread 0 inserts key 1; thread 1 finds it; thread 2 reads the slot of key 1 stale and misses it.\<close>

definition hr_sched :: "(tid \<times> (size_t, nat) hr_act) list" where
  "hr_sched = [(0, HrInsert 1 7), (0, HrGo 0), (0, HrGo 0), (0, HrGo 0), (0, HrGo 0), (0, HrGo 0),
     (1, HrFind 1), (1, HrGo 1), (1, HrGo 1), (1, HrGo 0), (1, HrGo 0), (2, HrFind 1), (2, HrGo 0)]"

lemma hr_sched_ends:
  "fst (snd (hr_demo hr_sched) 1) = FindRet False 1 (Some 7)" "fst (snd (hr_demo hr_sched) 2) = FindRet False 1 None"
  "hr_committed (fst (hr_demo hr_sched)) = [(1, 7)]"
  by (simp_all add: hr_sched_def hr_eval)

text \<open>
  C12. Under release/acquire memory, every schedule and every hash function: a search that reports a
  value reports one that was inserted with exactly this key (never a half-written entry), and a search
  that reports "not found" had not observed the commit of an entry with its key when it was called; a thread
  that has observed an insertion, its own included, finds the entry.
\<close>

theorem hr_find_correct:
  assumes "hr_reach hash (g, ls)"
  shows "(fst (ls t) = FindRet b k (Some x) \<longrightarrow> (k, x) \<in> set (hr_committed g)) \<and>
         (fst (ls t) = FindRet b k None \<longrightarrow> \<not> b)"
  using hr_og.reach_L [OF assms, of t] by (auto simp: hr_L_def)

theorem hr_find_correct_witness: "(1, 7) \<in> set (hr_committed (fst (hr_demo hr_sched)))"
  using hr_find_correct [OF hr_demo_reach [of hr_sched], of 1 False 1 7] hr_sched_ends(1) by simp

text \<open>
  C21. The plain fields \<^verbatim>\<open>key\<close> and \<^verbatim>\<open>value\<close> are free of data races under release/acquire memory: every write happens after
  all earlier accesses of the field, every read happens after all earlier writes, and no store to
  a flag is left without a place in the modification order.
\<close>

theorem hr_race_free:
  assumes "hr_reach hash (g, ls)" "ls t = (l, v)"
  shows "\<not> hr_race g \<and>
    (\<forall>k x j. (l = InsWriteKey k x j \<longrightarrow> write_ordered (FKey j) (hr_trail g) v) \<and>
       (l = InsWriteValue k x j \<longrightarrow> write_ordered (FValue j) (hr_trail g) v)) \<and>
    (\<forall>b k x i. (l = InsKey k x i \<or> l = FindKey b k i \<longrightarrow> read_ordered (FKey (hr_slot hash g k i)) (hr_trail g) v) \<and>
       (l = FindValue b k i \<longrightarrow> read_ordered (FValue (hr_slot hash g k i)) (hr_trail g) v))"
proof -
  have G: "hr_G hash g" by (rule hr_og.reach_G [OF assms(1)]) simp
  have L: "hr_L hash g (l, v)" using hr_og.reach_L [OF assms(1), of t] assms(2) by simp
  have rd: "read_ordered f (hr_trail g) v"
    if "i < hr_N g" "1 \<le> seen v (LReady (hr_slot hash g k i))" "f = FKey (hr_slot hash g k i) \<or> f = FValue (hr_slot hash g k i)" for f k i
  proof -
    obtain g1 v1 where r: "hr_read f g v = (g1, v1)" by fastforce
    have "\<not> hr_race g1" using L hr_GD(5) [OF hr_read_ok(1) [OF G _ _ hr_slot_less [OF G that(1)] that(2,3) r]] by (simp add: hr_L_def)
    then show ?thesis using r by (auto simp: hr_read_def split: prod.splits)
  qed
  have wr: "l = InsWriteKey k x j \<longrightarrow> write_ordered (FKey j) (hr_trail g) v"
    "l = InsWriteValue k x j \<longrightarrow> write_ordered (FValue j) (hr_trail g) v" for k x j
    using L by (auto simp: hr_L_def write_ordered_def)
  have "l = InsKey k x i \<or> l = FindKey b k i \<longrightarrow> read_ordered (FKey (hr_slot hash g k i)) (hr_trail g) v"
    "l = FindValue b k i \<longrightarrow> read_ordered (FValue (hr_slot hash g k i)) (hr_trail g) v" for b k x i
    using L rd [of i k] by (auto simp: hr_L_def ahead_def)
  then show ?thesis using hr_GD(5) [OF G] wr by blast
qed

theorem hr_race_free_witness:
  "\<not> hr_race (fst (hr_demo hr_sched)) \<and> hr_trail (fst (hr_demo hr_sched)) (FKey 1) = [True, False]"
  using hr_race_free [OF hr_demo_reach [of hr_sched], of 0 "fst (snd (hr_demo hr_sched) 0)" "snd (snd (hr_demo hr_sched) 0)"]
  by (simp add: hr_eval hr_sched_def)

end
