(* ===== verification/Ordering_Validator.thy ===== *)
theory Ordering_Validator
  imports Interleaving "HOL-Library.Multiset"
begin

text \<open>
  \<^verbatim>\<open>include/lockless/ordering_validator.hpp\<close>: the recorder of operation histories, its consistency
  check, the scoped helper and the annotations for ThreadSanitizer. The time that \<^verbatim>\<open>get_timestamp_ns\<close> returns is
  the argument \<open>now\<close>; how it comes from the ticks of the clock is modelled apart. Each recorded
  operation has the fields of \<^verbatim>\<open>struct Operation\<close>; nothing sets the description. The reports are
  modelled by the numbers they print. A later section splits \<^verbatim>\<open>record_operation_start\<close> into its atomic increment and its locked append.
\<close>

datatype operation_type = PUSH | POP | INSERT | FIND | CUSTOM

record operation =
  op_type :: operation_type
  op_thread :: uint64
  op_start :: uint64
  op_end :: uint64
  op_value :: int64
  op_success :: bool
  op_description :: string

text \<open>The two constructors of \<^verbatim>\<open>Operation\<close>.\<close>

definition default_operation :: operation where
  "default_operation = \<lparr>op_type = CUSTOM, op_thread = 0, op_start = 0, op_end = 0, op_value = 0, op_success = False,
     op_description = []\<rparr>"

definition typed_operation :: "operation_type \<Rightarrow> uint64 \<Rightarrow> int64 \<Rightarrow> operation" where
  "typed_operation ty tid x = \<lparr>op_type = ty, op_thread = tid, op_start = 0, op_end = 0, op_value = x,
     op_success = False, op_description = []\<rparr>"

record validator =
  operations :: "operation list"
  recording :: bool
  operation_counter :: uint64

definition ov_new :: validator where
  "ov_new = \<lparr>operations = [], recording = False, operation_counter = 0\<rparr>"

definition start_recording :: "validator \<Rightarrow> validator" where
  "start_recording v = v\<lparr>recording := True, operations := [], operation_counter := 0\<rparr>"

definition stop_recording :: "validator \<Rightarrow> validator" where
  "stop_recording v = v\<lparr>recording := False\<rparr>"

definition new_operation :: "operation_type \<Rightarrow> uint64 \<Rightarrow> int64 \<Rightarrow> uint64 \<Rightarrow> operation" where
  "new_operation ty tid x now = (typed_operation ty tid x)\<lparr>op_start := now\<rparr>"

definition record_operation_start ::
  "validator \<Rightarrow> operation_type \<Rightarrow> uint64 \<Rightarrow> int64 \<Rightarrow> uint64 \<Rightarrow> uint64 \<times> validator" where
  "record_operation_start v ty tid x now =
     (if \<not> recording v then (UINT64_MAX, v)
      else (operation_counter v,
            v\<lparr>operation_counter := operation_counter v + 1,
              operations := operations v @ [new_operation ty tid x now]\<rparr>))"

definition finish_operation :: "operation list \<Rightarrow> uint64 \<Rightarrow> bool \<Rightarrow> int64 \<Rightarrow> uint64 \<Rightarrow> operation list" where
  "finish_operation ops op_id ok r now =
     (if unat op_id < length ops
      then ops[unat op_id := (ops ! unat op_id)\<lparr>op_end := now, op_success := ok, op_value := r\<rparr>] else ops)"

definition record_operation_end :: "validator \<Rightarrow> uint64 \<Rightarrow> bool \<Rightarrow> int64 \<Rightarrow> uint64 \<Rightarrow> validator" where
  "record_operation_end v op_id ok r now =
     (if op_id = UINT64_MAX \<or> \<not> recording v then v
      else v\<lparr>operations := finish_operation (operations v) op_id ok r now\<rparr>)"

definition get_operations :: "validator \<Rightarrow> operation list" where
  "get_operations v = operations v"

subsection \<open>The consistency check\<close>

text \<open>The two vectors, filled in one pass.\<close>

fun collect :: "operation list \<Rightarrow> int64 list \<Rightarrow> int64 list \<Rightarrow> int64 list \<times> int64 list" where
  "collect [] pushed popped = (pushed, popped)"
| "collect (op # ops) pushed popped =
     (if \<not> op_success op then collect ops pushed popped
      else if op_type op = PUSH then collect ops (pushed @ [op_value op]) popped
      else if op_type op = POP then collect ops pushed (popped @ [op_value op])
      else collect ops pushed popped)"

text \<open>The counts are of type \<^verbatim>\<open>int\<close>, 32 bits read as a signed number.\<close>

fun count_pushed :: "int64 list \<Rightarrow> (int64 \<rightharpoonup> 32 word) \<Rightarrow> (int64 \<rightharpoonup> 32 word)" where
  "count_pushed [] counts = counts"
| "count_pushed (x # xs) counts =
     count_pushed xs (counts(x \<mapsto> (case counts x of None \<Rightarrow> 0 | Some c \<Rightarrow> c) + 1))"

fun match_popped :: "int64 list \<Rightarrow> (int64 \<rightharpoonup> 32 word) \<Rightarrow> bool" where
  "match_popped [] counts = True"
| "match_popped (x # xs) counts =
     (case counts x of
        None \<Rightarrow> False
      | Some c \<Rightarrow> if sint c \<le> 0 then False else match_popped xs (counts(x \<mapsto> c - 1)))"

text \<open>The simulation of a stack; \<^verbatim>\<open>std::sort\<close> orders by end time.\<close>

definition completed_ops :: "operation list \<Rightarrow> operation list" where
  "completed_ops ops = filter (\<lambda>op. op_success op \<and> (op_type op = PUSH \<or> op_type op = POP)) ops"

fun simulate :: "operation list \<Rightarrow> int64 list \<Rightarrow> int64 list" where
  "simulate [] sim = sim"
| "simulate (op # ops) sim =
     (if op_type op = PUSH then simulate ops (op_value op # sim)
      else case sim of [] \<Rightarrow> simulate ops sim | _ # sim' \<Rightarrow> simulate ops sim')"

definition check_sequential_consistency :: "validator \<Rightarrow> bool" where
  "check_sequential_consistency v =
     (if \<not> list_all (\<lambda>op. \<not> op_end op < op_start op) (operations v) then False
      else case collect (operations v) [] [] of (pushed, popped) \<Rightarrow>
        if \<not> match_popped popped (count_pushed pushed Map.empty) then False
        else let sim = simulate (sort_key op_end (completed_ops (operations v))) [] in True)"

subsection \<open>What the check accepts\<close>

definition values_of :: "operation_type \<Rightarrow> operation list \<Rightarrow> int64 list" where
  "values_of ty ops = map op_value (filter (\<lambda>op. op_success op \<and> op_type op = ty) ops)"

lemma collect_values:
  "collect ops pushed popped = (pushed @ values_of PUSH ops, popped @ values_of POP ops)"
  by (induction ops pushed popped rule: collect.induct) (auto simp: values_of_def)

definition counts_mset :: "(int64 \<rightharpoonup> 32 word) \<Rightarrow> int64 multiset \<Rightarrow> bool" where
  "counts_mset counts M \<longleftrightarrow> (\<forall>x. sint (case counts x of None \<Rightarrow> 0 | Some c \<Rightarrow> c) = int (count M x))"

lemma counts_mset_count_pushed:
  "counts_mset counts M \<Longrightarrow> size M + length xs < 2 ^ 31 \<Longrightarrow> counts_mset (count_pushed xs counts) (M + mset xs)"
proof (induction xs arbitrary: counts M)
  case (Cons x xs)
  let ?c = "case counts x of None \<Rightarrow> 0 | Some c \<Rightarrow> c"
  have "sint ?c = int (count M x)" using Cons.prems(1) by (simp add: counts_mset_def)
  moreover have "count M x < 2 ^ 31 - 1" using count_le_size [of M x] Cons.prems(2) by simp
  ultimately have "sint (?c + 1) = int (count M x) + 1" by (subst sint_plus_1) auto
  then have "counts_mset (counts(x \<mapsto> ?c + 1)) (add_mset x M)"
    using Cons.prems(1) by (auto simp: counts_mset_def)
  from Cons.IH [OF this] Cons.prems(2) show ?case
    by (simp only: count_pushed.simps mset.simps union_mset_add_mset_left union_mset_add_mset_right size_add_mset
        list.size add_Suc add_Suc_right)
qed simp

lemma match_popped_iff: "counts_mset counts M \<Longrightarrow> match_popped xs counts \<longleftrightarrow> mset xs \<subseteq># M"
proof (induction xs arbitrary: counts M)
  case (Cons x xs)
  have cx: "sint (case counts x of None \<Rightarrow> 0 | Some c \<Rightarrow> c) = int (count M x)"
    using Cons.prems by (simp add: counts_mset_def)
  show ?case
  proof (cases "x \<in># M")
    case True
    then obtain c where c: "counts x = Some c" "0 < sint c" "sint c = int (count M x)"
      using cx by (cases "counts x") (auto simp: count_eq_zero_iff)
    then have "sint (c - 1) = int (count M x) - 1" by (simp add: sint_minus_1)
    then have "counts_mset (counts(x \<mapsto> c - 1)) (M - {#x#})"
      using Cons.prems c True by (auto simp: counts_mset_def of_nat_diff Suc_leI)
    then show ?thesis using Cons.IH c True by (auto simp: insert_subset_eq_iff count_eq_zero_iff)
  next
    case False
    then have "count M x = 0" by (simp add: not_in_iff)
    then show ?thesis using cx False by (auto split: option.splits simp: insert_subset_eq_iff)
  qed
qed simp

text \<open>
  The two tests the check consists of: no recorded operation ends before it starts, and the values of the successful pops
  are, with multiplicity, among the values of the successful pushes. With fewer than $2^{31}$ operations no count overflows.
\<close>

lemma ov_check_iff:
  assumes "length (operations v) < 2 ^ 31"
  shows "check_sequential_consistency v \<longleftrightarrow>
     (\<forall>op \<in> set (operations v). op_start op \<le> op_end op) \<and>
     mset (values_of POP (operations v)) \<subseteq># mset (values_of PUSH (operations v))"
proof -
  have "length (values_of PUSH (operations v)) < 2 ^ 31"
    using assms by (simp add: values_of_def le_less_trans [OF length_filter_le])
  then have "counts_mset (count_pushed (values_of PUSH (operations v)) Map.empty) (mset (values_of PUSH (operations v)))"
    using counts_mset_count_pushed [of Map.empty "{#}"] by (simp add: counts_mset_def)
  then show ?thesis
    by (auto simp: check_sequential_consistency_def collect_values match_popped_iff list_all_iff not_less Let_def)
qed

text \<open>What the comment above the check promises: replaying the operations as a stack gives the popped values.\<close>

fun lifo_replay :: "operation list \<Rightarrow> int64 list \<Rightarrow> bool" where
  "lifo_replay [] sim = True"
| "lifo_replay (op # ops) sim =
     (if op_type op = PUSH then lifo_replay ops (op_value op # sim)
      else case sim of [] \<Rightarrow> False | x # sim' \<Rightarrow> x = op_value op \<and> lifo_replay ops sim')"

fun non_overlapping :: "operation list \<Rightarrow> bool" where
  "non_overlapping [] = True"
| "non_overlapping [op] = (op_start op \<le> op_end op)"
| "non_overlapping (op # op' # ops) = (op_start op \<le> op_end op \<and> op_end op < op_start op' \<and> non_overlapping (op' # ops))"

lemma lifo_replay_values:
  "lifo_replay ops sim \<Longrightarrow> \<forall>op \<in> set ops. op_success op \<and> (op_type op = PUSH \<or> op_type op = POP) \<Longrightarrow>
   mset (values_of POP ops) \<subseteq># mset sim + mset (values_of PUSH ops)"
proof (induction ops sim rule: lifo_replay.induct)
  case (2 op ops sim)
  show ?case
  proof (cases "op_type op = PUSH")
    case True
    then show ?thesis using 2 by (simp add: values_of_def)
  next
    case False
    then obtain sim' where "sim = op_value op # sim'" "lifo_replay ops sim'" using 2 by (auto split: list.splits)
    then show ?thesis using 2 False by (auto simp: values_of_def)
  qed
qed (simp add: values_of_def)

lemma completed_values:
  assumes "ty = PUSH \<or> ty = POP"
  shows "mset (values_of ty (sort_key op_end (completed_ops ops))) = mset (values_of ty ops)"
proof -
  have "filter (\<lambda>op. op_success op \<and> op_type op = ty) (completed_ops ops) = filter (\<lambda>op. op_success op \<and> op_type op = ty) ops"
    using assms by (auto simp: completed_ops_def intro!: filter_cong)
  then have "values_of ty (completed_ops ops) = values_of ty ops" by (simp only: values_of_def)
  moreover have "mset (values_of ty (sort_key op_end ops')) = mset (values_of ty ops')" for ops'
    unfolding values_of_def mset_map mset_filter mset_sort ..
  ultimately show ?thesis by metis
qed

text \<open>
  C35. The first promise of the comment is kept, and nothing is reported in error. For a history of fewer than $2^{31}$ operations: if the
  check accepts, then no operation ends before it starts and every value was popped at most as often as it was pushed; and a history
  in which no operation ends before it starts and whose completed operations, in the order of their end times, are a run of
  a stack from empty, is accepted.
\<close>

theorem ov_check_correct:
  assumes "length (operations v) < 2 ^ 31"
  shows "(check_sequential_consistency v \<longrightarrow> (\<forall>op \<in> set (operations v). op_start op \<le> op_end op) \<and>
      (\<forall>x. count_list (values_of POP (operations v)) x \<le> count_list (values_of PUSH (operations v)) x)) \<and>
    ((\<forall>op \<in> set (operations v). op_start op \<le> op_end op) \<and>
      lifo_replay (sort_key op_end (completed_ops (operations v))) [] \<longrightarrow> check_sequential_consistency v)"
proof -
  let ?ops = "sort_key op_end (completed_ops (operations v))"
  have "\<forall>op \<in> set ?ops. op_success op \<and> (op_type op = PUSH \<or> op_type op = POP)" by (auto simp: completed_ops_def)
  then have "mset (values_of POP (operations v)) \<subseteq># mset (values_of PUSH (operations v))" if "lifo_replay ?ops []"
    using lifo_replay_values [OF that] completed_values [of PUSH "operations v"] completed_values [of POP "operations v"] by simp
  then show ?thesis using ov_check_iff [OF assms] by (auto simp: subseteq_mset_def count_mset)
qed

text \<open>A push and a pop of another thread are accepted; a pop of a value that was never pushed is not.\<close>

theorem ov_check_correct_witness:
  "check_sequential_consistency (ov_new\<lparr>operations :=
     [(new_operation PUSH 1 42 5)\<lparr>op_end := 6, op_success := True\<rparr>, (new_operation POP 2 42 7)\<lparr>op_end := 9, op_success := True\<rparr>]\<rparr>) \<and>
   \<not> check_sequential_consistency (ov_new\<lparr>operations := [(new_operation POP 2 42 7)\<lparr>op_end := 9, op_success := True\<rparr>]\<rparr>)"
proof
  let ?h = "[(new_operation PUSH 1 42 5)\<lparr>op_end := 6, op_success := True\<rparr>, (new_operation POP 2 42 7)\<lparr>op_end := 9, op_success := True\<rparr>]"
  have "lifo_replay (sort_key op_end (completed_ops ?h)) []" "\<forall>op \<in> set ?h. op_start op \<le> op_end op"
    by (simp_all add: completed_ops_def new_operation_def typed_operation_def)
  then show "check_sequential_consistency (ov_new\<lparr>operations := ?h\<rparr>)"
    using ov_check_correct [of "ov_new\<lparr>operations := ?h\<rparr>", THEN conjunct2] by simp
  show "\<not> check_sequential_consistency (ov_new\<lparr>operations := [(new_operation POP 2 42 7)\<lparr>op_end := 9, op_success := True\<rparr>]\<rparr>)"
    using ov_check_correct [of "ov_new\<lparr>operations := [(new_operation POP 2 42 7)\<lparr>op_end := 9, op_success := True\<rparr>]\<rparr>", THEN conjunct1]
    by (auto simp: values_of_def new_operation_def typed_operation_def dest!: spec [of _ 42])
qed

definition done_op :: "operation_type \<Rightarrow> uint64 \<Rightarrow> int64 \<Rightarrow> operation" where
  "done_op ty at x = \<lparr>op_type = ty, op_thread = 0, op_start = at, op_end = at + 1, op_value = x,
     op_success = True, op_description = []\<rparr>"

text \<open>
  The check does not look at order, although its comment says that non-overlapping operations
  must respect LIFO order: the simulated stack is never compared with the popped values. A strictly
  sequential history that pops in the wrong order, and one that pops a value before it is pushed,
  are both accepted.
\<close>

theorem ov_check_ignores_order:
  "\<forall>ops \<in> {[done_op PUSH 10 1, done_op PUSH 20 2, done_op POP 30 1, done_op POP 40 2],
            [done_op POP 10 1, done_op PUSH 20 1]}.
     non_overlapping ops \<and> check_sequential_consistency (ov_new\<lparr>operations := ops\<rparr>) \<and>
     \<not> lifo_replay (sort_key op_end (completed_ops ops)) []"
  by (simp add: done_op_def check_sequential_consistency_def completed_ops_def ov_new_def)

subsection \<open>Recording on one thread\<close>

definition ov_invar :: "validator \<Rightarrow> bool" where
  "ov_invar v \<longleftrightarrow> unat (operation_counter v) = length (operations v) \<and> length (operations v) < 2 ^ 64 - 1"

lemma start_recording_invar: "ov_invar (start_recording v)"
  by (simp add: ov_invar_def start_recording_def)

text \<open>
  Recorded one call at a time, the identifier that \<^verbatim>\<open>record_operation_start\<close> returns is the
  position of the operation: \<^verbatim>\<open>record_operation_end\<close> with it completes exactly that operation and
  leaves all others alone, also after further operations have started. While not recording, both
  calls change nothing.
\<close>

theorem ov_record_roundtrip:
  assumes "ov_invar v" "length (operations v) + 1 < 2 ^ 64 - 1"
    "record_operation_start v ty tid x t1 = (op_id, v1)" "operations v2 = operations v1 @ later" "recording v2 = recording v"
  shows "if recording v then
      ov_invar v1 \<and> unat op_id = length (operations v) \<and>
      get_operations (record_operation_end v2 op_id ok r t2) =
        operations v @ [\<lparr>op_type = ty, op_thread = tid, op_start = t1, op_end = t2, op_value = r,
          op_success = ok, op_description = []\<rparr>] @ later
    else v1 = v \<and> record_operation_end v2 op_id ok r t2 = v2"
proof (cases "recording v")
  case True
  then have e: "op_id = operation_counter v" "v1 = v\<lparr>operation_counter := operation_counter v + 1,
      operations := operations v @ [new_operation ty tid x t1]\<rparr>"
    using assms(3) by (auto simp: record_operation_start_def)
  have n: "unat op_id = length (operations v)" using assms(1) e(1) by (simp add: ov_invar_def)
  then have "op_id \<noteq> UINT64_MAX" using assms(2) by (auto simp: unat_max_word)
  moreover have "unat (operation_counter v + 1) = length (operations v) + 1"
    using n e(1) assms(2) by (simp add: unat_plus_1)
  ultimately show ?thesis
    using True n e assms(2,4,5)
    by (simp add: ov_invar_def get_operations_def record_operation_end_def finish_operation_def new_operation_def typed_operation_def
        nth_append list_update_append)
next
  case False
  then show ?thesis using assms(3,5) by (auto simp: record_operation_start_def record_operation_end_def)
qed

theorem ov_record_roundtrip_witness:
  "\<exists>v1. record_operation_start (start_recording ov_new) PUSH 1 42 5 = (0, v1) \<and>
     get_operations (record_operation_end v1 0 True 42 9) =
       [\<lparr>op_type = PUSH, op_thread = 1, op_start = 5, op_end = 9, op_value = 42,
          op_success = True, op_description = []\<rparr>]"
proof -
  obtain v1 where v1: "record_operation_start (start_recording ov_new) PUSH 1 42 5 = (0, v1)" "recording v1"
    by (simp add: record_operation_start_def start_recording_def ov_new_def)
  have "length (operations (start_recording ov_new)) + 1 < 2 ^ 64 - 1" "recording (start_recording ov_new)"
    "operations (start_recording ov_new) = []"
    by (simp_all add: start_recording_def)
  then show ?thesis
    using ov_record_roundtrip [OF start_recording_invar _ v1(1), of v1 "[]" True 42 9] v1 by simp
qed

subsection \<open>The statistics\<close>

text \<open>
  \<^verbatim>\<open>print_statistics\<close>: the total, the successes, the failures and the average duration, in the
  wrapping 64-bit arithmetic of the code; \<open>None\<close> for the message that nothing was recorded.
  \<^verbatim>\<open>print_history\<close>: one line per operation.
\<close>

fun statistics_loop :: "operation list \<Rightarrow> uint64 \<Rightarrow> uint64 \<Rightarrow> uint64 \<times> uint64" where
  "statistics_loop [] successful total_duration = (successful, total_duration)"
| "statistics_loop (op # ops) successful total_duration =
     statistics_loop ops (if op_success op then successful + 1 else successful)
       (total_duration + (op_end op - op_start op))"

definition print_statistics :: "validator \<Rightarrow> (uint64 \<times> uint64 \<times> uint64 \<times> uint64) option" where
  "print_statistics v =
     (if operations v = [] then None
      else let total = word_of_nat (length (operations v)) in
        case statistics_loop (operations v) 0 0 of (successful, total_duration) \<Rightarrow>
          Some (total, successful, total - successful, total_duration div total))"

definition print_history :: "validator \<Rightarrow> (nat \<times> uint64 \<times> operation_type \<times> int64 \<times> bool \<times> uint64) list" where
  "print_history v =
     map (\<lambda>(i, op). (i, op_thread op, op_type op, op_value op, op_success op, op_end op - op_start op))
       (enumerate 0 (operations v))"

lemma statistics_loop_eq:
  "statistics_loop ops s d =
     (s + word_of_nat (length (filter op_success ops)), d + (\<Sum>op\<leftarrow>ops. op_end op - op_start op))"
  by (induction ops s d rule: statistics_loop.induct) (auto simp: algebra_simps)

lemma sum_durations:
  "(\<Sum>op\<leftarrow>ops. unat (op_end op) - unat (op_start op)) < 2 ^ 64 \<Longrightarrow> \<forall>op \<in> set ops. op_start op \<le> op_end op \<Longrightarrow>
   unat (\<Sum>op\<leftarrow>ops. op_end op - op_start op :: uint64) = (\<Sum>op\<leftarrow>ops. unat (op_end op) - unat (op_start op))"
proof (induction ops)
  case (Cons op ops)
  then have "unat (op_end op - op_start op) = unat (op_end op) - unat (op_start op)"
    by (simp add: unat_sub)
  with Cons show ?case by (simp add: unat_word_ariths)
qed simp

text \<open>
  For a history that passed the check of times and whose durations add up to less than \<open>2 ^ 64\<close>,
  the statistics are exact: the successes and failures are counted, and the average is the
  (rounded) mean of the true durations.
\<close>

theorem ov_statistics_correct:
  assumes "operations v \<noteq> []" "length (operations v) < 2 ^ 64"
    "\<forall>op \<in> set (operations v). op_start op \<le> op_end op"
    "(\<Sum>op\<leftarrow>operations v. unat (op_end op) - unat (op_start op)) < 2 ^ 64"
  shows "\<exists>total ok failed avg. print_statistics v = Some (total, ok, failed, avg) \<and>
     unat total = length (operations v) \<and> unat ok = length (filter op_success (operations v)) \<and>
     unat failed = length (filter (\<lambda>op. \<not> op_success op) (operations v)) \<and>
     unat avg = (\<Sum>op\<leftarrow>operations v. unat (op_end op) - unat (op_start op)) div length (operations v)"
proof -
  let ?n = "length (operations v)" and ?s = "length (filter op_success (operations v))"
  have s: "?s \<le> ?n" by simp
  have f: "length (filter (\<lambda>op. \<not> op_success op) (operations v)) = ?n - ?s"
    using sum_length_filter_compl [of op_success "operations v"] by simp
  have "unat (word_of_nat ?n - word_of_nat ?s :: uint64) = ?n - ?s"
    using s assms(2) by (simp add: of_nat_diff [symmetric] unat_of_nat del: of_nat_diff)
  moreover have "?s mod 2 ^ 64 = ?s" using s assms(2) by (intro mod_less) linarith
  ultimately show ?thesis
    using assms by (simp add: print_statistics_def Let_def statistics_loop_eq sum_durations f unat_of_nat unat_div)
qed

subsection \<open>Scoped operations\<close>

record scoped =
  so_op_id :: uint64
  so_success :: bool
  so_result :: int64

definition scoped_new :: "validator option \<Rightarrow> operation_type \<Rightarrow> uint64 \<Rightarrow> int64 \<Rightarrow> uint64 \<Rightarrow> scoped \<times> validator option" where
  "scoped_new vp ty tid x now =
     (case vp of
        None \<Rightarrow> (\<lparr>so_op_id = UINT64_MAX, so_success = False, so_result = 0\<rparr>, None)
      | Some v \<Rightarrow> (case record_operation_start v ty tid x now of (op_id, v') \<Rightarrow>
            (\<lparr>so_op_id = op_id, so_success = False, so_result = 0\<rparr>, Some v')))"

definition scoped_destroy :: "validator option \<Rightarrow> scoped \<Rightarrow> uint64 \<Rightarrow> validator option" where
  "scoped_destroy vp so now =
     (case vp of
        None \<Rightarrow> None
      | Some v \<Rightarrow> if so_op_id so \<noteq> UINT64_MAX
                 then Some (record_operation_end v (so_op_id so) (so_success so) (so_result so) now) else Some v)"

definition set_success :: "scoped \<Rightarrow> bool \<Rightarrow> scoped" where
  "set_success so b = so\<lparr>so_success := b\<rparr>"

definition set_result :: "scoped \<Rightarrow> int64 \<Rightarrow> scoped" where
  "set_result so r = so\<lparr>so_result := r\<rparr>"

text \<open>
  The scoped helper overwrites the recorded value with its own result, which is 0 unless
  \<^verbatim>\<open>set_result\<close> was called: a successful push of 42 recorded without it is remembered as a push
  of 0, and a later pop of 42 is then reported as a value that was never pushed.
\<close>

theorem ov_scoped_loses_value:
  "case scoped_new (Some (start_recording ov_new)) PUSH 1 42 5 of (so, vp) \<Rightarrow>
   case scoped_destroy vp (set_success so True) 6 of None \<Rightarrow> False | Some v \<Rightarrow>
   case scoped_new (Some v) POP 1 0 7 of (so', vp') \<Rightarrow>
   case scoped_destroy vp' (set_result (set_success so' True) 42) 8 of None \<Rightarrow> False | Some v' \<Rightarrow>
     \<not> check_sequential_consistency v'"
  by (simp add: scoped_new_def scoped_destroy_def set_success_def set_result_def record_operation_start_def
      record_operation_end_def finish_operation_def new_operation_def typed_operation_def start_recording_def ov_new_def
      check_sequential_consistency_def)

subsection \<open>Recording on several threads\<close>

text \<open>
  \<^verbatim>\<open>record_operation_start\<close> in its two shared accesses: the increment of the counter and, under the
  mutex, the append. \<open>OvEnd\<close> is the whole of \<^verbatim>\<open>record_operation_end\<close> (one locked section).
\<close>

datatype ov_pc = OvIdle | OvAppend uint64 operation | OvOpen uint64 | OvDone

datatype ov_act = OvStart operation_type uint64 int64 uint64 | OvGo | OvEnd bool int64 uint64

fun ov_exec :: "ov_act \<Rightarrow> validator \<Rightarrow> ov_pc \<Rightarrow> validator \<times> ov_pc" where
  "ov_exec (OvStart ty tid x now) v OvIdle =
     (if \<not> recording v then (v, OvOpen UINT64_MAX)
      else (v\<lparr>operation_counter := operation_counter v + 1\<rparr>, OvAppend (operation_counter v) (new_operation ty tid x now)))"
| "ov_exec OvGo v (OvAppend op_id op) = (v\<lparr>operations := operations v @ [op]\<rparr>, OvOpen op_id)"
| "ov_exec (OvEnd ok r now) v (OvOpen op_id) = (record_operation_end v op_id ok r now, OvDone)"
| "ov_exec a v l = (v, l)"

text \<open>
  Under concurrency the identifier need not be the position: the increment and the append are not
  one atomic step. Two threads that start at once can be appended in the other order, and then
  each of them completes the operation of the other: here a push of 5 is recorded as a successful
  pop, and the pop as a push.
\<close>

theorem ov_conc_swapped:
  "\<exists>v ls. reach ov_exec (\<lambda>v. v = start_recording ov_new) (\<lambda>_. OvIdle) (v, ls) \<and> ls 0 = OvDone \<and> ls 1 = OvDone \<and>
     map (\<lambda>op. (op_type op, op_thread op, op_value op)) (operations v) = [(POP, 1, 5), (PUSH, 0, 7)]"
proof -
  let ?es = "[(0, OvStart PUSH 0 5 1), (1, OvStart POP 1 0 1), (1, OvGo), (0, OvGo), (0, OvEnd True 5 2), (1, OvEnd True 7 2)]"
  let ?c = "run ov_exec (start_recording ov_new, \<lambda>_. OvIdle) ?es"
  have "snd ?c 0 = OvDone \<and> snd ?c 1 = OvDone \<and>
      map (\<lambda>op. (op_type op, op_thread op, op_value op)) (operations (fst ?c)) = [(POP, 1, 5), (PUSH, 0, 7)]"
    by (simp add: sys_step_def start_recording_def ov_new_def new_operation_def typed_operation_def record_operation_end_def finish_operation_def)
  moreover have "reach ov_exec (\<lambda>v. v = start_recording ov_new) (\<lambda>_. OvIdle) (fst ?c, snd ?c)"
    unfolding prod.collapse by (rule reach_run_init) simp
  ultimately show ?thesis by (intro exI [of _ "fst ?c"] exI [of _ "snd ?c"] conjI) auto
qed

subsection \<open>Time stamps\<close>

text \<open>
  \<^verbatim>\<open>get_timestamp_ns\<close>: the ticks of the clock since its epoch, one tick being \<open>num / den\<close> seconds (the clock's
  \<^verbatim>\<open>period\<close>), converted by \<^verbatim>\<open>duration_cast\<close>, which truncates towards zero, and stored as an unsigned number.
\<close>

definition duration_cast_ns :: "int \<Rightarrow> int \<Rightarrow> int \<Rightarrow> int" where
  "duration_cast_ns num den ticks = (let x = ticks * (num * 10 ^ 9) in if 0 \<le> x then x div den else - (- x div den))"

definition get_timestamp_ns :: "int \<Rightarrow> int \<Rightarrow> int \<Rightarrow> uint64" where
  "get_timestamp_ns num den ticks = word_of_int (duration_cast_ns num den ticks)"

text \<open>A clock that does not run backwards gives time stamps that do not, for any period.\<close>

lemma get_timestamp_mono:
  assumes "0 < num" "0 < den" "0 \<le> a" "a \<le> b" "duration_cast_ns num den b < 2 ^ 63"
  shows "get_timestamp_ns num den a \<le> get_timestamp_ns num den b"
proof -
  let ?x = "a * (num * 10 ^ 9)" and ?y = "b * (num * 10 ^ 9)"
  have xy: "0 \<le> ?x" "?x \<le> ?y" using assms by (simp_all add: mult_right_mono)
  have "?x div den \<le> ?y div den" using xy(2) assms(2) by (rule zdiv_mono1)
  moreover have "0 \<le> ?x div den" using xy(1) assms(2) by (simp add: pos_imp_zdiv_nonneg_iff)
  ultimately show ?thesis using xy assms(5)
    by (simp add: get_timestamp_ns_def duration_cast_ns_def word_le_def uint_word_of_int take_bit_eq_mod)
qed

text \<open>
  An operation that has started and not ended makes the check report "operation ended before it
  started", whatever else was recorded: its end time is still 0. Stopping the recording in the
  middle of an operation is enough, since \<^verbatim>\<open>record_operation_end\<close> then does nothing.
\<close>

theorem ov_open_operation_rejected:
  assumes "recording v" "0 < now" "record_operation_start v ty tid x now = (op_id, v1)"
  shows "\<not> check_sequential_consistency (record_operation_end (stop_recording v1) op_id ok r later)"
  using assms by (auto simp: record_operation_start_def record_operation_end_def stop_recording_def new_operation_def typed_operation_def
      check_sequential_consistency_def)

subsection \<open>ThreadSanitizer annotations\<close>

text \<open>
  What the preprocessor makes of the annotations: a call of the sanitizer's run-time library, or
  nothing. The library is not part of the repository; the model is the call that is made.
\<close>

datatype tsan_config = NoTsan | TsanClang | TsanGnuc | TsanOther

datatype tsan_call = AnnotateHappensBefore uint64 | AnnotateHappensAfter uint64 | Tsan_acquire uint64 | Tsan_release uint64

fun annotate_happens_before :: "tsan_config \<Rightarrow> uint64 \<Rightarrow> tsan_call option" where
  "annotate_happens_before TsanClang addr = Some (AnnotateHappensBefore addr)"
| "annotate_happens_before TsanGnuc addr = Some (Tsan_acquire addr)"
| "annotate_happens_before TsanOther addr = None"
| "annotate_happens_before NoTsan addr = None"

fun annotate_happens_after :: "tsan_config \<Rightarrow> uint64 \<Rightarrow> tsan_call option" where
  "annotate_happens_after TsanClang addr = Some (AnnotateHappensAfter addr)"
| "annotate_happens_after TsanGnuc addr = Some (Tsan_release addr)"
| "annotate_happens_after TsanOther addr = None"
| "annotate_happens_after NoTsan addr = None"

text \<open>
  With Clang the annotation before an access announces it (the side that releases) and the one after it
  receives (the side that acquires); with GCC the two are the other way round.
\<close>

definition announces :: "tsan_call option \<Rightarrow> bool" where
  "announces c \<longleftrightarrow> (case c of Some (AnnotateHappensBefore _) \<Rightarrow> True | Some (Tsan_release _) \<Rightarrow> True | _ \<Rightarrow> False)"

lemma tsan_gnuc_swapped:
  "announces (annotate_happens_before TsanClang addr)" "\<not> announces (annotate_happens_after TsanClang addr)"
  "\<not> announces (annotate_happens_before TsanGnuc addr)" "announces (annotate_happens_after TsanGnuc addr)"
  by (simp_all add: announces_def)

end
