(* ===== verification/Cache_Utils.thy ===== *)
theory Cache_Utils
  imports Lockless_Prelude
begin

text \<open>
  \<^verbatim>\<open>include/lockless/cache_utils.hpp\<close>: the padding of \<^verbatim>\<open>CacheAligned\<close> and the two run-time checks, with
  the warnings as Booleans. Sizes are compile-time constants (natural numbers), addresses are 64-bit
  words. \<open>cache_aligned_sizeof\<close> is the size the language gives the struct: the members in order,
  rounded up to the alignment \<^verbatim>\<open>alignas(CACHE_LINE_SIZE)\<close>.
\<close>

abbreviation line :: nat where "line \<equiv> unat CACHE_LINE_SIZE"

definition padding_size :: "nat \<Rightarrow> nat" where
  "padding_size sz = (if sz mod line = 0 then 0 else line - sz mod line)"

definition padding_length :: "nat \<Rightarrow> nat" where
  "padding_length sz = (if padding_size sz > 0 then padding_size sz else 1)"

definition cache_aligned_sizeof :: "nat \<Rightarrow> nat" where
  "cache_aligned_sizeof sz = ((sz + padding_length sz + (line - 1)) div line) * line"

definition is_cache_aligned :: "nat \<Rightarrow> bool" where
  "is_cache_aligned alignof \<longleftrightarrow> line \<le> alignof"

definition verify_cache_alignment :: "uint64 \<Rightarrow> bool" where
  "verify_cache_alignment p \<longleftrightarrow> p mod CACHE_LINE_SIZE = 0"

text \<open>\<^verbatim>\<open>check_separation\<close>: true if the warning is printed. The difference is cast to a signed type.\<close>

definition check_separation :: "uint64 \<Rightarrow> uint64 \<Rightarrow> bool" where
  "check_separation addr1 addr2 =
     (let distance = sint (if addr1 < addr2 then addr2 - addr1 else addr1 - addr2) in
      distance < int line)"

text \<open>\<^verbatim>\<open>check_alignment\<close>: true if the warning is printed.\<close>

definition check_alignment :: "uint64 \<Rightarrow> bool" where
  "check_alignment p \<longleftrightarrow> \<not> verify_cache_alignment p"

lemma line_64: "line = 64"
  by (simp add: CACHE_LINE_SIZE_def)

lemma distance_unat:
  "unat (if a < b then b - a else a - b :: uint64) = (if unat a < unat b then unat b - unat a else unat a - unat b)"
  by (auto simp: word_less_nat_alt unat_sub word_le_nat_alt)

text \<open>
  The size of the struct is a whole number of lines and never smaller than the value; a value whose
  size is already a whole number of lines gets one more line of padding, because the array has at
  least one element.
\<close>

lemma cache_aligned_sizeof_eq:
  "cache_aligned_sizeof sz = (if 64 dvd sz then sz + 64 else (sz div 64 + 1) * 64)"
proof (cases "64 dvd sz")
  case True
  then obtain q where "sz = 64 * q" by blast
  then show ?thesis by (simp add: cache_aligned_sizeof_def padding_length_def padding_size_def line_64)
next
  case False
  then have "sz mod 64 \<noteq> 0" by (simp add: dvd_eq_mod_eq_0)
  moreover have "sz + (64 - sz mod 64) = (sz div 64 + 1) * 64"
    by presburger
  ultimately show ?thesis using False
    by (simp add: cache_aligned_sizeof_def padding_length_def padding_size_def line_64)
qed

text \<open>
  Consecutive elements of an array of \<^verbatim>\<open>CacheAligned\<close> that starts on a line never share a line, whatever the size of
  the value. The size of the struct is rounded up to a whole number of lines by \<^verbatim>\<open>alignas\<close> already.
\<close>

lemma cache_aligned_separate:
  fixes sz :: nat
  defines "S \<equiv> cache_aligned_sizeof sz"
  assumes h: "base mod 64 = 0" "i < j" "x < sz" "y < sz"
  shows "(base + i * S + x) div 64 \<noteq> (base + j * S + y) div 64"
proof -
  have "64 dvd S" by (simp add: cache_aligned_sizeof_eq S_def)
  then obtain c where c: "S = 64 * c" by (rule dvdE)
  have "sz \<le> (sz div 64 + 1) * 64" by presburger
  then have "sz \<le> S" by (simp add: cache_aligned_sizeof_eq S_def)
  then have x: "x div 64 < c" using h c by (simp add: div_less_iff_less_mult)
  obtain d where d: "base = 64 * d" using h by (auto simp: mod_eq_0_iff_dvd)
  have line_of: "(base + k * S + z) div 64 = d + k * c + z div 64" for k z
  proof -
    have "base + k * S + z = z + 64 * (d + k * c)" by (simp add: c d algebra_simps)
    then show ?thesis by (simp add: div_mult_self2)
  qed
  have "Suc i * c \<le> j * c" using h by (intro mult_le_mono1) simp
  then have "d + i * c + x div 64 < d + j * c + y div 64" using x by simp
  then show ?thesis by (simp only: line_of)
qed

text \<open>
  \<^verbatim>\<open>check_separation\<close> compares the first bytes of the two variables. If it prints no warning for addresses less than
  \<open>2 ^ 63\<close> apart, the first bytes are on different lines, and so are the variables if each of them lies within one line.
\<close>

lemma check_separation_first_bytes:
  assumes "unat (if a < b then b - a else a - b) < 2 ^ 63" "\<not> check_separation a b"
  shows "unat a div 64 \<noteq> unat b div 64"
proof -
  let ?d = "if a < b then b - a else a - b"
  have "sint ?d = int (unat ?d)" using assms(1) by (intro sint_small) simp
  then have "\<not> int (unat ?d) < int line" using assms(2) unfolding check_separation_def Let_def by simp
  then have "64 \<le> unat ?d" unfolding line_64 by linarith
  then have "64 \<le> (if unat a < unat b then unat b - unat a else unat a - unat b)" by (simp only: distance_unat)
  then show ?thesis
    using div_mult_mod_eq [of "unat a" 64] div_mult_mod_eq [of "unat b" 64]
      mod_less_divisor [of 64 "unat a"] mod_less_divisor [of 64 "unat b"] by (auto split: if_splits)
qed

text \<open>
  A longer variable can share a line without a warning: one of 100 bytes at address 0 and one at address 100 are both on the
  line of the bytes 64 to 127. Conversely, addresses on different lines that are close together are reported.
\<close>

lemma check_separation_misses:
  "\<not> check_separation 0 100 \<and> 99 div 64 = unat (100 :: uint64) div 64"
  by (simp add: check_separation_def CACHE_LINE_SIZE_def)

lemma check_separation_false_alarm: "check_separation 60 68 \<and> unat (60 :: uint64) div 64 \<noteq> unat (68 :: uint64) div 64"
  by (simp add: check_separation_def CACHE_LINE_SIZE_def)

end
