(* ===== verification/Binary64.thy ===== *)
theory Binary64
  imports Lockless_Prelude "HOL-Library.Log_Nat"
begin

text \<open>
  The part of IEEE binary64 arithmetic (\<^verbatim>\<open>double\<close>) that the library uses: conversion of integers and
  division, both rounded to the nearest double, ties to even. A finite double is the rational number it
  stands for. \<open>fl\<close> rounds to 53 significant bits without a limit on the exponent; on the range
  of the normal numbers, \<open>pow2 (-1022)\<close> to \<open>pow2 1023\<close>, this is the rounding of the standard. All values that
  \<open>Performance_Monitor\<close> computes are shown to be in that range.
\<close>

type_synonym double = rat

definition pow2 :: "int \<Rightarrow> rat" where
  "pow2 k = (if 0 \<le> k then 2 ^ nat k else 1 / 2 ^ nat (- k))"

text \<open>The binary exponent of a positive number.\<close>

definition bexp :: "rat \<Rightarrow> int" where
  "bexp x = (case quotient_of x of (a, b) \<Rightarrow>
     let k = bitlen a - bitlen b in if pow2 k \<le> x then k else k - 1)"

definition round_even :: "rat \<Rightarrow> int" where
  "round_even x =
     (let f = \<lfloor>x\<rfloor>; r = x - of_int f in
      if r < 1 / 2 then f else if 1 / 2 < r then f + 1 else if even f then f else f + 1)"

definition fl :: "rat \<Rightarrow> double" where
  "fl x = (if x = 0 then 0
     else let u = pow2 (bexp \<bar>x\<bar> - 52) in of_int (round_even (x / u)) * u)"

definition double_of_int :: "int \<Rightarrow> double" where
  "double_of_int n = fl (of_int n)"

definition double_div :: "double \<Rightarrow> double \<Rightarrow> double" where
  "double_div x y = fl (x / y)"

subsection \<open>Powers of two\<close>

lemma pow2_powi: "pow2 k = 2 powi k"
  by (simp add: pow2_def power_int_def inverse_eq_divide power_divide)

lemma pow2_pos [simp]: "0 < pow2 k"
  by (simp add: pow2_def)

lemma pow2_nonneg [simp]: "0 \<le> pow2 k" "pow2 k \<noteq> 0"
  using pow2_pos [of k] by linarith+

lemma pow2_add: "pow2 (j + k) = pow2 j * pow2 k"
  by (simp add: pow2_powi power_int_add)

lemma pow2_mono: "j \<le> k \<Longrightarrow> pow2 j \<le> pow2 k"
  by (simp add: pow2_powi power_int_increasing)

lemma pow2_0 [simp]: "pow2 0 = 1"
  by (simp add: pow2_def)

lemma pow2_1 [simp]: "pow2 1 = 2"
  by (simp add: pow2_def)

lemma pow2_nat: "pow2 (int n) = 2 ^ n"
  by (simp add: pow2_def)

lemma pow2_minus: "pow2 (- k) = 1 / pow2 k"
  using pow2_add [of k "- k"] by (simp add: field_simps)

lemma bitlen_pow2:
  assumes "0 < a"
  shows "pow2 (bitlen a - 1) \<le> of_int a" "of_int a < pow2 (bitlen a)"
proof -
  have l: "0 < bitlen a" using assms bitlen_nonneg [of a] bitlen_eq_zero_iff [of a] by linarith
  have "2 ^ nat (bitlen a - 1) \<le> a" "a < 2 ^ nat (bitlen a)" using bitlen_bounds [OF assms] by auto
  then have "(of_int (2 ^ nat (bitlen a - 1)) :: rat) \<le> of_int a" "(of_int a :: rat) < of_int (2 ^ nat (bitlen a))"
    by (simp_all only: of_int_le_iff of_int_less_iff)
  then show "pow2 (bitlen a - 1) \<le> of_int a" "of_int a < pow2 (bitlen a)" using l by (simp_all add: pow2_def)
qed

lemma bexp_bounds:
  assumes "0 < x"
  shows "pow2 (bexp x) \<le> x" "x < pow2 (bexp x + 1)"
proof -
  obtain a b where q: "quotient_of x = (a, b)" by (cases "quotient_of x")
  have b: "0 < b" and x: "x = of_int a / of_int b" using q quotient_of_denom_pos quotient_of_div by auto
  have a: "0 < a" using assms b by (simp add: x zero_less_divide_iff)
  let ?k = "bitlen a - bitlen b"
  have "x * of_int b = of_int a" using b by (simp add: x)
  note A = bitlen_pow2 [OF a] and B = bitlen_pow2 [OF b]
  have k: "bitlen a - 1 = (?k - 1) + bitlen b" "bitlen a = (?k + 1) + (bitlen b - 1)" by simp_all
  have "pow2 (?k - 1) * of_int b \<le> pow2 (?k - 1) * pow2 (bitlen b)" using B(2) by (intro mult_left_mono) simp_all
  also have "\<dots> = pow2 (bitlen a - 1)" by (simp flip: pow2_add)
  also have "\<dots> \<le> of_int a" by (rule A(1))
  finally have lo: "pow2 (?k - 1) \<le> x" using b by (simp add: x le_divide_eq)
  have "of_int a < pow2 (bitlen a)" by (rule A(2))
  also have "\<dots> = pow2 (?k + 1) * pow2 (bitlen b - 1)" by (simp flip: pow2_add)
  also have "\<dots> \<le> pow2 (?k + 1) * of_int b" using B(1) by (intro mult_left_mono) simp_all
  finally have hi: "x < pow2 (?k + 1)" using b by (simp add: x divide_less_eq)
  show "pow2 (bexp x) \<le> x" "x < pow2 (bexp x + 1)" using lo hi by (auto simp: bexp_def q Let_def)
qed

lemma bexp_less:
  assumes "0 < x" "x < pow2 k"
  shows "bexp x < k"
proof (rule ccontr)
  assume "\<not> bexp x < k"
  then have "pow2 k \<le> pow2 (bexp x)" by (simp add: pow2_mono)
  then show False using assms bexp_bounds(1) by force
qed

subsection \<open>Rounding\<close>

lemma round_even_near: "\<bar>of_int (round_even x) - x\<bar> \<le> 1 / 2"
  using floor_correct [of x] by (auto simp: round_even_def Let_def abs_le_iff)

lemma round_even_nearest: "\<bar>of_int (round_even x) - x\<bar> \<le> \<bar>of_int n - x\<bar>"
proof (cases "n = round_even x")
  case False
  then have "1 \<le> \<bar>n - round_even x\<bar>" by linarith
  then have "(1 :: rat) \<le> of_int \<bar>n - round_even x\<bar>" by simp
  then have "1 \<le> \<bar>rat_of_int n - rat_of_int (round_even x)\<bar>" by simp
  then show ?thesis using round_even_near [of x] by linarith
qed simp

lemma round_even_int [simp]: "round_even (of_int n) = n"
  by (simp add: round_even_def)

text \<open>A number with 53 significant bits.\<close>

definition representable :: "rat \<Rightarrow> bool" where
  "representable y \<longleftrightarrow> (\<exists>m e. y = of_int m * pow2 e \<and> \<bar>m\<bar> < 2 ^ 53)"

definition fl_unit :: "rat \<Rightarrow> rat" where
  "fl_unit x = pow2 (bexp \<bar>x\<bar> - 52)"

lemma fl_unit_pos [simp]: "0 < fl_unit x" "fl_unit x \<noteq> 0"
  by (simp_all add: fl_unit_def)

lemma fl_eq: "x \<noteq> 0 \<Longrightarrow> fl x = of_int (round_even (x / fl_unit x)) * fl_unit x"
  by (simp add: fl_def fl_unit_def Let_def)

lemma fl_multiple_nearest:
  assumes "x \<noteq> 0"
  shows "\<bar>fl x - x\<bar> \<le> \<bar>of_int n * fl_unit x - x\<bar>"
proof -
  let ?u = "fl_unit x"
  have scale: "\<bar>of_int m * ?u - x\<bar> = \<bar>of_int m - x / ?u\<bar> * ?u" for m
  proof -
    have "of_int m * ?u - x = (of_int m - x / ?u) * ?u" by (simp add: left_diff_distrib)
    then show ?thesis by (simp add: abs_mult less_imp_le)
  qed
  have "\<bar>of_int (round_even (x / ?u)) - x / ?u\<bar> * ?u \<le> \<bar>of_int n - x / ?u\<bar> * ?u"
    by (intro mult_right_mono round_even_nearest) (simp add: less_imp_le)
  then show ?thesis by (simp add: fl_eq [OF assms] scale)
qed

lemma fl_unit_multiple:
  assumes "bexp \<bar>x\<bar> - 52 \<le> e"
  shows "\<exists>n. of_int m * pow2 e = of_int n * fl_unit x"
proof -
  obtain k where k: "e = bexp \<bar>x\<bar> - 52 + int k" using assms zle_iff_zadd by blast
  have "of_int m * pow2 e = of_int (m * 2 ^ k) * fl_unit x"
    unfolding k pow2_add by (simp add: fl_unit_def pow2_nat)
  then show ?thesis by blast
qed

text \<open>\<open>fl\<close> rounds to the nearest representable number.\<close>

lemma fl_nearest:
  assumes "representable y"
  shows "\<bar>fl x - x\<bar> \<le> \<bar>y - x\<bar>"
proof (cases "x = 0")
  case False
  obtain m e where y: "y = of_int m * pow2 e" "\<bar>m\<bar> < 2 ^ 53" using assms by (auto simp: representable_def)
  show ?thesis
  proof (cases "bexp \<bar>x\<bar> - 52 \<le> e")
    case True
    then show ?thesis using fl_unit_multiple [OF True, of m] fl_multiple_nearest [OF False] y by metis
  next
    case e: False
    let ?b = "bexp \<bar>x\<bar>"
    have m: "\<bar>of_int m\<bar> < (2 ^ 53 :: rat)" using y(2) by (metis of_int_abs of_int_less_iff of_int_numeral of_int_power)
    have "\<bar>y\<bar> = \<bar>of_int m\<bar> * pow2 e" by (simp add: y(1) abs_mult)
    also have "\<dots> \<le> pow2 53 * pow2 e"
      using m by (intro mult_right_mono) (simp_all add: pow2_def)
    also have "\<dots> = pow2 (53 + e)" by (simp add: pow2_add)
    also have "\<dots> \<le> pow2 ?b" using e by (intro pow2_mono) simp
    finally have yb: "\<bar>y\<bar> \<le> pow2 ?b" .
    obtain n where n: "of_int (if 0 < x then 1 else - 1) * pow2 ?b = of_int n * fl_unit x"
      using fl_unit_multiple [of x ?b] by fastforce
    have "\<bar>fl x - x\<bar> \<le> \<bar>of_int (if 0 < x then 1 else - 1) * pow2 ?b - x\<bar>" unfolding n by (rule fl_multiple_nearest [OF False])
    also have "\<dots> \<le> \<bar>y - x\<bar>" using yb bexp_bounds(1) [of "\<bar>x\<bar>"] False by (auto split: if_splits)
    finally show ?thesis .
  qed
qed (simp add: fl_def)

lemma fl_error: "\<bar>fl x - x\<bar> \<le> \<bar>x\<bar> * pow2 (- 53)"
proof (cases "x = 0")
  case False
  let ?u = "fl_unit x"
  have "fl x - x = (of_int (round_even (x / ?u)) - x / ?u) * ?u" by (simp add: fl_eq [OF False] left_diff_distrib)
  then have "\<bar>fl x - x\<bar> = \<bar>of_int (round_even (x / ?u)) - x / ?u\<bar> * ?u" by (simp add: abs_mult less_imp_le)
  also have "\<dots> \<le> 1 / 2 * ?u" by (intro mult_right_mono round_even_near) (simp add: less_imp_le)
  also have "\<dots> = pow2 (bexp \<bar>x\<bar>) * pow2 (- 53)"
    using pow2_add [of "bexp \<bar>x\<bar>" "- 52"] pow2_add [of "- 53" 1] by (simp add: fl_unit_def)
  also have "\<dots> \<le> \<bar>x\<bar> * pow2 (- 53)" using bexp_bounds(1) [of "\<bar>x\<bar>"] False by (intro mult_right_mono) simp_all
  finally show ?thesis .
qed (simp add: fl_def)

lemma fl_exact: "representable x \<Longrightarrow> fl x = x"
  using fl_nearest [of x x] by simp

lemma fl_0 [simp]: "fl 0 = 0"
  by (simp add: fl_def)

lemma representable_pow2 [simp]: "representable (pow2 k)"
  unfolding representable_def by (intro exI [of _ 1] exI [of _ k]) simp

lemma representable_of_int: "\<bar>n\<bar> < 2 ^ 53 \<Longrightarrow> representable (of_int n)"
  unfolding representable_def by (intro exI [of _ n] exI [of _ 0]) simp

lemma fl_range:
  assumes "pow2 j \<le> x" "x \<le> pow2 k"
  shows "pow2 j \<le> fl x" "fl x \<le> pow2 k"
  using fl_nearest [of "pow2 j" x] fl_nearest [of "pow2 k" x] assms by auto

lemma fl_nonneg: "0 \<le> x \<Longrightarrow> 0 \<le> fl x"
  using fl_nearest [of 0 x] representable_of_int [of 0] by auto

lemma fl_pos: "0 < x \<Longrightarrow> 0 < fl x"
  using fl_range(1) [of "bexp x" x "bexp x + 1"] bexp_bounds [of x] pow2_pos [of "bexp x"] by (metis less_imp_le order_less_le_trans)

lemma double_div_range:
  assumes "pow2 a \<le> x" "x \<le> pow2 b" "pow2 c \<le> y" "y \<le> pow2 d"
  shows "pow2 (a - d) \<le> x / y" "x / y \<le> pow2 (b - c)" "pow2 (a - d) \<le> double_div x y" "double_div x y \<le> pow2 (b - c)"
proof -
  have y: "0 < y" using assms(3) pow2_pos [of c] by linarith
  have "pow2 (a - d) = pow2 a / pow2 d" "pow2 (b - c) = pow2 b / pow2 c"
    using pow2_add [of a "- d"] pow2_add [of b "- c"] by (simp_all add: pow2_minus)
  then show r: "pow2 (a - d) \<le> x / y" "x / y \<le> pow2 (b - c)"
    using y assms frac_le [of x "pow2 a" y "pow2 d"] frac_le [of "pow2 b" x "pow2 c" y] pow2_nonneg(1) [of a] pow2_nonneg(1) [of b]
    by (auto intro!: frac_le)
  then show "pow2 (a - d) \<le> double_div x y" "double_div x y \<le> pow2 (b - c)"
    using fl_range [OF r] by (simp_all add: double_div_def)
qed

lemma double_of_int_range:
  assumes "0 < n" "n \<le> 2 ^ k"
  shows "pow2 0 \<le> double_of_int n" "double_of_int n \<le> pow2 (int k)"
proof -
  have "(of_int n :: rat) \<le> of_int (2 ^ k)" using assms(2) by (simp only: of_int_le_iff)
  then have "pow2 0 \<le> of_int n" "of_int n \<le> pow2 (int k)" using assms(1) by (simp_all add: pow2_nat)
  then show "pow2 0 \<le> double_of_int n" "double_of_int n \<le> pow2 (int k)" unfolding double_of_int_def by (rule fl_range)+
qed

subsection \<open>Relative errors\<close>

definition rel :: "rat \<Rightarrow> rat \<Rightarrow> rat \<Rightarrow> bool" where
  "rel e x y \<longleftrightarrow> (\<exists>d. y = x * (1 + d) \<and> \<bar>d\<bar> \<le> e)"

lemma rel_refl: "0 \<le> e \<Longrightarrow> rel e x x"
  by (auto simp: rel_def intro: exI [of _ 0])

lemma rel_mono: "rel e x y \<Longrightarrow> e \<le> f \<Longrightarrow> rel f x y"
  by (auto simp: rel_def intro: order_trans)

lemma rel_abs: "rel e x y \<Longrightarrow> \<bar>y - x\<bar> \<le> \<bar>x\<bar> * e"
  by (auto simp: rel_def ring_distribs abs_mult intro!: mult_left_mono)

lemma rel_fl: "rel (pow2 (- 53)) x (fl x)"
proof (cases "x = 0")
  case False
  then show ?thesis unfolding rel_def using fl_error [of x]
    by (intro exI [of _ "(fl x - x) / x"]) (simp add: field_simps)
qed (simp add: rel_refl)

lemma rel_trans:
  assumes "rel e x y" "rel f y z"
  shows "rel (e + f + e * f) x z"
proof -
  obtain c d where c: "y = x * (1 + c)" "\<bar>c\<bar> \<le> e" and d: "z = y * (1 + d)" "\<bar>d\<bar> \<le> f" using assms by (auto simp: rel_def)
  have "z = x * (1 + (c + d + c * d))" by (simp add: c(1) d(1) algebra_simps)
  moreover have "\<bar>c * d\<bar> \<le> e * f" unfolding abs_mult using c(2) d(2) by (intro mult_mono) auto
  then have "\<bar>c + d + c * d\<bar> \<le> e + f + e * f" using c(2) d(2) by linarith
  ultimately show ?thesis unfolding rel_def by blast
qed

lemma rel_divide:
  assumes "rel e x x'" "rel f y y'" "f < 1"
  shows "rel ((e + f) / (1 - f)) (x / y) (x' / y')"
proof -
  obtain c d where c: "x' = x * (1 + c)" "\<bar>c\<bar> \<le> e" and d: "y' = y * (1 + d)" "\<bar>d\<bar> \<le> f" using assms by (auto simp: rel_def)
  have p: "0 < 1 - f" "1 - f \<le> 1 + d" using assms(3) d(2) by auto
  then have "x' / y' = x / y * (1 + (c - d) / (1 + d))" by (simp add: c(1) d(1) divide_simps)
  moreover have "\<bar>(c - d) / (1 + d)\<bar> \<le> (e + f) / (1 - f)"
    using p c(2) d(2) by (simp add: abs_divide) (intro frac_le, auto)
  ultimately show ?thesis unfolding rel_def by blast
qed

end
