(* ===== verification/Performance_Monitor.thy ===== *)
theory Performance_Monitor
  imports Binary64
begin

text \<open>
  \<^verbatim>\<open>include/lockless/performance_monitor.hpp\<close>: the counters, the rates computed from them in \<^verbatim>\<open>double\<close> and the
  report. The time-stamp counter is read in two halves, which are the arguments \<open>lo\<close> and \<open>hi\<close>; time points
  are clock readings in nanoseconds, the period of the clock. \<^verbatim>\<open>duration_cast\<close> to seconds converts the count
  of nanoseconds to \<^verbatim>\<open>double\<close> and divides it by \<open>10 ^ 9\<close>. The report is the sequence of insertions into the stream,
  with the format in force; the digits the stream makes of them, and the format the stream is left in after the
  report (\<^verbatim>\<open>std::defaultfloat\<close>), are not modelled.
\<close>

record perf_monitor =
  start_cycles :: uint64
  end_cycles :: uint64
  start_time :: int
  end_time :: int
  operation_count :: uint64
  profiling :: bool

definition pm_new :: "int \<Rightarrow> int \<Rightarrow> perf_monitor" where
  "pm_new t0 t1 = \<lparr>start_cycles = 0, end_cycles = 0, start_time = t0, end_time = t1, operation_count = 0, profiling = False\<rparr>"

definition read_tsc :: "uint32 \<Rightarrow> uint32 \<Rightarrow> uint64" where
  "read_tsc lo hi = push_bit 32 (ucast hi) OR ucast lo"

definition start_profiling :: "perf_monitor \<Rightarrow> int \<Rightarrow> uint64 \<Rightarrow> perf_monitor" where
  "start_profiling pm now tsc = pm\<lparr>profiling := True, start_time := now, start_cycles := tsc\<rparr>"

definition stop_profiling :: "perf_monitor \<Rightarrow> uint64 \<Rightarrow> uint64 \<Rightarrow> int \<Rightarrow> perf_monitor" where
  "stop_profiling pm ops tsc now =
     pm\<lparr>end_cycles := tsc, end_time := now, operation_count := ops, profiling := False\<rparr>"

record profile_result =
  pr_cycles :: uint64
  pr_seconds :: double
  pr_operations :: uint64

definition cycles_per_op :: "profile_result \<Rightarrow> double" where
  "cycles_per_op r =
     (if 0 < pr_operations r then double_div (double_of_int (uint (pr_cycles r))) (double_of_int (uint (pr_operations r))) else 0)"

definition ops_per_second :: "profile_result \<Rightarrow> double" where
  "ops_per_second r =
     (if 0 < pr_seconds r then double_div (double_of_int (uint (pr_operations r))) (pr_seconds r) else 0)"

definition get_cycles :: "perf_monitor \<Rightarrow> uint64" where
  "get_cycles pm = end_cycles pm - start_cycles pm"

definition get_duration :: "perf_monitor \<Rightarrow> int" where
  "get_duration pm = end_time pm - start_time pm"

definition get_result :: "perf_monitor \<Rightarrow> profile_result" where
  "get_result pm = \<lparr>pr_cycles = get_cycles pm,
     pr_seconds = double_div (double_of_int (get_duration pm)) (double_of_int 1000000000),
     pr_operations = operation_count pm\<rparr>"

datatype report_item = Text string | Number uint64 | Fixed nat double | Scientific nat double | Newline

definition print_report :: "perf_monitor \<Rightarrow> string \<Rightarrow> report_item list" where
  "print_report pm benchmark_name =
     (let result = get_result pm in
      [Text (CHR 0x0A # ''=== ''), Text benchmark_name, Text '' ==='', Newline,
       Text ''Operations:       '', Number (pr_operations result), Newline,
       Text ''Total Cycles:     '', Number (pr_cycles result), Newline,
       Text ''Time Elapsed:     '', Fixed 2 (pr_seconds result), Text '' seconds'', Newline,
       Text ''Cycles/Op:        '', Fixed 2 (cycles_per_op result), Newline,
       Text ''Throughput:       '', Scientific 2 (ops_per_second result), Text '' ops/sec'', Newline])"

text \<open>
  The halves of the counter are assembled without loss, and the reported cycles are the cycles that
  passed (less than \<open>2 ^ 64\<close>), also when the counter wraps between the two readings.
\<close>

lemma read_tsc_halves: "ucast (read_tsc lo hi) = lo \<and> ucast (drop_bit 32 (read_tsc lo hi)) = hi"
proof
  show "ucast (read_tsc lo hi) = lo" by (rule bit_word_eqI) (auto simp: read_tsc_def bit_simps)
  show "ucast (drop_bit 32 (read_tsc lo hi)) = hi"
    by (rule bit_word_eqI) (auto simp: read_tsc_def bit_simps dest: bit_imp_le_length)
qed

lemma pm_cycles_elapsed:
  assumes "c1 \<le> c2" "c2 - c1 < 2 ^ 64"
  shows "unat (get_cycles (stop_profiling (start_profiling pm t1 (word_of_nat c1)) ops (word_of_nat c2) t2)) = c2 - c1"
proof -
  have "(word_of_nat c2 - word_of_nat c1 :: uint64) = word_of_nat (c2 - c1)" using assms(1) by (simp add: of_nat_diff)
  then show ?thesis
    using assms(2) by (simp add: get_cycles_def stop_profiling_def start_profiling_def unat_of_nat del: of_nat_diff)
qed

subsection \<open>Accuracy of the rates\<close>

lemma double_int_rel: "rel (pow2 (- 53)) (of_int n) (double_of_int n)"
  by (simp add: double_of_int_def rel_fl)

lemma double_div_rel:
  assumes "rel e x x'" "rel f y y'" "f < 1"
  shows "rel ((e + f) / (1 - f) + pow2 (- 53) + (e + f) / (1 - f) * pow2 (- 53)) (x / y) (double_div x' y')"
  unfolding double_div_def by (rule rel_trans [OF rel_divide [OF assms] rel_fl])

lemma cycles_per_op_rel:
  assumes "0 < pr_operations r"
  shows "rel (pow2 (- 51)) (of_int (uint (pr_cycles r)) / of_int (uint (pr_operations r))) (cycles_per_op r)"
  using double_div_rel [OF double_int_rel double_int_rel, of "uint (pr_cycles r)" "uint (pr_operations r)"] assms
  by (auto simp: cycles_per_op_def pow2_def elim!: rel_mono)

text \<open>The seconds of a positive duration, and the throughput.\<close>

lemma billion: "double_of_int 1000000000 = 1000000000"
  using fl_exact [OF representable_of_int [of 1000000000]] by (simp add: double_of_int_def)

lemma seconds_rel: "rel (pow2 (- 51)) (of_int (get_duration pm) / 10 ^ 9) (pr_seconds (get_result pm))"
  using double_div_rel [OF double_int_rel rel_refl [of 0 "10 ^ 9"], of "get_duration pm"]
  by (auto simp: get_result_def billion pow2_def elim!: rel_mono)

lemma seconds_pos: "0 < get_duration pm \<Longrightarrow> 0 < pr_seconds (get_result pm)"
  by (simp add: get_result_def double_div_def double_of_int_def fl_pos billion [unfolded double_of_int_def])

lemma ops_per_second_rel:
  assumes "0 < get_duration pm"
  shows "rel (pow2 (- 50)) (of_int (uint (operation_count pm)) / (of_int (get_duration pm) / 10 ^ 9)) (ops_per_second (get_result pm))"
  using double_div_rel [OF double_int_rel seconds_rel, of "uint (operation_count pm)" pm] seconds_pos [OF assms]
  by (auto simp: ops_per_second_def pow2_def get_result_def elim!: rel_mono)

text \<open>
  Every value computed for positive counts and a duration below \<open>2 ^ 63\<close> nanoseconds is a normal number, so
  neither overflow nor gradual underflow occurs and \<open>fl\<close> is the rounding of the standard.
\<close>

lemma uint64_range:
  fixes w :: uint64
  assumes "0 < w"
  shows "pow2 0 \<le> double_of_int (uint w)" "double_of_int (uint w) \<le> pow2 64"
proof -
  have "0 < uint w" using assms by (simp add: word_less_def)
  then show "pow2 0 \<le> double_of_int (uint w)" "double_of_int (uint w) \<le> pow2 64"
    using double_of_int_range [of "uint w" 64] uint_lt2p [of w] by simp_all
qed

lemma pm_normal:
  assumes "0 < get_cycles pm" "0 < operation_count pm" "0 < get_duration pm" "get_duration pm \<le> 2 ^ 63"
  shows "pow2 (- 64) \<le> cycles_per_op (get_result pm)" "cycles_per_op (get_result pm) \<le> pow2 64"
    "pow2 (- 30) \<le> pr_seconds (get_result pm)" "pr_seconds (get_result pm) \<le> pow2 63"
    "pow2 (- 63) \<le> ops_per_second (get_result pm)" "ops_per_second (get_result pm) \<le> pow2 94"
proof -
  note C = uint64_range [OF assms(1)] and N = uint64_range [OF assms(2)]
  show "pow2 (- 64) \<le> cycles_per_op (get_result pm)" "cycles_per_op (get_result pm) \<le> pow2 64"
    using double_div_range [OF C N] assms(2) by (simp_all add: cycles_per_op_def get_result_def)
  have "pow2 0 \<le> double_of_int 1000000000" "double_of_int 1000000000 \<le> pow2 30" by (simp_all add: billion pow2_def)
  note S = double_div_range(3,4) [OF double_of_int_range [OF assms(3,4)] this]
  then show s: "pow2 (- 30) \<le> pr_seconds (get_result pm)" "pr_seconds (get_result pm) \<le> pow2 63"
    by (simp_all add: get_result_def)
  show "pow2 (- 63) \<le> ops_per_second (get_result pm)" "ops_per_second (get_result pm) \<le> pow2 94"
    using double_div_range(3,4) [OF N s] seconds_pos [OF assms(3)] by (simp_all add: ops_per_second_def get_result_def)
qed

text \<open>
  C36. The report of a measured section of less than \<open>2 ^ 64\<close> cycles, in which the clock advanced, shows the cycles
  that passed, also when the counter wraps, and rates that are right to fifty bits: the rounding of the
  conversions and divisions adds up to a relative error of at most \<open>2 ^ -51\<close> for the cycles per operation and
  \<open>2 ^ -50\<close> for the operations per second.
\<close>

theorem pm_report_accurate:
  fixes pm :: perf_monitor and c1 c2 :: nat and t1 t2 :: int and ops :: uint64 and name :: string
  assumes "c1 \<le> c2" "c2 - c1 < 2 ^ 64" "t1 < t2" "0 < ops"
  defines "pm' \<equiv> stop_profiling (start_profiling pm t1 (word_of_nat c1)) ops (word_of_nat c2) t2"
  defines "cpo \<equiv> of_nat (c2 - c1) / of_nat (unat ops)" and "rate \<equiv> of_nat (unat ops) * 10 ^ 9 / of_int (t2 - t1)"
  shows "\<exists>cycles secs x y. print_report pm' name =
      [Text (CHR 0x0A # ''=== ''), Text name, Text '' ==='', Newline, Text ''Operations:       '', Number ops, Newline,
       Text ''Total Cycles:     '', Number cycles, Newline, Text ''Time Elapsed:     '', Fixed 2 secs, Text '' seconds'', Newline,
       Text ''Cycles/Op:        '', Fixed 2 x, Newline, Text ''Throughput:       '', Scientific 2 y, Text '' ops/sec'', Newline] \<and>
    unat cycles = c2 - c1 \<and> \<bar>x - cpo\<bar> \<le> cpo / 2 ^ 51 \<and> \<bar>y - rate\<bar> \<le> rate / 2 ^ 50"
proof -
  let ?r = "get_result pm'"
  have pm: "get_duration pm' = t2 - t1" "operation_count pm' = ops" "pr_operations ?r = ops" "pr_cycles ?r = get_cycles pm'"
    by (simp_all add: pm'_def stop_profiling_def start_profiling_def get_duration_def get_result_def)
  have c: "unat (get_cycles pm') = c2 - c1" unfolding pm'_def by (rule pm_cycles_elapsed [OF assms(1,2)])
  have u: "of_int (uint w) = (of_nat (unat w) :: rat)" for w :: uint64 by (metis of_int_of_nat_eq of_nat_unat)
  have "\<bar>cycles_per_op ?r - cpo\<bar> \<le> \<bar>cpo\<bar> * pow2 (- 51)"
    using cycles_per_op_rel [of ?r] assms(4) unfolding pm u c cpo_def by (blast intro: rel_abs)
  moreover have "0 \<le> cpo" "0 \<le> rate" using assms(3) unfolding cpo_def rate_def by (intro divide_nonneg_nonneg mult_nonneg_nonneg of_nat_0_le_iff; simp)+
  moreover have "\<bar>ops_per_second ?r - rate\<bar> \<le> \<bar>rate\<bar> * pow2 (- 50)"
    using rel_abs [OF ops_per_second_rel [of pm']] assms(3) by (simp add: pm u rate_def)
  ultimately show ?thesis using c by (simp add: print_report_def Let_def pm pow2_def)
qed

text \<open>Ten cycles across a wrap of the counter, four operations, one microsecond.\<close>

theorem pm_report_accurate_witness:
  "\<exists>cycles secs x y. print_report (stop_profiling (start_profiling (pm_new 0 0) 7 (word_of_nat (2 ^ 64 - 5))) 4 (word_of_nat (2 ^ 64 + 5)) 1007) ''run'' =
      [Text (CHR 0x0A # ''=== ''), Text ''run'', Text '' ==='', Newline, Text ''Operations:       '', Number 4, Newline,
       Text ''Total Cycles:     '', Number cycles, Newline, Text ''Time Elapsed:     '', Fixed 2 secs, Text '' seconds'', Newline,
       Text ''Cycles/Op:        '', Fixed 2 x, Newline, Text ''Throughput:       '', Scientific 2 y, Text '' ops/sec'', Newline] \<and>
    unat cycles = 10 \<and> \<bar>x - 5 / 2\<bar> \<le> (5 / 2) / 2 ^ 51 \<and> \<bar>y - 4000000\<bar> \<le> 4000000 / 2 ^ 50"
  using pm_report_accurate [of "2 ^ 64 - 5" "2 ^ 64 + 5" 7 1007 4 "pm_new 0 0" "''run''"] by simp

text \<open>The numbers themselves, by evaluation: here both rates are exact.\<close>

lemma pm_rates_example:
  "cycles_per_op \<lparr>pr_cycles = 10, pr_seconds = 1 / 2, pr_operations = 4\<rparr> = 5 / 2"
  "ops_per_second \<lparr>pr_cycles = 10, pr_seconds = 1 / 2, pr_operations = 4\<rparr> = 8"
  "ops_per_second \<lparr>pr_cycles = 10, pr_seconds = 0, pr_operations = 4\<rparr> = 0"
  by code_simp+

end
