(* ===== verification/Spec2Isabelle.thy ===== *)
theory Spec2Isabelle
  imports Examples SPSC_Conc Message_Service Order_Book_Service Object_Pool_Conc Epoch_RA
    Ring_Buffer_RA Array_Stack_RA Hash_Map_RA
    Ordering_Validator Cache_Utils Performance_Monitor
begin

text \<open>
  \<^bold>\<open>Verification of the \<^verbatim>\<open>lockless\<close> library of concurrent data structures.\<close>

  The program is the header-only C++ library under \<^verbatim>\<open>src/include/lockless\<close>. Its parts, and how they
  use each other:

  \<^item> \<^verbatim>\<open>ring_buffer.hpp\<close>: the bounded multi-producer multi-consumer queue with a sequence number per slot.
    It carries \<^verbatim>\<open>message_queue.hpp\<close> (a bump allocator and a queue of handles into it) and
    \<^verbatim>\<open>order_book.hpp\<close> (a matching engine fed by a ring of orders).
  \<^item> \<^verbatim>\<open>spsc_queue.hpp\<close>: the single-producer single-consumer queue.
  \<^item> \<^verbatim>\<open>array_stack.hpp\<close> (also under the name \<^verbatim>\<open>stack.hpp\<close>): a stack over an array of nodes with a free list;
    both heads are a 32-bit tag and a 32-bit index in one atomic word. It carries \<^verbatim>\<open>object_pool.hpp\<close>.
  \<^item> \<^verbatim>\<open>hash_map.hpp\<close>: an insert-only hash table with linear probing.
  \<^item> \<^verbatim>\<open>epoch_reclaimer.hpp\<close>: deferred freeing of retired objects.
  \<^item> \<^verbatim>\<open>ordering_validator.hpp\<close>, \<^verbatim>\<open>cache_utils.hpp\<close>, \<^verbatim>\<open>performance_monitor.hpp\<close>, \<^verbatim>\<open>common.hpp\<close>: recording and
    checking of histories, padding, counters, constants.
  \<^item> \<^verbatim>\<open>src/examples\<close>: two programs that use the ring buffer and the order book from one and several threads.

  \<^bold>\<open>How the code is modelled.\<close> A class is a record with the fields of the code; machine integers are
  words of their width, so all index and ticket arithmetic wraps as in the code. A call on one thread
  is a function on that record. A loop that may not return, an access outside an array and an overflow
  of a signed subtraction are \<open>None\<close>; an exception is the left side of a sum. Moving and copying an item
  are the same. For concurrency, each call is cut at its shared accesses: a datatype of program points
  (\<open>rb_pc\<close>, \<open>sq_pc\<close>, \<open>as_pc\<close>, \<open>hm_pc\<close>, \<open>ep_pc\<close>, \<open>match_pc\<close>, \<open>os_pc\<close>, \<open>alloc_pc\<close>, \<open>ms_pc\<close>, \<open>ov_pc\<close>) and a function that executes one
  access (\<open>rb_go\<close>, \<open>sq_go\<close>, ...). \<open>Interleaving.reach\<close> is every state that any number of threads can reach by
  any schedule of such accesses and calls; a weak compare-exchange may also fail without reason (the
  flag of \<open>Go\<close>). In these machines a load returns the newest value (sequential consistency). The ring buffer, the
  stack, the hash map and the reclaimer have a second machine with the same program points and the memory orders of
  the code (\<open>rr_go\<close>, \<open>rs_go\<close>, \<open>hr_go\<close>, \<open>ea_go\<close>, over \<open>Release_Acquire\<close>; the SPSC queue has only such a machine): there every load
  may be stale, and a plain access that is not ordered by happens-before is an error.
  Fields named \<open>g_...\<close>, \<open>ag_...\<close>, \<open>hg_...\<close>, \<open>mg_...\<close>, \<open>m_enq\<close>, \<open>pl_held\<close>, \<open>pl_misuse\<close>, \<open>os_done\<close>, \<open>ms_sent\<close>, \<open>rr_enq\<close>, \<open>rr_pushing\<close>, \<open>rr_popping\<close>, \<open>rs_ds\<close>, \<open>rs_fs\<close>,
  \<open>rs_nd\<close>, \<open>rs_nf\<close>, \<open>rs_taken\<close>, \<open>hr_committed\<close>, \<open>ea_freed\<close>, \<open>ea_retired_at\<close>, \<open>ea_covered\<close>, \<open>ea_by\<close> and the trails of plain accesses, which the code does not have, are
  history variables: they are written beside the accesses and never read by the code part, except that a trail
  decides whether an access is a data race and that the clients of the reclaimer are held to its discipline (\<open>ea_disciplined\<close>).

  \<^bold>\<open>The shared theories.\<close>

  \<^item> \<open>Lockless_Prelude\<close>: type names, constants of \<^verbatim>\<open>common.hpp\<close>, the power-of-two test, the signed ticket
    distance, and the lemmas on words and lists in the collections \<open>unat_simps\<close> and \<open>slot_simps\<close>.
  \<^item> \<open>Interleaving\<close>: schedules, reachability, and two locales. \<open>og_proof\<close> derives an invariant of all
    reachable states from a global invariant, an invariant of each thread and a pairwise one, each
    stable under the steps of the others, as long as a bound (monotone) holds; \<open>client_system\<close> is a program
    whose threads call a component, and carries every invariant of the component over to it.
  \<^item> \<open>Linearizability\<close>: the history of the calls and returns of a schedule (\<open>history\<close>), and when it is one of an atomic object
    (\<open>linearizable\<close>): one can insert, for every call, a moment between call and return at which the operation
    takes effect, such that each result is the one the operation specification fixes in the state of that moment. The locale
    \<open>og_linearizable\<close> extends \<open>og_proof\<close> by an abstract state and the status of every thread's operation (not begun to
    take effect, or done with a result), and derives that all histories are linearizable.
  \<^item> \<open>Release_Acquire\<close>: the operations of \<^verbatim>\<open>std::atomic\<close> with the orders relaxed, acquire and release, as histories
    of messages and views of threads (a semilattice), and plain accesses with a happens-before check.
  \<^item> \<open>Ticket_Ring\<close>: slots of a ring and the tickets that own them.
  \<^item> \<open>Binary64\<close>: integer conversion and division of \<^verbatim>\<open>double\<close>, executable on rationals, shown to round to the nearest
    number of 53 bits, and the calculus of relative errors.
  \<^item> \<open>Queue_Contract\<close>, \<open>Stack_Contract\<close>, \<open>Map_Contract\<close>: the promises of a bounded queue (with batches), a bounded
    stack and an insert-only map as locales, with the client lemmas proved from the promises, and the
    atomic queue and stack as operation specifications (\<open>queue_spec\<close>, \<open>stack_spec\<close>): what a call may return
    and do to the content. A call may fail without effect; when it does is stated by separate theorems.

  \<^bold>\<open>The components.\<close>

  \<^item> \<open>Ring_Buffer\<close> (\<^verbatim>\<open>RingBuffer\<close> on one thread) interprets \<open>batched_queue\<close>: FIFO of capacity \<^verbatim>\<open>Size\<close>, every
    call returns, batches take the longest possible prefix. \<open>Ring_Buffer_Conc\<close> interprets
    \<open>og_linearizable\<close>: the histories of all schedules are those of the atomic bounded queue, the k-th pop gets the k-th push, slot
    accesses are exclusive, failures are justified, no signed overflow is reached, each thread alone
    finishes in seven accesses and computes what the sequential code computes. A buffer of size 1, which
    the code admits, is shown broken. \<open>Ring_Buffer_RA\<close> interprets \<open>og_linearizable\<close> again for the memory orders of the code:
    every access is a load or the access of the interleaved machine on the newest messages. Shown: linearizability
    as a bounded queue, absence of data races, hand-over of everything that happened before a push, and
    when a failure may be stale.
  \<^item> \<open>Ring_Clients\<close>: programs of producer and consumer threads on one ring (\<open>rc_exec\<close>, a \<open>client_system\<close>). The locale
    \<open>ring_workload\<close> describes their work and shows that nothing is lost or duplicated, that each consumer receives
    the items of a producer in order, and that the program can always still finish. \<open>Examples\<close> interprets it for \<^verbatim>\<open>mpmc_example\<close> and \<^verbatim>\<open>concurrent_trading_example\<close>,
    and models both example programs including what they print.
  \<^item> \<open>SPSC_Queue\<close> and \<open>SPSC_Conc\<close> (\<^verbatim>\<open>SPSCQueue\<close>): the concurrent model has release/acquire memory. Each index is a
    list of messages with the view of its writer, an acquire load may return any message not older than
    those already seen. Shown: linearizability as a queue of capacity \<^verbatim>\<open>Size - 1\<close>, absence of data races on the
    buffer, wait-freedom.
  \<^item> \<open>Message_Queue\<close> (\<^verbatim>\<open>SharedMemoryArena\<close>, \<^verbatim>\<open>ZeroCopyQueue\<close>): blocks of concurrent allocations are disjoint and in
    bounds; every session of one thread refines a bump allocator beside a bounded queue of pointers and sizes; the
    bounds check wraps for huge requests. \<open>Message_Service\<close>: senders and receivers of one queue on any number of
    threads, with the bytes of the messages in a memory, a \<open>client_system\<close> of the interleaved arena and of the
    interleaved ring: messages arrive intact, their byte ranges are disjoint, and no thread is about to write a byte that
    another one is about to access.
  \<^item> \<open>Order_Book\<close> (\<^verbatim>\<open>OrderBook\<close> on one thread): the book is never crossed; a session refines a reference queue;
    the counters refine a reference book that keeps all resting orders. \<open>Order_Book_Conc\<close>: the matching step
    on several threads. Best prices are never lost; quantities can wrap and the book can cross. \<open>Order_Book_Service\<close>
    composes the interleaved queue and the interleaved matching (a \<open>client_system\<close>): with one processing thread the
    book is that of the sequential code under every schedule of the traders, and never crossed.
  \<^item> \<open>Array_Stack\<close> (\<^verbatim>\<open>ArrayLockFreeStack\<close> on one thread) interprets \<open>bounded_stack\<close>. \<open>Array_Stack_Conc\<close> interprets
    \<open>og_linearizable\<close> with the tags as versions: no ABA problem, the histories of an atomic bounded stack, exclusive nodes,
    obstruction freedom from every program point. Threads may start on any quiescent stack. \<open>Array_Stack_RA\<close>: the same with the memory orders of the code. The relaxed
    accesses of \<^verbatim>\<open>next\<close> and the exchanges of \<^verbatim>\<open>pop_index\<close>, which do not release, are sound because the messages of a head
    word carry on the views of the pushes before (release sequences).
  \<^item> \<open>Object_Pool\<close> (\<^verbatim>\<open>LockFreeObjectPool\<close> on one thread) is a client of \<open>bounded_stack\<close>: no object is in two hands while
    clients release what they hold; a double release breaks this. \<open>Object_Pool_Conc\<close> is a \<open>client_system\<close> of the
    interleaved stack: unless a client released what nobody held (\<open>pl_misuse\<close>), at every moment every object is in exactly one place, and since there is always a
    free node for an object on its way back, the result that \<^verbatim>\<open>release\<close> ignores is always true.
  \<^item> \<open>Hash_Map\<close> (\<^verbatim>\<open>LockFreeHashMap\<close> on one thread) interprets \<open>insert_only_map\<close> for every hash function, which is a
    parameter. \<open>Hash_Map_Conc\<close> interprets \<open>og_proof\<close>: searches are right and race-free under all schedules;
    concurrent insertions of one key can both succeed; a search can wait forever on a stopped inserter.
    \<open>Hash_Map_RA\<close>: searches are right relative to what the searching thread has observed, and the plain fields
    do not race, with the memory orders of the code.
  \<^item> \<open>Epoch_Reclaimer\<close> (\<^verbatim>\<open>EpochReclaimer\<close>, whole calls in any order): no object is freed under a reader, each
    exactly once, and it is freed two retirements later when no reader is inside. \<^verbatim>\<open>EpochGuard\<close> is a pair of
    \<open>enter_critical\<close> and \<open>leave_critical\<close>. \<open>Epoch_Conc\<close> interleaves the accesses: two registrations can share a slot,
    an object can be freed under a reader, and \<^verbatim>\<open>unregister_thread\<close> can race with the scan of the slots. \<open>Epoch_Single\<close> interprets \<open>og_proof\<close> for the discipline under which the
    promise holds: slots registered beforehand (and given up again at any time), one retiring thread, readers interleaved with all its accesses.
    \<open>Epoch_RA\<close> has the memory orders of the code, the fence of \<^verbatim>\<open>enter_critical\<close> included. A slot may be read stale, so
    the promise is about sections whose entry happens before the retirement: then nothing is freed under a
    reader and no deleter races. The retiring side has no fence, and a client that relies on the fence of the
    reader alone (a shared pointer exchanged and then retired) reaches a use after the free.
  \<^item> \<open>Ordering_Validator\<close>: what the consistency check guarantees and what it never rejects, recording, statistics, the scoped helper, time stamps, the
    calls that the ThreadSanitizer annotations become, and what goes wrong when starts overlap. \<open>Cache_Utils\<close>: padded elements are on different lines, and what the run-time check misses.
    \<open>Performance_Monitor\<close>: elapsed cycles, and the accuracy of the rates in the report.

  \<^bold>\<open>Bounds.\<close> Where a counter of the code is used as an ever-growing ticket, the theorems hold until it
  reaches the stated bound, and the bound is a condition on the reached state (\<open>rb_bound\<close>, \<open>as_bound\<close>,
  \<open>rr_bound\<close>, \<open>rs_bound\<close>, \<open>al_bound\<close>, \<open>ep_reach\<close>): fewer than \<open>2 ^ 63\<close> tickets of a ring buffer (the signed distance overflows there),
  fewer than \<open>2 ^ 32\<close> exchanges of each stack head (the tag repeats there), epochs below \<open>2 ^ 64 - 2\<close>
  (the idle mark is \<open>2 ^ 64 - 1\<close>), an arena whose addresses do not wrap, hash tables of size up to \<open>2 ^ 63\<close>.
  Sequential loops need no fuel beyond their structural measure: \<open>rb_try_push\<close> and \<open>rb_try_pop\<close> are
  \<open>partial_function (option)\<close> and proved to return.

  \<^bold>\<open>Not modelled.\<close> Memory orders weaker than sequential consistency in the arena, the order book
  and the clients of the ring and the stack; \<^verbatim>\<open>is_lock_free()\<close>, a property of the platform; the digits that
  streams make of numbers; the run-time library of ThreadSanitizer; registration and its end with the memory orders of the code; the
  tests, benchmarks, scripts and build files.

  \<^bold>\<open>Plan.\<close> The arena and the message queue with the memory orders of the code; \<^verbatim>\<open>register_thread\<close> and \<^verbatim>\<open>unregister_thread\<close> likewise.
\<close>

end
